(* ===== verification/Prelude.thy ===== *)
theory Prelude
  imports Main "HOL-Library.Word"
begin

section \<open>Prelude: machine arithmetic and generic lemmas shared by the components\<close>

text \<open>
  The kernel's counters, sizes and addresses are C unsigned integers.  Where a value is only
  compared and counted it is a \<^typ>\<open>nat\<close>, and each C operation that could leave the
  range of its type is one of the operations below, which write the wrap-around out.  Bit masks
  are words.  The theory also holds the collections of rewrite rules the component theories
  extend, and the generic facts on lists they share.
\<close>

named_theorems wrap_simps \<open>exactness of the wrapping operations when no overflow happens\<close>

type_synonym u8 = "8 word"
type_synonym u16 = "16 word"
type_synonym u32 = "32 word"
type_synonym u64 = "64 word"

subsection \<open>Unsigned 32- and 64-bit arithmetic on natural numbers\<close>

definition add64 :: "nat \<Rightarrow> nat \<Rightarrow> nat" where
  "add64 a b = (a + b) mod 2 ^ 64"

definition mul64 :: "nat \<Rightarrow> nat \<Rightarrow> nat" where
  "mul64 a b = (a * b) mod 2 ^ 64"

definition sub64 :: "nat \<Rightarrow> nat \<Rightarrow> nat" where
  "sub64 a b = (if b \<le> a then a - b else 2 ^ 64 - (b - a))"

definition sub32 :: "nat \<Rightarrow> nat \<Rightarrow> nat" where
  "sub32 a b = (if b \<le> a then a - b else 2 ^ 32 - (b - a))"

definition add32 :: "nat \<Rightarrow> nat \<Rightarrow> nat" where
  "add32 a b = (a + b) mod 2 ^ 32"

text \<open>\<open>x & ~(PAGE_SIZE - 1)\<close> for 4 KiB pages, and \<open>x >> 12\<close>.\<close>

definition page_down :: "nat \<Rightarrow> nat" where
  "page_down x = x - x mod 4096"

definition frame_of :: "nat \<Rightarrow> nat" where
  "frame_of x = x div 4096"

lemma add64_exact [wrap_simps]: "a + b < 2 ^ 64 \<Longrightarrow> add64 a b = a + b"
  by (simp add: add64_def)

lemma mul64_exact [wrap_simps]: "a * b < 2 ^ 64 \<Longrightarrow> mul64 a b = a * b"
  by (simp add: mul64_def)

lemma sub64_exact [wrap_simps]: "b \<le> a \<Longrightarrow> sub64 a b = a - b"
  by (simp add: sub64_def)

lemma sub32_exact [wrap_simps]: "b \<le> a \<Longrightarrow> sub32 a b = a - b"
  by (simp add: sub32_def)

lemma add32_exact [wrap_simps]: "a + b < 2 ^ 32 \<Longrightarrow> add32 a b = a + b"
  by (simp add: add32_def)

lemma add64_less [simp]: "add64 a b < 2 ^ 64"
  by (simp add: add64_def)

lemma page_down_mult: "page_down x = frame_of x * 4096"
  by (simp add: page_down_def frame_of_def minus_mod_eq_div_mult)

lemma page_down_aligned [simp]: "page_down x mod 4096 = 0"
  by (simp add: page_down_mult)

lemma page_down_le: "page_down x \<le> x"
  by (simp add: page_down_def)

lemma page_down_gt: "x < page_down x + 4096"
  by (simp add: page_down_def)

lemma page_down_le_iff:
  assumes "a mod 4096 = 0"
  shows "a \<le> page_down x \<longleftrightarrow> a \<le> x"
proof -
  obtain k where "a = k * 4096"
    using assms by (metis add.right_neutral div_mult_mod_eq)
  then show ?thesis
    by (simp add: page_down_mult frame_of_def less_eq_div_iff_mult_less_eq)
qed

lemma frame_of_add: "a mod 4096 = 0 \<Longrightarrow> frame_of (a + n * 4096) = frame_of a + n"
  by (simp add: frame_of_def)

lemma frame_of_mult [simp]: "a mod 4096 = 0 \<Longrightarrow> frame_of a * 4096 = a"
  unfolding frame_of_def by (metis add.right_neutral div_mult_mod_eq)

lemma aligned_add [simp]: "a mod 4096 = 0 \<Longrightarrow> (a + n * 4096) mod 4096 = (0::nat)"
  by simp

subsection \<open>Lists\<close>

lemma last_butlast_conv: "xs \<noteq> [] \<Longrightarrow> \<exists>ys y. xs = ys @ [y] \<and> last xs = y \<and> butlast xs = ys"
  by (metis append_butlast_last_id)

lemma takeWhile_dropWhile_conv: "xs = takeWhile P xs @ dropWhile P xs"
  by simp

subsection \<open>Result codes of the kernel interfaces\<close>

text \<open>\<open>ipc_result_t\<close>, shared by the IPC layer and the futexes.\<close>

definition IPC_OK :: int where "IPC_OK = 0"
definition IPC_EMPTY :: int where "IPC_EMPTY = 1"
definition IPC_ERR_INVALID :: int where "IPC_ERR_INVALID = -1"
definition IPC_ERR_PERM :: int where "IPC_ERR_PERM = -2"
definition IPC_ERR_FULL :: int where "IPC_ERR_FULL = -3"
definition IPC_ERR_NOENT :: int where "IPC_ERR_NOENT = -4"
definition IPC_ERR_TIMEOUT :: int where "IPC_ERR_TIMEOUT = -5"
definition IPC_ERR_UNSUPPORTED :: int where "IPC_ERR_UNSUPPORTED = -7"
definition IPC_ERR_PEER_GONE :: int where "IPC_ERR_PEER_GONE = -8"

lemmas ipc_codes = IPC_OK_def IPC_EMPTY_def IPC_ERR_INVALID_def IPC_ERR_PERM_def IPC_ERR_FULL_def
  IPC_ERR_NOENT_def IPC_ERR_TIMEOUT_def IPC_ERR_UNSUPPORTED_def IPC_ERR_PEER_GONE_def

end
