(* ===== verification/Physmem.thy ===== *)
theory Physmem
  imports Prelude
begin

section \<open>The physical page frame allocator\<close>

text \<open>
  Model of \<open>src/kernel/physmem.c\<close>.  The allocator keeps the list of free extents
  (\<open>g_ranges\<close>, at most 128 entries), a per-frame reference count for the first
  \<open>g_tracked_pages\<close> frames, and the list of extents the firmware reported as RAM.
  Every function of the file is one definition below, on an explicit state.  The array
  \<open>g_ranges[0..g_range_count)\<close> is a list; \<open>g_pfa_lock\<close> makes each operation atomic.
  \<open>kpanic\<close> never returns, so a panic is the left summand of the result.
\<close>

subsection \<open>State\<close>

record pfa_range =
  rg_base :: nat
  rg_pages :: nat

record efi_memory_descriptor =
  efi_type :: nat
  PhysicalStart :: nat
  NumberOfPages :: nat

record pfa =
  g_ranges :: "pfa_range list"
  g_refcount :: "nat \<Rightarrow> nat"
  g_tracked_pages :: nat
  g_initial_total_pages :: nat
  g_ram_ranges :: "pfa_range list"
  g_ram_ranges_truncated :: bool

datatype pfa_panic =
    Double_free nat
  | Pin_of_free_page nat
  | Refcount_overflow nat
  | Refcount_upgrade_failed nat nat

abbreviation PAGE_SIZE :: nat where
  "PAGE_SIZE \<equiv> 4096"

definition RANGE_LIMIT :: nat where
  "RANGE_LIMIT = 128"

definition PFA_STATIC_TRACKED_PAGES :: nat where
  "PFA_STATIC_TRACKED_PAGES = 64 * 1024 * 1024 div 4096"

definition pfa_boot_state :: pfa where
  "pfa_boot_state = \<lparr>g_ranges = [], g_refcount = (\<lambda>_. 0),
     g_tracked_pages = PFA_STATIC_TRACKED_PAGES, g_initial_total_pages = 0,
     g_ram_ranges = [], g_ram_ranges_truncated = False\<rparr>"

definition range_end :: "pfa_range \<Rightarrow> nat" where
  "range_end r = add64 (rg_base r) (mul64 (rg_pages r) PAGE_SIZE)"

subsection \<open>Building the free list from the firmware map\<close>

definition is_usable :: "nat \<Rightarrow> bool" where
  "is_usable t \<longleftrightarrow> t = 7 \<or> t = 3 \<or> t = 4"

text \<open>Append an extent, merging it into the last one when they touch.\<close>

definition append_range :: "pfa_range list \<Rightarrow> nat \<Rightarrow> nat \<Rightarrow> pfa_range list" where
  "append_range rs b n =
     (if rs \<noteq> [] \<and> range_end (last rs) = b
      then butlast rs @ [(last rs)\<lparr>rg_pages := add64 (rg_pages (last rs)) n\<rparr>]
      else rs @ [\<lparr>rg_base = b, rg_pages = n\<rparr>])"

definition add_range :: "nat \<Rightarrow> nat \<Rightarrow> pfa \<Rightarrow> pfa" where
  "add_range b n s =
     (if n = 0 \<or> RANGE_LIMIT \<le> length (g_ranges s) then s
      else if b = 0 \<and> n \<le> 1 then s
      else
        let b' = (if b = 0 then b + PAGE_SIZE else b);
            n' = (if b = 0 then n - 1 else n)
        in s\<lparr>g_initial_total_pages := add64 (g_initial_total_pages s) n',
             g_ranges := append_range (g_ranges s) b' n'\<rparr>)"

definition add_ram_range :: "nat \<Rightarrow> nat \<Rightarrow> pfa \<Rightarrow> pfa" where
  "add_ram_range b n s =
     (if n = 0 then s
      else if RANGE_LIMIT \<le> length (g_ram_ranges s) then s\<lparr>g_ram_ranges_truncated := True\<rparr>
      else s\<lparr>g_ram_ranges := append_range (g_ram_ranges s) b n\<rparr>)"

text \<open>
  The loop of \<open>reserve_range\<close> over the extents from index \<open>i\<close> on; the first argument
  is the current \<open>g_range_count\<close>, which the loop body changes.
\<close>

fun reserve_loop :: "nat \<Rightarrow> nat \<Rightarrow> nat \<Rightarrow> pfa_range list \<Rightarrow> pfa_range list" where
  "reserve_loop cnt st en [] = []"
| "reserve_loop cnt st en (r # rs) =
     (let range_start = rg_base r; range_stop = range_end r in
      if en \<le> range_start \<or> range_stop \<le> st then r # reserve_loop cnt st en rs
      else if st \<le> range_start \<and> range_stop \<le> en then reserve_loop (cnt - 1) st en rs
      else if range_start < st \<and> en < range_stop then
        (if RANGE_LIMIT \<le> cnt then r\<lparr>rg_pages := (st - range_start) div PAGE_SIZE\<rparr> # rs
         else r\<lparr>rg_pages := (st - range_start) div PAGE_SIZE\<rparr>
              # \<lparr>rg_base = en, rg_pages = (range_stop - en) div PAGE_SIZE\<rparr>
              # reserve_loop (cnt + 1) st en rs)
      else if st \<le> range_start then
        \<lparr>rg_base = en, rg_pages = (range_stop - en) div PAGE_SIZE\<rparr> # reserve_loop cnt st en rs
      else r\<lparr>rg_pages := (st - range_start) div PAGE_SIZE\<rparr> # reserve_loop cnt st en rs)"

definition reserve_range :: "nat \<Rightarrow> nat \<Rightarrow> pfa \<Rightarrow> pfa" where
  "reserve_range b len s =
     (if len = 0 then s
      else
        let st = page_down b;
            en = page_down (add64 (add64 b len) (PAGE_SIZE - 1))
        in if en \<le> st then s
           else s\<lparr>g_ranges := reserve_loop (length (g_ranges s)) st en (g_ranges s)\<rparr>)"

subsection \<open>The free list: insertion with merging, and the three allocation scans\<close>

definition insert_range :: "nat \<Rightarrow> nat \<Rightarrow> pfa_range list \<Rightarrow> pfa_range list" where
  "insert_range b n rs =
     (if b = 0 \<or> n = 0 then rs
      else if RANGE_LIMIT \<le> length rs then rs
      else
        let before = takeWhile (\<lambda>r. rg_base r < b) rs;
            after = dropWhile (\<lambda>r. rg_base r < b) rs;
            new = \<lparr>rg_base = b, rg_pages = n\<rparr>;
            merge_prev = (before \<noteq> [] \<and> range_end (last before) = b);
            front = (if merge_prev then butlast before else before);
            cur = (if merge_prev
                   then (last before)\<lparr>rg_pages := add64 (rg_pages (last before)) n\<rparr> else new);
            merge_next = (after \<noteq> [] \<and> range_end cur = rg_base (hd after))
        in if merge_next
           then front @ cur\<lparr>rg_pages := add64 (rg_pages cur) (rg_pages (hd after))\<rparr> # tl after
           else front @ cur # after)"

definition pfa_insert_range :: "nat \<Rightarrow> nat \<Rightarrow> pfa \<Rightarrow> pfa" where
  "pfa_insert_range b n s = s\<lparr>g_ranges := insert_range b n (g_ranges s)\<rparr>"

text \<open>Every allocation path ends by setting the reference count of each frame it hands out.\<close>

definition set_ref_one :: "nat \<Rightarrow> nat \<Rightarrow> pfa \<Rightarrow> pfa" where
  "set_ref_one addr j s =
     (let idx = frame_of (add64 addr (mul64 j PAGE_SIZE)) in
      if idx < g_tracked_pages s then s\<lparr>g_refcount := (g_refcount s)(idx := 1)\<rparr> else s)"

definition mark_allocated :: "nat \<Rightarrow> nat \<Rightarrow> pfa \<Rightarrow> pfa" where
  "mark_allocated addr n s = fold (set_ref_one addr) [0..<n] s"

fun scan_first_fit :: "nat \<Rightarrow> pfa_range list \<Rightarrow> (nat \<times> pfa_range list) option" where
  "scan_first_fit n [] = None"
| "scan_first_fit n (r # rs) =
     (if n \<le> rg_pages r
      then Some (rg_base r,
                 \<lparr>rg_base = add64 (rg_base r) (mul64 n PAGE_SIZE), rg_pages = rg_pages r - n\<rparr> # rs)
      else map_option (\<lambda>(a, rs'). (a, r # rs')) (scan_first_fit n rs))"

definition pfa_alloc_pages_nolock :: "nat \<Rightarrow> pfa \<Rightarrow> nat \<times> pfa" where
  "pfa_alloc_pages_nolock n s =
     (case scan_first_fit n (g_ranges s) of
        None \<Rightarrow> (0, s)
      | Some (a, rs) \<Rightarrow> (a, mark_allocated a n (s\<lparr>g_ranges := rs\<rparr>)))"

definition pfa_alloc_pages :: "nat \<Rightarrow> pfa \<Rightarrow> nat \<times> pfa" where
  "pfa_alloc_pages n s = (if n = 0 then (0, s) else pfa_alloc_pages_nolock n s)"

fun scan_below :: "nat \<Rightarrow> nat \<Rightarrow> pfa_range list \<Rightarrow> (nat \<times> pfa_range list) option" where
  "scan_below n limit [] = None"
| "scan_below n limit (r # rs) =
     (if rg_pages r < n
         \<or> limit \<le> rg_base r
         \<or> (limit < range_end r \<and> (limit - rg_base r) div PAGE_SIZE < n)
      then map_option (\<lambda>(a, rs'). (a, r # rs')) (scan_below n limit rs)
      else Some (rg_base r,
                 \<lparr>rg_base = add64 (rg_base r) (mul64 n PAGE_SIZE), rg_pages = rg_pages r - n\<rparr> # rs))"

definition pfa_alloc_pages_below :: "nat \<Rightarrow> nat \<Rightarrow> pfa \<Rightarrow> nat \<times> pfa" where
  "pfa_alloc_pages_below n max_addr s =
     (if n = 0 \<or> max_addr = 0 then (0, s)
      else case scan_below n (page_down max_addr) (g_ranges s) of
             None \<Rightarrow> (0, s)
           | Some (a, rs) \<Rightarrow> (a, mark_allocated a n (s\<lparr>g_ranges := rs\<rparr>)))"

text \<open>
  \<open>scan_above cnt\<close> carries \<open>g_range_count\<close>, which decides whether a middle
  allocation may split its extent.
\<close>

fun scan_above :: "nat \<Rightarrow> nat \<Rightarrow> nat \<Rightarrow> pfa_range list \<Rightarrow> (nat \<times> pfa_range list) option" where
  "scan_above cnt n flr [] = None"
| "scan_above cnt n flr (r # rs) =
     (let rbase = rg_base r;
          rend = range_end r;
          start = (if rbase < flr then flr else rbase);
          alloc_end = add64 start (mul64 n PAGE_SIZE);
          upper = \<lparr>rg_base = alloc_end, rg_pages = sub64 rend alloc_end div PAGE_SIZE\<rparr>;
          lower = r\<lparr>rg_pages := sub64 start rbase div PAGE_SIZE\<rparr>
      in if rend < alloc_end
         then map_option (\<lambda>(a, rs'). (a, r # rs')) (scan_above cnt n flr rs)
         else if start = rbase then
           Some (start, if rg_pages upper = 0 then rs else upper # rs)
         else if alloc_end = rend then Some (start, lower # rs)
         else if RANGE_LIMIT \<le> cnt then Some (start, upper # rs)
         else Some (start, lower # upper # rs))"

definition pfa_alloc_pages_above :: "nat \<Rightarrow> nat \<Rightarrow> pfa \<Rightarrow> nat \<times> pfa" where
  "pfa_alloc_pages_above n min_addr s =
     (if n = 0 then (0, s)
      else case scan_above (length (g_ranges s)) n
                  (page_down (add64 min_addr (PAGE_SIZE - 1))) (g_ranges s) of
             None \<Rightarrow> (0, s)
           | Some (a, rs) \<Rightarrow> (a, mark_allocated a n (s\<lparr>g_ranges := rs\<rparr>)))"

subsection \<open>Freeing and pinning\<close>

text \<open>
  The loop of \<open>pfa_free_pages\<close> over the frame indices of the request; \<open>run_start\<close> and
  \<open>run_len\<close> describe the run of frames collected for the next insertion.
\<close>

fun free_loop :: "nat \<Rightarrow> nat list \<Rightarrow> nat \<Rightarrow> nat \<Rightarrow> pfa \<Rightarrow> pfa_panic + (nat \<times> nat \<times> pfa)" where
  "free_loop b [] run_start run_len s = Inr (run_start, run_len, s)"
| "free_loop b (i # is) run_start run_len s =
     (let phys = add64 b (mul64 i PAGE_SIZE);
          idx = frame_of phys;
          start' = (if run_len = 0 then phys else run_start)
      in if idx < g_tracked_pages s then
           (if g_refcount s idx = 0 then Inl (Double_free phys)
            else
              let rc = g_refcount s idx - 1;
                  s1 = s\<lparr>g_refcount := (g_refcount s)(idx := rc)\<rparr>
              in if rc = 0 then free_loop b is start' (run_len + 1) s1
                 else if run_len \<noteq> 0
                 then free_loop b is run_start 0 (pfa_insert_range run_start run_len s1)
                 else free_loop b is run_start run_len s1)
         else free_loop b is start' (run_len + 1) s)"

definition pfa_free_pages :: "nat \<Rightarrow> nat \<Rightarrow> pfa \<Rightarrow> pfa_panic + pfa" where
  "pfa_free_pages b n s =
     (if b = 0 \<or> n = 0 then Inr s
      else case free_loop b [0..<n] 0 0 s of
             Inl e \<Rightarrow> Inl e
           | Inr (run_start, run_len, s') \<Rightarrow>
               Inr (if run_len \<noteq> 0 then pfa_insert_range run_start run_len s' else s'))"

fun pin_loop :: "nat \<Rightarrow> nat list \<Rightarrow> pfa \<Rightarrow> pfa_panic + pfa" where
  "pin_loop b [] s = Inr s"
| "pin_loop b (i # is) s =
     (let phys = add64 b (mul64 i PAGE_SIZE); idx = frame_of phys in
      if idx < g_tracked_pages s then
        (if g_refcount s idx = 0 then Inl (Pin_of_free_page phys)
         else if g_refcount s idx = 255 then Inl (Refcount_overflow phys)
         else pin_loop b is (s\<lparr>g_refcount := (g_refcount s)(idx := g_refcount s idx + 1)\<rparr>))
      else pin_loop b is s)"

definition pfa_pin_pages :: "nat \<Rightarrow> nat \<Rightarrow> pfa \<Rightarrow> pfa_panic + pfa" where
  "pfa_pin_pages b n s = (if b = 0 \<or> n = 0 then Inr s else pin_loop b [0..<n] s)"

subsection \<open>Queries\<close>

definition pfa_total_bytes :: "pfa \<Rightarrow> nat" where
  "pfa_total_bytes s = mul64 (g_initial_total_pages s) PAGE_SIZE"

definition pfa_free_bytes :: "pfa \<Rightarrow> nat" where
  "pfa_free_bytes s = mul64 (foldl (\<lambda>acc r. add64 acc (rg_pages r)) 0 (g_ranges s)) PAGE_SIZE"

definition pfa_range_overlaps_ram :: "nat \<Rightarrow> nat \<Rightarrow> pfa \<Rightarrow> bool" where
  "pfa_range_overlaps_ram b len s =
     (if len = 0 then False
      else
        let en = add64 b len in
        if en < b then True
        else if g_ram_ranges s = [] \<or> g_ram_ranges_truncated s then True
        else list_ex (\<lambda>r. b < range_end r \<and> rg_base r < en) (g_ram_ranges s))"

subsection \<open>Initialisation\<close>

text \<open>
  \<open>pfa_upgrade_refcount\<close>: the outer option is \<open>-1\<close> (allocation failed, with the two
  numbers the caller reports); otherwise the new state.
\<close>

definition upgrade_ref_loop :: "nat \<Rightarrow> nat \<Rightarrow> nat \<Rightarrow> (nat \<Rightarrow> nat) \<Rightarrow> (nat \<Rightarrow> nat)" where
  "upgrade_ref_loop rc_phys rc_alloc needed dyn =
     fold (\<lambda>i d. let idx = frame_of (add64 rc_phys (mul64 i PAGE_SIZE)) in
                  if idx < needed then d(idx := 1) else d) [0..<rc_alloc] dyn"

definition pfa_upgrade_refcount :: "pfa \<Rightarrow> pfa_panic + pfa" where
  "pfa_upgrade_refcount s =
     (let max_phys = foldl (\<lambda>m r. if m < range_end r then range_end r else m) 0 (g_ranges s);
          needed = add64 max_phys (PAGE_SIZE - 1) div PAGE_SIZE;
          rc_alloc = add64 needed (PAGE_SIZE - 1) div PAGE_SIZE
      in if max_phys = 0 then Inr s
         else if needed \<le> g_tracked_pages s then Inr s
         else
           case pfa_alloc_pages_nolock rc_alloc s of
             (rc_phys, s1) \<Rightarrow>
               if rc_phys = 0 then Inl (Refcount_upgrade_failed needed rc_alloc)
               else
                 let dyn = (\<lambda>i. if i < PFA_STATIC_TRACKED_PAGES then g_refcount s1 i else 0)
                 in Inr (s1\<lparr>g_refcount := upgrade_ref_loop rc_phys rc_alloc needed dyn,
                            g_tracked_pages := needed\<rparr>))"

definition add_descriptor :: "efi_memory_descriptor \<Rightarrow> pfa \<Rightarrow> pfa" where
  "add_descriptor d s =
     (if is_usable (efi_type d)
      then add_ram_range (PhysicalStart d) (NumberOfPages d)
             (add_range (PhysicalStart d) (NumberOfPages d) s)
      else s)"

text \<open>
  \<open>pfa_init\<close> takes the descriptors of the UEFI map (None: no map was handed over) and the
  physical base and size of the kernel image.
\<close>

definition pfa_init :: "efi_memory_descriptor list option \<Rightarrow> nat \<Rightarrow> nat \<Rightarrow> pfa \<Rightarrow> pfa_panic + pfa" where
  "pfa_init map_opt kernel_base kernel_size s0 =
     (let s = s0\<lparr>g_ranges := []\<rparr> in
      case map_opt of
        None \<Rightarrow> Inr s
      | Some descs \<Rightarrow>
          let s1 = fold add_descriptor (take 4096 descs) s;
              s2 = reserve_range kernel_base kernel_size s1;
              s3 = reserve_range 4096 PAGE_SIZE s2
          in case pfa_upgrade_refcount s3 of
               Inl e \<Rightarrow> Inl e
             | Inr s4 \<Rightarrow> Inr (snd (pfa_alloc_pages_nolock 1 s4)))"

subsection \<open>Extents, and what makes a free list well formed\<close>

text \<open>The set of frame numbers \<open>n\<close> pages from address \<open>a\<close> cover.\<close>

definition extent :: "nat \<Rightarrow> nat \<Rightarrow> nat set" where
  "extent a n = {frame_of a..<frame_of a + n}"

definition frames_of :: "pfa_range \<Rightarrow> nat set" where
  "frames_of r = extent (rg_base r) (rg_pages r)"

definition free_set :: "pfa_range list \<Rightarrow> nat set" where
  "free_set rs = \<Union>(set (map frames_of rs))"

text \<open>
  Physical addresses have at most 52 bits on x86-64; a run of frames of the machine is
  page aligned, does not start at the null page and ends inside that space.
\<close>

definition extent_ok :: "nat \<Rightarrow> nat \<Rightarrow> bool" where
  "extent_ok a n \<longleftrightarrow> a mod 4096 = 0 \<and> 0 < a \<and> a + n * 4096 \<le> 2 ^ 52"

fun ranges_ok :: "pfa_range list \<Rightarrow> bool" where
  "ranges_ok [] = True"
| "ranges_ok (r # rs) =
     (extent_ok (rg_base r) (rg_pages r) \<and> frames_of r \<inter> free_set rs = {} \<and> ranges_ok rs)"

text \<open>
  The invariant of the allocator: the table fits, the free extents are page aligned, non-null,
  inside the address space and pairwise disjoint, every free frame is tracked and has
  reference count 0, and a count fits its byte.
\<close>

definition pfa_inv :: "pfa \<Rightarrow> bool" where
  "pfa_inv s \<longleftrightarrow> length (g_ranges s) \<le> RANGE_LIMIT \<and> ranges_ok (g_ranges s)
     \<and> (\<forall>f\<in>free_set (g_ranges s). f < g_tracked_pages s \<and> g_refcount s f = 0)
     \<and> (\<forall>f. g_refcount s f \<le> 255)"

lemma free_set_simps [simp]:
  "free_set [] = {}"
  "free_set (r # rs) = frames_of r \<union> free_set rs"
  "free_set (xs @ ys) = free_set xs \<union> free_set ys"
  by (auto simp: free_set_def)

lemma ranges_ok_append [simp]:
  "ranges_ok (xs @ ys) \<longleftrightarrow> ranges_ok xs \<and> ranges_ok ys \<and> free_set xs \<inter> free_set ys = {}"
  by (induction xs) auto

lemma extent_zero [simp]: "extent a 0 = {}"
  by (simp add: extent_def)

lemma frames_of_make [simp]: "frames_of \<lparr>rg_base = b, rg_pages = n\<rparr> = extent b n"
  by (simp add: frames_of_def)

lemma extent_ok_mono: "extent_ok a n \<Longrightarrow> m \<le> n \<Longrightarrow> extent_ok a m"
  using mult_le_mono1 [of m n 4096] by (simp add: extent_ok_def)

lemma extent_ok_shift: "extent_ok a n \<Longrightarrow> k \<le> n \<Longrightarrow> extent_ok (a + k * 4096) (n - k)"
  by (auto simp: extent_ok_def algebra_simps diff_mult_distrib2)

lemma extent_split:
  "extent_ok a n \<Longrightarrow> k \<le> n \<Longrightarrow> extent a n = extent a k \<union> extent (a + k * 4096) (n - k)"
  by (auto simp: extent_def extent_ok_def frame_of_add)

lemma extent_split_disjoint:
  "extent_ok a n \<Longrightarrow> extent a k \<inter> extent (a + k * 4096) m = {}"
  by (auto simp: extent_def extent_ok_def frame_of_add)

lemma extent_glue:
  "extent_ok a n \<Longrightarrow> extent_ok (a + n * 4096) m \<Longrightarrow>
    extent_ok a (n + m) \<and> extent a (n + m) = extent a n \<union> extent (a + n * 4096) m"
  by (auto simp: extent_ok_def extent_def frame_of_add algebra_simps)

lemma extent_ok_wrap [wrap_simps]:
  assumes "extent_ok a n"
  shows "add64 a (mul64 n 4096) = a + n * 4096" "mul64 n 4096 = n * 4096"
  using assms by (auto simp: extent_ok_def add64_exact mul64_exact)

lemma extent_ok_step [wrap_simps]:
  "extent_ok a n \<Longrightarrow> k \<le> n \<Longrightarrow> add64 a (mul64 k 4096) = a + k * 4096"
  using extent_ok_mono extent_ok_wrap(1) by blast

lemma frame_of_step:
  "extent_ok a n \<Longrightarrow> k \<le> n \<Longrightarrow> frame_of (add64 a (mul64 k 4096)) = frame_of a + k"
  by (simp add: wrap_simps frame_of_add extent_ok_def)

lemma range_end_ok [wrap_simps]:
  "extent_ok (rg_base r) (rg_pages r) \<Longrightarrow> range_end r = rg_base r + rg_pages r * 4096"
  by (simp add: range_end_def extent_ok_wrap(1))

subsection \<open>The allocation scans carve an extent out of the free list\<close>

text \<open>\<open>carved n rs a rs'\<close>: the \<open>n\<close> pages at \<open>a\<close> were free in \<open>rs\<close> and are
  not in \<open>rs'\<close>, which is well formed and frees nothing new.\<close>

definition carved :: "nat \<Rightarrow> pfa_range list \<Rightarrow> nat \<Rightarrow> pfa_range list \<Rightarrow> bool" where
  "carved n rs a rs' \<longleftrightarrow> extent_ok a n \<and> extent a n \<subseteq> free_set rs \<and> ranges_ok rs'
     \<and> free_set rs' \<subseteq> free_set rs - extent a n"

definition carved_exact :: "nat \<Rightarrow> pfa_range list \<Rightarrow> nat \<Rightarrow> pfa_range list \<Rightarrow> bool" where
  "carved_exact n rs a rs' \<longleftrightarrow> carved n rs a rs' \<and> length rs' = length rs
     \<and> free_set rs' = free_set rs - extent a n"

lemma carved_Cons: "ranges_ok (r # rs) \<Longrightarrow> carved n rs a rs' \<Longrightarrow> carved n (r # rs) a (r # rs')"
  by (fastforce simp: carved_def)

lemma carved_exact_Cons:
  "ranges_ok (r # rs) \<Longrightarrow> carved_exact n rs a rs' \<Longrightarrow> carved_exact n (r # rs) a (r # rs')"
  using carved_Cons [of r rs n a rs'] by (auto simp: carved_exact_def carved_def)

lemma carve_front:
  assumes "ranges_ok (r # rs)" "n \<le> rg_pages r"
  shows "carved_exact n (r # rs) (rg_base r)
           (\<lparr>rg_base = add64 (rg_base r) (mul64 n 4096), rg_pages = rg_pages r - n\<rparr> # rs)"
proof -
  have ok: "extent_ok (rg_base r) (rg_pages r)" using assms(1) by simp
  note facts = extent_ok_mono [OF ok assms(2)] extent_ok_shift [OF ok assms(2)]
    extent_split [OF ok assms(2)] extent_split_disjoint [OF ok, of n "rg_pages r - n"]
  show ?thesis
    using assms facts
    by (auto simp: carved_exact_def carved_def frames_of_def extent_ok_step [OF ok assms(2)])
qed

lemma scan_first_fit_carved:
  "ranges_ok rs \<Longrightarrow> scan_first_fit n rs = Some (a, rs') \<Longrightarrow> carved_exact n rs a rs'"
proof (induction rs arbitrary: rs')
  case (Cons r rs)
  show ?case
  proof (cases "n \<le> rg_pages r")
    case True
    with Cons.prems carve_front show ?thesis by auto
  next
    case False
    with Cons obtain rs'' where "scan_first_fit n rs = Some (a, rs'')" "rs' = r # rs''"
      by auto
    with Cons show ?thesis using carved_exact_Cons by auto
  qed
qed simp

lemma scan_below_carved:
  "ranges_ok rs \<Longrightarrow> scan_below n limit rs = Some (a, rs') \<Longrightarrow> carved_exact n rs a rs'"
proof (induction rs arbitrary: rs')
  case (Cons r rs)
  let ?skip = "rg_pages r < n \<or> limit \<le> rg_base r
      \<or> (limit < range_end r \<and> (limit - rg_base r) div PAGE_SIZE < n)"
  show ?case
  proof (cases ?skip)
    case True
    with Cons obtain rs'' where "scan_below n limit rs = Some (a, rs'')" "rs' = r # rs''"
      by auto
    with Cons show ?thesis using carved_exact_Cons by auto
  next
    case False
    with Cons.prems carve_front [OF Cons.prems(1), of n] show ?thesis by auto
  qed
qed simp

lemma scan_below_limit:
  "ranges_ok rs \<Longrightarrow> scan_below n limit rs = Some (a, rs') \<Longrightarrow> a + n * 4096 \<le> limit"
proof (induction rs arbitrary: rs')
  case (Cons r rs)
  let ?skip = "rg_pages r < n \<or> limit \<le> rg_base r
      \<or> (limit < range_end r \<and> (limit - rg_base r) div PAGE_SIZE < n)"
  have re: "range_end r = rg_base r + rg_pages r * 4096"
    using Cons.prems by (simp add: wrap_simps)
  show ?case
  proof (cases ?skip)
    case True
    with Cons show ?thesis by auto
  next
    case False
    then have "a = rg_base r" using Cons.prems by auto
    with False re show ?thesis
      by (auto simp: not_less less_eq_div_iff_mult_less_eq)
  qed
qed simp

lemma add64_no_wrap [wrap_simps]:
  "a \<le> 2 ^ 53 \<Longrightarrow> n \<le> 2 ^ 41 \<Longrightarrow> add64 a (mul64 n 4096) = a + n * 4096"
  by (simp add: add64_def mul64_def)

lemma carve_middle:
  assumes ok: "ranges_ok (r # rs)" and k: "k + n \<le> rg_pages r"
    and lo: "lower = r\<lparr>rg_pages := k\<rparr>"
    and up: "upper = \<lparr>rg_base = rg_base r + (k + n) * 4096, rg_pages = rg_pages r - (k + n)\<rparr>"
  shows "carved n (r # rs) (rg_base r + k * 4096) (lower # upper # rs)"
    "carved n (r # rs) (rg_base r + k * 4096) (upper # rs)"
    "free_set (lower # upper # rs) = free_set (r # rs) - extent (rg_base r + k * 4096) n"
proof -
  have e: "extent_ok (rg_base r) (rg_pages r)" using ok by simp
  have k': "k \<le> rg_pages r" and n': "n \<le> rg_pages r - k" using k by auto
  have e2: "extent_ok (rg_base r + k * 4096) (rg_pages r - k)" using extent_ok_shift [OF e k'] .
  have up_eq: "upper = \<lparr>rg_base = (rg_base r + k * 4096) + n * 4096, rg_pages = rg_pages r - k - n\<rparr>"
    by (simp add: up algebra_simps)
  note sp = extent_split [OF e k'] extent_split_disjoint [OF e, of k "rg_pages r - k"]
    extent_split [OF e2 n'] extent_split_disjoint [OF e2, of n "rg_pages r - k - n"]
  note oks = extent_ok_mono [OF e k'] extent_ok_mono [OF e2 n'] extent_ok_shift [OF e2 n']
  have fr: "frames_of r = extent (rg_base r) k \<union> extent (rg_base r + k * 4096) n \<union> frames_of upper"
    and flo: "frames_of lower = extent (rg_base r) k"
    using sp by (auto simp: frames_of_def up_eq lo)
  have dis: "extent (rg_base r) k \<inter> extent (rg_base r + k * 4096) n = {}"
    "extent (rg_base r) k \<inter> frames_of upper = {}"
    "extent (rg_base r + k * 4096) n \<inter> frames_of upper = {}"
    using sp by (auto simp: up_eq)
  have rest: "frames_of r \<inter> free_set rs = {}" "ranges_ok rs" using ok by auto
  have okup: "extent_ok (rg_base upper) (rg_pages upper)" using oks by (simp add: up_eq)
  have oklo: "extent_ok (rg_base lower) (rg_pages lower)" using oks by (simp add: lo)
  show "carved n (r # rs) (rg_base r + k * 4096) (lower # upper # rs)"
    using oks(2) okup oklo fr flo dis rest by (simp add: carved_def) blast
  show "carved n (r # rs) (rg_base r + k * 4096) (upper # rs)"
    using oks(2) okup fr dis rest by (simp add: carved_def) blast
  show "free_set (lower # upper # rs) = free_set (r # rs) - extent (rg_base r + k * 4096) n"
    using fr flo dis rest by auto
qed

lemma carved_drop_empty:
  assumes "rg_pages u = 0"
  shows "carved n rs0 a (u # rs) \<Longrightarrow> carved n rs0 a rs"
    "carved n rs0 a (l # u # rs) \<Longrightarrow> carved n rs0 a (l # rs)"
  using assms by (auto simp: carved_def frames_of_def)

lemma aligned_diff_div:
  fixes a b :: nat
  assumes "a mod 4096 = 0" "b mod 4096 = 0" "a \<le> b"
  shows "b = a + (b - a) div 4096 * 4096"
proof -
  have "(b - a) mod 4096 = 0" using assms by (metis mod_0_imp_dvd dvd_diff_nat dvd_imp_mod_0)
  then show ?thesis using assms(3) frame_of_mult [of "b - a"] by (simp add: frame_of_def)
qed

text \<open>One step of the scan of \<open>pfa_alloc_pages_above\<close>, on the extent that satisfies it.\<close>

lemma scan_above_hit:
  assumes ok: "ranges_ok (r # rs)" and flr: "flr mod 4096 = 0" "flr \<le> 2 ^ 53" and n: "n \<le> 2 ^ 41"
    and hit: "start + n * 4096 \<le> range_end r" "start = (if rg_base r < flr then flr else rg_base r)"
    and res: "scan_above cnt n flr (r # rs) = Some (a, rs')"
  shows "a = start \<and> carved n (r # rs) a rs' \<and> length rs' \<le> (if cnt < RANGE_LIMIT then 2 else 1) + length rs
     \<and> (cnt < RANGE_LIMIT \<longrightarrow> free_set rs' = free_set (r # rs) - extent a n)"
proof -
  define k where "k = (start - rg_base r) div 4096"
  have e: "extent_ok (rg_base r) (rg_pages r)" using ok by simp
  have re: "range_end r = rg_base r + rg_pages r * 4096" using e by (simp add: wrap_simps)
  have le: "rg_base r \<le> start" using hit(2) by auto
  have al: "start mod 4096 = 0" "rg_base r mod 4096 = 0"
    using hit(2) flr(1) e by (auto simp: extent_ok_def)
  have st: "start = rg_base r + k * 4096"
    using aligned_diff_div [OF al(2) al(1) le] by (simp add: k_def)
  have kn: "k + n \<le> rg_pages r"
    using hit(1) re by (simp add: st)
  have b: "start \<le> 2 ^ 53" using hit(1) re e by (simp add: extent_ok_def)
  have ae: "add64 start (mul64 n 4096) = start + n * 4096" using b n by (simp add: wrap_simps)
  have up: "sub64 (range_end r) (start + n * 4096) div 4096 = rg_pages r - (k + n)"
    using kn by (simp add: re st sub64_exact diff_mult_distrib [symmetric] algebra_simps)
  have lo: "sub64 start (rg_base r) div 4096 = k" by (simp add: sub64_exact le k_def)
  define upper where "upper = \<lparr>rg_base = start + n * 4096, rg_pages = rg_pages r - (k + n)\<rparr>"
  define lower where "lower = r\<lparr>rg_pages := k\<rparr>"
  have upper: "upper = \<lparr>rg_base = rg_base r + (k + n) * 4096, rg_pages = rg_pages r - (k + n)\<rparr>"
    by (simp add: upper_def st algebra_simps)
  note cm = carve_middle [OF ok kn lower_def upper, folded st]
  have res': "Some (a, rs') = (if start = rg_base r then Some (start, if rg_pages upper = 0 then rs else upper # rs)
      else if start + n * 4096 = range_end r then Some (start, lower # rs)
      else if RANGE_LIMIT \<le> cnt then Some (start, upper # rs) else Some (start, lower # upper # rs))"
    using res hit(1)
    by (simp only: scan_above.simps Let_def hit(2) [symmetric] ae up lo not_less [symmetric]
          lower_def upper_def pfa_range.simps refl if_False simp_thms)
  have k0: "start = rg_base r \<Longrightarrow> frames_of lower = {}" using st by (simp add: lower_def frames_of_def)
  have u0: "start + n * 4096 = range_end r \<Longrightarrow> rg_pages upper = 0" using st re by (simp add: upper_def)
  have ue: "rg_pages upper = 0 \<Longrightarrow> frames_of upper = {}" by (simp add: frames_of_def)
  show ?thesis
    using res' cm k0 u0 ue carved_drop_empty(1) [of upper n "r # rs" start rs]
      carved_drop_empty(2) [of upper n "r # rs" start lower rs]
    by (auto split: if_splits)
qed

lemma scan_above_carved:
  assumes "ranges_ok rs" "flr mod 4096 = 0" "flr \<le> 2 ^ 53" "n \<le> 2 ^ 41"
    "scan_above cnt n flr rs = Some (a, rs')"
  shows "carved n rs a rs' \<and> flr \<le> a \<and> length rs' \<le> (if cnt < RANGE_LIMIT then 1 else 0) + length rs
     \<and> (cnt < RANGE_LIMIT \<longrightarrow> free_set rs' = free_set rs - extent a n)"
  using assms
proof (induction rs arbitrary: rs')
  case (Cons r rs)
  let ?start = "if rg_base r < flr then flr else rg_base r"
  have e: "extent_ok (rg_base r) (rg_pages r)" using Cons.prems by simp
  have b: "?start \<le> 2 ^ 53" using e Cons.prems(3) by (auto simp: extent_ok_def)
  have ae: "add64 ?start (mul64 n 4096) = ?start + n * 4096" using b Cons.prems(4) by (simp add: wrap_simps)
  show ?case
  proof (cases "range_end r < ?start + n * 4096")
    case True
    then obtain rs'' where rec: "scan_above cnt n flr rs = Some (a, rs'')" and rs': "rs' = r # rs''"
      using Cons.prems(5) ae by (auto simp only: scan_above.simps Let_def if_True map_option_eq_Some)
    have ih: "carved n rs a rs'' \<and> flr \<le> a
        \<and> length rs'' \<le> (if cnt < RANGE_LIMIT then 1 else 0) + length rs
        \<and> (cnt < RANGE_LIMIT \<longrightarrow> free_set rs'' = free_set rs - extent a n)"
      using Cons.IH rec Cons.prems by auto
    then have "extent a n \<inter> frames_of r = {}" using Cons.prems(1) by (auto simp: carved_def)
    with ih carved_Cons [OF Cons.prems(1)] rs' show ?thesis by auto
  next
    case False
    then have "?start + n * 4096 \<le> range_end r" by simp
    from scan_above_hit [OF Cons.prems(1-4) this refl Cons.prems(5)] show ?thesis
      by (auto split: if_splits)
  qed
qed simp

subsection \<open>What a successful allocation does\<close>

definition free_frames :: "pfa \<Rightarrow> nat set" where
  "free_frames s = free_set (g_ranges s)"

text \<open>The frames the allocator manages: free, or referenced by somebody.\<close>

definition managed :: "pfa \<Rightarrow> nat set" where
  "managed s = free_frames s \<union> {f. g_refcount s f \<noteq> 0}"

lemma free_frames_update [simp]:
  "free_frames (s\<lparr>g_refcount := c\<rparr>) = free_frames s"
  by (simp add: free_frames_def)

text \<open>The contract of the three allocation entry points for a run that was found.\<close>

definition alloc_post :: "nat \<Rightarrow> nat \<Rightarrow> pfa \<Rightarrow> pfa \<Rightarrow> bool" where
  "alloc_post n a s s' \<longleftrightarrow> extent_ok a n \<and> extent a n \<subseteq> free_frames s
     \<and> free_frames s' \<subseteq> free_frames s - extent a n
     \<and> (\<forall>f. g_refcount s' f = (if f \<in> extent a n then 1 else g_refcount s f))
     \<and> g_tracked_pages s' = g_tracked_pages s \<and> pfa_inv s'"

lemma fold_set_ref_one:
  assumes "extent_ok a n" "m \<le> n"
  shows "fold (set_ref_one a) [0..<m] s =
    s\<lparr>g_refcount := \<lambda>f. if f \<in> extent a m \<and> f < g_tracked_pages s then 1 else g_refcount s f\<rparr>"
  using assms(2)
proof (induction m)
  case (Suc m)
  have "frame_of (add64 a (mul64 m 4096)) = frame_of a + m"
    using frame_of_step [OF assms(1), of m] Suc.prems by simp
  with Suc show ?case
    by (auto simp: set_ref_one_def Let_def extent_def fun_eq_iff less_Suc_eq)
qed simp

lemma mark_allocated_eq:
  "extent_ok a n \<Longrightarrow> mark_allocated a n s =
    s\<lparr>g_refcount := \<lambda>f. if f \<in> extent a n \<and> f < g_tracked_pages s then 1 else g_refcount s f\<rparr>"
  by (simp add: mark_allocated_def fold_set_ref_one)

lemma carved_alloc_post:
  assumes inv: "pfa_inv s" and c: "carved n (g_ranges s) a rs'" and len: "length rs' \<le> RANGE_LIMIT"
  shows "alloc_post n a s (mark_allocated a n (s\<lparr>g_ranges := rs'\<rparr>))"
proof -
  have ok: "extent_ok a n" using c by (simp add: carved_def)
  have tr: "f < g_tracked_pages s" if "f \<in> extent a n" for f
    using that inv c by (auto simp: pfa_inv_def carved_def)
  show ?thesis
    using inv c len tr
    by (auto simp: alloc_post_def mark_allocated_eq [OF ok] pfa_inv_def carved_def free_frames_def)
qed

lemma pfa_alloc_pages_nolock_ok:
  assumes "pfa_inv s" "pfa_alloc_pages_nolock n s = (a, s')"
  shows "(a = 0 \<and> s' = s) \<or> alloc_post n a s s' \<and> free_frames s' = free_frames s - extent a n"
proof (cases "scan_first_fit n (g_ranges s)")
  case (Some p)
  obtain b rs where p: "p = (b, rs)" by (cases p)
  have "carved_exact n (g_ranges s) b rs"
    using assms(1) Some p scan_first_fit_carved by (auto simp: pfa_inv_def)
  moreover from this have "alloc_post n b s (mark_allocated b n (s\<lparr>g_ranges := rs\<rparr>))"
    using assms(1) by (auto intro!: carved_alloc_post simp: carved_exact_def pfa_inv_def)
  ultimately show ?thesis
    using assms(2) Some p
    by (auto simp: pfa_alloc_pages_nolock_def carved_exact_def carved_def free_frames_def mark_allocated_eq)
qed (use assms in \<open>auto simp: pfa_alloc_pages_nolock_def\<close>)

lemma pfa_alloc_pages_below_ok:
  assumes "pfa_inv s" "pfa_alloc_pages_below n limit s = (a, s')"
  shows "(a = 0 \<and> s' = s) \<or> alloc_post n a s s' \<and> free_frames s' = free_frames s - extent a n
    \<and> a + n * 4096 \<le> limit"
proof (cases "n = 0 \<or> limit = 0 \<or> scan_below n (page_down limit) (g_ranges s) = None")
  case False
  then obtain b rs where p: "scan_below n (page_down limit) (g_ranges s) = Some (b, rs)"
    by auto
  have rok: "ranges_ok (g_ranges s)" using assms(1) by (simp add: pfa_inv_def)
  have ce: "carved_exact n (g_ranges s) b rs" using scan_below_carved [OF rok p] .
  have "b + n * 4096 \<le> limit" using scan_below_limit [OF rok p] page_down_le le_trans by blast
  moreover have "alloc_post n b s (mark_allocated b n (s\<lparr>g_ranges := rs\<rparr>))"
    using assms(1) ce by (auto intro!: carved_alloc_post simp: carved_exact_def pfa_inv_def)
  ultimately show ?thesis
    using assms(2) p ce False
    by (auto simp: pfa_alloc_pages_below_def carved_exact_def carved_def free_frames_def mark_allocated_eq)
qed (use assms in \<open>auto simp: pfa_alloc_pages_below_def split: if_splits\<close>)

lemma page_up_ge:
  assumes "m \<le> 2 ^ 52"
  shows "m \<le> page_down (add64 m (PAGE_SIZE - 1))" "page_down (add64 m (PAGE_SIZE - 1)) \<le> 2 ^ 53"
  using assms page_down_gt [of "m + 4095"] page_down_le [of "m + 4095"]
  by (simp_all add: add64_exact)

lemma pfa_alloc_pages_above_ok:
  assumes "pfa_inv s" "pfa_alloc_pages_above n m s = (a, s')" "n \<le> 2 ^ 41" "m \<le> 2 ^ 52"
  shows "(a = 0 \<and> s' = s) \<or> alloc_post n a s s' \<and> m \<le> a
    \<and> (length (g_ranges s) < RANGE_LIMIT \<longrightarrow> free_frames s' = free_frames s - extent a n)"
proof (cases "n = 0 \<or> scan_above (length (g_ranges s)) n (page_down (add64 m (PAGE_SIZE - 1))) (g_ranges s) = None")
  case False
  let ?f = "page_down (add64 m (PAGE_SIZE - 1))"
  from False obtain b rs where p: "scan_above (length (g_ranges s)) n ?f (g_ranges s) = Some (b, rs)"
    by auto
  have rok: "ranges_ok (g_ranges s)" and len: "length (g_ranges s) \<le> RANGE_LIMIT"
    using assms(1) by (auto simp: pfa_inv_def)
  have sc: "carved n (g_ranges s) b rs \<and> ?f \<le> b
      \<and> length rs \<le> (if length (g_ranges s) < RANGE_LIMIT then 1 else 0) + length (g_ranges s)
      \<and> (length (g_ranges s) < RANGE_LIMIT \<longrightarrow> free_set rs = free_set (g_ranges s) - extent b n)"
    by (rule scan_above_carved [OF rok page_down_aligned page_up_ge(2) [OF assms(4)] assms(3) p])
  then have "length rs \<le> RANGE_LIMIT" using len by (auto split: if_splits)
  with sc have "alloc_post n b s (mark_allocated b n (s\<lparr>g_ranges := rs\<rparr>))"
    using assms(1) by (auto intro!: carved_alloc_post)
  moreover have "m \<le> b" using sc page_up_ge(1) [OF assms(4)] by linarith
  ultimately show ?thesis
    using assms(2) p sc False
    by (auto simp: pfa_alloc_pages_above_def carved_def free_frames_def mark_allocated_eq)
qed (use assms in \<open>auto simp: pfa_alloc_pages_above_def split: if_splits\<close>)

subsection \<open>Insertion with merging\<close>

lemma ranges_ok_merge:
  assumes "ranges_ok (xs @ r # q # ys)" "range_end r = rg_base q"
  shows "ranges_ok (xs @ r\<lparr>rg_pages := add64 (rg_pages r) (rg_pages q)\<rparr> # ys)
    \<and> free_set (xs @ r\<lparr>rg_pages := add64 (rg_pages r) (rg_pages q)\<rparr> # ys) = free_set (xs @ r # q # ys)"
proof -
  have e: "extent_ok (rg_base r) (rg_pages r)" "extent_ok (rg_base q) (rg_pages q)"
    using assms(1) by auto
  have q: "rg_base q = rg_base r + rg_pages r * 4096" using assms(2) e(1) by (simp add: wrap_simps)
  note g = extent_glue [OF e(1) e(2) [unfolded q]]
  have "add64 (rg_pages r) (rg_pages q) = rg_pages r + rg_pages q"
    using g by (simp add: add64_exact extent_ok_def)
  with g q have "extent_ok (rg_base r) (add64 (rg_pages r) (rg_pages q))"
    "frames_of (r\<lparr>rg_pages := add64 (rg_pages r) (rg_pages q)\<rparr>) = frames_of r \<union> frames_of q"
    by (simp_all add: frames_of_def)
  then show ?thesis using assms(1) by auto
qed

lemma insert_range_ok:
  assumes ok: "ranges_ok rs" and new: "extent_ok b n" "extent b n \<inter> free_set rs = {}"
  shows "ranges_ok (insert_range b n rs) \<and> length (insert_range b n rs) \<le> Suc (length rs)
    \<and> (if length rs < RANGE_LIMIT then free_set (insert_range b n rs) = free_set rs \<union> extent b n
       else insert_range b n rs = rs)"
proof (cases "n = 0 \<or> RANGE_LIMIT \<le> length rs")
  case False
  define before where "before = takeWhile (\<lambda>r. rg_base r < b) rs"
  define after where "after = dropWhile (\<lambda>r. rg_base r < b) rs"
  define q where "q = \<lparr>rg_base = b, rg_pages = n\<rparr>"
  define mp where "mp = (before \<noteq> [] \<and> range_end (last before) = b)"
  define front where "front = (if mp then butlast before else before)"
  define cur where "cur = (if mp then (last before)\<lparr>rg_pages := add64 (rg_pages (last before)) n\<rparr> else q)"
  have rs: "rs = before @ after" by (simp add: before_def after_def)
  have base: "ranges_ok (before @ q # after) \<and> free_set (before @ q # after) = free_set rs \<union> extent b n"
    using ok new by (auto simp: rs q_def)
  have cur: "ranges_ok (front @ cur # after) \<and> free_set (front @ cur # after) = free_set rs \<union> extent b n
      \<and> length (front @ cur # after) \<le> Suc (length rs)"
  proof (cases mp)
    case True
    then obtain zs z where z: "before = zs @ [z]" "range_end z = b" by (auto simp: mp_def dest: last_butlast_conv)
    then have "ranges_ok (zs @ z # q # after)" using base by simp
    from ranges_ok_merge [OF this] z base True show ?thesis
      by (auto simp: q_def front_def cur_def rs)
  qed (use base rs in \<open>simp add: front_def cur_def\<close>)
  have eq: "insert_range b n rs =
     (if after \<noteq> [] \<and> range_end cur = rg_base (hd after)
      then front @ cur\<lparr>rg_pages := add64 (rg_pages cur) (rg_pages (hd after))\<rparr> # tl after
      else front @ cur # after)"
    using False new(1)
    by (simp add: insert_range_def Let_def extent_ok_def flip: before_def after_def q_def mp_def cong: if_cong)
       (simp add: front_def cur_def mp_def)
  show ?thesis
  proof (cases "after \<noteq> [] \<and> range_end cur = rg_base (hd after)")
    case True
    then obtain r ys where a: "after = r # ys" by (cases after) auto
    with cur True ranges_ok_merge [of front cur r ys] False show ?thesis by (auto simp: eq)
  qed (use cur False in \<open>auto simp: eq\<close>)
qed (use ok in \<open>auto simp: insert_range_def\<close>)

lemma pfa_insert_range_ok:
  assumes "pfa_inv s" "extent_ok b n" "extent b n \<inter> free_frames s = {}"
    "\<forall>f\<in>extent b n. f < g_tracked_pages s \<and> g_refcount s f = 0"
  shows "pfa_inv (pfa_insert_range b n s)
    \<and> free_frames (pfa_insert_range b n s) \<subseteq> free_frames s \<union> extent b n
    \<and> (length (g_ranges s) < RANGE_LIMIT \<longrightarrow>
        free_frames (pfa_insert_range b n s) = free_frames s \<union> extent b n)
    \<and> length (g_ranges (pfa_insert_range b n s)) \<le> Suc (length (g_ranges s))"
proof -
  have "ranges_ok (g_ranges s)" using assms(1) by (simp add: pfa_inv_def)
  from insert_range_ok [OF this assms(2)] assms show ?thesis
    by (auto simp: pfa_inv_def pfa_insert_range_def free_frames_def split: if_splits)
qed

lemma pfa_insert_range_fields [simp]:
  "g_refcount (pfa_insert_range b n s) = g_refcount s"
  "g_tracked_pages (pfa_insert_range b n s) = g_tracked_pages s"
  by (simp_all add: pfa_insert_range_def)

subsection \<open>The free loop\<close>

lemma pfa_insert_range_full:
  "RANGE_LIMIT \<le> length (g_ranges s) \<Longrightarrow> g_ranges (pfa_insert_range b n s) = g_ranges s"
  by (simp add: pfa_insert_range_def insert_range_def)

definition finish_run :: "nat \<times> nat \<times> pfa \<Rightarrow> pfa" where
  "finish_run t = (case t of (run_start, run_len, s) \<Rightarrow>
     if run_len \<noteq> 0 then pfa_insert_range run_start run_len s else s)"

text \<open>The frames of the run collected before index \<open>i\<close>, and what the loop knows of them.\<close>

definition run_set :: "nat \<Rightarrow> nat \<Rightarrow> nat \<Rightarrow> nat set" where
  "run_set b i run_len = {frame_of b + i - run_len..<frame_of b + i}"

definition run_ok :: "nat \<Rightarrow> nat \<Rightarrow> nat \<Rightarrow> nat \<Rightarrow> pfa \<Rightarrow> bool" where
  "run_ok b i run_start run_len s \<longleftrightarrow> run_len \<le> i
     \<and> (run_len \<noteq> 0 \<longrightarrow> run_start = b + (i - run_len) * 4096)
     \<and> (\<forall>f\<in>run_set b i run_len. f < g_tracked_pages s \<and> g_refcount s f = 0 \<and> f \<notin> free_frames s)"

definition freed_by :: "nat \<Rightarrow> nat \<Rightarrow> nat \<Rightarrow> pfa \<Rightarrow> nat set" where
  "freed_by b i n s = {f. frame_of b + i \<le> f \<and> f < frame_of b + n \<and> g_refcount s f = 1}"

text \<open>
  The first frames of the runs the loop has still to collect; each run takes one call of
  \<open>pfa_insert_range\<close>.  A run that began before index \<open>i\<close> is not one of them.
\<close>

definition new_runs :: "nat \<Rightarrow> nat \<Rightarrow> nat \<Rightarrow> nat \<Rightarrow> pfa \<Rightarrow> nat set" where
  "new_runs b i n run_len s = {f \<in> freed_by b i n s. f - 1 \<notin> run_set b i run_len \<union> freed_by b i n s}"

definition free_post :: "nat \<Rightarrow> nat \<Rightarrow> nat \<Rightarrow> nat \<Rightarrow> pfa \<Rightarrow> pfa \<Rightarrow> bool" where
  "free_post b i n run_len s s' \<longleftrightarrow> pfa_inv s' \<and> g_tracked_pages s' = g_tracked_pages s
     \<and> (\<forall>f. g_refcount s' f =
           (if frame_of b + i \<le> f \<and> f < frame_of b + n then g_refcount s f - 1 else g_refcount s f))
     \<and> free_frames s' \<subseteq> free_frames s \<union> run_set b i run_len \<union> freed_by b i n s
     \<and> (length (g_ranges s) + (if run_len = 0 then 0 else 1) + card (new_runs b i n run_len s) \<le> RANGE_LIMIT \<longrightarrow>
          free_frames s' = free_frames s \<union> run_set b i run_len \<union> freed_by b i n s)
     \<and> (RANGE_LIMIT \<le> length (g_ranges s) \<longrightarrow> g_ranges s' = g_ranges s)"

lemma run_extent:
  assumes "extent_ok b n" "i \<le> n" "run_ok b i run_start run_len s" "run_len \<noteq> 0"
  shows "extent_ok run_start run_len \<and> extent run_start run_len = run_set b i run_len"
proof -
  have rl: "run_len \<le> i" "run_start = b + (i - run_len) * 4096"
    using assms(3,4) by (auto simp: run_ok_def)
  have "extent_ok (b + (i - run_len) * 4096) (n - (i - run_len))"
    using extent_ok_shift [OF assms(1), of "i - run_len"] assms(2) by simp
  from extent_ok_mono [OF this, of run_len] have "extent_ok run_start run_len"
    using assms(2) rl by simp
  then show ?thesis
    using rl assms(1) by (auto simp: extent_def run_set_def frame_of_add extent_ok_def)
qed

lemma finish_run_ok:
  assumes "pfa_inv s" "extent_ok b n" "i \<le> n" "run_ok b i run_start run_len s"
  shows "pfa_inv (finish_run (run_start, run_len, s))
    \<and> g_refcount (finish_run (run_start, run_len, s)) = g_refcount s
    \<and> g_tracked_pages (finish_run (run_start, run_len, s)) = g_tracked_pages s
    \<and> free_frames (finish_run (run_start, run_len, s)) \<subseteq> free_frames s \<union> run_set b i run_len
    \<and> (length (g_ranges s) + (if run_len = 0 then 0 else 1) \<le> RANGE_LIMIT \<longrightarrow>
        free_frames (finish_run (run_start, run_len, s)) = free_frames s \<union> run_set b i run_len)
    \<and> length (g_ranges (finish_run (run_start, run_len, s)))
        \<le> length (g_ranges s) + (if run_len = 0 then 0 else 1)
    \<and> (RANGE_LIMIT \<le> length (g_ranges s) \<longrightarrow> g_ranges (finish_run (run_start, run_len, s)) = g_ranges s)"
proof (cases "run_len = 0")
  case True
  then show ?thesis using assms(1) by (simp add: finish_run_def run_set_def)
next
  case False
  note x = run_extent [OF assms(2-4) False]
  have "extent run_start run_len \<inter> free_frames s = {}"
    "\<forall>f\<in>extent run_start run_len. f < g_tracked_pages s \<and> g_refcount s f = 0"
    using x assms(4) by (auto simp: run_ok_def)
  from pfa_insert_range_ok [OF assms(1) conjunct1 [OF x] this] False x show ?thesis
    by (simp add: finish_run_def pfa_insert_range_full)
qed

lemma dec_refcount_inv:
  "pfa_inv s \<Longrightarrow> f \<notin> free_frames s \<Longrightarrow> pfa_inv (s\<lparr>g_refcount := (g_refcount s)(f := g_refcount s f - 1)\<rparr>)"
  by (auto simp: pfa_inv_def free_frames_def intro: le_trans [OF diff_le_self])

lemma not_free_if_referenced: "pfa_inv s \<Longrightarrow> 0 < g_refcount s f \<Longrightarrow> f \<notin> free_frames s"
  by (auto simp: pfa_inv_def free_frames_def)

lemma finite_freed_by [simp]: "finite (freed_by b i n s)"
  by (rule finite_subset [of _ "{..<frame_of b + n}"]) (auto simp: freed_by_def)

lemma extent_frame_pos: "extent_ok b n \<Longrightarrow> 0 < frame_of b"
  by (auto simp: extent_ok_def frame_of_def)

lemma freed_by_step:
  assumes "i < n"
    and rc: "g_refcount s' = (g_refcount s)(frame_of b + i := g_refcount s (frame_of b + i) - 1)"
  shows "freed_by b i n s = {f. f = frame_of b + i \<and> g_refcount s f = 1} \<union> freed_by b (Suc i) n s'"
  using assms(1) by (auto simp: freed_by_def rc)

text \<open>A frame whose last reference goes continues the current run or begins one; any other ends it.\<close>

lemma new_runs_step:
  assumes i: "i < n" and b: "0 < frame_of b" and rl: "rl \<le> i"
    and rc: "g_refcount s' = (g_refcount s)(frame_of b + i := g_refcount s (frame_of b + i) - 1)"
  shows "g_refcount s (frame_of b + i) = 1 \<Longrightarrow>
      (if rl = 0 then 0 else 1) + card (new_runs b i n rl s) = 1 + card (new_runs b (Suc i) n (Suc rl) s')"
    and "g_refcount s (frame_of b + i) \<noteq> 1 \<Longrightarrow> new_runs b (Suc i) n 0 s' = new_runs b i n rl s"
proof -
  let ?f = "frame_of b + i"
  note fb = freed_by_step [OF i rc]
  have out: "?f - 1 \<notin> freed_by b i n s" "?f \<notin> freed_by b (Suc i) n s'" using b by (auto simp: freed_by_def)
  show "(if rl = 0 then 0 else 1) + card (new_runs b i n rl s) = 1 + card (new_runs b (Suc i) n (Suc rl) s')"
    if one: "g_refcount s ?f = 1"
  proof -
    have fr: "freed_by b i n s = insert ?f (freed_by b (Suc i) n s')" using fb one by auto
    have rs: "run_set b (Suc i) (Suc rl) = insert ?f (run_set b i rl)" using rl by (auto simp: run_set_def)
    have nr: "new_runs b (Suc i) n (Suc rl) s' = new_runs b i n rl s - {?f}"
      unfolding new_runs_def rs fr using out(2) by auto
    have "?f - 1 \<in> run_set b i rl \<longleftrightarrow> rl \<noteq> 0" using b rl by (auto simp: run_set_def)
    then have "?f \<in> new_runs b i n rl s \<longleftrightarrow> rl = 0" using out(1) fr by (auto simp: new_runs_def)
    moreover have "finite (new_runs b i n rl s)" by (simp add: new_runs_def)
    ultimately show ?thesis using card_Diff_singleton_if [of "new_runs b i n rl s" ?f] card_gt_0_iff [of "new_runs b i n rl s"]
      by (auto simp: nr)
  qed
  show "new_runs b (Suc i) n 0 s' = new_runs b i n rl s" if "g_refcount s ?f \<noteq> 1"
  proof -
    have fr: "freed_by b (Suc i) n s' = freed_by b i n s" using fb that by auto
    have "f - 1 \<notin> run_set b i rl" if "f \<in> freed_by b (Suc i) n s'" for f
      using that by (auto simp: freed_by_def run_set_def)
    then show ?thesis unfolding new_runs_def fr by (auto simp: run_set_def)
  qed
qed

lemma free_post_step:
  assumes post: "free_post b (Suc i) n rl' s' s''" and "i < n"
    and tr: "g_tracked_pages s' = g_tracked_pages s"
    and rc: "g_refcount s' = (g_refcount s)(frame_of b + i := g_refcount s (frame_of b + i) - 1)"
    and fr: "free_frames s' \<union> run_set b (Suc i) rl'
               \<subseteq> free_frames s \<union> run_set b i rl \<union> {f. f = frame_of b + i \<and> g_refcount s f = 1}"
      "length (g_ranges s) + (if rl = 0 then 0 else 1) \<le> RANGE_LIMIT \<Longrightarrow>
         free_frames s' \<union> run_set b (Suc i) rl'
               = free_frames s \<union> run_set b i rl \<union> {f. f = frame_of b + i \<and> g_refcount s f = 1}"
    and len: "length (g_ranges s') + (if rl' = 0 then 0 else 1) + card (new_runs b (Suc i) n rl' s')
      \<le> length (g_ranges s) + (if rl = 0 then 0 else 1) + card (new_runs b i n rl s)"
    and full: "RANGE_LIMIT \<le> length (g_ranges s) \<Longrightarrow> g_ranges s' = g_ranges s"
  shows "free_post b i n rl s s''"
proof -
  note fb = freed_by_step [OF \<open>i < n\<close> rc]
  let ?L = "length (g_ranges s) + (if rl = 0 then 0 else 1)"
  have eq: "free_frames s'' = free_frames s \<union> run_set b i rl \<union> freed_by b i n s"
    if "?L + card (new_runs b i n rl s) \<le> RANGE_LIMIT"
    using that fr(2) post len unfolding free_post_def fb by auto
  have sub: "free_frames s'' \<subseteq> free_frames s \<union> run_set b i rl \<union> freed_by b i n s"
    using post fr(1) unfolding free_post_def fb by blast
  have "g_ranges s'' = g_ranges s" if "RANGE_LIMIT \<le> length (g_ranges s)"
    using post full [OF that] that by (simp add: free_post_def)
  then show ?thesis
    using post eq sub \<open>i < n\<close> by (auto simp: free_post_def tr rc)
qed

lemma free_loop_ok:
  assumes "extent_ok b n" "frame_of b + n \<le> g_tracked_pages s" "pfa_inv s" "i \<le> n"
    "run_ok b i run_start run_len s"
    "\<forall>j\<in>{i..<n}. 0 < g_refcount s (frame_of b + j)"
  shows "\<exists>t. free_loop b [i..<n] run_start run_len s = Inr t \<and> free_post b i n run_len s (finish_run t)"
  using assms(2-)
proof (induction "n - i" arbitrary: i run_start run_len s)
  case 0
  then have "freed_by b i n s = {}" by (simp add: freed_by_def)
  with 0 show ?case
    using finish_run_ok [OF 0(3) assms(1) 0(4,5)] by (simp add: free_post_def new_runs_def)
next
  case (Suc k)
  let ?f = "frame_of b + i" and ?s1 = "s\<lparr>g_refcount := (g_refcount s)(frame_of b + i := g_refcount s (frame_of b + i) - 1)\<rparr>"
  have i: "i < n" "[i..<n] = i # [Suc i..<n]" using Suc.hyps(2) by (auto simp: upt_conv_Cons)
  have fr: "frame_of (add64 b (mul64 i 4096)) = ?f" "add64 b (mul64 i 4096) = b + i * 4096"
    using frame_of_step [OF assms(1), of i] extent_ok_step [OF assms(1), of i] i by auto
  have rc: "0 < g_refcount s ?f" and tr: "?f < g_tracked_pages s" using Suc.prems i by auto
  have inv1: "pfa_inv ?s1" using dec_refcount_inv not_free_if_referenced Suc.prems(2) rc by blast
  have later: "\<forall>j\<in>{Suc i..<n}. 0 < g_refcount ?s1 (frame_of b + j)" using Suc.prems(5) by simp
  have run1: "run_ok b i run_start run_len ?s1"
    using Suc.prems(4) by (auto simp: run_ok_def run_set_def)
  have k: "k = n - Suc i" "Suc i \<le> n" using Suc.hyps(2) by auto
  have "0 < frame_of b" "run_len \<le> i" using extent_frame_pos [OF assms(1)] Suc.prems(4) by (simp_all add: run_ok_def)
  note runs = new_runs_step [OF i(1) this]
  show ?case
  proof (cases "g_refcount s ?f = 1")
    case True
    let ?st = "if run_len = 0 then add64 b (mul64 i 4096) else run_start"
    have eq: "free_loop b [i..<n] run_start run_len s = free_loop b [Suc i..<n] ?st (Suc run_len) ?s1"
      using tr True by (simp add: i(2) fr(1) Let_def)
    have set: "run_set b (Suc i) (Suc run_len) = insert ?f (run_set b i run_len)"
      using Suc.prems(4) by (auto simp: run_set_def run_ok_def)
    have "?f \<notin> free_frames s" using not_free_if_referenced Suc.prems(2) rc by blast
    then have run2: "run_ok b (Suc i) ?st (Suc run_len) ?s1"
      using run1 True tr fr(2) by (auto simp: run_ok_def set)
    obtain t where
      t: "free_loop b [Suc i..<n] ?st (Suc run_len) ?s1 = Inr t"
         "free_post b (Suc i) n (Suc run_len) ?s1 (finish_run t)"
      using Suc.hyps(1) [OF k(1) _ inv1 k(2) run2 later] Suc.prems(1) by auto
    have "(if run_len = 0 then 0 else 1) + card (new_runs b i n run_len s) = 1 + card (new_runs b (Suc i) n (Suc run_len) ?s1)"
      by (rule runs(1)) (use True in simp_all)
    then have "free_post b i n run_len s (finish_run t)"
      by (intro free_post_step [OF t(2) i(1)]) (use True in \<open>auto simp: set free_frames_def\<close>)
    with t eq show ?thesis by auto
  next
    case False
    let ?s2 = "finish_run (run_start, run_len, ?s1)"
    have eq: "free_loop b [i..<n] run_start run_len s = free_loop b [Suc i..<n] run_start 0 ?s2"
      using tr False rc by (simp add: i(2) fr(1) Let_def finish_run_def)
    note fin = finish_run_ok [OF inv1 assms(1) Suc.prems(3) run1]
    have run2: "run_ok b (Suc i) run_start 0 ?s2" by (simp add: run_ok_def run_set_def)
    obtain t where
      t: "free_loop b [Suc i..<n] run_start 0 ?s2 = Inr t"
         "free_post b (Suc i) n 0 ?s2 (finish_run t)"
      using Suc.hyps(1) [OF k(1) _ _ k(2) run2] Suc.prems(1) fin later by auto
    have "new_runs b (Suc i) n 0 ?s2 = new_runs b i n run_len s" by (rule runs(2)) (use fin False in simp_all)
    then have "free_post b i n run_len s (finish_run t)"
      by (intro free_post_step [OF t(2) i(1)])
         (use fin False rc in \<open>auto simp: run_set_def free_frames_def split: if_splits\<close>)
    with t eq show ?thesis by auto
  qed
qed

lemma free_loop_double_free:
  assumes "extent_ok b n" "frame_of b + n \<le> g_tracked_pages s" "i \<le> j" "j < n"
    "\<forall>k\<in>{i..<j}. 0 < g_refcount s (frame_of b + k)" "g_refcount s (frame_of b + j) = 0"
  shows "free_loop b [i..<n] run_start run_len s = Inl (Double_free (b + j * 4096))"
  using assms(2-)
proof (induction "j - i" arbitrary: i run_start run_len s)
  case 0
  then show ?case
    using frame_of_step [OF assms(1), of i] extent_ok_step [OF assms(1), of i]
    by (simp add: upt_conv_Cons Let_def)
next
  case (Suc k)
  have "i < n" "[i..<n] = i # [Suc i..<n]" using Suc by (auto simp: upt_conv_Cons)
  moreover have "frame_of (add64 b (mul64 i 4096)) = frame_of b + i"
    using frame_of_step [OF assms(1), of i] Suc by auto
  moreover have "0 < g_refcount s (frame_of b + i)" using Suc by auto
  moreover have "k = j - Suc i" "Suc i \<le> j" using Suc.hyps(2) by auto
  note ih = Suc.hyps(1) [OF this(1) _ this(2)]
  ultimately show ?case
    using Suc.prems by (auto simp: Let_def intro!: ih)
qed

lemma pin_loop_ok:
  assumes "extent_ok b n" "frame_of b + n \<le> g_tracked_pages s" "i \<le> n"
    "\<forall>j\<in>{i..<n}. 0 < g_refcount s (frame_of b + j) \<and> g_refcount s (frame_of b + j) < 255"
  shows "pin_loop b [i..<n] s = Inr (s\<lparr>g_refcount := \<lambda>f.
     if frame_of b + i \<le> f \<and> f < frame_of b + n then g_refcount s f + 1 else g_refcount s f\<rparr>)"
  using assms(2-)
proof (induction "n - i" arbitrary: i s)
  case 0
  then show ?case by (auto intro!: pfa.equality)
next
  case (Suc k)
  have i: "i < n" "[i..<n] = i # [Suc i..<n]" "k = n - Suc i" using Suc.hyps(2) by (auto simp: upt_conv_Cons)
  have fr: "frame_of (add64 b (mul64 i 4096)) = frame_of b + i"
    using frame_of_step [OF assms(1), of i] i by auto
  have rc: "g_refcount s (frame_of b + i) \<noteq> 0" "g_refcount s (frame_of b + i) \<noteq> 255"
    "frame_of b + i < g_tracked_pages s" using Suc.prems i by (auto simp: less_imp_neq)
  let ?s1 = "s\<lparr>g_refcount := (g_refcount s)(frame_of b + i := g_refcount s (frame_of b + i) + 1)\<rparr>"
  have "pin_loop b [i..<n] s = pin_loop b [Suc i..<n] ?s1"
    using rc by (simp add: i(2) fr Let_def)
  also have "\<dots> = Inr (?s1\<lparr>g_refcount := \<lambda>f.
     if frame_of b + Suc i \<le> f \<and> f < frame_of b + n then g_refcount ?s1 f + 1 else g_refcount ?s1 f\<rparr>)"
    using Suc.hyps(1) [OF i(3), of ?s1] Suc.prems i by simp
  finally show ?case
    using i(1) by (auto intro!: pfa.equality simp: fun_eq_iff le_Suc_eq)
qed

lemma pin_loop_fail:
  assumes "extent_ok b n" "frame_of b + n \<le> g_tracked_pages s" "i \<le> j" "j < n"
    "\<forall>k\<in>{i..<j}. 0 < g_refcount s (frame_of b + k) \<and> g_refcount s (frame_of b + k) < 255"
    "g_refcount s (frame_of b + j) = 0 \<or> g_refcount s (frame_of b + j) = 255"
  shows "pin_loop b [i..<n] s = Inl (if g_refcount s (frame_of b + j) = 0
      then Pin_of_free_page (b + j * 4096) else Refcount_overflow (b + j * 4096))"
  using assms(2-)
proof (induction "j - i" arbitrary: i s)
  case 0
  then show ?case
    using frame_of_step [OF assms(1), of i] extent_ok_step [OF assms(1), of i]
    by (auto simp add: upt_conv_Cons Let_def)
next
  case (Suc k)
  let ?s1 = "s\<lparr>g_refcount := (g_refcount s)(frame_of b + i := g_refcount s (frame_of b + i) + 1)\<rparr>"
  have i: "i < j" "k = j - Suc i" "Suc i \<le> j" using Suc.hyps(2) by auto
  then have "[i..<n] = i # [Suc i..<n]" using Suc.prems(3) by (simp add: upt_conv_Cons)
  moreover have "frame_of (add64 b (mul64 i 4096)) = frame_of b + i"
    using frame_of_step [OF assms(1), of i] i Suc.prems(3) by auto
  moreover have "g_refcount s (frame_of b + i) \<noteq> 0" "g_refcount s (frame_of b + i) \<noteq> 255"
    using Suc.prems(4) i by (auto simp: less_imp_neq)
  ultimately have "pin_loop b [i..<n] s = pin_loop b [Suc i..<n] ?s1"
    using Suc.prems(1,3) i by (simp add: Let_def)
  then show ?case
    using Suc.hyps(1) [OF i(2) _ i(3), of ?s1] Suc.prems i(1) by simp
qed

lemma pfa_free_pages_ok:
  assumes "pfa_inv s" "extent_ok b n" "frame_of b + n \<le> g_tracked_pages s"
    "\<forall>f\<in>extent b n. 0 < g_refcount s f"
  shows "\<exists>s'. pfa_free_pages b n s = Inr s' \<and> free_post b 0 n 0 s s'"
proof (cases "n = 0")
  case True
  then show ?thesis
    using assms(1) by (auto simp: pfa_free_pages_def free_post_def run_set_def freed_by_def)
next
  case False
  have "run_ok b 0 0 0 s" by (simp add: run_ok_def run_set_def)
  from free_loop_ok [OF assms(2,3,1) _ this] assms(4) obtain t where
    "free_loop b [0..<n] 0 0 s = Inr t" "free_post b 0 n 0 s (finish_run t)"
    by (auto simp: extent_def)
  then show ?thesis
    using False assms(2) by (cases t) (auto simp: pfa_free_pages_def extent_ok_def finish_run_def)
qed

lemma pfa_pin_pages_ok:
  assumes "extent_ok b n" "frame_of b + n \<le> g_tracked_pages s"
    "\<forall>f\<in>extent b n. 0 < g_refcount s f \<and> g_refcount s f < 255"
  shows "pfa_pin_pages b n s = Inr (s\<lparr>g_refcount := \<lambda>f.
     if f \<in> extent b n then g_refcount s f + 1 else g_refcount s f\<rparr>)"
proof (cases "n = 0")
  case False
  then show ?thesis
    using pin_loop_ok [OF assms(1,2), of 0] assms by (auto simp: pfa_pin_pages_def extent_def extent_ok_def)
qed (simp add: pfa_pin_pages_def)

subsection \<open>Initialisation from the firmware map\<close>

text \<open>
  What the UEFI specification promises of the map: usable descriptors are page aligned, end
  inside the physical address space and do not overlap.
\<close>

definition desc_extent :: "efi_memory_descriptor \<Rightarrow> nat set" where
  "desc_extent d = extent (PhysicalStart d) (NumberOfPages d)"

fun efi_map_ok :: "efi_memory_descriptor list \<Rightarrow> bool" where
  "efi_map_ok [] = True"
| "efi_map_ok (d # ds) =
     ((is_usable (efi_type d) \<longrightarrow>
         PhysicalStart d mod 4096 = 0 \<and> PhysicalStart d + NumberOfPages d * 4096 \<le> 2 ^ 52
         \<and> list_all (\<lambda>d'. is_usable (efi_type d') \<longrightarrow> desc_extent d \<inter> desc_extent d' = {}) ds)
      \<and> efi_map_ok ds)"

definition usable_frames :: "efi_memory_descriptor list \<Rightarrow> nat set" where
  "usable_frames ds = \<Union>(desc_extent ` {d \<in> set ds. is_usable (efi_type d)})"

lemma append_range_ok:
  assumes "ranges_ok rs" "extent_ok b n" "extent b n \<inter> free_set rs = {}"
  shows "ranges_ok (append_range rs b n) \<and> free_set (append_range rs b n) = free_set rs \<union> extent b n
    \<and> length (append_range rs b n) \<le> Suc (length rs)"
proof (cases "rs \<noteq> [] \<and> range_end (last rs) = b")
  case True
  then obtain zs z where z: "rs = zs @ [z]" "range_end z = b" by (auto dest: last_butlast_conv)
  then have "ranges_ok (zs @ z # \<lparr>rg_base = b, rg_pages = n\<rparr> # [])" using assms by auto
  from ranges_ok_merge [OF this] z show ?thesis by (auto simp: append_range_def)
qed (use assms in \<open>auto simp: append_range_def\<close>)

text \<open>The state between the scan of the map and the reference-count upgrade.\<close>

definition pfa_pre :: "pfa \<Rightarrow> bool" where
  "pfa_pre s \<longleftrightarrow> length (g_ranges s) \<le> RANGE_LIMIT \<and> ranges_ok (g_ranges s)
     \<and> g_refcount s = (\<lambda>_. 0) \<and> g_tracked_pages s = PFA_STATIC_TRACKED_PAGES"

lemma add_range_pre:
  assumes "pfa_pre s" "b mod 4096 = 0" "b + n * 4096 \<le> 2 ^ 52" "extent b n \<inter> free_frames s = {}"
  shows "pfa_pre (add_range b n s) \<and> free_frames (add_range b n s) \<subseteq> free_frames s \<union> (extent b n - {0})"
proof -
  let ?b = "if b = 0 then b + 4096 else b" and ?n = "if b = 0 then n - 1 else n"
  consider "n = 0 \<or> RANGE_LIMIT \<le> length (g_ranges s) \<or> b = 0 \<and> n \<le> 1"
    | "0 < n" "length (g_ranges s) < RANGE_LIMIT" "\<not> (b = 0 \<and> n \<le> 1)" by linarith
  then show ?thesis
  proof cases
    case 1
    then show ?thesis using assms(1) by (auto simp: add_range_def)
  next
    case 2
    have ok: "extent_ok ?b ?n" using assms(2,3) 2 by (auto simp: extent_ok_def)
    have "0 < frame_of b" if "b \<noteq> 0" using that assms(2) frame_of_mult [of b] by (cases "frame_of b") auto
    then have sub: "extent ?b ?n \<subseteq> extent b n - {0}" by (auto simp: extent_def frame_of_def)
    then have "extent ?b ?n \<inter> free_set (g_ranges s) = {}" using assms(4) by (auto simp: free_frames_def)
    from append_range_ok [OF _ ok this] assms(1) 2 sub show ?thesis
      by (auto simp: add_range_def pfa_pre_def free_frames_def Let_def)
  qed
qed

lemma add_ram_range_pre [simp]:
  "pfa_pre (add_ram_range b n s) = pfa_pre s" "free_frames (add_ram_range b n s) = free_frames s"
  by (auto simp: add_ram_range_def pfa_pre_def free_frames_def)

lemma fold_add_descriptor_pre:
  "pfa_pre s \<Longrightarrow> efi_map_ok ds \<Longrightarrow> free_frames s \<inter> usable_frames ds = {} \<Longrightarrow>
   pfa_pre (fold add_descriptor ds s)
   \<and> free_frames (fold add_descriptor ds s) \<subseteq> free_frames s \<union> (usable_frames ds - {0})"
proof (induction ds arbitrary: s)
  case (Cons d ds)
  show ?case
  proof (cases "is_usable (efi_type d)")
    case True
    let ?s = "add_descriptor d s"
    have uf: "usable_frames (d # ds) = desc_extent d \<union> usable_frames ds"
      using True by (auto simp: usable_frames_def)
    have a: "pfa_pre ?s \<and> free_frames ?s \<subseteq> free_frames s \<union> (desc_extent d - {0})"
      using add_range_pre [of s "PhysicalStart d" "NumberOfPages d"] Cons.prems True
      by (auto simp: add_descriptor_def desc_extent_def uf)
    have "desc_extent d \<inter> usable_frames ds = {}"
      using Cons.prems(2) True by (auto simp: usable_frames_def list_all_iff)
    then have "free_frames ?s \<inter> usable_frames ds = {}" using a Cons.prems(3) uf by auto
    with Cons.IH [of ?s] a Cons.prems(2) uf show ?thesis by auto
  next
    case False
    then have "usable_frames (d # ds) = usable_frames ds" by (auto simp: usable_frames_def)
    with Cons False show ?thesis by (auto simp: add_descriptor_def)
  qed
qed (simp add: usable_frames_def)

lemma efi_map_ok_take: "efi_map_ok ds \<Longrightarrow> efi_map_ok (take n ds)"
  by (induction ds arbitrary: n) (auto simp: take_Cons list_all_iff split: nat.splits dest: in_set_takeD)

lemma usable_frames_take: "usable_frames (take n ds) \<subseteq> usable_frames ds"
  by (auto simp: usable_frames_def dest: in_set_takeD)

lemma frame_of_mono: "a \<le> b \<Longrightarrow> frame_of a \<le> frame_of b"
  by (simp add: frame_of_def div_le_mono)

lemma low_piece:
  assumes "extent_ok b n" "x mod 4096 = 0" "b \<le> x" "x \<le> b + n * 4096"
  shows "extent_ok b ((x - b) div 4096) \<and> extent b ((x - b) div 4096) = extent b n \<inter> {..<frame_of x}"
proof -
  have x: "x = b + (x - b) div 4096 * 4096"
    using aligned_diff_div [OF _ assms(2,3)] assms(1) by (simp add: extent_ok_def)
  then have k: "(x - b) div 4096 \<le> n" using assms(4) by simp
  have "frame_of x = frame_of b + (x - b) div 4096"
    using frame_of_add [of b "(x - b) div 4096"] x assms(1) by (simp add: extent_ok_def)
  with k extent_ok_mono [OF assms(1) k] show ?thesis by (auto simp: extent_def)
qed

lemma high_piece:
  assumes "extent_ok b n" "x mod 4096 = 0" "b \<le> x" "x \<le> b + n * 4096"
  shows "extent_ok x ((b + n * 4096 - x) div 4096)
    \<and> extent x ((b + n * 4096 - x) div 4096) = extent b n \<inter> {frame_of x..}"
proof -
  define k where "k = (x - b) div 4096"
  have x: "x = b + k * 4096"
    using aligned_diff_div [OF _ assms(2,3)] assms(1) by (simp add: extent_ok_def k_def)
  then have k: "k \<le> n" using assms(4) by simp
  have "b + n * 4096 - x = (n - k) * 4096" by (simp add: x diff_mult_distrib)
  then have d: "(b + n * 4096 - x) div 4096 = n - k" by simp
  have "frame_of x = frame_of b + k" using assms(1) by (simp add: x frame_of_add extent_ok_def)
  with k d extent_ok_shift [OF assms(1) k, folded x] show ?thesis by (auto simp: extent_def)
qed

lemma frames_outside:
  assumes "extent_ok (rg_base r) (rg_pages r)" "en \<le> rg_base r \<or> range_end r \<le> st"
  shows "frames_of r \<inter> {frame_of st..<frame_of en} = {}"
proof -
  have "frame_of (range_end r) = frame_of (rg_base r) + rg_pages r"
    using assms(1) by (simp add: wrap_simps frame_of_add extent_ok_def)
  then show ?thesis
    using assms(2) frame_of_mono [of en "rg_base r"] frame_of_mono [of "range_end r" st]
    by (auto simp: frames_of_def extent_def)
qed

lemma frames_inside:
  assumes "extent_ok (rg_base r) (rg_pages r)" "rg_base r \<le> st" "en \<le> range_end r"
  shows "{frame_of st..<frame_of en} \<subseteq> frames_of r"
proof -
  have "frame_of (range_end r) = frame_of (rg_base r) + rg_pages r"
    using assms(1) by (simp add: wrap_simps frame_of_add extent_ok_def)
  then show ?thesis
    using assms(2,3) frame_of_mono [of "rg_base r" st] frame_of_mono [of en "range_end r"]
    by (auto simp: frames_of_def extent_def)
qed

lemma reserve_loop_ok:
  assumes "st mod 4096 = 0" "en mod 4096 = 0" "st < en"
  shows "ranges_ok rs \<Longrightarrow> ranges_ok (reserve_loop cnt st en rs)
    \<and> free_set (reserve_loop cnt st en rs) \<subseteq> free_set rs - {frame_of st..<frame_of en}"
proof (induction rs arbitrary: cnt)
  case (Cons r rs)
  let ?b = "rg_base r" and ?R = "{frame_of st..<frame_of en}"
  have e: "extent_ok ?b (rg_pages r)" and dis: "frames_of r \<inter> free_set rs = {}" and ok: "ranges_ok rs"
    using Cons.prems by auto
  have re: "range_end r = ?b + rg_pages r * 4096" using e by (simp add: wrap_simps)
  note ih = Cons.IH [OF ok]
  note low = low_piece [OF e assms(1), folded re]
  note high = high_piece [OF e assms(2), folded re]
  have fr: "frames_of r = extent ?b (rg_pages r)" by (simp add: frames_of_def)
  have se: "frame_of st \<le> frame_of en" using assms(3) by (simp add: frame_of_mono)
  consider (outside) "en \<le> ?b \<or> range_end r \<le> st"
    | (all) "\<not> (en \<le> ?b \<or> range_end r \<le> st)" "st \<le> ?b \<and> range_end r \<le> en"
    | (mid) "?b < st" "en < range_end r"
    | (front) "st \<le> ?b" "?b < en" "en < range_end r"
    | (rear) "?b < st" "st < range_end r" "range_end r \<le> en" by linarith
  then show ?case
  proof cases
    case outside
    then have "frames_of r \<inter> ?R = {}" using frames_outside e by blast
    with outside dis e ih [of cnt] show ?thesis by (fastforce simp: Let_def)
  next
    case all
    with dis e ih [of "cnt - 1"] show ?thesis by (auto simp: Let_def)
  next
    case mid
    have sub: "?R \<subseteq> frames_of r" using frames_inside [OF e, of st en] mid by simp
    have eq: "reserve_loop cnt st en (r # rs) =
      (if RANGE_LIMIT \<le> cnt then r\<lparr>rg_pages := (st - ?b) div 4096\<rparr> # rs
         else r\<lparr>rg_pages := (st - ?b) div 4096\<rparr>
              # \<lparr>rg_base = en, rg_pages = (range_end r - en) div 4096\<rparr> # reserve_loop (cnt + 1) st en rs)"
      using mid assms(3) by (simp add: Let_def)
    have lo: "extent_ok ?b ((st - ?b) div 4096)"
        "frames_of (r\<lparr>rg_pages := (st - ?b) div 4096\<rparr>) = frames_of r \<inter> {..<frame_of st}"
      and hi: "extent_ok en ((range_end r - en) div 4096)"
        "extent en ((range_end r - en) div 4096) = frames_of r \<inter> {frame_of en..}"
      using low high mid assms(3) by (auto simp: frames_of_def)
    have rest: "free_set rs \<inter> ?R = {}" using dis sub by blast
    show ?thesis
      unfolding eq using lo hi ih [of "cnt + 1"] dis ok rest se by auto
  next
    case front
    then show ?thesis
      using high dis ih [of cnt] by (fastforce simp: Let_def fr)
  next
    case rear
    then show ?thesis
      using low dis ih [of cnt] by (fastforce simp: Let_def fr frames_of_def)
  qed
qed simp

lemma reserve_loop_length:
  "length rs \<le> cnt \<Longrightarrow> cnt \<le> RANGE_LIMIT \<Longrightarrow>
    length (reserve_loop cnt st en rs) \<le> length rs + (RANGE_LIMIT - cnt)"
proof (induction rs arbitrary: cnt)
  case (Cons r rs)
  have "length (reserve_loop (cnt - 1) st en rs) \<le> length rs + (RANGE_LIMIT - (cnt - 1))"
    by (rule Cons.IH) (use Cons.prems in auto)
  with Cons.IH [of cnt] Cons.IH [of "cnt + 1"] Cons.prems show ?case
    by (auto simp: Let_def)
qed simp

lemma reserve_range_pre:
  assumes "pfa_pre s" "b + len \<le> 2 ^ 52"
  shows "pfa_pre (reserve_range b len s) \<and> free_frames (reserve_range b len s) \<subseteq> free_frames s
    - (if len = 0 then {} else {frame_of b..frame_of (b + len - 1)})"
proof (cases "len = 0")
  case False
  define en where "en = page_down (add64 (add64 b len) (PAGE_SIZE - 1))"
  have en: "en = page_down (b + len + 4095)" using assms(2) by (simp add: en_def add64_exact)
  have "frame_of (b + len + 4095) = Suc (frame_of (b + len - 1))"
    using False div_add_self2 [of 4096 "b + len - 1"] by (simp add: frame_of_def)
  then have fe: "frame_of en = Suc (frame_of (b + len - 1))" by (simp add: en page_down_mult frame_of_def)
  have fs: "frame_of (page_down b) = frame_of b" by (simp add: page_down_mult frame_of_def)
  have lt: "page_down b < en" using page_down_le [of b] page_down_gt [of "b + len + 4095"] False en by linarith
  have ok: "ranges_ok (g_ranges s)" and len: "length (g_ranges s) \<le> RANGE_LIMIT"
    using assms(1) by (auto simp: pfa_pre_def)
  have al: "en mod 4096 = 0" by (simp add: en)
  from reserve_loop_ok [OF page_down_aligned al lt ok, of "length (g_ranges s)"]
    reserve_loop_length [OF order_refl len, of "page_down b" en] False lt assms(1)
  show ?thesis
    unfolding reserve_range_def Let_def en_def [symmetric] by (auto simp: pfa_pre_def free_frames_def fs fe)
qed (use assms in \<open>simp add: reserve_range_def\<close>)

lemma foldl_max_ge:
  fixes f :: "'a \<Rightarrow> nat"
  shows "m \<le> foldl (\<lambda>m r. if m < f r then f r else m) m rs"
proof (induction rs arbitrary: m)
  case (Cons q rs)
  show ?case using Cons [of m] Cons [of "f q"] by simp
qed simp

lemma foldl_max_mem:
  fixes f :: "'a \<Rightarrow> nat"
  shows "r \<in> set rs \<Longrightarrow> f r \<le> foldl (\<lambda>m r. if m < f r then f r else m) m rs"
proof (induction rs arbitrary: m)
  case (Cons q rs)
  show ?case
    using Cons foldl_max_ge [where m = "if m < f q then f q else m" and f = f and rs = rs]
    by (auto split: if_splits)
qed simp

lemma foldl_max_le:
  fixes f :: "'a \<Rightarrow> nat"
  shows "m \<le> B \<Longrightarrow> \<forall>r\<in>set rs. f r \<le> B \<Longrightarrow> foldl (\<lambda>m r. if m < f r then f r else m) m rs \<le> B"
  by (induction rs arbitrary: m) auto

lemma ranges_ok_extent: "ranges_ok rs \<Longrightarrow> r \<in> set rs \<Longrightarrow> extent_ok (rg_base r) (rg_pages r)"
  by (induction rs) auto

lemma upgrade_ref_loop_eq:
  assumes "extent_ok a n"
  shows "upgrade_ref_loop a n needed d = (\<lambda>f. if f \<in> extent a n \<and> f < needed then 1 else d f)"
proof -
  have "fold (\<lambda>i d. let idx = frame_of (add64 a (mul64 i PAGE_SIZE)) in
                  if idx < needed then d(idx := 1) else d) [0..<m] d
      = (\<lambda>f. if f \<in> extent a m \<and> f < needed then 1 else d f)" if "m \<le> n" for m
    using that
  proof (induction m)
    case (Suc m)
    then show ?case
      using frame_of_step [OF assms, of m] by (auto simp: Let_def extent_def fun_eq_iff less_Suc_eq)
  qed simp
  then show ?thesis by (simp add: upgrade_ref_loop_def)
qed

text \<open>Every free frame lies below the page count the upgrade computes.\<close>

lemma needed_covers:
  assumes "ranges_ok rs" "f \<in> free_set rs"
    "max_phys = foldl (\<lambda>m r. if m < range_end r then range_end r else m) 0 rs"
  shows "f < add64 max_phys (PAGE_SIZE - 1) div PAGE_SIZE" "max_phys \<noteq> 0"
proof -
  obtain r where r: "r \<in> set rs" "f \<in> frames_of r" using assms(2) by (auto simp: free_set_def)
  have e: "extent_ok (rg_base r) (rg_pages r)" using ranges_ok_extent assms(1) r(1) .
  have all: "range_end q \<le> 2 ^ 52" if "q \<in> set rs" for q
    using ranges_ok_extent [OF assms(1) that] by (simp add: wrap_simps) (simp add: extent_ok_def)
  have re: "range_end r \<le> max_phys" using foldl_max_mem [OF r(1), of range_end 0] assms(3) by auto
  have mp: "max_phys \<le> 2 ^ 52" using foldl_max_le [of 0 "2 ^ 52" rs range_end] all assms(3) by auto
  have "f < frame_of (range_end r)"
    using r(2) e by (simp add: wrap_simps frames_of_def extent_def) (simp add: extent_ok_def frame_of_add)
  also have "\<dots> \<le> frame_of (max_phys + 4095)" using re by (simp add: frame_of_mono)
  finally show "f < add64 max_phys (PAGE_SIZE - 1) div PAGE_SIZE"
    using mp by (simp add: add64_exact frame_of_def)
  have "0 < range_end r" using e by (simp add: wrap_simps) (simp add: extent_ok_def)
  with re show "max_phys \<noteq> 0" by simp
qed

lemma pfa_upgrade_refcount_inv:
  assumes pre: "pfa_pre s" and res: "pfa_upgrade_refcount s = Inr s'"
  shows "pfa_inv s' \<and> managed s' \<subseteq> free_frames s"
proof -
  define mp where "mp = foldl (\<lambda>m r. if m < range_end r then range_end r else m) 0 (g_ranges s)"
  define needed where "needed = add64 mp (PAGE_SIZE - 1) div PAGE_SIZE"
  define rca where "rca = add64 needed (PAGE_SIZE - 1) div PAGE_SIZE"
  have ok: "ranges_ok (g_ranges s)" and len: "length (g_ranges s) \<le> RANGE_LIMIT"
    and rc: "g_refcount s = (\<lambda>_. 0)" and tr: "g_tracked_pages s = PFA_STATIC_TRACKED_PAGES"
    using pre by (auto simp: pfa_pre_def)
  note nc = needed_covers [OF ok _ mp_def, folded needed_def]
  note def = pfa_upgrade_refcount_def [of s, unfolded Let_def, folded mp_def, folded needed_def, folded rca_def]
  show ?thesis
  proof (cases "mp = 0 \<or> needed \<le> g_tracked_pages s")
    case True
    then have "s' = s" using res by (auto simp: def split: if_splits)
    moreover have "f < g_tracked_pages s" if "f \<in> free_set (g_ranges s)" for f
      using True nc [OF that] by auto
    ultimately show ?thesis using ok len rc by (auto simp: pfa_inv_def managed_def)
  next
    case False
    obtain a s1 where al: "pfa_alloc_pages_nolock rca s = (a, s1)" by (cases "pfa_alloc_pages_nolock rca s")
    have a0: "a \<noteq> 0" and s': "s' = s1\<lparr>g_refcount := upgrade_ref_loop a rca needed
          (\<lambda>i. if i < PFA_STATIC_TRACKED_PAGES then g_refcount s1 i else 0), g_tracked_pages := needed\<rparr>"
      using res False al
      by (auto simp: def split: if_splits)
    then obtain rs where sc: "scan_first_fit rca (g_ranges s) = Some (a, rs)"
      and s1: "s1 = mark_allocated a rca (s\<lparr>g_ranges := rs\<rparr>)"
      using al by (auto simp: pfa_alloc_pages_nolock_def split: option.splits)
    have ce: "carved_exact rca (g_ranges s) a rs" using scan_first_fit_carved [OF ok sc] .
    then have e: "extent_ok a rca" by (simp add: carved_exact_def carved_def)
    show ?thesis
      using ce len nc(1) by (auto simp: s' s1 mark_allocated_eq [OF e] upgrade_ref_loop_eq [OF e] rc
          pfa_inv_def managed_def free_frames_def carved_exact_def carved_def split: if_splits)
  qed
qed

lemma pfa_init_ok:
  assumes map_ok: "efi_map_ok ds" and k: "kb + ks \<le> 2 ^ 52" "0 < ks"
    and res: "pfa_init (Some ds) kb ks pfa_boot_state = Inr s"
  shows "pfa_inv s \<and> managed s \<subseteq> usable_frames ds - {0, 1} - {frame_of kb..frame_of (kb + ks - 1)}"
proof -
  define s0 where "s0 = pfa_boot_state\<lparr>g_ranges := []\<rparr>"
  define s1 where "s1 = fold add_descriptor (take 4096 ds) s0"
  define s2 where "s2 = reserve_range kb ks s1"
  define s3 where "s3 = reserve_range 4096 PAGE_SIZE s2"
  have "pfa_pre s0" "free_frames s0 = {}"
    by (auto simp: s0_def pfa_pre_def pfa_boot_state_def free_frames_def)
  then have p1: "pfa_pre s1 \<and> free_frames s1 \<subseteq> usable_frames ds - {0}"
    using fold_add_descriptor_pre [OF _ efi_map_ok_take [OF map_ok], of s0 4096] usable_frames_take [of 4096 ds]
    by (auto simp: s1_def)
  have p2: "pfa_pre s2 \<and> free_frames s2 \<subseteq> free_frames s1 - {frame_of kb..frame_of (kb + ks - 1)}"
    using reserve_range_pre [of s1 kb ks] p1 k by (simp add: s2_def)
  have p3: "pfa_pre s3 \<and> free_frames s3 \<subseteq> free_frames s2 - {1}"
    using reserve_range_pre [of s2 4096 4096] p2 by (simp add: s3_def frame_of_def)
  obtain s4 where s4: "pfa_upgrade_refcount s3 = Inr s4" "s = snd (pfa_alloc_pages_nolock 1 s4)"
    using res by (auto simp: pfa_init_def Let_def split: sum.splits
        simp flip: s0_def s1_def s2_def s3_def)
  have p4: "pfa_inv s4 \<and> managed s4 \<subseteq> free_frames s3" using pfa_upgrade_refcount_inv p3 s4(1) by blast
  obtain a s5 where a: "pfa_alloc_pages_nolock 1 s4 = (a, s5)" by (cases "pfa_alloc_pages_nolock 1 s4")
  from pfa_alloc_pages_nolock_ok [OF conjunct1 [OF p4] a]
  have "pfa_inv s \<and> managed s \<subseteq> managed s4"
    using p4 s4(2) a by (auto simp: alloc_post_def managed_def split: if_splits)
  with p1 p2 p3 p4 show ?thesis by blast
qed

subsection \<open>The firmware's RAM list\<close>

definition ram_addrs :: "pfa_range list \<Rightarrow> nat set" where
  "ram_addrs rs = (\<Union>r\<in>set rs. {rg_base r..<rg_base r + rg_pages r * 4096})"

definition desc_addrs :: "efi_memory_descriptor \<Rightarrow> nat set" where
  "desc_addrs d = {PhysicalStart d..<PhysicalStart d + NumberOfPages d * 4096}"

definition in_space :: "pfa_range \<Rightarrow> bool" where
  "in_space r \<longleftrightarrow> rg_base r + rg_pages r * 4096 \<le> 2 ^ 52"

lemma range_end_in_space: "in_space r \<Longrightarrow> range_end r = rg_base r + rg_pages r * 4096"
  by (simp add: in_space_def range_end_def add64_exact mul64_exact)

lemma append_range_ram:
  assumes "list_all in_space rs" "b + n * 4096 \<le> 2 ^ 52"
  shows "list_all in_space (append_range rs b n)
    \<and> ram_addrs (append_range rs b n) = ram_addrs rs \<union> {b..<b + n * 4096}"
proof (cases "rs \<noteq> [] \<and> range_end (last rs) = b")
  case True
  then obtain zs z where z: "rs = zs @ [z]" "range_end z = b" by (auto dest: last_butlast_conv)
  have "in_space z" using assms(1) z by simp
  then have "b = rg_base z + rg_pages z * 4096" "add64 (rg_pages z) n = rg_pages z + n"
    using z(2) assms(2) range_end_in_space by (auto simp: in_space_def add64_exact)
  then show ?thesis
    using z assms by (auto simp: append_range_def ram_addrs_def in_space_def algebra_simps)
qed (use assms in \<open>auto simp: append_range_def ram_addrs_def in_space_def\<close>)

lemma add_range_ram [simp]:
  "g_ram_ranges (add_range b n s) = g_ram_ranges s"
  "g_ram_ranges_truncated (add_range b n s) = g_ram_ranges_truncated s"
  by (simp_all add: add_range_def Let_def)

text \<open>Unless the list was marked truncated, it covers every usable descriptor.\<close>

definition ram_covers :: "pfa \<Rightarrow> nat set \<Rightarrow> bool" where
  "ram_covers s A \<longleftrightarrow> list_all in_space (g_ram_ranges s)
     \<and> (\<not> g_ram_ranges_truncated s \<longrightarrow> A \<subseteq> ram_addrs (g_ram_ranges s))"

lemma add_descriptor_ram:
  assumes "ram_covers s A" "is_usable (efi_type d) \<Longrightarrow> PhysicalStart d + NumberOfPages d * 4096 \<le> 2 ^ 52"
  shows "ram_covers (add_descriptor d s) (if is_usable (efi_type d) then A \<union> desc_addrs d else A)"
proof (cases "is_usable (efi_type d)")
  case True
  with append_range_ram [of "g_ram_ranges s" "PhysicalStart d" "NumberOfPages d"] assms show ?thesis
    by (auto simp: add_descriptor_def add_ram_range_def ram_covers_def desc_addrs_def)
qed (use assms in \<open>simp add: add_descriptor_def\<close>)

lemma fold_add_descriptor_ram:
  "ram_covers s A \<Longrightarrow> efi_map_ok ds \<Longrightarrow>
    ram_covers (fold add_descriptor ds s) (A \<union> \<Union>(desc_addrs ` {d \<in> set ds. is_usable (efi_type d)}))"
proof (induction ds arbitrary: s A)
  case (Cons d ds)
  let ?A = "if is_usable (efi_type d) then A \<union> desc_addrs d else A"
  have "ram_covers (add_descriptor d s) ?A" using add_descriptor_ram Cons.prems by auto
  from Cons.IH [OF this] Cons.prems(2)
  have "ram_covers (fold add_descriptor ds (add_descriptor d s))
     (?A \<union> \<Union>(desc_addrs ` {d \<in> set ds. is_usable (efi_type d)}))" by simp
  moreover have "?A \<union> \<Union>(desc_addrs ` {d \<in> set ds. is_usable (efi_type d)})
     = A \<union> \<Union>(desc_addrs ` {x \<in> set (d # ds). is_usable (efi_type x)})" by auto
  ultimately show ?case by simp
qed (simp add: ram_covers_def)

lemma mark_allocated_ram [simp]:
  "g_ram_ranges (mark_allocated a n s) = g_ram_ranges s"
  "g_ram_ranges_truncated (mark_allocated a n s) = g_ram_ranges_truncated s"
proof -
  have "g_ram_ranges (fold (set_ref_one a) xs s) = g_ram_ranges s
      \<and> g_ram_ranges_truncated (fold (set_ref_one a) xs s) = g_ram_ranges_truncated s" for xs
    by (induction xs arbitrary: s) (auto simp: set_ref_one_def Let_def)
  then show "g_ram_ranges (mark_allocated a n s) = g_ram_ranges s"
    "g_ram_ranges_truncated (mark_allocated a n s) = g_ram_ranges_truncated s"
    by (auto simp: mark_allocated_def)
qed

lemma alloc_nolock_ram:
  "pfa_alloc_pages_nolock n s = (a, s1) \<Longrightarrow>
    g_ram_ranges s1 = g_ram_ranges s \<and> g_ram_ranges_truncated s1 = g_ram_ranges_truncated s"
  by (auto simp: pfa_alloc_pages_nolock_def split: option.splits)

lemma ram_covers_unchanged:
  "ram_covers (snd (pfa_alloc_pages_nolock n s)) A = ram_covers s A"
  "ram_covers (reserve_range b len s) A = ram_covers s A"
  "pfa_upgrade_refcount s = Inr s' \<Longrightarrow> ram_covers s' A = ram_covers s A"
  by (cases "pfa_alloc_pages_nolock n s")
     (auto simp: reserve_range_def pfa_upgrade_refcount_def Let_def ram_covers_def
        split: if_splits prod.splits dest!: alloc_nolock_ram)

lemma pfa_init_ram:
  assumes "efi_map_ok ds" "pfa_init (Some ds) kb ks pfa_boot_state = Inr s"
  shows "ram_covers s (\<Union>(desc_addrs ` {d \<in> set (take 4096 ds). is_usable (efi_type d)}))"
proof -
  have "ram_covers (pfa_boot_state\<lparr>g_ranges := []\<rparr>) {}" by (simp add: ram_covers_def pfa_boot_state_def)
  from fold_add_descriptor_ram [OF this efi_map_ok_take [OF assms(1)]] assms(2) show ?thesis
    by (auto simp: pfa_init_def Let_def ram_covers_unchanged split: sum.splits)
qed

lemma overlaps_ram_sound:
  assumes "ram_covers s A" "0 < len" "b < 2 ^ 64" "len < 2 ^ 64" "\<not> pfa_range_overlaps_ram b len s"
  shows "b + len < 2 ^ 64 \<and> {b..<b + len} \<inter> A = {}"
proof -
  have nw: "b + len < 2 ^ 64"
  proof (rule ccontr)
    assume "\<not> b + len < 2 ^ 64"
    then have "add64 b len = b + len - 2 ^ 64" using assms(3,4) by (simp add: add64_def mod_if)
    then have "add64 b len < b" using assms(3,4) \<open>\<not> b + len < 2 ^ 64\<close> by simp
    with assms show False by (simp add: pfa_range_overlaps_ram_def Let_def)
  qed
  then have "add64 b len = b + len" by (rule add64_exact)
  then have tr: "\<not> g_ram_ranges_truncated s"
    and no: "\<not> list_ex (\<lambda>r. b < range_end r \<and> rg_base r < b + len) (g_ram_ranges s)"
    using assms(2,5) by (auto simp: pfa_range_overlaps_ram_def Let_def split: if_splits)
  have "A \<subseteq> ram_addrs (g_ram_ranges s)" using assms(1) tr by (simp add: ram_covers_def)
  moreover have "{b..<b + len} \<inter> ram_addrs (g_ram_ranges s) = {}"
    using no assms(1)
    by (fastforce simp: ram_addrs_def list_ex_iff ram_covers_def list_all_iff range_end_in_space)
  ultimately show ?thesis using nw by blast
qed

subsection \<open>The interface of a frame source\<close>

text \<open>
  What the kernel's clients rely on when they take frames: a request either fails or yields
  frames that were free and no longer are.  \<open>grants\<close> serves a list of requests and
  collects the frame sets handed out.
\<close>

fun grants :: "('q \<Rightarrow> 's \<Rightarrow> nat \<times> 's) \<Rightarrow> ('q \<Rightarrow> nat) \<Rightarrow> 'q list \<Rightarrow> 's \<Rightarrow> nat set list \<times> 's" where
  "grants alloc pages [] s = ([], s)"
| "grants alloc pages (q # qs) s =
     (case alloc q s of (a, s1) \<Rightarrow>
      case grants alloc pages qs s1 of (gs, s2) \<Rightarrow>
        (if a = 0 then gs else extent a (pages q) # gs, s2))"

locale frame_source =
  fixes alloc :: "'q \<Rightarrow> 's \<Rightarrow> nat \<times> 's"
    and pages :: "'q \<Rightarrow> nat"
    and admissible :: "'q \<Rightarrow> bool"
    and inv :: "'s \<Rightarrow> bool"
    and free :: "'s \<Rightarrow> nat set"
  assumes alloc_inv: "inv s \<Longrightarrow> admissible q \<Longrightarrow> alloc q s = (a, s') \<Longrightarrow> inv s'"
    and alloc_from_free:
      "inv s \<Longrightarrow> admissible q \<Longrightarrow> alloc q s = (a, s') \<Longrightarrow> a \<noteq> 0 \<Longrightarrow> extent a (pages q) \<subseteq> free s"
    and alloc_takes:
      "inv s \<Longrightarrow> admissible q \<Longrightarrow> alloc q s = (a, s') \<Longrightarrow>
        free s' \<subseteq> free s - (if a = 0 then {} else extent a (pages q))"
begin

lemma grants_spec:
  "inv s \<Longrightarrow> list_all admissible qs \<Longrightarrow> grants alloc pages qs s = (gs, s') \<Longrightarrow>
    inv s' \<and> \<Union>(set gs) \<subseteq> free s \<and> free s' \<subseteq> free s - \<Union>(set gs)
    \<and> sorted_wrt (\<lambda>A B. A \<inter> B = {}) gs"
proof (induction qs arbitrary: s gs)
  case (Cons q qs)
  obtain a s1 where a: "alloc q s = (a, s1)" by (cases "alloc q s")
  obtain gs1 where g: "grants alloc pages qs s1 = (gs1, s')"
    and gs: "gs = (if a = 0 then gs1 else extent a (pages q) # gs1)"
    using Cons.prems(3) a by (auto split: prod.splits)
  have adm: "admissible q" "list_all admissible qs" using Cons.prems(2) by auto
  note laws = alloc_inv [OF Cons.prems(1) adm(1) a] alloc_from_free [OF Cons.prems(1) adm(1) a]
    alloc_takes [OF Cons.prems(1) adm(1) a]
  note ih = Cons.IH [OF laws(1) adm(2) g]
  then have "\<forall>B\<in>set gs1. B \<subseteq> free s1" by blast
  with ih laws(2,3) show ?case
    by (cases "a = 0") (simp_all add: gs, blast+)
qed simp

end

text \<open>The three entry points the kernel takes frames through, as one request type.\<close>

datatype pfa_request =
    Pages nat
  | Pages_below nat nat
  | Pages_above nat nat

fun serve :: "pfa_request \<Rightarrow> pfa \<Rightarrow> nat \<times> pfa" where
  "serve (Pages n) s = pfa_alloc_pages n s"
| "serve (Pages_below n limit) s = pfa_alloc_pages_below n limit s"
| "serve (Pages_above n flr) s = pfa_alloc_pages_above n flr s"

fun request_pages :: "pfa_request \<Rightarrow> nat" where
  "request_pages (Pages n) = n"
| "request_pages (Pages_below n limit) = n"
| "request_pages (Pages_above n flr) = n"

fun request_ok :: "pfa_request \<Rightarrow> bool" where
  "request_ok (Pages_above n flr) = (n \<le> 2 ^ 41 \<and> flr \<le> 2 ^ 52)"
| "request_ok q = True"

lemma serve_post:
  assumes "pfa_inv s" "request_ok q" "serve q s = (a, s')"
  shows "(a = 0 \<and> s' = s) \<or> (a \<noteq> 0 \<and> alloc_post (request_pages q) a s s')"
proof (cases q)
  case (Pages n)
  then show ?thesis using assms pfa_alloc_pages_nolock_ok [of s n a s']
    by (auto simp: pfa_alloc_pages_def alloc_post_def extent_ok_def split: if_splits)
next
  case (Pages_below n limit)
  then show ?thesis using assms pfa_alloc_pages_below_ok [of s n limit a s']
    by (auto simp: alloc_post_def extent_ok_def)
next
  case (Pages_above n flr)
  then show ?thesis using assms pfa_alloc_pages_above_ok [of s n flr a s']
    by (auto simp: alloc_post_def extent_ok_def)
qed

interpretation pfa_source: frame_source serve request_pages request_ok pfa_inv free_frames
proof
  fix s q a s'
  assume "pfa_inv s" "request_ok q" "serve q s = (a, s')"
  note post = serve_post [OF this]
  show "pfa_inv s'" using post \<open>pfa_inv s\<close> by (auto simp: alloc_post_def)
  show "a \<noteq> 0 \<Longrightarrow> extent a (request_pages q) \<subseteq> free_frames s"
    using post by (auto simp: alloc_post_def)
  show "free_frames s' \<subseteq> free_frames s - (if a = 0 then {} else extent a (request_pages q))"
    using post by (auto simp: alloc_post_def)
qed

subsection \<open>Runs of the allocator\<close>

inductive pfa_step :: "pfa \<Rightarrow> pfa \<Rightarrow> bool" where
  step_alloc: "request_ok q \<Longrightarrow> serve q s = (a, s') \<Longrightarrow> pfa_step s s'"
| step_free: "extent_ok b n \<Longrightarrow> frame_of b + n \<le> g_tracked_pages s \<Longrightarrow>
    pfa_free_pages b n s = Inr s' \<Longrightarrow> pfa_step s s'"
| step_pin: "extent_ok b n \<Longrightarrow> frame_of b + n \<le> g_tracked_pages s \<Longrightarrow>
    pfa_pin_pages b n s = Inr s' \<Longrightarrow> pfa_step s s'"

lemma first_bad:
  fixes P :: "nat \<Rightarrow> bool"
  assumes "\<not> (\<forall>k<n. P k)"
  shows "\<exists>j<n. \<not> P j \<and> (\<forall>k<j. P k)"
proof -
  have ex: "\<exists>j. j < n \<and> \<not> P j" using assms by blast
  have "(LEAST j. j < n \<and> \<not> P j) < n \<and> \<not> P (LEAST j. j < n \<and> \<not> P j)" using LeastI_ex [OF ex] .
  moreover have "P k" if "k < (LEAST j. j < n \<and> \<not> P j)" for k
    using not_less_Least [OF that] that calculation by auto
  ultimately show ?thesis by blast
qed

lemma extent_all_iff: "(\<forall>f\<in>extent b n. P f) \<longleftrightarrow> (\<forall>k<n. P (frame_of b + k))"
  by (auto simp: extent_def) (metis add_diff_inverse_nat less_diff_conv2 nat_add_left_cancel_less not_le)

lemma pfa_free_pages_panics:
  assumes "extent_ok b n" "frame_of b + n \<le> g_tracked_pages s" "\<not> (\<forall>f\<in>extent b n. 0 < g_refcount s f)"
  shows "\<exists>j<n. g_refcount s (frame_of b + j) = 0 \<and> (\<forall>k<j. 0 < g_refcount s (frame_of b + k))
    \<and> pfa_free_pages b n s = Inl (Double_free (b + j * 4096))"
proof -
  obtain j where j: "j < n" "g_refcount s (frame_of b + j) = 0" "\<forall>k<j. 0 < g_refcount s (frame_of b + k)"
    using first_bad [of n "\<lambda>k. 0 < g_refcount s (frame_of b + k)"] assms(3) by (auto simp: extent_all_iff)
  have "free_loop b [0..<n] 0 0 s = Inl (Double_free (b + j * 4096))"
    by (rule free_loop_double_free [OF assms(1,2)]) (use j in auto)
  with j assms(1) show ?thesis by (auto simp: pfa_free_pages_def extent_ok_def)
qed

lemma pfa_pin_pages_panics:
  assumes "extent_ok b n" "frame_of b + n \<le> g_tracked_pages s"
    "\<not> (\<forall>f\<in>extent b n. 0 < g_refcount s f \<and> g_refcount s f < 255)" "\<forall>f. g_refcount s f \<le> 255"
  shows "\<exists>e. pfa_pin_pages b n s = Inl e"
proof -
  obtain j where j: "j < n" "\<not> (0 < g_refcount s (frame_of b + j) \<and> g_refcount s (frame_of b + j) < 255)"
    "\<forall>k<j. 0 < g_refcount s (frame_of b + k) \<and> g_refcount s (frame_of b + k) < 255"
    using first_bad [of n "\<lambda>k. 0 < g_refcount s (frame_of b + k) \<and> g_refcount s (frame_of b + k) < 255"] assms(3)
    by (auto simp: extent_all_iff)
  have "g_refcount s (frame_of b + j) = 0 \<or> g_refcount s (frame_of b + j) = 255"
    using j(2) assms(4) by (metis gr0I le_neq_implies_less)
  from pin_loop_fail [OF assms(1,2) _ j(1) _ this, of 0] j assms(1) show ?thesis
    by (auto simp: pfa_pin_pages_def extent_ok_def)
qed

lemma pfa_step_inv:
  assumes "pfa_step s s'" "pfa_inv s"
  shows "pfa_inv s' \<and> managed s' \<subseteq> managed s \<and> g_tracked_pages s' = g_tracked_pages s"
  using assms(1)
proof cases
  case (step_alloc q a)
  from serve_post [OF assms(2) step_alloc] assms(2) show ?thesis
    by (auto simp: alloc_post_def managed_def split: if_splits)
next
  case (step_free b n)
  then have all: "\<forall>f\<in>extent b n. 0 < g_refcount s f" using pfa_free_pages_panics by fastforce
  from pfa_free_pages_ok [OF assms(2) step_free(1,2) all] step_free(3) have "free_post b 0 n 0 s s'" by auto
  then show ?thesis by (auto simp: free_post_def managed_def freed_by_def run_set_def split: if_splits)
next
  case (step_pin b n)
  then have all: "\<forall>f\<in>extent b n. 0 < g_refcount s f \<and> g_refcount s f < 255"
    using pfa_pin_pages_panics assms(2) unfolding pfa_inv_def by fastforce
  have "s' = s\<lparr>g_refcount := \<lambda>f. if f \<in> extent b n then g_refcount s f + 1 else g_refcount s f\<rparr>"
    using pfa_pin_pages_ok [OF step_pin(1,2) all] step_pin(3) by simp
  moreover have "f \<notin> free_frames s" if "f \<in> extent b n" for f
    using all that assms(2) not_free_if_referenced by blast
  ultimately show ?thesis
    using assms(2) all by (auto simp: pfa_inv_def managed_def free_frames_def Suc_le_eq)
qed

lemma pfa_steps_inv:
  "pfa_step\<^sup>*\<^sup>* s s' \<Longrightarrow> pfa_inv s \<Longrightarrow> pfa_inv s' \<and> managed s' \<subseteq> managed s \<and> g_tracked_pages s' = g_tracked_pages s"
proof (induction rule: rtranclp_induct)
  case (step y z)
  then show ?case using pfa_step_inv [of y z] by auto
qed simp

subsection \<open>Who holds which frames\<close>

text \<open>
  A holder owns references: to the frames of an allocation, or to frames it pinned.  It may free its
  frames in pieces, each a run of frames it still holds.
\<close>

datatype frame_ref = Alloc_ref (ref_frames: "nat set") | Pin_ref (ref_frames: "nat set")

primrec drop_frames :: "nat set \<Rightarrow> frame_ref \<Rightarrow> frame_ref" where
  "drop_frames X (Alloc_ref A) = Alloc_ref (A - X)"
| "drop_frames X (Pin_ref A) = Pin_ref (A - X)"

definition holders :: "frame_ref list \<Rightarrow> nat \<Rightarrow> nat" where
  "holders live f = length (filter (\<lambda>r. f \<in> ref_frames r) live)"

definition allocs_apart :: "frame_ref \<Rightarrow> frame_ref \<Rightarrow> bool" where
  "allocs_apart r r' \<longleftrightarrow> is_Alloc_ref r \<and> is_Alloc_ref r' \<longrightarrow> ref_frames r \<inter> ref_frames r' = {}"

inductive pfa_history :: "pfa \<Rightarrow> frame_ref list \<Rightarrow> pfa \<Rightarrow> bool" for s0 where
  hist_start: "pfa_history s0 [] s0"
| hist_alloc: "pfa_history s0 live s \<Longrightarrow> request_ok q \<Longrightarrow> serve q s = (a, s') \<Longrightarrow>
    pfa_history s0 (if a = 0 then live else Alloc_ref (extent a (request_pages q)) # live) s'"
| hist_pin: "pfa_history s0 live s \<Longrightarrow> extent_ok b n \<Longrightarrow> frame_of b + n \<le> g_tracked_pages s \<Longrightarrow>
    pfa_pin_pages b n s = Inr s' \<Longrightarrow> pfa_history s0 (Pin_ref (extent b n) # live) s'"
| hist_free: "pfa_history s0 live s \<Longrightarrow> i < length live \<Longrightarrow> extent_ok b n \<Longrightarrow> extent b n \<subseteq> ref_frames (live ! i) \<Longrightarrow>
    pfa_free_pages b n s = Inr s' \<Longrightarrow> pfa_history s0 (live[i := drop_frames (extent b n) (live ! i)]) s'"

definition history_inv :: "pfa \<Rightarrow> frame_ref list \<Rightarrow> pfa \<Rightarrow> bool" where
  "history_inv s0 live s \<longleftrightarrow> pfa_inv s \<and> (\<forall>f. g_refcount s f = g_refcount s0 f + holders live f)
     \<and> (\<forall>r \<in> set live. \<forall>f \<in> ref_frames r. f < g_tracked_pages s) \<and> sorted_wrt allocs_apart live"

lemma drop_frames_simps [simp]:
  "ref_frames (drop_frames X r) = ref_frames r - X" "is_Alloc_ref (drop_frames X r) = is_Alloc_ref r"
  by (cases r; simp)+

lemma holders_Cons: "holders (r # live) f = (if f \<in> ref_frames r then 1 else 0) + holders live f"
  by (simp add: holders_def)

lemma holders_drop:
  assumes "i < length live" "X \<subseteq> ref_frames (live ! i)"
  shows "holders live f = (if f \<in> X then 1 else 0) + holders (live[i := drop_frames X (live ! i)]) f"
proof -
  have "holders (xs @ r # ys) f = holders xs f + (if f \<in> ref_frames r then 1 else 0) + holders ys f" for xs r ys
    by (simp add: holders_def)
  note split = this [of "take i live" _ "drop (Suc i) live"]
  have "holders live f = holders (take i live @ live ! i # drop (Suc i) live) f"
    using id_take_nth_drop [OF assms(1)] by simp
  then show ?thesis
    using assms(2) unfolding upd_conv_take_nth_drop [OF assms(1)] split by auto
qed

lemma held_not_free: "history_inv s0 live s \<Longrightarrow> r \<in> set live \<Longrightarrow> f \<in> ref_frames r \<Longrightarrow> 0 < g_refcount s f \<and> f \<notin> free_frames s"
proof -
  assume h: "history_inv s0 live s" and r: "r \<in> set live" "f \<in> ref_frames r"
  have "0 < holders live f" using r by (auto simp: holders_def filter_empty_conv)
  then have "0 < g_refcount s f" using h by (simp add: history_inv_def)
  then show ?thesis using h not_free_if_referenced by (simp add: history_inv_def)
qed

lemma holder_free:
  assumes h: "history_inv s0 live s" and r: "r \<in> set live" and e: "extent_ok b n" "extent b n \<subseteq> ref_frames r"
  shows "\<exists>s'. pfa_free_pages b n s = Inr s' \<and> free_post b 0 n 0 s s'"
proof (cases "n = 0")
  case False
  have "frame_of b + (n - 1) \<in> ref_frames r" using False e(2) by (auto simp: extent_def)
  then have "frame_of b + (n - 1) < g_tracked_pages s" using h r by (simp add: history_inv_def)
  then have t: "frame_of b + n \<le> g_tracked_pages s" by simp
  have "\<forall>f\<in>extent b n. 0 < g_refcount s f" using held_not_free [OF h r] e(2) by blast
  then show ?thesis using pfa_free_pages_ok [OF _ e(1) t] h by (simp add: history_inv_def)
next
  case True
  then show ?thesis using h by (auto simp: pfa_free_pages_def free_post_def run_set_def freed_by_def history_inv_def)
qed

lemma apart_drop:
  assumes "sorted_wrt allocs_apart live" "i < length live"
  shows "sorted_wrt allocs_apart (live[i := drop_frames X (live ! i)])"
  using assms unfolding sorted_wrt_iff_nth_less by (fastforce simp: nth_list_update allocs_apart_def)

lemma pfa_history_inv:
  "pfa_history s0 live s \<Longrightarrow> pfa_inv s0 \<Longrightarrow> history_inv s0 live s"
proof (induction rule: pfa_history.induct)
  case hist_start
  then show ?case by (simp add: history_inv_def holders_def)
next
  case (hist_alloc live s q a s')
  then have h: "history_inv s0 live s" and inv: "pfa_inv s" by (simp_all add: history_inv_def)
  show ?case
  proof (cases "a = 0")
    case True
    then show ?thesis using serve_post [OF inv hist_alloc.hyps(2,3)] h by (auto simp: alloc_post_def extent_ok_def)
  next
    case False
    let ?E = "extent a (request_pages q)"
    have post: "alloc_post (request_pages q) a s s'" using serve_post [OF inv hist_alloc.hyps(2,3)] False by auto
    have new: "g_refcount s f = 0" "f < g_tracked_pages s" if "f \<in> ?E" for f
      using post that inv by (auto simp: alloc_post_def pfa_inv_def free_frames_def)
    have "?E \<inter> ref_frames r = {}" if "r \<in> set live" for r using held_not_free [OF h that] new(1) by fastforce
    then show ?thesis
      using h post new False by (auto simp: history_inv_def alloc_post_def holders_Cons allocs_apart_def)
  qed
next
  case (hist_pin live s b n s')
  then have h: "history_inv s0 live s" by simp
  have all: "\<forall>f\<in>extent b n. 0 < g_refcount s f \<and> g_refcount s f < 255"
    using pfa_pin_pages_panics [OF hist_pin.hyps(2,3)] hist_pin.hyps(4) h by (fastforce simp: history_inv_def pfa_inv_def)
  have "s' = s\<lparr>g_refcount := \<lambda>f. if f \<in> extent b n then g_refcount s f + 1 else g_refcount s f\<rparr>"
    using pfa_pin_pages_ok [OF hist_pin.hyps(2,3) all] hist_pin.hyps(4) by simp
  moreover have "pfa_inv s'" using pfa_step_inv [OF step_pin [OF hist_pin.hyps(2-4)]] h by (simp add: history_inv_def)
  ultimately show ?case
    using h hist_pin.hyps(3) by (auto simp: history_inv_def holders_Cons allocs_apart_def extent_def)
next
  case (hist_free live s i b n s')
  then have h: "history_inv s0 live s" by simp
  have r: "live ! i \<in> set live" using hist_free.hyps(2) by simp
  have post: "free_post b 0 n 0 s s'" using holder_free [OF h r hist_free.hyps(3,4)] hist_free.hyps(5) by simp
  have rc: "g_refcount s' f = (if f \<in> extent b n then g_refcount s f - 1 else g_refcount s f)" for f
    using post by (auto simp: free_post_def extent_def)
  have "g_refcount s' f = g_refcount s0 f + holders (live[i := drop_frames (extent b n) (live ! i)]) f" for f
    using h rc [of f] holders_drop [OF hist_free.hyps(2,4), of f] by (simp add: history_inv_def)
  moreover have "f < g_tracked_pages s'" if "r' \<in> set (live[i := drop_frames (extent b n) (live ! i)])" "f \<in> ref_frames r'" for r' f
    using set_update_subset_insert [THEN subsetD, OF that(1)] that(2) h r post by (auto simp: history_inv_def free_post_def)
  ultimately show ?case
    using h post apart_drop [OF _ hist_free.hyps(2)] by (auto simp: history_inv_def free_post_def)
qed

subsection \<open>A run whose frames have one reference each is freed as one extent\<close>

lemma zero64: "extent_ok b n \<Longrightarrow> add64 b (mul64 0 4096) = b"
  using extent_ok_step [of b n 0] by simp

lemma free_loop_all_one:
  assumes "extent_ok b n" "frame_of b + n \<le> g_tracked_pages s" "i \<le> n" "run_len = i" "0 < i \<Longrightarrow> run_start = b"
    "\<forall>j\<in>{i..<n}. g_refcount s (frame_of b + j) = 1"
  shows "free_loop b [i..<n] run_start run_len s = Inr (if n = 0 then run_start else b, n,
    s\<lparr>g_refcount := \<lambda>f. if frame_of b + i \<le> f \<and> f < frame_of b + n then 0 else g_refcount s f\<rparr>)"
  using assms(2-)
proof (induction "n - i" arbitrary: i run_start run_len s)
  case 0
  then show ?case by (auto intro!: pfa.equality)
next
  case (Suc k)
  let ?s1 = "s\<lparr>g_refcount := (g_refcount s)(frame_of b + i := 0)\<rparr>"
  let ?st = "if run_len = 0 then add64 b (mul64 i 4096) else run_start"
  have i: "i < n" "[i..<n] = i # [Suc i..<n]" "k = n - Suc i" using Suc.hyps(2) by (auto simp: upt_conv_Cons)
  have fr: "frame_of (add64 b (mul64 i 4096)) = frame_of b + i" "add64 b (mul64 i 4096) = b + i * 4096"
    using frame_of_step [OF assms(1), of i] extent_ok_step [OF assms(1), of i] i by auto
  have "free_loop b [i..<n] run_start run_len s = free_loop b [Suc i..<n] ?st (Suc run_len) ?s1"
    using Suc.prems i by (simp add: i(2) fr(1) Let_def)
  also have "\<dots> = Inr (if n = 0 then ?st else b, n,
    ?s1\<lparr>g_refcount := \<lambda>f. if frame_of b + Suc i \<le> f \<and> f < frame_of b + n then 0 else g_refcount ?s1 f\<rparr>)"
    using Suc.prems i by (intro Suc.hyps(1)) (auto simp: fr(2) zero64 [OF assms(1)])
  finally show ?case
    using i(1) by (auto intro!: pfa.equality simp: fun_eq_iff le_Suc_eq)
qed

lemma free_undoes_alloc:
  assumes inv: "pfa_inv s" and post: "alloc_post n a s s'" and fr: "free_frames s' = free_frames s - extent a n"
    and room: "length (g_ranges s') < RANGE_LIMIT" and "0 < n"
  shows "\<exists>s''. pfa_free_pages a n s' = Inr s'' \<and> free_frames s'' = free_frames s
    \<and> g_refcount s'' = g_refcount s \<and> pfa_inv s''"
proof -
  have e: "extent_ok a n" and inv': "pfa_inv s'"
    and rc: "\<forall>f. g_refcount s' f = (if f \<in> extent a n then 1 else g_refcount s f)"
    and sub: "extent a n \<subseteq> free_frames s" and tr': "g_tracked_pages s' = g_tracked_pages s"
    using post by (auto simp: alloc_post_def)
  have free0: "g_refcount s f = 0" "f < g_tracked_pages s" if "f \<in> free_frames s" for f
    using inv that by (auto simp: pfa_inv_def free_frames_def)
  have "frame_of a + (n - 1) \<in> extent a n" using \<open>0 < n\<close> by (simp add: extent_def)
  then have "frame_of a + (n - 1) < g_tracked_pages s" using free0(2) sub by blast
  then have tr: "frame_of a + n \<le> g_tracked_pages s'" using tr' by simp
  define s1 where "s1 = s'\<lparr>g_refcount := \<lambda>f. if f \<in> extent a n then 0 else g_refcount s' f\<rparr>"
  have "free_loop a [0..<n] 0 0 s' = Inr (a, n, s1)"
    using free_loop_all_one [OF e tr, of 0] rc \<open>0 < n\<close> by (auto simp: s1_def extent_def)
  then have eq: "pfa_free_pages a n s' = Inr (pfa_insert_range a n s1)"
    using e \<open>0 < n\<close> by (simp add: pfa_free_pages_def extent_ok_def)
  have inv1: "pfa_inv s1" using inv' by (auto simp: s1_def pfa_inv_def)
  have ff: "free_frames s1 = free_frames s - extent a n" by (simp add: s1_def fr)
  have "\<forall>f\<in>extent a n. f < g_tracked_pages s1 \<and> g_refcount s1 f = 0"
    using sub free0(2) tr' by (auto simp: s1_def)
  from pfa_insert_range_ok [OF inv1 e _ this] ff room sub
  have "pfa_inv (pfa_insert_range a n s1)" "free_frames (pfa_insert_range a n s1) = free_frames s"
    by (auto simp: s1_def)
  moreover have "g_refcount s1 = g_refcount s" using sub free0(1) rc by (auto simp: s1_def fun_eq_iff)
  ultimately show ?thesis using eq by simp
qed

lemma alloc_nolock_length:
  "pfa_alloc_pages_nolock n s = (a, s') \<Longrightarrow> ranges_ok (g_ranges s) \<Longrightarrow> length (g_ranges s') = length (g_ranges s)"
  using scan_first_fit_carved [of "g_ranges s" n]
  by (auto simp: pfa_alloc_pages_nolock_def mark_allocated_eq carved_exact_def carved_def split: option.splits)

subsection \<open>Properties\<close>

text \<open>The frames of a run that lose their last reference when it is freed.\<close>

definition last_refs :: "nat \<Rightarrow> nat \<Rightarrow> pfa \<Rightarrow> nat set" where
  "last_refs b n s = {f \<in> extent b n. g_refcount s f = 1}"

text \<open>An example state: sixteen free frames at 64 KiB.\<close>

definition demo_pfa :: pfa where
  "demo_pfa = pfa_boot_state\<lparr>g_ranges := [\<lparr>rg_base = 65536, rg_pages = 16\<rparr>]\<rparr>"

lemma demo_pfa_inv: "pfa_inv demo_pfa"
  by (simp add: pfa_inv_def demo_pfa_def pfa_boot_state_def RANGE_LIMIT_def extent_ok_def extent_def
      PFA_STATIC_TRACKED_PAGES_def frame_of_def)

lemmas pfa_eval = demo_pfa_def pfa_boot_state_def RANGE_LIMIT_def PFA_STATIC_TRACKED_PAGES_def
  pfa_alloc_pages_def pfa_alloc_pages_nolock_def pfa_alloc_pages_below_def pfa_alloc_pages_above_def
  mark_allocated_def set_ref_one_def add64_def mul64_def sub64_def page_down_def frame_of_def
  range_end_def upt_rec

text \<open>Serving a list of requests hands out disjoint frames: what \<open>frame_source\<close> gives for this allocator.\<close>

lemma pfa_grants_disjoint:
  assumes "pfa_inv s" "list_all request_ok qs" "grants serve request_pages qs s = (gs, s')"
  shows "\<Union>(set gs) \<subseteq> free_frames s \<and> free_frames s' \<subseteq> free_frames s - \<Union>(set gs)
    \<and> sorted_wrt (\<lambda>A B. A \<inter> B = {}) gs \<and> pfa_inv s'"
  using pfa_source.grants_spec [OF assms] by blast

text \<open>
  (C1) Over any history of allocations through the three entry points, pins, and frees by holders of
  frames they hold, whole or in part: the reference count of a frame is what it was at the start plus
  the number of live holders of it; no frame with a live holder is on the free list; the live
  allocations are pairwise disjoint; a new allocation overlaps nothing that is held; and a holder's
  free never panics.
\<close>

theorem pfa_allocations_disjoint:
  assumes "pfa_inv s0" "pfa_history s0 live s"
  shows "pfa_inv s \<and> (\<forall>f. g_refcount s f = g_refcount s0 f + holders live f)
    \<and> (\<forall>r \<in> set live. ref_frames r \<inter> free_frames s = {}) \<and> sorted_wrt allocs_apart live
    \<and> (\<forall>q a s'. request_ok q \<longrightarrow> serve q s = (a, s') \<longrightarrow> a \<noteq> 0 \<longrightarrow>
         (\<forall>r \<in> set live. extent a (request_pages q) \<inter> ref_frames r = {}))
    \<and> (\<forall>r \<in> set live. \<forall>b n. extent_ok b n \<longrightarrow> extent b n \<subseteq> ref_frames r \<longrightarrow> (\<exists>s'. pfa_free_pages b n s = Inr s'))"
proof -
  have h: "history_inv s0 live s" using pfa_history_inv [OF assms(2,1)] .
  have inv: "pfa_inv s" and ap: "sorted_wrt allocs_apart live" and rc: "g_refcount s f = g_refcount s0 f + holders live f" for f
    using h by (simp_all add: history_inv_def)
  have nf: "ref_frames r \<inter> free_frames s = {}" if "r \<in> set live" for r
    using held_not_free [OF h that] by blast
  moreover have "extent a (request_pages q) \<inter> ref_frames r = {}"
    if "request_ok q" "serve q s = (a, s')" "a \<noteq> 0" "r \<in> set live" for q a s' r
    using nf [OF that(4)] pfa_source.alloc_from_free [OF inv that(1-3)] by blast
  moreover have "\<exists>s'. pfa_free_pages b n s = Inr s'" if "r \<in> set live" "extent_ok b n" "extent b n \<subseteq> ref_frames r" for r b n
    using holder_free [OF h that] by blast
  ultimately show ?thesis using inv ap rc by blast
qed

theorem pfa_allocations_disjoint_witness:
  "\<exists>a1 s1 s2 s3. pfa_alloc_pages 2 demo_pfa = (a1, s1) \<and> pfa_pin_pages a1 1 s1 = Inr s2 \<and> pfa_free_pages a1 2 s2 = Inr s3
     \<and> g_refcount s3 16 = 1 \<and> (\<forall>a s4. serve (Pages 1) s3 = (a, s4) \<longrightarrow> a \<noteq> 0 \<longrightarrow> 16 \<notin> extent a 1)"
proof -
  obtain s1 where s1: "pfa_alloc_pages 2 demo_pfa = (65536, s1)" "g_refcount s1 16 = 1" "g_tracked_pages s1 = PFA_STATIC_TRACKED_PAGES"
    by (simp add: pfa_eval)
  have x: "extent 65536 2 = {16, 17}" "extent 65536 1 = {16}" "frame_of 65536 = 16" by (auto simp: extent_def frame_of_def)
  have e: "extent_ok 65536 2" "extent_ok 65536 1" by (simp_all add: extent_ok_def)
  have h1: "pfa_history demo_pfa [Alloc_ref {16, 17}] s1"
    using hist_alloc [OF hist_start, of "Pages 2"] s1(1) x(1) by fastforce
  obtain s2 where p: "pfa_pin_pages 65536 1 s1 = Inr s2"
    using pfa_pin_pages_ok [OF e(2), of s1] s1 x by (auto simp: PFA_STATIC_TRACKED_PAGES_def)
  have h2: "pfa_history demo_pfa [Pin_ref {16}, Alloc_ref {16, 17}] s2"
    using hist_pin [OF h1 e(2) _ p] x s1(3) by (simp add: PFA_STATIC_TRACKED_PAGES_def)
  obtain s3 where f: "pfa_free_pages 65536 2 s2 = Inr s3"
    using pfa_allocations_disjoint [OF demo_pfa_inv h2] e(1) x(1) by fastforce
  have h3: "pfa_history demo_pfa [Pin_ref {16}, Alloc_ref {}] s3"
    using hist_free [OF h2 _ e(1) _ f, of 1] x(1) by simp
  note K = pfa_allocations_disjoint [OF demo_pfa_inv h3]
  have "g_refcount s3 16 = 1" using K by (simp add: holders_def demo_pfa_def pfa_boot_state_def)
  moreover have "16 \<notin> extent a 1" if "serve (Pages 1) s3 = (a, s4)" "a \<noteq> 0" for a s4
    using K that by (auto dest!: spec [of _ "Pages 1"])
  ultimately show ?thesis using s1(1) p f by blast
qed

text \<open>
  (C2) Freeing a run of tracked frames drops exactly one reference of each.  If one of them has
  no reference the call panics at the first such frame and nothing is returned; otherwise it
  returns, the invariant is kept, and a frame becomes free only if its count reached zero.  All of
  those do if the extent table has a spare entry for each maximal run of them (one for a buffer all of
  whose frames have a single reference); when the table is full it is left as it is and none do.
\<close>

theorem pfa_free_pages_correct:
  assumes "pfa_inv s" "extent_ok b n" "frame_of b + n \<le> g_tracked_pages s"
  shows "if \<forall>f\<in>extent b n. 0 < g_refcount s f
    then \<exists>s'. pfa_free_pages b n s = Inr s' \<and> pfa_inv s'
      \<and> (\<forall>f. g_refcount s' f = (if f \<in> extent b n then g_refcount s f - 1 else g_refcount s f))
      \<and> free_frames s' \<subseteq> free_frames s \<union> last_refs b n s
      \<and> (length (g_ranges s) + card {f \<in> last_refs b n s. f - 1 \<notin> last_refs b n s} \<le> RANGE_LIMIT \<longrightarrow>
           free_frames s' = free_frames s \<union> last_refs b n s)
      \<and> (length (g_ranges s) = RANGE_LIMIT \<longrightarrow> g_ranges s' = g_ranges s)
    else \<exists>j<n. g_refcount s (frame_of b + j) = 0 \<and> (\<forall>k<j. 0 < g_refcount s (frame_of b + k))
      \<and> pfa_free_pages b n s = Inl (Double_free (b + j * 4096))"
proof (cases "\<forall>f\<in>extent b n. 0 < g_refcount s f")
  case True
  have "freed_by b 0 n s = last_refs b n s"
    by (auto simp: freed_by_def last_refs_def extent_def)
  then show ?thesis
    using pfa_free_pages_ok [OF assms True] True
    by (auto simp: free_post_def new_runs_def run_set_def extent_def)
next
  case False
  show ?thesis unfolding if_not_P [OF False] by (rule pfa_free_pages_panics [OF assms(2,3) False])
qed

theorem pfa_free_pages_correct_witness:
  "\<exists>s'. pfa_free_pages 65536 2 (snd (pfa_alloc_pages 2 demo_pfa)) = Inr s' \<and> pfa_inv s'
    \<and> g_refcount s' 16 = 0 \<and> pfa_free_pages 65536 2 demo_pfa = Inl (Double_free 65536)"
proof -
  let ?s = "snd (pfa_alloc_pages 2 demo_pfa)"
  have inv: "pfa_inv ?s"
    using pfa_source.alloc_inv [OF demo_pfa_inv, of "Pages 2"] by (cases "pfa_alloc_pages 2 demo_pfa") auto
  have e: "extent_ok 65536 2" by (simp add: extent_ok_def)
  have tr: "frame_of 65536 + 2 \<le> g_tracked_pages ?s" "frame_of 65536 + 2 \<le> g_tracked_pages demo_pfa"
    by (simp_all add: pfa_eval)
  have x: "extent 65536 2 = {16, 17}" by (auto simp: extent_def frame_of_def)
  have rc: "g_refcount ?s 16 = 1" "g_refcount ?s 17 = 1" by (simp_all add: pfa_eval)
  have rc0: "g_refcount demo_pfa f = 0" for f by (simp add: demo_pfa_def pfa_boot_state_def)
  have nb: "\<not> (\<forall>f\<in>extent 65536 2. 0 < g_refcount demo_pfa f)" by (auto simp: x rc0)
  obtain s' where "pfa_free_pages 65536 2 ?s = Inr s'" "pfa_inv s'" "g_refcount s' 16 = 0"
    using pfa_free_pages_correct [OF inv e tr(1)] by (auto simp: x rc)
  moreover obtain j where "\<forall>k<j. 0 < g_refcount demo_pfa (frame_of 65536 + k)"
    "pfa_free_pages 65536 2 demo_pfa = Inl (Double_free (65536 + j * 4096))"
    using pfa_free_pages_correct [OF demo_pfa_inv e tr(2), unfolded if_not_P [OF nb]] by blast
  moreover from this have "j = 0" by (auto simp: rc0)
  ultimately show ?thesis by auto
qed

text \<open>
  (C3) Allocating a run with \<open>pfa_alloc_pages\<close> and freeing it again restores the free set and
  every reference count, provided the extent table had a spare entry.
\<close>

theorem pfa_alloc_free_roundtrip:
  assumes "pfa_inv s" "length (g_ranges s) < RANGE_LIMIT" "pfa_alloc_pages n s = (a, s')" "a \<noteq> 0"
  shows "\<exists>s''. pfa_free_pages a n s' = Inr s'' \<and> free_frames s'' = free_frames s
    \<and> g_refcount s'' = g_refcount s \<and> pfa_inv s''"
proof -
  have n: "0 < n" "pfa_alloc_pages_nolock n s = (a, s')"
    using assms(3,4) by (auto simp: pfa_alloc_pages_def split: if_splits)
  have "length (g_ranges s') < RANGE_LIMIT"
    using alloc_nolock_length [OF n(2)] assms(1,2) by (simp add: pfa_inv_def)
  with pfa_alloc_pages_nolock_ok [OF assms(1) n(2)] assms(4) n(1) free_undoes_alloc [OF assms(1)] show ?thesis
    by blast
qed

theorem pfa_alloc_free_roundtrip_witness:
  "\<exists>s''. pfa_free_pages 65536 3 (snd (pfa_alloc_pages 3 demo_pfa)) = Inr s''
     \<and> free_frames s'' = free_frames demo_pfa"
proof -
  have "pfa_alloc_pages 3 demo_pfa = (65536, snd (pfa_alloc_pages 3 demo_pfa))" by (simp add: pfa_eval)
  moreover have "length (g_ranges demo_pfa) < RANGE_LIMIT" by (simp add: demo_pfa_def RANGE_LIMIT_def)
  ultimately show ?thesis using pfa_alloc_free_roundtrip [OF demo_pfa_inv, of 3 65536] by fastforce
qed

text \<open>
  A pin keeps frames alive: after \<open>pfa_pin_pages\<close> on allocated frames, one
  \<open>pfa_free_pages\<close> of the same run neither panics nor frees any of them, and restores the
  counts; pinning a frame that is free, or whose count is 255, panics.
\<close>

theorem pfa_pin_free_roundtrip:
  assumes "pfa_inv s" "extent_ok b n" "frame_of b + n \<le> g_tracked_pages s"
  shows "if \<forall>f\<in>extent b n. 0 < g_refcount s f \<and> g_refcount s f < 255
    then \<exists>s1 s2. pfa_pin_pages b n s = Inr s1 \<and> pfa_free_pages b n s1 = Inr s2
      \<and> free_frames s2 = free_frames s \<and> g_refcount s2 = g_refcount s \<and> pfa_inv s1 \<and> pfa_inv s2
    else \<exists>e. pfa_pin_pages b n s = Inl e"
proof (cases "\<forall>f\<in>extent b n. 0 < g_refcount s f \<and> g_refcount s f < 255")
  case True
  let ?s1 = "s\<lparr>g_refcount := \<lambda>f. if f \<in> extent b n then g_refcount s f + 1 else g_refcount s f\<rparr>"
  have pin: "pfa_pin_pages b n s = Inr ?s1" using pfa_pin_pages_ok [OF assms(2,3) True] .
  then have inv1: "pfa_inv ?s1" using pfa_step_inv [OF step_pin [OF assms(2,3)] assms(1)] by simp
  obtain s2 where s2: "pfa_free_pages b n ?s1 = Inr s2" "free_post b 0 n 0 ?s1 s2"
    using pfa_free_pages_ok [OF inv1 assms(2)] assms(3) by auto
  have none: "freed_by b 0 n ?s1 = {}" using True by (auto simp: freed_by_def extent_def)
  have len: "length (g_ranges s) \<le> RANGE_LIMIT" using assms(1) by (simp add: pfa_inv_def)
  have "free_frames s2 = free_frames s" "pfa_inv s2"
    using s2(2) none len by (auto simp: free_post_def run_set_def new_runs_def)
  moreover have "g_refcount s2 = g_refcount s"
    using s2(2) by (auto simp: free_post_def extent_def fun_eq_iff)
  ultimately show ?thesis using pin inv1 s2(1) True by simp
next
  case False
  show ?thesis
    unfolding if_not_P [OF False]
    by (rule pfa_pin_pages_panics [OF assms(2,3) False]) (use assms(1) in \<open>simp add: pfa_inv_def\<close>)
qed

theorem pfa_pin_free_roundtrip_witness:
  "\<exists>s1 s2. pfa_pin_pages 65536 2 (snd (pfa_alloc_pages 2 demo_pfa)) = Inr s1
     \<and> pfa_free_pages 65536 2 s1 = Inr s2 \<and> g_refcount s2 16 = 1"
proof -
  let ?s = "snd (pfa_alloc_pages 2 demo_pfa)"
  have inv: "pfa_inv ?s"
    using pfa_source.alloc_inv [OF demo_pfa_inv, of "Pages 2"] by (cases "pfa_alloc_pages 2 demo_pfa") auto
  have e: "extent_ok 65536 2" by (simp add: extent_ok_def)
  have tr: "frame_of 65536 + 2 \<le> g_tracked_pages ?s" by (simp add: pfa_eval)
  have x: "extent 65536 2 = {16, 17}" by (auto simp: extent_def frame_of_def)
  have rc: "g_refcount ?s 16 = 1" "g_refcount ?s 17 = 1" by (simp_all add: pfa_eval)
  from pfa_pin_free_roundtrip [OF inv e tr] show ?thesis by (auto simp: x rc)
qed

text \<open>
  (C5) The null page, the AP trampoline page at 4096 and every frame of the kernel image are
  never given out: in each state reachable from the one \<open>pfa_init\<close> builds from a sane
  firmware map, by any run of allocations, frees and pins that do not panic, an allocation
  returns only frames of usable descriptors outside those reserved ones, each of which had no
  reference.
\<close>

theorem pfa_reserved_never_allocated:
  assumes "efi_map_ok ds" "kb + ks \<le> 2 ^ 52" "0 < ks"
    and "pfa_init (Some ds) kb ks pfa_boot_state = Inr s0" "pfa_step\<^sup>*\<^sup>* s0 s"
    and "request_ok q" "serve q s = (a, s')" "a \<noteq> 0"
  shows "pfa_inv s \<and> extent a (request_pages q)
      \<subseteq> usable_frames ds - {0, 1} - {frame_of kb..frame_of (kb + ks - 1)}
    \<and> (\<forall>f\<in>extent a (request_pages q). g_refcount s f = 0)"
proof -
  note init = pfa_init_ok [OF assms(1-4)]
  have run: "pfa_inv s" "managed s \<subseteq> managed s0" using pfa_steps_inv [OF assms(5)] init by auto
  have "extent a (request_pages q) \<subseteq> free_frames s"
    using serve_post [OF run(1) assms(6,7)] assms(8) by (auto simp: alloc_post_def)
  with run init show ?thesis by (auto simp: pfa_inv_def managed_def free_frames_def)
qed

definition demo_map :: "efi_memory_descriptor list" where
  "demo_map = [\<lparr>efi_type = 7, PhysicalStart = 0, NumberOfPages = 4\<rparr>,
     \<lparr>efi_type = 9, PhysicalStart = 16384, NumberOfPages = 2\<rparr>,
     \<lparr>efi_type = 4, PhysicalStart = 1048576, NumberOfPages = 8\<rparr>]"

lemma demo_map_ok: "efi_map_ok demo_map"
  by (auto simp: demo_map_def desc_extent_def extent_def frame_of_def is_usable_def)

text \<open>The state \<open>pfa_init\<close> builds from the example map, one phase at a time.\<close>

lemma demo_scan:
  "fold add_descriptor (take 4096 demo_map) (pfa_boot_state\<lparr>g_ranges := []\<rparr>) =
    pfa_boot_state\<lparr>g_ranges := [\<lparr>rg_base = 4096, rg_pages = 3\<rparr>, \<lparr>rg_base = 1048576, rg_pages = 8\<rparr>],
      g_initial_total_pages := 11,
      g_ram_ranges := [\<lparr>rg_base = 0, rg_pages = 4\<rparr>, \<lparr>rg_base = 1048576, rg_pages = 8\<rparr>]\<rparr>"
  by (simp add: demo_map_def add_descriptor_def is_usable_def add_range_def add_ram_range_def append_range_def
      pfa_boot_state_def RANGE_LIMIT_def range_end_def add64_def mul64_def)

lemma demo_reserve:
  "reserve_range 4096 4096 (reserve_range 1048576 8192 (pfa_boot_state\<lparr>
      g_ranges := [\<lparr>rg_base = 4096, rg_pages = 3\<rparr>, \<lparr>rg_base = 1048576, rg_pages = 8\<rparr>],
      g_initial_total_pages := t, g_ram_ranges := rr\<rparr>)) =
   pfa_boot_state\<lparr>g_ranges := [\<lparr>rg_base = 8192, rg_pages = 2\<rparr>, \<lparr>rg_base = 1056768, rg_pages = 6\<rparr>],
      g_initial_total_pages := t, g_ram_ranges := rr\<rparr>"
  by (simp add: reserve_range_def range_end_def add64_def mul64_def page_down_def)

lemma demo_upgrade:
  "pfa_upgrade_refcount (pfa_boot_state\<lparr>
      g_ranges := [\<lparr>rg_base = 8192, rg_pages = 2\<rparr>, \<lparr>rg_base = 1056768, rg_pages = 6\<rparr>],
      g_initial_total_pages := t, g_ram_ranges := rr\<rparr>) =
   Inr (pfa_boot_state\<lparr>g_ranges := [\<lparr>rg_base = 8192, rg_pages = 2\<rparr>, \<lparr>rg_base = 1056768, rg_pages = 6\<rparr>],
      g_initial_total_pages := t, g_ram_ranges := rr\<rparr>)"
  by (simp add: pfa_upgrade_refcount_def range_end_def add64_def mul64_def pfa_boot_state_def
      PFA_STATIC_TRACKED_PAGES_def)

lemma demo_init:
  "pfa_init (Some demo_map) 1048576 8192 pfa_boot_state = Inr (pfa_boot_state\<lparr>
     g_ranges := [\<lparr>rg_base = 12288, rg_pages = 1\<rparr>, \<lparr>rg_base = 1056768, rg_pages = 6\<rparr>],
     g_refcount := (\<lambda>_. 0)(2 := 1), g_initial_total_pages := 11,
     g_ram_ranges := [\<lparr>rg_base = 0, rg_pages = 4\<rparr>, \<lparr>rg_base = 1048576, rg_pages = 8\<rparr>]\<rparr>)"
  unfolding pfa_init_def Let_def option.case demo_scan demo_reserve demo_upgrade
  by (simp add: pfa_alloc_pages_nolock_def mark_allocated_def set_ref_one_def pfa_boot_state_def
      PFA_STATIC_TRACKED_PAGES_def add64_def mul64_def frame_of_def)

theorem pfa_reserved_never_allocated_witness:
  "\<exists>s0 a s'. pfa_init (Some demo_map) 1048576 8192 pfa_boot_state = Inr s0
     \<and> serve (Pages 2) s0 = (a, s') \<and> a = 1056768
     \<and> extent a 2 \<subseteq> usable_frames demo_map - {0, 1} - {frame_of 1048576..frame_of (1048576 + 8192 - 1)}"
proof -
  obtain s where s: "pfa_init (Some demo_map) 1048576 8192 pfa_boot_state = Inr s"
    "g_ranges s = [\<lparr>rg_base = 12288, rg_pages = 1\<rparr>, \<lparr>rg_base = 1056768, rg_pages = 6\<rparr>]"
    using demo_init by simp
  obtain a s' where a: "serve (Pages 2) s = (a, s')" by (metis surj_pair)
  then have "a = 1056768"
    using s(2) by (auto simp: pfa_alloc_pages_def pfa_alloc_pages_nolock_def)
  with pfa_reserved_never_allocated [OF demo_map_ok _ _ s(1) rtranclp.rtrancl_refl _ a] a s(1)
  show ?thesis by auto
qed

text \<open>
  (C6) The RAM test is fail-closed for every firmware map \<open>pfa_init\<close> reads: after it, the answer "not
  RAM" for a non-empty range means that the range does not wrap and shares no byte with any usable
  extent among the descriptors it examined, the first 4096 of the map, even when those extents
  overflow the table of RAM ranges.
\<close>

theorem pfa_overlaps_ram_fail_closed:
  assumes "efi_map_ok ds" "pfa_init (Some ds) kb ks pfa_boot_state = Inr s"
    and "0 < len" "b < 2 ^ 64" "len < 2 ^ 64" "\<not> pfa_range_overlaps_ram b len s"
  shows "b + len < 2 ^ 64
    \<and> (\<forall>d\<in>set (take 4096 ds). is_usable (efi_type d) \<longrightarrow> {b..<b + len} \<inter> desc_addrs d = {})"
  using overlaps_ram_sound [OF pfa_init_ram [OF assms(1,2)] assms(3-6)] by auto

theorem pfa_overlaps_ram_fail_closed_witness:
  "\<exists>s. pfa_init (Some demo_map) 1048576 8192 pfa_boot_state = Inr s
     \<and> \<not> pfa_range_overlaps_ram 16384 4096 s \<and> pfa_range_overlaps_ram 1048576 8 s
     \<and> {16384..<16384 + 4096} \<inter> desc_addrs (demo_map ! 2) = {}"
proof -
  obtain s where s: "pfa_init (Some demo_map) 1048576 8192 pfa_boot_state = Inr s" and ram: "g_ram_ranges s = [\<lparr>rg_base = 0, rg_pages = 4\<rparr>, \<lparr>rg_base = 1048576, rg_pages = 8\<rparr>]"
      "\<not> g_ram_ranges_truncated s"
    using demo_init by (simp add: pfa_boot_state_def)
  then have n: "\<not> pfa_range_overlaps_ram 16384 4096 s" and y: "pfa_range_overlaps_ram 1048576 8 s"
    by (auto simp: pfa_range_overlaps_ram_def range_end_def add64_def mul64_def)
  have "demo_map ! 2 \<in> set (take 4096 demo_map)" "is_usable (efi_type (demo_map ! 2))"
    by (simp_all add: demo_map_def is_usable_def)
  with pfa_overlaps_ram_fail_closed [OF demo_map_ok s _ _ _ n] s n y show ?thesis by simp
qed

text \<open>
  Descriptors past the cap are not covered: a map of 4097 descriptors whose last one is usable RAM, for
  which the test answers "not RAM".  The cap does not set \<open>g_ram_ranges_truncated\<close>.
\<close>

definition capped_map :: "efi_memory_descriptor list" where
  "capped_map = demo_map @ replicate 4093 \<lparr>efi_type = 0, PhysicalStart = 0, NumberOfPages = 0\<rparr>
     @ [\<lparr>efi_type = 7, PhysicalStart = 2097152, NumberOfPages = 1\<rparr>]"

lemma fold_unusable: "\<not> is_usable (efi_type d) \<Longrightarrow> fold add_descriptor (replicate k d) s = s"
  by (induction k) (simp_all add: add_descriptor_def)

lemma pfa_init_cap_misses_ram:
  "length capped_map = 4097 \<and> is_usable (efi_type (last capped_map))
   \<and> (\<exists>s. pfa_init (Some capped_map) 1048576 8192 pfa_boot_state = Inr s
        \<and> \<not> pfa_range_overlaps_ram 2097152 4096 s \<and> desc_addrs (last capped_map) = {2097152..<2097152 + 4096})"
proof -
  have len: "length demo_map = 3" by (simp add: demo_map_def)
  have "fold add_descriptor (take 4096 capped_map) s = fold add_descriptor (take 4096 demo_map) s" for s
    using fold_unusable [of "\<lparr>efi_type = 0, PhysicalStart = 0, NumberOfPages = 0\<rparr>" 4093]
    by (simp add: capped_map_def len is_usable_def)
  then have "pfa_init (Some capped_map) 1048576 8192 pfa_boot_state = pfa_init (Some demo_map) 1048576 8192 pfa_boot_state"
    by (simp add: pfa_init_def)
  then show ?thesis
    using demo_init by (simp add: capped_map_def len is_usable_def desc_addrs_def pfa_range_overlaps_ram_def pfa_boot_state_def
        range_end_def add64_def mul64_def)
qed

end
