(* ===== verification/Lists.thy ===== *)
theory Lists
  imports Prelude
begin

section \<open>The generic list and its two storage backends\<close>

text \<open>
  Model of \<open>src/kernel/list.c\<close> (the facade), \<open>list_array_chunk.c\<close> and
  \<open>list_linked.c\<close>.  An element pointer is an address, computed from the address of its
  chunk or node exactly as the code does; a chunk is its address with its slots (a slot whose
  in-use byte is 0 is None); a chain of chunks or nodes is the list of its members from the
  head on.  \<open>kmem_alloc\<close> is a call into the kernel heap: the address it returns, or None,
  is an argument \<open>mem\<close> of the operations that call it.  Freshly allocated and removed payloads
  are zeroed by \<open>memset\<close>; the all-zero element is the argument \<open>z\<close>.
\<close>

datatype list_impl = LIST_IMPL_LINKED | LIST_IMPL_ARRAY_CHUNK | LIST_IMPL_INVALID

record 'e array_chunk =
  ch_addr :: nat
  ch_slots :: "'e option list"

record 'e linked_node =
  nd_addr :: nat
  nd_payload :: 'e

text \<open>The state block behind \<open>list->ops\<close>: which table is installed and its contents.\<close>

datatype 'e list_state =
    Array_state (chunk_capacity: nat) (chunks: "'e array_chunk list")
  | Linked_state (nodes: "'e linked_node list")

record 'e list_t =
  elem_size :: nat
  list_kind :: list_impl
  config_value :: nat
  list_state :: "'e list_state option"

subsection \<open>Array chunks\<close>

definition list_array_stride :: "nat \<Rightarrow> nat" where
  "list_array_stride es = (let x = add32 (add32 8 es) 7 in x - x mod 8)"

definition slot_ptr :: "nat \<Rightarrow> nat \<Rightarrow> nat \<Rightarrow> nat" where
  "slot_ptr es addr i = addr + 16 + list_array_stride es * i + 8"

fun first_free :: "'e option list \<Rightarrow> nat option" where
  "first_free [] = None"
| "first_free (None # ss) = Some 0"
| "first_free (Some _ # ss) = map_option Suc (first_free ss)"

fun array_reuse :: "nat \<Rightarrow> 'e \<Rightarrow> 'e array_chunk list \<Rightarrow> (nat \<times> 'e array_chunk list) option" where
  "array_reuse es z [] = None"
| "array_reuse es z (c # cs) =
     (case first_free (ch_slots c) of
        Some i \<Rightarrow> Some (slot_ptr es (ch_addr c) i, c\<lparr>ch_slots := (ch_slots c)[i := Some z]\<rparr> # cs)
      | None \<Rightarrow> map_option (\<lambda>(p, cs'). (p, c # cs')) (array_reuse es z cs))"

definition list_array_chunk_alloc ::
  "nat \<Rightarrow> 'e \<Rightarrow> nat option \<Rightarrow> nat \<Rightarrow> 'e array_chunk list \<Rightarrow> nat option \<times> 'e array_chunk list" where
  "list_array_chunk_alloc es z mem cap cs =
     (if cap = 0 then (None, cs)
      else case array_reuse es z cs of
             Some (p, cs') \<Rightarrow> (Some p, cs')
           | None \<Rightarrow>
               (case mem of
                  None \<Rightarrow> (None, cs)
                | Some a \<Rightarrow> (Some (slot_ptr es a 0),
                     \<lparr>ch_addr = a, ch_slots = Some z # replicate (cap - 1) None\<rparr> # cs)))"

text \<open>The scan of \<open>list_array_chunk_remove\<close> stops at the first slot with the address.\<close>

fun array_find :: "nat \<Rightarrow> nat \<Rightarrow> 'e array_chunk list \<Rightarrow> (nat \<times> nat) option" where
  "array_find es p [] = None"
| "array_find es p (c # cs) =
     (case List.find (\<lambda>i. slot_ptr es (ch_addr c) i = p) [0..<length (ch_slots c)] of
        Some i \<Rightarrow> Some (0, i)
      | None \<Rightarrow> map_option (\<lambda>(k, i). (Suc k, i)) (array_find es p cs))"

definition set_slot :: "nat \<Rightarrow> nat \<Rightarrow> 'e option \<Rightarrow> 'e array_chunk list \<Rightarrow> 'e array_chunk list" where
  "set_slot k i v cs = cs[k := (cs ! k)\<lparr>ch_slots := (ch_slots (cs ! k))[i := v]\<rparr>]"

definition list_array_chunk_remove :: "nat \<Rightarrow> nat \<Rightarrow> 'e array_chunk list \<Rightarrow> int \<times> 'e array_chunk list" where
  "list_array_chunk_remove es p cs =
     (case array_find es p cs of
        None \<Rightarrow> (- 1, cs)
      | Some (k, i) \<Rightarrow>
          (if ch_slots (cs ! k) ! i = None then (- 1, cs) else (0, set_slot k i None cs)))"

text \<open>
  The cursor of an iterator is the chain from \<open>state0\<close> on and \<open>index\<close>.  The inner loop
  advances \<open>index\<close> to the next used slot.
\<close>

definition next_used :: "'e option list \<Rightarrow> nat \<Rightarrow> nat option" where
  "next_used ss i = List.find (\<lambda>j. ss ! j \<noteq> None) [i..<length ss]"

fun list_array_chunk_next ::
  "nat \<Rightarrow> 'e array_chunk list \<Rightarrow> nat \<Rightarrow> (nat \<times> 'e) option \<times> 'e array_chunk list \<times> nat" where
  "list_array_chunk_next es [] i = (None, [], i)"
| "list_array_chunk_next es (c # cs) i =
     (case next_used (ch_slots c) i of
        Some j \<Rightarrow> (Some (slot_ptr es (ch_addr c) j, the (ch_slots c ! j)), c # cs, Suc j)
      | None \<Rightarrow> list_array_chunk_next es cs 0)"

definition list_array_chunk_first ::
  "nat \<Rightarrow> 'e array_chunk list \<Rightarrow> (nat \<times> 'e) option \<times> 'e array_chunk list \<times> nat" where
  "list_array_chunk_first es cs = list_array_chunk_next es cs 0"

subsection \<open>Linked nodes\<close>

definition node_ptr :: "nat \<Rightarrow> nat" where
  "node_ptr addr = addr + 8"

definition list_linked_alloc ::
  "'e \<Rightarrow> nat option \<Rightarrow> 'e linked_node list \<Rightarrow> nat option \<times> 'e linked_node list" where
  "list_linked_alloc z mem ns =
     (case mem of
        None \<Rightarrow> (None, ns)
      | Some a \<Rightarrow> (Some (node_ptr a), \<lparr>nd_addr = a, nd_payload = z\<rparr> # ns))"

fun list_linked_remove :: "nat \<Rightarrow> 'e linked_node list \<Rightarrow> int \<times> 'e linked_node list" where
  "list_linked_remove p [] = (- 1, [])"
| "list_linked_remove p (n # ns) =
     (if node_ptr (nd_addr n) = p then (0, ns)
      else case list_linked_remove p ns of (r, ns') \<Rightarrow> (r, n # ns'))"

definition list_linked_first ::
  "'e linked_node list \<Rightarrow> (nat \<times> 'e) option \<times> 'e linked_node list" where
  "list_linked_first ns =
     (case ns of
        [] \<Rightarrow> (None, [])
      | n # ns' \<Rightarrow> (Some (node_ptr (nd_addr n), nd_payload n), n # ns'))"

definition list_linked_next ::
  "'e linked_node list \<Rightarrow> (nat \<times> 'e) option \<times> 'e linked_node list" where
  "list_linked_next cur =
     (case cur of
        [] \<Rightarrow> (None, [])
      | n # ns \<Rightarrow>
          (case ns of
             [] \<Rightarrow> (None, [])
           | m # ms \<Rightarrow> (Some (node_ptr (nd_addr m), nd_payload m), m # ms)))"

subsection \<open>The facade\<close>

definition list_array_chunk_impl_init :: "nat option \<Rightarrow> 'e list_t \<Rightarrow> int \<times> 'e list_t" where
  "list_array_chunk_impl_init mem l =
     (if elem_size l = 0 \<or> config_value l = 0 then (- 1, l)
      else case mem of
             None \<Rightarrow> (- 1, l)
           | Some _ \<Rightarrow> (0, l\<lparr>list_state := Some (Array_state (config_value l) [])\<rparr>))"

definition list_linked_impl_init :: "nat option \<Rightarrow> 'e list_t \<Rightarrow> int \<times> 'e list_t" where
  "list_linked_impl_init mem l =
     (if elem_size l = 0 then (- 1, l)
      else case mem of None \<Rightarrow> (- 1, l) | Some _ \<Rightarrow> (0, l\<lparr>list_state := Some (Linked_state [])\<rparr>))"

definition list_zeroed :: "'e list_t" where
  "list_zeroed = \<lparr>elem_size = 0, list_kind = LIST_IMPL_LINKED, config_value = 0, list_state = None\<rparr>"

definition list_init ::
  "nat option \<Rightarrow> nat \<Rightarrow> list_impl \<Rightarrow> nat \<Rightarrow> 'e list_t \<Rightarrow> int \<times> 'e list_t" where
  "list_init mem es impl cfg l =
     (if es = 0 then (- 1, l)
      else
        let l1 = \<lparr>elem_size = es, list_kind = impl, config_value = cfg, list_state = None\<rparr>
        in case impl of
             LIST_IMPL_LINKED \<Rightarrow> list_linked_impl_init mem l1
           | LIST_IMPL_ARRAY_CHUNK \<Rightarrow> list_array_chunk_impl_init mem l1
           | LIST_IMPL_INVALID \<Rightarrow> (- 1, list_zeroed))"

text \<open>\<open>list_destroy\<close> hands every chunk or node back to \<open>kmem_free\<close>: the addresses freed.\<close>

definition list_destroy :: "'e list_t \<Rightarrow> nat list \<times> 'e list_t" where
  "list_destroy l =
     (case list_state l of
        None \<Rightarrow> ([], l)
      | Some (Array_state cap cs) \<Rightarrow> (map ch_addr cs, l\<lparr>list_state := None\<rparr>)
      | Some (Linked_state ns) \<Rightarrow> (map nd_addr ns, l\<lparr>list_state := None\<rparr>))"

definition list_alloc :: "nat option \<Rightarrow> 'e \<Rightarrow> 'e list_t \<Rightarrow> nat option \<times> 'e list_t" where
  "list_alloc mem z l =
     (case list_state l of
        None \<Rightarrow> (None, l)
      | Some (Array_state cap cs) \<Rightarrow>
          (case list_array_chunk_alloc (elem_size l) z mem cap cs of
             (r, cs') \<Rightarrow> (r, l\<lparr>list_state := Some (Array_state cap cs')\<rparr>))
      | Some (Linked_state ns) \<Rightarrow>
          (case list_linked_alloc z mem ns of
             (r, ns') \<Rightarrow> (r, l\<lparr>list_state := Some (Linked_state ns')\<rparr>)))"

definition list_remove :: "nat \<Rightarrow> 'e list_t \<Rightarrow> int \<times> 'e list_t" where
  "list_remove p l =
     (case list_state l of
        None \<Rightarrow> (- 1, l)
      | Some (Array_state cap cs) \<Rightarrow>
          (case list_array_chunk_remove (elem_size l) p cs of
             (r, cs') \<Rightarrow> (r, l\<lparr>list_state := Some (Array_state cap cs')\<rparr>))
      | Some (Linked_state ns) \<Rightarrow>
          (case list_linked_remove p ns of
             (r, ns') \<Rightarrow> (r, l\<lparr>list_state := Some (Linked_state ns')\<rparr>)))"

text \<open>An iterator bound to a list: the chain it has still to walk.\<close>

datatype 'e list_iter =
    Array_iter nat "'e array_chunk list" nat
  | Linked_iter "'e linked_node list"
  | No_iter

definition list_first :: "'e list_t \<Rightarrow> (nat \<times> 'e) option \<times> 'e list_iter" where
  "list_first l =
     (case list_state l of
        None \<Rightarrow> (None, No_iter)
      | Some (Array_state cap cs) \<Rightarrow>
          (case list_array_chunk_first (elem_size l) cs of
             (r, cs', i) \<Rightarrow> (r, Array_iter (elem_size l) cs' i))
      | Some (Linked_state ns) \<Rightarrow> (case list_linked_first ns of (r, ns') \<Rightarrow> (r, Linked_iter ns')))"

fun list_next :: "'e list_iter \<Rightarrow> (nat \<times> 'e) option \<times> 'e list_iter" where
  "list_next No_iter = (None, No_iter)"
| "list_next (Array_iter es cs i) =
     (case list_array_chunk_next es cs i of (r, cs', i') \<Rightarrow> (r, Array_iter es cs' i'))"
| "list_next (Linked_iter ns) = (case list_linked_next ns of (r, ns') \<Rightarrow> (r, Linked_iter ns'))"

text \<open>
  The elements in iteration order, and a write through an element pointer; clients that walk
  the list with \<open>list_first\<close> and \<open>list_next\<close> see this sequence.
\<close>

definition chunk_view :: "nat \<Rightarrow> 'e array_chunk \<Rightarrow> (nat \<times> 'e) list" where
  "chunk_view es c =
     map (\<lambda>i. (slot_ptr es (ch_addr c) i, the (ch_slots c ! i)))
       (filter (\<lambda>i. ch_slots c ! i \<noteq> None) [0..<length (ch_slots c)])"

definition node_view :: "'e linked_node \<Rightarrow> nat \<times> 'e" where
  "node_view n = (node_ptr (nd_addr n), nd_payload n)"

definition list_view :: "'e list_t \<Rightarrow> (nat \<times> 'e) list" where
  "list_view l =
     (case list_state l of
        None \<Rightarrow> []
      | Some (Array_state cap cs) \<Rightarrow> concat (map (chunk_view (elem_size l)) cs)
      | Some (Linked_state ns) \<Rightarrow> map node_view ns)"

definition chunk_write :: "nat \<Rightarrow> nat \<Rightarrow> 'e \<Rightarrow> 'e array_chunk \<Rightarrow> 'e array_chunk" where
  "chunk_write es p e c =
     c\<lparr>ch_slots := map (\<lambda>i. if slot_ptr es (ch_addr c) i = p \<and> ch_slots c ! i \<noteq> None
                             then Some e else ch_slots c ! i) [0..<length (ch_slots c)]\<rparr>"

definition list_write :: "nat \<Rightarrow> 'e \<Rightarrow> 'e list_t \<Rightarrow> 'e list_t" where
  "list_write p e l =
     (case list_state l of
        None \<Rightarrow> l
      | Some (Array_state cap cs) \<Rightarrow>
          l\<lparr>list_state := Some (Array_state cap (map (chunk_write (elem_size l) p e) cs))\<rparr>
      | Some (Linked_state ns) \<Rightarrow>
          l\<lparr>list_state := Some (Linked_state
             (map (\<lambda>n. if node_ptr (nd_addr n) = p then n\<lparr>nd_payload := e\<rparr> else n) ns))\<rparr>)"

subsection \<open>Well-formed lists\<close>

text \<open>
  The heap blocks behind a list, newest first.  A list is well formed when the blocks do not
  overlap (they all come from \<open>kmem_alloc\<close>) and its elements are of a realistic size.
\<close>

definition chunk_block :: "nat \<Rightarrow> nat \<Rightarrow> nat \<Rightarrow> nat set" where
  "chunk_block es addr cap = {addr..<addr + 16 + list_array_stride es * cap}"

definition node_block :: "nat \<Rightarrow> nat \<Rightarrow> nat set" where
  "node_block es addr = {addr..<addr + 8 + es}"

definition list_blocks :: "'e list_t \<Rightarrow> nat set list" where
  "list_blocks l =
     (case list_state l of
        None \<Rightarrow> []
      | Some (Array_state cap cs) \<Rightarrow> map (\<lambda>c. chunk_block (elem_size l) (ch_addr c) (length (ch_slots c))) cs
      | Some (Linked_state ns) \<Rightarrow> map (\<lambda>n. node_block (elem_size l) (nd_addr n)) ns)"

definition list_ok :: "'e list_t \<Rightarrow> bool" where
  "list_ok l \<longleftrightarrow> 0 < elem_size l \<and> elem_size l + 15 < 2 ^ 32
     \<and> sorted_wrt (\<lambda>A B. A \<inter> B = {}) (list_blocks l)"

text \<open>What \<open>kmem_alloc\<close> promises: a new block overlaps none of the list's blocks.\<close>

definition fresh_for :: "'e list_t \<Rightarrow> nat option \<Rightarrow> bool" where
  "fresh_for l mem =
     (case mem of
        None \<Rightarrow> True
      | Some a \<Rightarrow>
          (case list_state l of
             None \<Rightarrow> True
           | Some (Array_state cap cs) \<Rightarrow> chunk_block (elem_size l) a cap \<inter> \<Union>(set (list_blocks l)) = {}
           | Some (Linked_state ns) \<Rightarrow> node_block (elem_size l) a \<inter> \<Union>(set (list_blocks l)) = {}))"

definition inserted :: "'a \<Rightarrow> 'a list \<Rightarrow> 'a list \<Rightarrow> bool" where
  "inserted x old new \<longleftrightarrow> (\<exists>xs ys. old = xs @ ys \<and> new = xs @ x # ys)"

lemma insertedI: "old = xs @ ys \<Longrightarrow> new = xs @ x # ys \<Longrightarrow> inserted x old new"
  by (auto simp: inserted_def)

lemma inserted_Cons [simp]: "inserted x xs (x # xs)"
  by (rule insertedI [of _ "[]"]) simp_all

lemma inserted_append_left: "inserted x old new \<Longrightarrow> inserted x (zs @ old) (zs @ new)"
  unfolding inserted_def by (metis append_assoc)

lemma inserted_append_right: "inserted x old new \<Longrightarrow> inserted x (old @ zs) (new @ zs)"
  unfolding inserted_def by (metis append_assoc append_Cons)

lemma inserted_set: "inserted x old new \<Longrightarrow> set new = insert x (set old)"
  by (auto simp: inserted_def)

lemma inserted_map: "inserted x old new \<Longrightarrow> inserted (f x) (map f old) (map f new)"
  unfolding inserted_def by (metis map_append list.map(2))

lemma inserted_length: "inserted x old new \<Longrightarrow> length new = Suc (length old)"
  by (auto simp: inserted_def)

lemma inserted_distinct: "inserted x old new \<Longrightarrow> distinct new \<longleftrightarrow> distinct old \<and> x \<notin> set old"
  by (auto simp: inserted_def)

lemma inserted_remove1: "inserted x old new \<Longrightarrow> x \<notin> set old \<Longrightarrow> old = remove1 x new"
  by (auto simp: inserted_def remove1_append)

lemma inserted_filter:
  "inserted x old new \<Longrightarrow> (if P x then inserted x (filter P old) (filter P new) else filter P new = filter P old)"
  unfolding inserted_def by (metis filter_append filter.simps(2))

lemma stride_ge: "0 < es \<Longrightarrow> es + 15 < 2 ^ 32 \<Longrightarrow> 8 < list_array_stride es"
proof -
  assume es: "0 < es" "es + 15 < 2 ^ 32"
  define q where "q = (es + 15) div 8"
  have "2 \<le> q" using es(1) by (simp add: q_def less_eq_div_iff_mult_less_eq)
  moreover have "list_array_stride es = q * 8"
    using es by (simp add: list_array_stride_def Let_def add32_exact q_def minus_mod_eq_div_mult)
  ultimately show ?thesis by simp
qed

lemma slot_ptr_inj:
  "0 < es \<Longrightarrow> es + 15 < 2 ^ 32 \<Longrightarrow> slot_ptr es a i = slot_ptr es a j \<longleftrightarrow> i = j"
  using stride_ge [of es] by (simp add: slot_ptr_def)

lemma slot_ptr_block:
  assumes "0 < es" "es + 15 < 2 ^ 32" "i < cap"
  shows "slot_ptr es a i \<in> chunk_block es a cap"
proof -
  have "list_array_stride es * i + list_array_stride es \<le> list_array_stride es * cap"
    using assms(3) mult_le_mono2 [of "Suc i" cap "list_array_stride es"] by simp
  with stride_ge [OF assms(1,2)] show ?thesis by (simp add: slot_ptr_def chunk_block_def)
qed

lemma chunk_view_mem:
  "(p, e) \<in> set (chunk_view es c) \<longleftrightarrow>
    (\<exists>i<length (ch_slots c). p = slot_ptr es (ch_addr c) i \<and> ch_slots c ! i = Some e)"
  by (force simp: chunk_view_def)

lemma chunk_view_block:
  assumes "0 < es" "es + 15 < 2 ^ 32" "p \<in> fst ` set (chunk_view es c)"
  shows "p \<in> chunk_block es (ch_addr c) (length (ch_slots c))"
  using assms slot_ptr_block by (force simp: chunk_view_mem)

lemma chunk_view_distinct:
  assumes "0 < es" "es + 15 < 2 ^ 32"
  shows "distinct (map fst (chunk_view es c))"
  unfolding chunk_view_def map_map o_def fst_conv
  using slot_ptr_inj [OF assms] by (intro distinct_map [THEN iffD2]) (auto simp: inj_on_def)

lemma chunk_view_put:
  assumes "i < length (ch_slots c)" "ch_slots c ! i = None"
  shows "inserted (slot_ptr es (ch_addr c) i, z) (chunk_view es c)
    (chunk_view es (c\<lparr>ch_slots := (ch_slots c)[i := Some z]\<rparr>))"
proof -
  let ?n = "length (ch_slots c)" and ?f = "\<lambda>j. (slot_ptr es (ch_addr c) j, the (ch_slots c ! j))"
  let ?P = "\<lambda>j. ch_slots c ! j \<noteq> None"
  have u: "[0..<?n] = [0..<i] @ i # [Suc i..<?n]"
    using assms(1) upt_add_eq_append [of 0 i "?n - i"] by (simp add: upt_conv_Cons)
  have old: "chunk_view es c = map ?f (filter ?P [0..<i]) @ map ?f (filter ?P [Suc i..<?n])"
    using assms(2) by (simp add: chunk_view_def u)
  let ?c = "c\<lparr>ch_slots := (ch_slots c)[i := Some z]\<rparr>"
  have same: "map (\<lambda>j. (slot_ptr es (ch_addr c) j, the ((ch_slots c)[i := Some z] ! j)))
       (filter (\<lambda>j. (ch_slots c)[i := Some z] ! j \<noteq> None) xs) = map ?f (filter ?P xs)"
    if "i \<notin> set xs" for xs
    using that by (induction xs) auto
  have new: "chunk_view es ?c = map ?f (filter ?P [0..<i]) @ (slot_ptr es (ch_addr c) i, z)
      # map ?f (filter ?P [Suc i..<?n])"
    using assms by (simp add: chunk_view_def u same del: not_None_eq)
  show ?thesis using old new by (rule insertedI)
qed

lemma first_free_some:
  "first_free ss = Some i \<Longrightarrow> i < length ss \<and> ss ! i = None"
  by (induction ss arbitrary: i rule: first_free.induct) auto

lemma first_free_none: "first_free ss = None \<longleftrightarrow> None \<notin> set ss"
  by (induction ss rule: first_free.induct) auto

text \<open>Clearing a used slot is putting it, read backwards.\<close>

lemma chunk_view_clear:
  assumes "i < length (ch_slots c)" "ch_slots c ! i = Some e"
  shows "inserted (slot_ptr es (ch_addr c) i, e) (chunk_view es (c\<lparr>ch_slots := (ch_slots c)[i := None]\<rparr>)) (chunk_view es c)"
proof -
  let ?c = "c\<lparr>ch_slots := (ch_slots c)[i := None]\<rparr>"
  have "(ch_slots c)[i := Some e] = ch_slots c" using assms by (metis list_update_id)
  with chunk_view_put [of i ?c es e] assms show ?thesis by simp
qed

lemma array_reuse_ok:
  assumes "array_reuse es z cs = Some (p, cs')"
  shows "inserted (p, z) (concat (map (chunk_view es) cs)) (concat (map (chunk_view es) cs'))
    \<and> map (\<lambda>c. (ch_addr c, length (ch_slots c))) cs' = map (\<lambda>c. (ch_addr c, length (ch_slots c))) cs"
  using assms
proof (induction cs arbitrary: cs')
  case (Cons c cs)
  show ?case
  proof (cases "first_free (ch_slots c)")
    case None
    then obtain cs'' where "array_reuse es z cs = Some (p, cs'')" "cs' = c # cs''" using Cons.prems by auto
    with Cons.IH show ?thesis by (auto intro: inserted_append_left)
  next
    case (Some i)
    then show ?thesis
      using Cons.prems first_free_some [OF Some] chunk_view_put [of i c es z]
      by (auto intro: inserted_append_right)
  qed
qed simp

lemma chunk_view_new:
  "0 < cap \<Longrightarrow> chunk_view es \<lparr>ch_addr = a, ch_slots = Some z # replicate (cap - Suc 0) None\<rparr> = [(slot_ptr es a 0, z)]"
proof -
  assume "0 < cap"
  then have "[0..<cap] = 0 # [1..<cap]" by (simp add: upt_conv_Cons)
  moreover have "filter (\<lambda>i. (Some z # replicate (cap - Suc 0) None) ! i \<noteq> None) [1..<cap] = []"
    by (auto simp: filter_empty_conv nth_Cons')
  ultimately show ?thesis using \<open>0 < cap\<close> by (simp add: chunk_view_def)
qed

text \<open>\<open>list_alloc\<close> adds one zeroed element whose pointer is new, or fails and changes nothing.\<close>

lemma list_alloc_view:
  assumes "list_alloc mem z l = (r, l')"
  shows "(case r of None \<Rightarrow> list_view l' = list_view l | Some p \<Rightarrow> inserted (p, z) (list_view l) (list_view l'))"
proof (cases "list_state l")
  case (Some st)
  show ?thesis
  proof (cases st)
    case (Array_state cap cs)
    show ?thesis
    proof (cases "array_reuse (elem_size l) z cs")
      case None
      then show ?thesis
        using assms Some Array_state
        by (auto simp: list_alloc_def list_array_chunk_alloc_def list_view_def chunk_view_new
            split: if_splits option.splits)
    next
      case (Some q)
      then show ?thesis
        using assms \<open>list_state l = Some st\<close> Array_state array_reuse_ok [of "elem_size l" z cs]
        by (cases q) (auto simp: list_alloc_def list_array_chunk_alloc_def list_view_def split: if_splits)
    qed
  next
    case (Linked_state ns)
    then show ?thesis
      using assms Some
      by (auto simp: list_alloc_def list_linked_alloc_def list_view_def node_view_def
          split: option.splits)
  qed
qed (use assms in \<open>auto simp: list_alloc_def\<close>)

lemma same_shape_blocks:
  assumes "map (\<lambda>c. (ch_addr c, length (ch_slots c))) cs' = map (\<lambda>c. (ch_addr c, length (ch_slots c))) cs"
  shows "map (\<lambda>c. chunk_block es (ch_addr c) (length (ch_slots c))) cs'
    = map (\<lambda>c. chunk_block es (ch_addr c) (length (ch_slots c))) cs"
  using arg_cong [OF assms, of "map (\<lambda>(a, n). chunk_block es a n)"] by (simp add: o_def)

lemma list_alloc_ok:
  assumes "list_ok l" "fresh_for l mem" "list_alloc mem z l = (r, l')"
  shows "list_ok l'"
proof (cases "list_state l")
  case (Some st)
  show ?thesis
  proof (cases st)
    case (Array_state cap cs)
    show ?thesis
    proof (cases "array_reuse (elem_size l) z cs")
      case None
      then show ?thesis
        using assms Some Array_state
        by (auto simp: list_alloc_def list_array_chunk_alloc_def list_ok_def list_blocks_def fresh_for_def
            split: if_splits option.splits) blast
    next
      case (Some q)
      obtain p cs' where q: "q = (p, cs')" by (cases q)
      have "map (\<lambda>c. chunk_block (elem_size l) (ch_addr c) (length (ch_slots c))) cs'
          = map (\<lambda>c. chunk_block (elem_size l) (ch_addr c) (length (ch_slots c))) cs"
        by (rule same_shape_blocks) (use array_reuse_ok [of "elem_size l" z cs p cs'] Some q in simp)
      then show ?thesis
        using assms \<open>list_state l = Some st\<close> Array_state Some q
        by (auto simp: list_alloc_def list_array_chunk_alloc_def list_ok_def list_blocks_def split: if_splits)
    qed
  next
    case (Linked_state ns)
    then show ?thesis
      using assms Some
      by (auto simp: list_alloc_def list_linked_alloc_def list_ok_def list_blocks_def fresh_for_def
          split: option.splits) blast
  qed
qed (use assms in \<open>auto simp: list_alloc_def\<close>)

text \<open>No two live elements share a pointer.\<close>

lemma concat_chunk_distinct:
  assumes "0 < es" "es + 15 < 2 ^ 32"
    "sorted_wrt (\<lambda>A B. A \<inter> B = {}) (map (\<lambda>c. chunk_block es (ch_addr c) (length (ch_slots c))) cs)"
  shows "distinct (map fst (concat (map (chunk_view es) cs)))"
  using assms(3)
proof (induction cs)
  case (Cons c cs)
  have "fst ` set (chunk_view es c) \<inter> fst ` set (concat (map (chunk_view es) cs)) = {}"
    using Cons.prems chunk_view_block [OF assms(1,2)] by fastforce
  with Cons chunk_view_distinct [OF assms(1,2), of c] show ?case by auto
qed simp

lemma nodes_distinct:
  assumes "sorted_wrt (\<lambda>A B. A \<inter> B = {}) (map (\<lambda>n. node_block es (nd_addr n)) ns)"
  shows "distinct (map nd_addr ns)"
  using assms
proof (induction ns)
  case (Cons n ns)
  have "nd_addr n \<in> node_block es (nd_addr n)" by (simp add: node_block_def)
  moreover have "nd_addr m \<in> node_block es (nd_addr m)" for m by (simp add: node_block_def)
  ultimately have "nd_addr n \<notin> nd_addr ` set ns" using Cons.prems by fastforce
  with Cons show ?case by simp
qed simp

lemma list_view_distinct:
  assumes "list_ok l"
  shows "distinct (map fst (list_view l))"
proof (cases "list_state l")
  case (Some st)
  show ?thesis
  proof (cases st)
    case (Array_state cap cs)
    with Some assms show ?thesis
      using concat_chunk_distinct [of "elem_size l" cs]
      by (simp add: list_ok_def list_blocks_def list_view_def)
  next
    case (Linked_state ns)
    with Some assms have "distinct (map nd_addr ns)"
      by (auto simp: list_ok_def list_blocks_def intro: nodes_distinct)
    with Some Linked_state show ?thesis
      by (auto simp: list_view_def node_view_def node_ptr_def o_def distinct_map inj_on_def)
  qed
qed (simp add: list_view_def)

subsection \<open>Removal, writes and iteration\<close>

lemma set_slot_view:
  assumes "k < length cs" "i < length (ch_slots (cs ! k))" "ch_slots (cs ! k) ! i = Some e"
  shows "inserted (slot_ptr es (ch_addr (cs ! k)) i, e)
    (concat (map (chunk_view es) (set_slot k i None cs))) (concat (map (chunk_view es) cs))"
proof -
  let ?c = "(cs ! k)\<lparr>ch_slots := (ch_slots (cs ! k))[i := None]\<rparr>"
  have cs: "cs = take k cs @ cs ! k # drop (Suc k) cs" using assms(1) by (rule id_take_nth_drop)
  have "set_slot k i None cs = take k cs @ ?c # drop (Suc k) cs"
    using assms(1) by (simp add: set_slot_def upd_conv_take_nth_drop)
  then have new: "concat (map (chunk_view es) (set_slot k i None cs)) =
      concat (map (chunk_view es) (take k cs)) @ chunk_view es ?c @ concat (map (chunk_view es) (drop (Suc k) cs))"
    by simp
  have old: "concat (map (chunk_view es) cs) =
      concat (map (chunk_view es) (take k cs)) @ chunk_view es (cs ! k) @ concat (map (chunk_view es) (drop (Suc k) cs))"
    by (subst cs) simp
  show ?thesis
    unfolding new old
    by (intro inserted_append_left inserted_append_right chunk_view_clear assms(2,3))
qed

lemma array_find_some:
  "array_find es p cs = Some (k, i) \<Longrightarrow>
    k < length cs \<and> i < length (ch_slots (cs ! k)) \<and> slot_ptr es (ch_addr (cs ! k)) i = p"
proof (induction cs arbitrary: k)
  case (Cons c cs)
  then show ?case by (auto split: option.splits simp: find_Some_iff)
qed simp

lemma array_find_none:
  "array_find es p cs = None \<Longrightarrow> c \<in> set cs \<Longrightarrow> i < length (ch_slots c) \<Longrightarrow> slot_ptr es (ch_addr c) i \<noteq> p"
proof (induction cs)
  case (Cons d cs)
  then show ?case by (auto split: option.splits simp: find_None_iff)
qed simp

text \<open>Within a well-formed list an address names one slot.\<close>

lemma slot_unique:
  assumes "0 < es" "es + 15 < 2 ^ 32"
    "sorted_wrt (\<lambda>A B. A \<inter> B = {}) (map (\<lambda>c. chunk_block es (ch_addr c) (length (ch_slots c))) cs)"
    "k < length cs" "k' < length cs" "i < length (ch_slots (cs ! k))" "i' < length (ch_slots (cs ! k'))"
    "slot_ptr es (ch_addr (cs ! k)) i = slot_ptr es (ch_addr (cs ! k')) i'"
  shows "k = k' \<and> i = i'"
proof -
  let ?b = "\<lambda>k. chunk_block es (ch_addr (cs ! k)) (length (ch_slots (cs ! k)))"
  have dis: "?b a \<inter> ?b b = {}" if "a < b" "b < length cs" for a b
    using assms(3) that by (simp add: sorted_wrt_iff_nth_less)
  have "slot_ptr es (ch_addr (cs ! k)) i \<in> ?b k" "slot_ptr es (ch_addr (cs ! k')) i' \<in> ?b k'"
    using slot_ptr_block [OF assms(1,2)] assms(6,7) by auto
  then have "k = k'" using dis [of k k'] dis [of k' k] assms(4,5,8) by (cases k k' rule: linorder_cases) auto
  with assms(8) slot_ptr_inj [OF assms(1,2)] show ?thesis by simp
qed

lemma list_remove_live:
  assumes ok: "list_ok l" and mem: "(p, e) \<in> set (list_view l)"
  shows "\<exists>l'. list_remove p l = (0, l') \<and> inserted (p, e) (list_view l') (list_view l)"
proof (cases "list_state l")
  case (Some st)
  show ?thesis
  proof (cases st)
    case (Array_state cap cs)
    let ?es = "elem_size l"
    have es: "0 < ?es" "?es + 15 < 2 ^ 32"
      and blk: "sorted_wrt (\<lambda>A B. A \<inter> B = {}) (map (\<lambda>c. chunk_block ?es (ch_addr c) (length (ch_slots c))) cs)"
      using ok Some Array_state by (auto simp: list_ok_def list_blocks_def)
    obtain c where "c \<in> set cs" "(p, e) \<in> set (chunk_view ?es c)"
      using mem Some Array_state by (auto simp: list_view_def)
    then obtain k i where k: "k < length cs" "i < length (ch_slots (cs ! k))"
      "p = slot_ptr ?es (ch_addr (cs ! k)) i" "ch_slots (cs ! k) ! i = Some e"
      by (auto simp: chunk_view_mem) (metis in_set_conv_nth)
    obtain k' i' where f: "array_find ?es p cs = Some (k', i')"
      using array_find_none [of ?es p cs "cs ! k" i] k by (cases "array_find ?es p cs") auto
    from array_find_some [OF f] slot_unique [OF es blk, of k' k i' i] k have "k' = k" "i' = i" by auto
    with f k have "list_remove p l = (0, l\<lparr>list_state := Some (Array_state cap (set_slot k i None cs))\<rparr>)"
      using Some Array_state by (simp add: list_remove_def list_array_chunk_remove_def)
    with set_slot_view [OF k(1,2,4), of ?es] k(3) Some Array_state show ?thesis
      by (auto simp: list_view_def)
  next
    case (Linked_state ns)
    have "inserted (p, e) (map node_view (snd (list_linked_remove p ns))) (map node_view ns)
        \<and> fst (list_linked_remove p ns) = 0"
      if "(p, e) \<in> set (map node_view ns)" "distinct (map nd_addr ns)"
      using that
    proof (induction ns)
      case (Cons n ns)
      show ?case
      proof (cases "node_ptr (nd_addr n) = p")
        case True
        then have "node_view n = (p, e)"
          using Cons.prems by (force simp: node_view_def node_ptr_def)
        with True show ?thesis by simp
      next
        case False
        then have m: "(p, e) \<in> set (map node_view ns)" using Cons.prems by (auto simp: node_view_def)
        from Cons.IH [OF m] Cons.prems False show ?thesis
          using inserted_append_left [of "(p, e)" _ _ "[node_view n]"] by (auto split: prod.splits)
      qed
    qed simp
    moreover have "distinct (map nd_addr ns)"
      using ok Some Linked_state by (auto simp: list_ok_def list_blocks_def intro: nodes_distinct)
    ultimately show ?thesis
      using mem Some Linked_state by (auto simp: list_remove_def list_view_def split: prod.splits)
  qed
qed (use mem in \<open>simp add: list_view_def\<close>)

lemma list_remove_dead:
  assumes "p \<notin> fst ` set (list_view l)"
  shows "list_remove p l = (- 1, l)"
proof (cases "list_state l")
  case (Some st)
  show ?thesis
  proof (cases st)
    case (Array_state cap cs)
    have "list_array_chunk_remove (elem_size l) p cs = (- 1, cs)"
    proof (cases "array_find (elem_size l) p cs")
      case (Some q)
      obtain k i where q: "q = (k, i)" by (cases q)
      note f = array_find_some [OF Some [unfolded q]]
      have "ch_slots (cs ! k) ! i = None"
      proof (rule ccontr)
        assume "ch_slots (cs ! k) ! i \<noteq> None"
        then obtain e where "ch_slots (cs ! k) ! i = Some e" by auto
        with f have "(p, e) \<in> set (chunk_view (elem_size l) (cs ! k))" by (auto simp: chunk_view_mem)
        with f have "(p, e) \<in> set (list_view l)"
          using \<open>list_state l = Some st\<close> Array_state nth_mem [of k cs]
          by (fastforce simp: list_view_def)
        with assms show False by force
      qed
      with Some q show ?thesis by (simp add: list_array_chunk_remove_def)
    qed (simp add: list_array_chunk_remove_def)
    with Some Array_state show ?thesis by (simp add: list_remove_def)
  next
    case (Linked_state ns)
    have "list_linked_remove p ns = (- 1, ns)" if "p \<notin> fst ` set (map node_view ns)"
      using that by (induction ns) (auto simp: node_view_def)
    with Some Linked_state assms show ?thesis by (simp add: list_remove_def list_view_def)
  qed
qed (simp add: list_remove_def)

lemma list_remove_ok:
  assumes "list_ok l" "list_remove p l = (r, l')"
  shows "list_ok l'"
proof (cases "list_state l")
  case (Some st)
  show ?thesis
  proof (cases st)
    case (Array_state cap cs)
    have "map (\<lambda>c. (ch_addr c, length (ch_slots c))) (set_slot k i v cs) = map (\<lambda>c. (ch_addr c, length (ch_slots c))) cs"
      for k i v
      by (cases "k < length cs") (auto intro!: nth_equalityI simp: set_slot_def nth_list_update)
    note blk = same_shape_blocks [OF this, of "elem_size l"]
    from assms Some Array_state show ?thesis
      by (auto simp: list_remove_def list_array_chunk_remove_def list_ok_def list_blocks_def blk
          split: if_splits option.splits)
  next
    case (Linked_state ns)
    have "sorted_wrt (\<lambda>A B. A \<inter> B = {}) (map f ns) \<Longrightarrow>
       sorted_wrt (\<lambda>A B. A \<inter> B = {}) (map f (snd (list_linked_remove p ns)))
       \<and> set (snd (list_linked_remove p ns)) \<subseteq> set ns" for f :: "'a linked_node \<Rightarrow> nat set"
      by (induction ns; auto split: prod.splits; blast)
    with assms Some Linked_state show ?thesis
      by (auto simp: list_remove_def list_ok_def list_blocks_def split: prod.splits)
  qed
qed (use assms in \<open>auto simp: list_remove_def\<close>)

lemma chunk_write_view:
  "chunk_view es (chunk_write es p e c) = map (\<lambda>(q, x). (q, if q = p then e else x)) (chunk_view es c)"
proof -
  let ?ss = "ch_slots c"
  have n: "ch_slots (chunk_write es p e c) ! i =
      (if slot_ptr es (ch_addr c) i = p \<and> ?ss ! i \<noteq> None then Some e else ?ss ! i)" if "i < length ?ss" for i
    using that by (simp add: chunk_write_def)
  have f: "filter (\<lambda>i. ch_slots (chunk_write es p e c) ! i \<noteq> None) [0..<length ?ss]
      = filter (\<lambda>i. ?ss ! i \<noteq> None) [0..<length ?ss]"
    using n by (intro filter_cong) auto
  have len: "length (ch_slots (chunk_write es p e c)) = length ?ss" "ch_addr (chunk_write es p e c) = ch_addr c"
    by (simp_all add: chunk_write_def)
  show ?thesis
    unfolding chunk_view_def len f map_map by (rule map_cong) (auto simp: n)
qed

lemma list_write_view:
  "list_view (list_write p e l) = map (\<lambda>(q, x). (q, if q = p then e else x)) (list_view l)"
  by (auto simp: list_write_def list_view_def chunk_write_view map_concat o_def node_view_def
      split: option.splits list_state.splits)

lemma list_write_ok: "list_ok l \<Longrightarrow> list_ok (list_write p e l)"
  by (auto simp: list_ok_def list_write_def list_blocks_def chunk_write_def o_def if_distrib
      split: option.splits list_state.splits cong: if_cong)

text \<open>What an iterator has still to return.\<close>

definition chunk_view_from :: "nat \<Rightarrow> nat \<Rightarrow> 'e array_chunk \<Rightarrow> (nat \<times> 'e) list" where
  "chunk_view_from es i c =
     map (\<lambda>j. (slot_ptr es (ch_addr c) j, the (ch_slots c ! j)))
       (filter (\<lambda>j. ch_slots c ! j \<noteq> None) [i..<length (ch_slots c)])"

fun iter_rest :: "'e list_iter \<Rightarrow> (nat \<times> 'e) list" where
  "iter_rest No_iter = []"
| "iter_rest (Array_iter es [] i) = []"
| "iter_rest (Array_iter es (c # cs) i) = chunk_view_from es i c @ concat (map (chunk_view es) cs)"
| "iter_rest (Linked_iter ns) = map node_view (tl ns)"

lemma find_filter: "List.find P xs = (case filter P xs of [] \<Rightarrow> None | x # _ \<Rightarrow> Some x)"
  by (induction xs) auto

lemma filter_upt_hd:
  "filter P [i..<n] = j # js \<Longrightarrow> js = filter P [Suc j..<n]"
proof (induction "n - i" arbitrary: i)
  case (Suc k)
  then have "[i..<n] = i # [Suc i..<n]" "k = n - Suc i" by (auto simp: upt_conv_Cons)
  with Suc.hyps(1) [of "Suc i"] Suc.prems show ?case by (auto split: if_splits)
qed simp

lemma chunk_view_from_next:
  "(case next_used (ch_slots c) i of
      None \<Rightarrow> chunk_view_from es i c = []
    | Some j \<Rightarrow> chunk_view_from es i c =
        (slot_ptr es (ch_addr c) j, the (ch_slots c ! j)) # chunk_view_from es (Suc j) c)"
  by (auto simp: next_used_def find_filter chunk_view_from_def simp del: not_None_eq
      split: list.splits dest: filter_upt_hd)

lemma array_next_rest:
  "list_array_chunk_next es cs i = (r, cs', i') \<Longrightarrow>
    (case iter_rest (Array_iter es cs i) of
       [] \<Rightarrow> r = None \<and> iter_rest (Array_iter es cs' i') = []
     | x # xs \<Rightarrow> r = Some x \<and> iter_rest (Array_iter es cs' i') = xs)"
proof (induction cs arbitrary: i)
  case (Cons c cs)
  show ?case
  proof (cases "next_used (ch_slots c) i")
    case None
    have "iter_rest (Array_iter es cs 0) = concat (map (chunk_view es) cs)"
      by (cases cs) (auto simp: chunk_view_from_def chunk_view_def)
    with Cons.IH [of 0] Cons.prems None chunk_view_from_next [where c = c and i = i and es = es]
    show ?thesis by simp
  next
    case (Some j)
    then show ?thesis using Cons.prems chunk_view_from_next [where c = c and i = i and es = es] by auto
  qed
qed simp

lemma list_next_rest:
  "list_next it = (r, it') \<Longrightarrow>
    (case iter_rest it of [] \<Rightarrow> r = None \<and> iter_rest it' = [] | x # xs \<Rightarrow> r = Some x \<and> iter_rest it' = xs)"
proof (cases it)
  case (Array_iter es cs i)
  assume "list_next it = (r, it')"
  then show ?thesis using array_next_rest [of es cs i] Array_iter by (auto split: prod.splits)
next
  case (Linked_iter ns)
  assume "list_next it = (r, it')"
  then show ?thesis
    using Linked_iter by (auto simp: list_linked_next_def node_view_def split: list.splits)
qed simp

lemma list_first_rest:
  assumes "list_first l = (r, it)"
  shows "(case list_view l of [] \<Rightarrow> r = None \<and> iter_rest it = [] | x # xs \<Rightarrow> r = Some x \<and> iter_rest it = xs)"
proof (cases "list_state l")
  case (Some st)
  show ?thesis
  proof (cases st)
    case (Array_state cap cs)
    have "iter_rest (Array_iter (elem_size l) cs 0) = list_view l"
      using Some Array_state by (cases cs) (auto simp: list_view_def chunk_view_from_def chunk_view_def)
    then show ?thesis
      using assms Some Array_state array_next_rest [of "elem_size l" cs 0]
      by (auto simp: list_first_def list_array_chunk_first_def split: prod.splits)
  next
    case (Linked_state ns)
    then show ?thesis using assms Some
      by (auto simp: list_first_def list_linked_first_def list_view_def node_view_def split: list.splits)
  qed
qed (use assms in \<open>auto simp: list_first_def list_view_def\<close>)

subsection \<open>The contract clients rely on\<close>

text \<open>
  An element store: \<open>view\<close> gives the live elements with their pointers in iteration order.
  Adding an element leaves every other pointer where it was, a pointer names at most one element, removal
  takes exactly the named element out and a write changes exactly the named one.  The kernel's
  tables are clients of this contract.
\<close>

locale element_store =
  fixes ok :: "'l \<Rightarrow> bool"
    and fresh :: "'l \<Rightarrow> 'm \<Rightarrow> bool"
    and view :: "'l \<Rightarrow> ('p \<times> 'e) list"
    and alloc :: "'m \<Rightarrow> 'e \<Rightarrow> 'l \<Rightarrow> 'p option \<times> 'l"
    and remove :: "'p \<Rightarrow> 'l \<Rightarrow> int \<times> 'l"
    and put :: "'p \<Rightarrow> 'e \<Rightarrow> 'l \<Rightarrow> 'l"
  assumes alloc_ok: "ok l \<Longrightarrow> fresh l m \<Longrightarrow> alloc m z l = (r, l') \<Longrightarrow> ok l'"
    and alloc_view: "alloc m z l = (r, l') \<Longrightarrow>
      (case r of None \<Rightarrow> view l' = view l | Some p \<Rightarrow> inserted (p, z) (view l) (view l'))"
    and view_distinct: "ok l \<Longrightarrow> distinct (map fst (view l))"
    and remove_ok: "ok l \<Longrightarrow> remove p l = (c, l') \<Longrightarrow> ok l'"
    and remove_live: "ok l \<Longrightarrow> (p, e) \<in> set (view l) \<Longrightarrow>
      \<exists>l'. remove p l = (0, l') \<and> inserted (p, e) (view l') (view l)"
    and remove_dead: "p \<notin> fst ` set (view l) \<Longrightarrow> remove p l = (- 1, l)"
    and put_ok: "ok l \<Longrightarrow> ok (put p e l)"
    and put_view: "view (put p e l) = map (\<lambda>(q, x). (q, if q = p then e else x)) (view l)"
begin

lemma alloc_new_pointer:
  assumes "ok l" "fresh l m" "alloc m z l = (Some p, l')"
  shows "p \<notin> fst ` set (view l) \<and> inserted (p, z) (view l) (view l')"
proof -
  have ins: "inserted (p, z) (view l) (view l')" using alloc_view [OF assms(3)] by simp
  have "distinct (map fst (view l'))" using view_distinct alloc_ok [OF assms] by blast
  with inserted_distinct [OF inserted_map [OF ins, of fst]] ins show ?thesis by simp
qed

lemma pointer_unique: "ok l \<Longrightarrow> (p, e) \<in> set (view l) \<Longrightarrow> (p, e') \<in> set (view l) \<Longrightarrow> e = e'"
  using view_distinct by (metis eq_key_imp_eq_value)

text \<open>A removed element is gone, and everything else stays.\<close>

lemma remove_set:
  assumes "ok l" "(p, e) \<in> set (view l)" "remove p l = (r, l')"
  shows "r = 0 \<and> set (view l') = set (view l) - {(p, e)} \<and> p \<notin> fst ` set (view l') \<and> ok l'"
proof -
  have r: "r = 0" and ins: "inserted (p, e) (view l') (view l)"
    using remove_live [OF assms(1,2)] assms(3) by auto
  have "p \<notin> fst ` set (view l')"
    using inserted_distinct [OF inserted_map [OF ins, of fst]] view_distinct [OF assms(1)] by simp
  then show ?thesis
    using r inserted_set [OF ins] remove_ok [OF assms(1,3)] by force
qed

lemma put_mem:
  "(q, y) \<in> set (view (put p e l)) \<longleftrightarrow>
    (if q = p then y = e \<and> (\<exists>x. (p, x) \<in> set (view l)) else (q, y) \<in> set (view l))"
proof -
  have "(q, y) \<in> (\<lambda>(r, x). (r, if r = p then e else x)) ` A \<longleftrightarrow>
      (if q = p then y = e \<and> (\<exists>x. (p, x) \<in> A) else (q, y) \<in> A)" for A :: "('p \<times> 'e) set"
    by (auto simp: image_iff Bex_def)
  then show ?thesis by (simp add: put_view)
qed

lemma put_set:
  assumes "ok l" "(p, x) \<in> set (view l)"
  shows "set (view (put p e l)) = insert (p, e) (set (view l) - {(p, x)})"
proof (rule set_eqI)
  fix z :: "'p \<times> 'e"
  obtain q y where z: "z = (q, y)" by (cases z)
  show "z \<in> set (view (put p e l)) \<longleftrightarrow> z \<in> insert (p, e) (set (view l) - {(p, x)})"
  proof (cases "q = p")
    case True
    then show ?thesis using assms pointer_unique unfolding z put_mem by (simp, blast)
  qed (simp add: z put_mem)
qed

lemma put_split:
  assumes "ok l" "(p, e) \<in> set (view l)"
  shows "\<exists>as bs. view l = as @ (p, e) # bs \<and> view (put p x l) = as @ (p, x) # bs
    \<and> p \<notin> fst ` set as \<and> p \<notin> fst ` set bs"
proof -
  obtain as bs where v: "view l = as @ (p, e) # bs" using assms(2) by (metis split_list)
  have p: "p \<notin> fst ` set as" "p \<notin> fst ` set bs" using view_distinct [OF assms(1)] v by auto
  then have "map (\<lambda>(q, y). (q, if q = p then x else y)) as = as"
    "map (\<lambda>(q, y). (q, if q = p then x else y)) bs = bs" by (auto intro!: map_idI simp: image_def)
  with v p show ?thesis by (auto simp: put_view)
qed

text \<open>Overwriting an element before removing it makes no difference.\<close>

lemma put_remove:
  assumes "ok l" "(p, e) \<in> set (view l)"
  shows "\<exists>l'. remove p (put p x l) = (0, l') \<and> ok l' \<and> inserted (p, e) (view l') (view l)"
proof -
  obtain as bs where v: "view l = as @ (p, e) # bs" "view (put p x l) = as @ (p, x) # bs"
    "p \<notin> fst ` set as" "p \<notin> fst ` set bs" using put_split [OF assms, of x] by blast
  have ok: "ok (put p x l)" using assms(1) by (rule put_ok)
  have mem: "(p, x) \<in> set (view (put p x l))" by (simp add: v)
  obtain l' where l': "remove p (put p x l) = (0, l')" "inserted (p, x) (view l') (view (put p x l))"
    using remove_live [OF ok mem] by blast
  have "p \<notin> fst ` set (view l')" "ok l'" using remove_set [OF ok mem l'(1)] by auto
  moreover have "view l' = remove1 (p, x) (as @ (p, x) # bs)"
    using inserted_remove1 [OF l'(2)] calculation(1) v(2) by force
  moreover have "(p, x) \<notin> set as" using v(3) by force
  ultimately show ?thesis using l'(1) v(1) by (auto simp: remove1_append intro: insertedI)
qed

text \<open>Filling in a fresh element is adding it with that content.\<close>

lemma alloc_put:
  assumes "ok l" "fresh l m" "alloc m z l = (Some p, l1)"
  shows "inserted (p, e) (view l) (view (put p e l1)) \<and> ok (put p e l1) \<and> p \<notin> fst ` set (view l)"
proof -
  have n: "p \<notin> fst ` set (view l)" "inserted (p, z) (view l) (view l1)" using alloc_new_pointer [OF assms] by auto
  then obtain xs ys where v: "view l = xs @ ys" "view l1 = xs @ (p, z) # ys" by (auto simp: inserted_def)
  have "map (\<lambda>(q, y). (q, if q = p then e else y)) zs = zs" if "p \<notin> fst ` set zs" for zs :: "('p \<times> 'e) list"
    using that by (auto intro!: map_idI simp: image_def)
  with n(1) v have "view (put p e l1) = xs @ (p, e) # ys" by (auto simp: put_view)
  with v n(1) put_ok [OF alloc_ok [OF assms]] show ?thesis by (auto intro: insertedI)
qed

lemma put_pointers: "map fst (view (put p e l)) = map fst (view l)"
  unfolding put_view by (simp add: o_def split_beta)

end

interpretation list_store: element_store list_ok fresh_for list_view list_alloc list_remove list_write
  by unfold_locales
    (auto intro: list_alloc_ok list_view_distinct list_remove_ok list_remove_live list_remove_dead list_write_ok
      dest: list_alloc_view simp: list_write_view)

lemma list_init_view:
  assumes "list_init mem es impl cfg l = (r, l')" "r = 0" "es + 15 < 2 ^ 32"
  shows "list_ok l' \<and> list_view l' = []"
  using assms
  by (auto simp: list_init_def Let_def list_linked_impl_init_def list_array_chunk_impl_init_def list_ok_def
      list_blocks_def list_view_def split: if_splits list_impl.splits option.splits)

subsection \<open>Properties\<close>

text \<open>The results of \<open>n\<close> successive calls of \<open>list_next\<close>.\<close>

primrec nexts :: "nat \<Rightarrow> 'e list_iter \<Rightarrow> (nat \<times> 'e) option list" where
  "nexts 0 it = []"
| "nexts (Suc n) it = (case list_next it of (r, it') \<Rightarrow> r # nexts n it')"

lemma nexts_rest: "nexts (Suc (length (iter_rest it))) it = map Some (iter_rest it) @ [None]"
proof (induction "iter_rest it" arbitrary: it)
  case Nil
  then show ?case using list_next_rest [of it] by (cases "list_next it") auto
next
  case (Cons x xs)
  obtain r it' where n: "list_next it = (r, it')" by (cases "list_next it")
  with list_next_rest [OF n] Cons.hyps(2) have "r = Some x" "iter_rest it' = xs" by (auto split: list.splits)
  with Cons.hyps(1) [of it'] Cons.hyps(2) n show ?case by (metis append_Cons length_Cons list.simps(9) nexts.simps(2) prod.case)
qed

text \<open>
  (C7) A walk with \<open>list_first\<close> and \<open>list_next\<close> over a list that is not modified returns
  every live element exactly once, in the order of the view, and then NULL, on both backends.
\<close>

theorem list_walk_complete:
  "fst (list_first l) # nexts (length (list_view l)) (snd (list_first l)) = map Some (list_view l) @ [None]"
proof -
  obtain r it where f: "list_first l = (r, it)" by (cases "list_first l")
  show ?thesis
  proof (cases "list_view l")
    case Nil
    then show ?thesis using list_first_rest [OF f] f by simp
  next
    case (Cons x xs)
    with list_first_rest [OF f] have "r = Some x" "iter_rest it = xs" by auto
    with Cons f nexts_rest [of it] show ?thesis by simp
  qed
qed

text \<open>
  On both backends \<open>list_alloc\<close> returns a pointer no live element has and adds exactly one zeroed
  element there, without moving any other; \<open>list_remove\<close> of that pointer restores the
  list, and removing it a second time is refused without effect.
\<close>

theorem list_alloc_remove_roundtrip:
  assumes "list_ok l" "fresh_for l mem" "list_alloc mem z l = (Some p, l1)"
  shows "p \<notin> fst ` set (list_view l) \<and> inserted (p, z) (list_view l) (list_view l1)
    \<and> (\<exists>l2. list_remove p l1 = (0, l2) \<and> list_view l2 = list_view l \<and> list_ok l2
         \<and> list_remove p l2 = (- 1, l2))"
proof -
  note new = list_store.alloc_new_pointer [OF assms]
  have ok1: "list_ok l1" using list_store.alloc_ok [OF assms] .
  have mem: "(p, z) \<in> set (list_view l1)" using new inserted_set by fastforce
  obtain l2 where l2: "list_remove p l1 = (0, l2)" "inserted (p, z) (list_view l2) (list_view l1)"
    using list_store.remove_live [OF ok1 mem] by blast
  have gone: "p \<notin> fst ` set (list_view l2)" "list_ok l2"
    using list_store.remove_set [OF ok1 mem l2(1)] by auto
  have "list_view l2 = list_view l"
    using inserted_remove1 [OF l2(2)] inserted_remove1 [OF conjunct2 [OF new]] gone(1) conjunct1 [OF new]
    by (metis fst_conv image_eqI)
  with new l2(1) gone list_store.remove_dead [OF gone(1)] show ?thesis by blast
qed

theorem list_alloc_remove_roundtrip_witness:
  "\<exists>l l1 p. list_init (Some 4096) 24 LIST_IMPL_ARRAY_CHUNK 4 list_zeroed = (0, l :: nat list_t)
     \<and> list_alloc (Some 8192) 0 l = (Some p, l1) \<and> p = 8216
     \<and> (\<exists>l2. list_remove p l1 = (0, l2) \<and> list_view l2 = [])"
proof -
  obtain l :: "nat list_t" where l: "list_init (Some 4096) 24 LIST_IMPL_ARRAY_CHUNK 4 list_zeroed = (0, l)"
    and st: "list_state l = Some (Array_state 4 [])" "elem_size l = 24"
    by (simp add: list_init_def list_array_chunk_impl_init_def)
  have ok: "list_ok l" "list_view l = []" using list_init_view [OF l] by auto
  have fr: "fresh_for l (Some 8192)" by (simp add: fresh_for_def st list_blocks_def)
  obtain l1 where a: "list_alloc (Some 8192) 0 l = (Some 8216, l1)"
    by (simp add: list_alloc_def st list_array_chunk_alloc_def slot_ptr_def)
  from list_alloc_remove_roundtrip [OF ok(1) fr a] ok(2) l a show ?thesis by auto
qed

end
