(* ===== verification/Idtable.thy ===== *)
theory Idtable
  imports Lists
begin

section \<open>Id-addressed tables of kernel objects\<close>

text \<open>
  Model of \<open>src/kernel/idtable.c\<close>: a table of elements that start with a header (id, owner,
  in-use flag), stored in an array-chunk list.  The endpoint and select tables of the IPC layer
  are instances.  An element is its header with the client's body; \<open>z\<close> is the zeroed body a
  fresh element has.  The id search is an unbounded loop in the code and is a
  \<open>partial_function\<close> here: None would be running forever.
\<close>

definition WASMOS_OK :: int where "WASMOS_OK = 0"

definition WASMOS_INVAL :: int where "WASMOS_INVAL = - 1"

definition WASMOS_FULL :: int where "WASMOS_FULL = - 3"

definition WASMOS_NOENT :: int where "WASMOS_NOENT = - 4"

definition WASMOS_NOMEM :: int where "WASMOS_NOMEM = - 6"

definition IDTABLE_ID_NONE :: nat where
  "IDTABLE_ID_NONE = 0xFFFFFFFF"

record idtable_header =
  h_id :: nat
  h_owner :: nat
  h_in_use :: bool

record 'p id_elem =
  header :: idtable_header
  body :: 'p

record 'p idtable =
  store :: "'p id_elem list_t"
  next_id :: nat
  id_wrapped :: bool
  per_owner_max :: nat
  t_elem_size :: nat

definition zero_header :: idtable_header where
  "zero_header = \<lparr>h_id = 0, h_owner = 0, h_in_use = False\<rparr>"

definition zero_elem :: "'p \<Rightarrow> 'p id_elem" where
  "zero_elem z = \<lparr>header = zero_header, body = z\<rparr>"

subsection \<open>Operations\<close>

definition elem_is :: "nat \<Rightarrow> 'p id_elem \<Rightarrow> bool" where
  "elem_is i e \<longleftrightarrow> h_in_use (header e) \<and> h_id (header e) = i"

definition elem_of :: "nat \<Rightarrow> 'p id_elem \<Rightarrow> bool" where
  "elem_of owner e \<longleftrightarrow> h_in_use (header e) \<and> h_owner (header e) = owner"

definition idtable_id_taken :: "'p idtable \<Rightarrow> nat \<Rightarrow> bool" where
  "idtable_id_taken t i = list_ex (\<lambda>(p, e). elem_is i e) (list_view (store t))"

definition bump_id :: "'p idtable \<Rightarrow> 'p idtable" where
  "bump_id t =
     (let n = add32 (next_id t) 1 in
      if n = IDTABLE_ID_NONE then t\<lparr>next_id := 1, id_wrapped := True\<rparr> else t\<lparr>next_id := n\<rparr>)"

partial_function (option) idtable_alloc_id :: "'p idtable \<Rightarrow> (nat \<times> 'p idtable) option" where
  "idtable_alloc_id t =
     (let i = next_id t; t1 = bump_id t in
      if i = 0 \<or> i = IDTABLE_ID_NONE then idtable_alloc_id t1
      else if \<not> id_wrapped t1 \<or> \<not> idtable_id_taken t1 i then Some (i, t1)
      else idtable_alloc_id t1)"

text \<open>\<open>sizeof(idtable_header_t)\<close> is 12: two 32-bit fields and a byte, padded.\<close>

definition idtable_init ::
  "nat option \<Rightarrow> nat \<Rightarrow> nat \<Rightarrow> nat \<Rightarrow> 'p idtable \<Rightarrow> int \<times> 'p idtable" where
  "idtable_init mem es cap quota t =
     (if es < 12 then (WASMOS_INVAL, t)
      else
        let t1 = t\<lparr>next_id := 1, id_wrapped := False, per_owner_max := quota, t_elem_size := es\<rparr>
        in case list_init mem es LIST_IMPL_ARRAY_CHUNK cap (store t) of
             (r, l) \<Rightarrow> (if r \<noteq> 0 then WASMOS_NOMEM else WASMOS_OK, t1\<lparr>store := l\<rparr>))"

definition idtable_destroy :: "'p idtable \<Rightarrow> 'p idtable" where
  "idtable_destroy t = t\<lparr>store := snd (list_destroy (store t)), next_id := 1, id_wrapped := False\<rparr>"

definition idtable_count_for_owner :: "'p idtable \<Rightarrow> nat \<Rightarrow> nat" where
  "idtable_count_for_owner t owner =
     foldl (\<lambda>used pe. if elem_of owner (snd pe) then add32 used 1 else used) 0 (list_view (store t))"

text \<open>
  Returns the status, the element pointer and the table.  The outer option is the id search,
  which runs after the element was taken from the store.
\<close>

definition idtable_alloc ::
  "nat option \<Rightarrow> 'p \<Rightarrow> nat \<Rightarrow> 'p idtable \<Rightarrow> (int \<times> nat option \<times> 'p idtable) option" where
  "idtable_alloc mem z owner t =
     (if per_owner_max t \<noteq> 0 \<and> per_owner_max t \<le> idtable_count_for_owner t owner
      then Some (WASMOS_FULL, None, t)
      else
        case list_alloc mem (zero_elem z) (store t) of
          (None, l) \<Rightarrow> Some (WASMOS_FULL, None, t\<lparr>store := l\<rparr>)
        | (Some p, l) \<Rightarrow>
            (case idtable_alloc_id (t\<lparr>store := l\<rparr>) of
               None \<Rightarrow> None
             | Some (i, t1) \<Rightarrow>
                 Some (WASMOS_OK, Some p,
                   t1\<lparr>store := list_write p
                        \<lparr>header = \<lparr>h_id = i, h_owner = owner, h_in_use = True\<rparr>, body = z\<rparr> (store t1)\<rparr>)))"

definition idtable_get :: "'p idtable \<Rightarrow> nat \<Rightarrow> (nat \<times> 'p id_elem) option" where
  "idtable_get t i =
     (if i = 0 \<or> i = IDTABLE_ID_NONE then None
      else List.find (\<lambda>pe. elem_is i (snd pe)) (list_view (store t)))"

definition drop_elem :: "nat \<Rightarrow> 'p id_elem \<Rightarrow> 'p idtable \<Rightarrow> 'p idtable" where
  "drop_elem p e t =
     t\<lparr>store := snd (list_remove p
        (list_write p (e\<lparr>header := (header e)\<lparr>h_in_use := False, h_id := 0\<rparr>\<rparr>) (store t)))\<rparr>"

definition idtable_free :: "'p idtable \<Rightarrow> nat \<Rightarrow> int \<times> 'p idtable" where
  "idtable_free t i =
     (case idtable_get t i of
        None \<Rightarrow> (WASMOS_NOENT, t)
      | Some (p, e) \<Rightarrow> (WASMOS_OK, drop_elem p e t))"

text \<open>
  \<open>idtable_release_owner\<close> restarts its walk after each removal.  \<open>on_release\<close> is the
  caller's callback; it sees the intact element and threads the caller's state \<open>u\<close>.
\<close>

partial_function (option) release_loop ::
  "('p id_elem \<Rightarrow> 'u \<Rightarrow> 'u) \<Rightarrow> nat \<Rightarrow> nat \<Rightarrow> 'u \<Rightarrow> 'p idtable \<Rightarrow> (nat \<times> 'u \<times> 'p idtable) option" where
  "release_loop on_release owner released u t =
     (case List.find (\<lambda>pe. elem_of owner (snd pe)) (list_view (store t)) of
        None \<Rightarrow> Some (released, u, t)
      | Some (p, e) \<Rightarrow>
          release_loop on_release owner (add32 released 1) (on_release e u) (drop_elem p e t))"

definition idtable_release_owner ::
  "('p id_elem \<Rightarrow> 'u \<Rightarrow> 'u) \<Rightarrow> nat \<Rightarrow> 'u \<Rightarrow> 'p idtable \<Rightarrow> (nat \<times> 'u \<times> 'p idtable) option" where
  "idtable_release_owner on_release owner u t = release_loop on_release owner 0 u t"

subsection \<open>The table as a sequence of elements\<close>

definition elems :: "'p idtable \<Rightarrow> 'p id_elem list" where
  "elems t = map snd (list_view (store t))"

definition live_ids :: "'p idtable \<Rightarrow> nat list" where
  "live_ids t = map (\<lambda>e. h_id (header e)) (elems t)"

definition owned :: "'p idtable \<Rightarrow> nat \<Rightarrow> 'p id_elem list" where
  "owned t owner = filter (elem_of owner) (elems t)"

text \<open>
  The invariant between operations: the store is well formed, every stored element is in use,
  ids are pairwise distinct and never reserved, the counter is not on a reserved value and is
  above every id until it has wrapped, and the table has room in the id space.
\<close>

definition idtable_ok :: "'p idtable \<Rightarrow> bool" where
  "idtable_ok t \<longleftrightarrow> list_ok (store t) \<and> list_all (\<lambda>e. h_in_use (header e)) (elems t)
     \<and> distinct (live_ids t) \<and> (\<forall>i\<in>set (live_ids t). 0 < i \<and> i < IDTABLE_ID_NONE)
     \<and> 0 < next_id t \<and> next_id t < IDTABLE_ID_NONE
     \<and> (\<not> id_wrapped t \<longrightarrow> (\<forall>i\<in>set (live_ids t). i < next_id t))"

subsection \<open>The id search ends and finds an id nobody holds\<close>

text \<open>The counter moves through 1 to 0xFFFFFFFE in a cycle.\<close>

definition id_succ :: "nat \<Rightarrow> nat" where
  "id_succ n = (if n + 1 = IDTABLE_ID_NONE then 1 else n + 1)"

definition valid_id :: "nat \<Rightarrow> bool" where
  "valid_id i \<longleftrightarrow> 0 < i \<and> i < IDTABLE_ID_NONE"

lemma bump_id_fields [simp]:
  "store (bump_id t) = store t" "per_owner_max (bump_id t) = per_owner_max t"
  "t_elem_size (bump_id t) = t_elem_size t"
  by (simp_all add: bump_id_def Let_def)

lemma bump_id_next: "valid_id (next_id t) \<Longrightarrow> next_id (bump_id t) = id_succ (next_id t)"
  by (simp add: valid_id_def bump_id_def Let_def id_succ_def add32_exact IDTABLE_ID_NONE_def)

lemma id_succ_valid: "valid_id n \<Longrightarrow> valid_id (id_succ n)"
  by (auto simp: valid_id_def id_succ_def IDTABLE_ID_NONE_def)

lemma taken_bump [simp]: "idtable_id_taken (bump_id t) i = idtable_id_taken t i"
  by (simp add: idtable_id_taken_def)

text \<open>What a successful search guarantees of its id and of the table it leaves.\<close>

definition found_id :: "'p idtable \<Rightarrow> nat \<Rightarrow> 'p idtable \<Rightarrow> bool" where
  "found_id t i t' \<longleftrightarrow> valid_id i \<and> store t' = store t \<and> per_owner_max t' = per_owner_max t
     \<and> valid_id (next_id t')
     \<and> (if id_wrapped t' then \<not> idtable_id_taken t i
        else \<not> id_wrapped t \<and> i = next_id t \<and> next_id t' = i + 1)"

lemma alloc_id_hit:
  assumes "valid_id (next_id t)" "\<not> id_wrapped (bump_id t) \<or> \<not> idtable_id_taken t (next_id t)"
  shows "\<exists>i t'. idtable_alloc_id t = Some (i, t') \<and> found_id t i t'"
proof -
  have "idtable_alloc_id t = Some (next_id t, bump_id t)"
    unfolding idtable_alloc_id.simps [of t] Let_def taken_bump using assms by (simp add: valid_id_def)
  moreover have "found_id t (next_id t) (bump_id t)"
  proof (cases "add32 (next_id t) 1 = IDTABLE_ID_NONE")
    case True
    then show ?thesis
      using assms by (auto simp: found_id_def bump_id_def Let_def valid_id_def IDTABLE_ID_NONE_def)
  next
    case False
    moreover have "add32 (next_id t) 1 = next_id t + 1"
      using assms(1) by (simp add: valid_id_def IDTABLE_ID_NONE_def add32_exact)
    ultimately show ?thesis
      using assms by (auto simp: found_id_def bump_id_def Let_def valid_id_def)
  qed
  ultimately show ?thesis by blast
qed

lemma alloc_id_returns:
  "valid_id (next_id t) \<Longrightarrow> \<not> idtable_id_taken t ((id_succ ^^ k) (next_id t)) \<Longrightarrow>
    \<exists>i t'. idtable_alloc_id t = Some (i, t') \<and> found_id t i t'"
proof (induction k arbitrary: t)
  case (Suc k)
  show ?case
  proof (cases "\<not> id_wrapped (bump_id t) \<or> \<not> idtable_id_taken t (next_id t)")
    case False
    let ?t = "bump_id t"
    have n: "next_id ?t = id_succ (next_id t)" "valid_id (next_id ?t)"
      using Suc.prems(1) by (simp_all add: bump_id_next id_succ_valid)
    have "\<not> idtable_id_taken ?t ((id_succ ^^ k) (next_id ?t))"
      using Suc.prems(2) by (simp add: n(1) funpow_swap1)
    then obtain i t' where r: "idtable_alloc_id ?t = Some (i, t')" "found_id ?t i t'" using Suc.IH n(2) by blast
    have "idtable_alloc_id t = Some (i, t')"
      unfolding idtable_alloc_id.simps [of t] Let_def taken_bump using False r(1) by simp
    moreover have "found_id t i t'" using r(2) False by (auto simp: found_id_def split: if_splits)
    ultimately show ?thesis by blast
  qed (rule alloc_id_hit [OF Suc.prems(1)])
next
  case 0
  then show ?case using alloc_id_hit [of t] by simp
qed

lemma id_succ_reach_up: "0 < n \<Longrightarrow> n + k < IDTABLE_ID_NONE \<Longrightarrow> (id_succ ^^ k) n = n + k"
  by (induction k) (auto simp: id_succ_def)

lemma id_succ_reaches:
  assumes "valid_id n" "valid_id f"
  shows "\<exists>k. (id_succ ^^ k) n = f"
proof (cases "n \<le> f")
  case True
  then show ?thesis using assms id_succ_reach_up [of n "f - n"] by (auto simp: valid_id_def)
next
  case False
  let ?m = "IDTABLE_ID_NONE - 1 - n"
  have "(id_succ ^^ ?m) n = IDTABLE_ID_NONE - 1"
    using assms(1) id_succ_reach_up [of n ?m] by (simp add: valid_id_def)
  then have "(id_succ ^^ (Suc ?m)) n = 1" using assms(1) by (auto simp: id_succ_def valid_id_def)
  then have "(id_succ ^^ ((f - 1) + Suc ?m)) n = f"
    using assms(2) id_succ_reach_up [of 1 "f - 1"] unfolding funpow_add o_def by (simp add: valid_id_def)
  then show ?thesis by blast
qed

lemma id_taken_iff:
  "idtable_id_taken t i \<longleftrightarrow> (\<exists>e\<in>set (elems t). elem_is i e)"
  by (force simp: idtable_id_taken_def elems_def list_ex_iff)

lemma free_id_exists:
  assumes "length (elems t) < IDTABLE_ID_NONE - 1"
  shows "\<exists>f. valid_id f \<and> \<not> idtable_id_taken t f"
proof -
  let ?T = "(\<lambda>e. h_id (header e)) ` set (elems t)"
  have "card ?T \<le> card (set (elems t))" by (rule card_image_le) simp
  also have "\<dots> \<le> length (elems t)" by (rule card_length)
  finally have "card ?T < card {1..<IDTABLE_ID_NONE}" using assms by simp
  then have "\<not> {1..<IDTABLE_ID_NONE} \<subseteq> ?T" using card_mono [of ?T "{1..<IDTABLE_ID_NONE}"] by fastforce
  then obtain f where "f \<in> {1..<IDTABLE_ID_NONE}" "f \<notin> ?T" by blast
  then have "valid_id f \<and> \<not> idtable_id_taken t f"
    by (auto simp: valid_id_def id_taken_iff elem_is_def)
  then show ?thesis by blast
qed

lemma idtable_alloc_id_total:
  assumes "valid_id (next_id t)" "length (elems t) < IDTABLE_ID_NONE - 1"
  shows "\<exists>i t'. idtable_alloc_id t = Some (i, t') \<and> found_id t i t'"
proof -
  obtain f where f: "valid_id f" "\<not> idtable_id_taken t f" using free_id_exists assms(2) by blast
  then obtain k where "(id_succ ^^ k) (next_id t) = f" using id_succ_reaches assms(1) by blast
  with alloc_id_returns [OF assms(1), of k] f(2) show ?thesis by simp
qed

subsection \<open>Each operation on the sequence of elements\<close>

lemma idtable_get_iff:
  assumes "idtable_ok t"
  shows "idtable_get t i = Some (p, e) \<longleftrightarrow> (p, e) \<in> set (list_view (store t)) \<and> h_id (header e) = i"
proof -
  have use: "h_in_use (header x)" if "(q, x) \<in> set (list_view (store t))" for q x
    using assms that by (force simp: idtable_ok_def elems_def list_all_iff)
  have val: "h_id (header x) \<noteq> 0 \<and> h_id (header x) \<noteq> IDTABLE_ID_NONE"
    if "(q, x) \<in> set (list_view (store t))" for q x
    using assms that by (force simp: idtable_ok_def live_ids_def elems_def)
  have d: "distinct (map (\<lambda>pe. h_id (header (snd pe))) (list_view (store t)))"
    using assms by (simp add: idtable_ok_def live_ids_def elems_def o_def)
  then have inj: "inj_on (\<lambda>pe. h_id (header (snd pe))) (set (list_view (store t)))"
    by (simp add: distinct_map)
  show ?thesis
  proof
    assume "idtable_get t i = Some (p, e)"
    then show "(p, e) \<in> set (list_view (store t)) \<and> h_id (header e) = i"
      by (auto simp: idtable_get_def find_filter elem_is_def filter_eq_Cons_iff split: if_splits list.splits)
  next
    assume a: "(p, e) \<in> set (list_view (store t)) \<and> h_id (header e) = i"
    then have "List.find (\<lambda>pe. elem_is i (snd pe)) (list_view (store t)) \<noteq> None"
      unfolding find_None_iff not_not using use by (intro exI [of _ "(p, e)"]) (auto simp: elem_is_def)
    then obtain q x where f: "List.find (\<lambda>pe. elem_is i (snd pe)) (list_view (store t)) = Some (q, x)" by auto
    then have "(q, x) \<in> set (list_view (store t))" "h_id (header x) = i"
      by (auto simp: find_filter elem_is_def filter_eq_Cons_iff split: list.splits)
    with a inj have "(q, x) = (p, e)" by (force simp: inj_on_def)
    with f a val show "idtable_get t i = Some (p, e)" by (auto simp: idtable_get_def)
  qed
qed

lemma count_for_owner:
  assumes "length (elems t) < 2 ^ 32"
  shows "idtable_count_for_owner t owner = length (owned t owner)"
proof -
  have "foldl (\<lambda>used pe. if elem_of owner (snd pe) then add32 used 1 else used) n xs
      = n + length (filter (elem_of owner) (map snd xs))"
    if "n + length xs < 2 ^ 32" for n and xs :: "(nat \<times> 'a id_elem) list"
    using that by (induction xs arbitrary: n) (auto simp: add32_exact)
  from this [of 0 "list_view (store t)"] assms show ?thesis
    by (simp add: idtable_count_for_owner_def owned_def elems_def)
qed

text \<open>\<open>drop_elem\<close> takes the element out of the store and touches no other.\<close>

lemma drop_elem_view:
  assumes "list_ok (store t)" "(p, e) \<in> set (list_view (store t))"
  shows "list_ok (store (drop_elem p e t))
    \<and> inserted (p, e) (list_view (store (drop_elem p e t))) (list_view (store t))"
  using list_store.put_remove [OF assms, of "e\<lparr>header := (header e)\<lparr>h_in_use := False, h_id := 0\<rparr>\<rparr>"]
  by (auto simp: drop_elem_def)

lemma drop_elem_fields [simp]:
  "next_id (drop_elem p e t) = next_id t" "id_wrapped (drop_elem p e t) = id_wrapped t"
  "per_owner_max (drop_elem p e t) = per_owner_max t"
  by (simp_all add: drop_elem_def)

lemma drop_elem_ok:
  assumes "idtable_ok t" "(p, e) \<in> set (list_view (store t))"
  shows "idtable_ok (drop_elem p e t) \<and> inserted e (elems (drop_elem p e t)) (elems t)
    \<and> inserted (h_id (header e)) (live_ids (drop_elem p e t)) (live_ids t)"
proof -
  have v: "list_ok (store (drop_elem p e t))"
    "inserted (p, e) (list_view (store (drop_elem p e t))) (list_view (store t))"
    using drop_elem_view [OF _ assms(2)] assms(1) by (auto simp: idtable_ok_def)
  have e: "inserted e (elems (drop_elem p e t)) (elems t)"
    using inserted_map [OF v(2), of snd] by (simp add: elems_def)
  have i: "inserted (h_id (header e)) (live_ids (drop_elem p e t)) (live_ids t)"
    using inserted_map [OF e, of "\<lambda>e. h_id (header e)"] by (simp add: live_ids_def)
  show ?thesis
    using assms(1) v(1) e i inserted_distinct [OF i] inserted_set [OF i] inserted_set [OF e]
    by (auto simp: idtable_ok_def list_all_iff)
qed

definition new_elem :: "nat \<Rightarrow> nat \<Rightarrow> 'p \<Rightarrow> 'p id_elem" where
  "new_elem i owner z = \<lparr>header = \<lparr>h_id = i, h_owner = owner, h_in_use = True\<rparr>, body = z\<rparr>"

lemma idtable_alloc_ok:
  assumes ok: "idtable_ok t" and fresh: "fresh_for (store t) mem"
    and room: "length (elems t) < IDTABLE_ID_NONE - 2"
  shows "\<exists>st r t'. idtable_alloc mem z owner t = Some (st, r, t') \<and> idtable_ok t'
    \<and> per_owner_max t' = per_owner_max t
    \<and> (case r of
         None \<Rightarrow> st = WASMOS_FULL \<and> list_view (store t') = list_view (store t)
       | Some p \<Rightarrow> st = WASMOS_OK \<and> p \<notin> fst ` set (list_view (store t))
           \<and> (per_owner_max t \<noteq> 0 \<longrightarrow> length (owned t owner) < per_owner_max t)
           \<and> (\<exists>i. valid_id i \<and> i \<notin> set (live_ids t)
               \<and> inserted (p, new_elem i owner z) (list_view (store t)) (list_view (store t'))))"
proof -
  have cnt: "idtable_count_for_owner t owner = length (owned t owner)"
    by (rule count_for_owner) (use room in \<open>simp add: IDTABLE_ID_NONE_def\<close>)
  have lok: "list_ok (store t)" and nv: "valid_id (next_id t)" using ok by (auto simp: idtable_ok_def valid_id_def)
  obtain r l where a: "list_alloc mem (zero_elem z) (store t) = (r, l)"
    by (cases "list_alloc mem (zero_elem z) (store t)")
  show ?thesis
  proof (cases "per_owner_max t \<noteq> 0 \<and> per_owner_max t \<le> length (owned t owner)")
    case True
    then show ?thesis using ok by (simp add: idtable_alloc_def cnt)
  next
    case quota: False
    show ?thesis
    proof (cases r)
      case None
      have "list_view l = list_view (store t)" "list_ok l"
        using list_alloc_view [OF a] list_alloc_ok [OF lok fresh a] None by auto
      with ok have "idtable_ok (t\<lparr>store := l\<rparr>)" by (auto simp: idtable_ok_def live_ids_def elems_def)
      with quota None a \<open>list_view l = _\<close> show ?thesis by (auto simp: idtable_alloc_def cnt)
    next
      case (Some p)
      let ?t = "t\<lparr>store := l\<rparr>"
      have ins: "inserted (p, zero_elem z) (list_view (store t)) (list_view l)"
        using list_alloc_view [OF a] Some by simp
      have len: "length (elems ?t) < IDTABLE_ID_NONE - 1"
        using inserted_length [OF ins] room by (simp add: elems_def)
      obtain i t' where i: "idtable_alloc_id ?t = Some (i, t')" "found_id ?t i t'"
        using idtable_alloc_id_total [of ?t] nv len by auto
      let ?e = "new_elem i owner z" and ?t2 = "t'\<lparr>store := list_write p (new_elem i owner z) (store t')\<rparr>"
      have res: "idtable_alloc mem z owner t = Some (WASMOS_OK, Some p, ?t2)"
        using quota a Some i(1) by (auto simp: idtable_alloc_def cnt new_elem_def)
      have st: "store t' = l" using i(2) by (simp add: found_id_def)
      have put: "inserted (p, ?e) (list_view (store t)) (list_view (store ?t2))" "list_ok (store ?t2)"
        "p \<notin> fst ` set (list_view (store t))"
        using list_store.alloc_put [OF lok fresh a [unfolded Some], of ?e] st by auto
      have ei: "inserted ?e (elems t) (elems ?t2)" using inserted_map [OF put(1), of snd] by (simp add: elems_def)
      have li: "inserted i (live_ids t) (live_ids ?t2)"
        using inserted_map [OF ei, of "\<lambda>e. h_id (header e)"] by (simp add: live_ids_def new_elem_def)
      have notin: "i \<notin> set (live_ids t)"
      proof (cases "id_wrapped t'")
        case True
        then have nt: "\<not> idtable_id_taken ?t i" using i(2) by (simp add: found_id_def)
        have "set (elems t) \<subseteq> set (elems ?t)" using inserted_set [OF ins] by (auto simp: elems_def)
        with nt ok show ?thesis
          by (auto simp: id_taken_iff elem_is_def live_ids_def idtable_ok_def list_all_iff)
      next
        case False
        with i(2) ok show ?thesis by (fastforce simp: found_id_def idtable_ok_def)
      qed
      have vi: "valid_id i" "valid_id (next_id t')" using i(2) by (auto simp: found_id_def)
      have below: "\<forall>j\<in>set (live_ids ?t2). j < next_id ?t2" if "\<not> id_wrapped ?t2"
        using that i(2) ok inserted_set [OF li] by (force simp: found_id_def idtable_ok_def)
      have "idtable_ok ?t2"
        using ok put(2) inserted_set [OF ei] inserted_set [OF li] inserted_distinct [OF li] notin vi below
        by (auto simp: idtable_ok_def list_all_iff new_elem_def valid_id_def)
      with res Some put notin vi quota i(2) show ?thesis by (auto simp: found_id_def)
    qed
  qed
qed

lemma find_owner_some:
  assumes "List.find (\<lambda>pe. elem_of owner (snd pe)) xs = Some (p, e)"
  shows "(p, e) \<in> set xs \<and> elem_of owner e"
  using assms by (auto simp: find_filter filter_eq_Cons_iff split: list.splits)

text \<open>
  Releasing an owner ends, calls back once per element the owner held, and leaves exactly the
  elements of the others, in their order.
\<close>

lemma release_loop_ok:
  assumes "idtable_ok t" "n + length (owned t owner) < 2 ^ 32"
  shows "\<exists>u' t'. release_loop cb owner n u t = Some (n + length (owned t owner), u', t')
    \<and> idtable_ok t' \<and> per_owner_max t' = per_owner_max t
    \<and> elems t' = filter (\<lambda>e. \<not> elem_of owner e) (elems t) \<and> u' = fold cb (owned t owner) u"
  using assms
proof (induction "length (owned t owner)" arbitrary: t n u)
  case 0
  then have "filter (elem_of owner) (elems t) = []" by (simp add: owned_def)
  then have none: "\<forall>e\<in>set (elems t). \<not> elem_of owner e" by (simp add: filter_empty_conv)
  then have "List.find (\<lambda>pe. elem_of owner (snd pe)) (list_view (store t)) = None"
    by (auto simp: find_None_iff elems_def)
  then have "release_loop cb owner n u t = Some (n, u, t)" by (simp add: release_loop.simps [of cb owner n u t])
  moreover have "owned t owner = []" "filter (\<lambda>e. \<not> elem_of owner e) (elems t) = elems t"
    using 0(1) none by (auto intro: filter_True)
  ultimately show ?case using 0(2) by simp
next
  case (Suc k)
  have "List.find (\<lambda>pe. elem_of owner (snd pe)) (list_view (store t)) \<noteq> None"
  proof
    assume "List.find (\<lambda>pe. elem_of owner (snd pe)) (list_view (store t)) = None"
    then have "owned t owner = []" by (auto simp: find_None_iff owned_def elems_def filter_empty_conv)
    with Suc.hyps(2) show False by simp
  qed
  then obtain p e where f: "List.find (\<lambda>pe. elem_of owner (snd pe)) (list_view (store t)) = Some (p, e)" by auto
  note m = find_owner_some [OF f]
  obtain as bs where v: "list_view (store t) = as @ (p, e) # bs" "\<forall>x\<in>set as. \<not> elem_of owner (snd x)"
    using f by (auto simp: find_filter filter_eq_Cons_iff split: list.splits)
  let ?t = "drop_elem p e t"
  have ok1: "idtable_ok ?t" using drop_elem_ok [OF Suc.prems(1)] m by blast
  have ins: "inserted (p, e) (list_view (store ?t)) (list_view (store t))"
    using drop_elem_view [of t p e] Suc.prems(1) m by (simp add: idtable_ok_def)
  have "distinct (list_view (store t))"
    using list_store.view_distinct [of "store t"] Suc.prems(1) by (auto simp: idtable_ok_def distinct_map)
  then have "(p, e) \<notin> set (list_view (store ?t))" using inserted_distinct [OF ins] by simp
  then have "list_view (store ?t) = remove1 (p, e) (list_view (store t))" by (rule inserted_remove1 [OF ins])
  moreover have "(p, e) \<notin> set as" using v(2) m by force
  ultimately have v1: "list_view (store ?t) = as @ bs" by (simp add: v(1) remove1_append)
  have none: "filter (elem_of owner) (map snd as) = []" using v(2) by (auto simp: filter_empty_conv)
  have own: "owned t owner = e # owned ?t owner"
    using m none by (simp add: owned_def elems_def v(1) v1)
  have oth: "filter (\<lambda>e. \<not> elem_of owner e) (elems ?t) = filter (\<lambda>e. \<not> elem_of owner e) (elems t)"
    using m by (simp add: elems_def v(1) v1)
  have n1: "add32 n 1 = n + 1" using Suc.prems(2) own by (simp add: add32_exact)
  have k: "k = length (owned ?t owner)" using Suc.hyps(2) own by simp
  have "release_loop cb owner n u t = release_loop cb owner (n + 1) (cb e u) ?t"
    unfolding release_loop.simps [of cb owner n u t] n1 by (simp add: f)
  with Suc.hyps(1) [OF k ok1, of "n + 1" "cb e u"] Suc.prems(2) own oth show ?case by auto
qed

subsection \<open>Properties\<close>

text \<open>The example table of the witnesses: one object of owner 3 with id 1.\<close>

definition demo_idtable :: "nat idtable" where
  "demo_idtable = \<lparr>store = \<lparr>elem_size = 24, list_kind = LIST_IMPL_ARRAY_CHUNK, config_value = 2,
       list_state = Some (Array_state 2 [\<lparr>ch_addr = 4096, ch_slots = [Some (new_elem 1 3 0), None]\<rparr>])\<rparr>,
     next_id = 2, id_wrapped = False, per_owner_max = 2, t_elem_size = 24\<rparr>"

lemma demo_idtable_view: "list_view (store demo_idtable) = [(4120, new_elem 1 3 0)]"
  by (simp add: demo_idtable_def list_view_def chunk_view_def slot_ptr_def upt_rec)

lemma demo_idtable_ok: "idtable_ok demo_idtable"
  using demo_idtable_view
  by (simp add: idtable_ok_def live_ids_def elems_def new_elem_def IDTABLE_ID_NONE_def)
     (simp add: demo_idtable_def list_ok_def list_blocks_def)

text \<open>
  (C9) \<open>idtable_alloc\<close> always returns (the search for an id ends although the code's loop has no
  bound), its id is held by no live object even after the counter wrapped and is never 0 or
  0xFFFFFFFF, the object can be looked up under it, an owner at its quota is refused without
  the store growing, and the table's invariant is kept.
\<close>

theorem idtable_alloc_correct:
  assumes "idtable_ok t" "fresh_for (store t) mem" "length (elems t) < IDTABLE_ID_NONE - 2"
  shows "\<exists>st r t'. idtable_alloc mem z owner t = Some (st, r, t') \<and> idtable_ok t'
    \<and> (case r of
         None \<Rightarrow> st = WASMOS_FULL \<and> list_view (store t') = list_view (store t)
       | Some p \<Rightarrow> st = WASMOS_OK \<and> p \<notin> fst ` set (list_view (store t))
           \<and> (per_owner_max t \<noteq> 0 \<longrightarrow> length (owned t owner) < per_owner_max t)
           \<and> (\<exists>i. i \<notin> set (live_ids t) \<and> 0 < i \<and> i < IDTABLE_ID_NONE
               \<and> idtable_get t' i = Some (p, new_elem i owner z)
               \<and> inserted (p, new_elem i owner z) (list_view (store t)) (list_view (store t'))))"
proof -
  obtain st r t' where a: "idtable_alloc mem z owner t = Some (st, r, t')" "idtable_ok t'"
    "case r of
         None \<Rightarrow> st = WASMOS_FULL \<and> list_view (store t') = list_view (store t)
       | Some p \<Rightarrow> st = WASMOS_OK \<and> p \<notin> fst ` set (list_view (store t))
           \<and> (per_owner_max t \<noteq> 0 \<longrightarrow> length (owned t owner) < per_owner_max t)
           \<and> (\<exists>i. valid_id i \<and> i \<notin> set (live_ids t)
               \<and> inserted (p, new_elem i owner z) (list_view (store t)) (list_view (store t')))"
    using idtable_alloc_ok [OF assms, of z owner] by blast
  have get: "idtable_get t' i = Some (p, new_elem i owner z)"
    if "inserted (p, new_elem i owner z) (list_view (store t)) (list_view (store t'))" for p i
    using inserted_set [OF that] by (simp add: idtable_get_iff [OF a(2)] new_elem_def)
  show ?thesis
  proof (cases r)
    case None
    with a show ?thesis by simp
  next
    case (Some p)
    with a get show ?thesis unfolding valid_id_def by (simp, blast)
  qed
qed

theorem idtable_alloc_correct_witness:
  "\<exists>p t'. idtable_alloc None (0::nat) 5 demo_idtable = Some (WASMOS_OK, Some p, t')
     \<and> idtable_ok t' \<and> (\<exists>i. i \<noteq> 1 \<and> idtable_get t' i = Some (p, new_elem i 5 0))"
proof -
  have room: "length (elems demo_idtable) < IDTABLE_ID_NONE - 2"
    by (simp add: elems_def demo_idtable_view IDTABLE_ID_NONE_def)
  obtain st r t' where a: "idtable_alloc None 0 5 demo_idtable = Some (st, r, t')" and ok: "idtable_ok t'"
    and c: "case r of
         None \<Rightarrow> st = WASMOS_FULL \<and> list_view (store t') = list_view (store demo_idtable)
       | Some p \<Rightarrow> st = WASMOS_OK \<and> p \<notin> fst ` set (list_view (store demo_idtable))
           \<and> (per_owner_max demo_idtable \<noteq> 0 \<longrightarrow> length (owned demo_idtable 5) < per_owner_max demo_idtable)
           \<and> (\<exists>i. i \<notin> set (live_ids demo_idtable) \<and> 0 < i \<and> i < IDTABLE_ID_NONE
               \<and> idtable_get t' i = Some (p, new_elem i 5 0)
               \<and> inserted (p, new_elem i 5 0) (list_view (store demo_idtable)) (list_view (store t')))"
    using idtable_alloc_correct [OF demo_idtable_ok _ room, of None 0 5] by (auto simp: fresh_for_def)
  have "r = Some 4152"
    using a by (auto simp: idtable_alloc_def idtable_count_for_owner_def demo_idtable_view elem_of_def new_elem_def
        split: option.splits prod.splits)
       (auto simp: demo_idtable_def list_alloc_def list_array_chunk_alloc_def slot_ptr_def list_array_stride_def
          add32_def)
  with a c ok show ?thesis by (auto simp: live_ids_def elems_def demo_idtable_view new_elem_def)
qed

text \<open>
  (C10) When a context dies, \<open>idtable_release_owner\<close> ends, returns how many objects it held,
  runs the callback once for each in table order while they are intact, and leaves
  every object of every other owner.  Afterwards the owner holds nothing.
\<close>

theorem idtable_release_owner_correct:
  assumes "idtable_ok t" "length (elems t) < 2 ^ 32"
  shows "\<exists>t'. idtable_release_owner cb owner u t = Some (length (owned t owner), fold cb (owned t owner) u, t')
    \<and> idtable_ok t' \<and> owned t' owner = []
    \<and> elems t' = filter (\<lambda>e. \<not> elem_of owner e) (elems t)"
proof -
  have "length (owned t owner) < 2 ^ 32"
    using assms(2) le_less_trans [OF length_filter_le [of "elem_of owner" "elems t"]] by (simp only: owned_def)
  from release_loop_ok [OF assms(1), of 0 owner cb u] this show ?thesis
    by (auto simp: idtable_release_owner_def owned_def)
qed

theorem idtable_release_owner_correct_witness:
  "\<exists>t'. idtable_release_owner (\<lambda>e ids. h_id (header e) # ids) 3 [] demo_idtable = Some (1, [1], t')
     \<and> elems t' = []"
  using idtable_release_owner_correct [OF demo_idtable_ok, of "\<lambda>e ids. h_id (header e) # ids" 3 "[]"]
  by (auto simp: owned_def elems_def demo_idtable_view elem_of_def new_elem_def)

end
