(* ===== verification/Sched_event.thy ===== *)
theory Sched_event
  imports Prelude
begin

section \<open>Blocking and waking threads\<close>

text \<open>
  Model of \<open>src/kernel/sched_event.c\<close> and of the parts of \<open>thread.c\<close>, \<open>thread.h\<close>,
  \<open>sched_thread.c\<close> and \<open>process.c\<close> a wait or a wake runs through: the thread state
  machine, the wake/block handshake, the enqueue debt, and the threads that block without an event.
  A thread is its record, found by
  its tid; \<open>event_node\<close> names the wait list its list node is linked into, and each wait list
  is the list of its tids, longest waiting first.  \<open>cpu_sched_enqueue\<close> is the boundary to
  the run queues: the calls are recorded in \<open>enqueued\<close>, newest first.  \<open>timer_ticks\<close>
  reads a clock and is the argument \<open>now\<close>.  A wait is two functions, because the thread
  sleeps in between: \<open>sched_event_wait\<close> up to the yield, and \<open>sched_event_resume\<close>.
\<close>

datatype thread_state =
    THREAD_STATE_UNUSED
  | THREAD_STATE_READY
  | THREAD_STATE_RUNNING
  | THREAD_STATE_BLOCKED
  | THREAD_STATE_ZOMBIE
  | THREAD_STATE_NEW

datatype block_reason =
    THREAD_BLOCK_NONE
  | THREAD_BLOCK_IPC
  | THREAD_BLOCK_WAIT_PROCESS
  | THREAD_BLOCK_WAIT_THREAD
  | THREAD_BLOCK_EVENT

datatype pend_state = SCHED_PEND_NONE | SCHED_PEND_OK | SCHED_PEND_TIMEOUT | SCHED_PEND_ABORT

text \<open>An event is named by the kind of object that embeds it and that object's identity.\<close>

datatype event_key =
    EV_IPC nat
  | EV_JOIN nat
  | EV_PROCESS nat
  | EV_SELECT nat
  | EV_FUTEX nat
  | EV_TIMER nat
  | EV_MUTEX nat
  | EV_SEMAPHORE nat

record thread =
  th_state :: thread_state
  th_reason :: block_reason
  wait_event :: "event_key option"
  event_node :: "event_key option"
  pend_state :: pend_state
  pend_data :: nat
  blocking_transition :: bool
  wake_pending :: bool
  enqueue_owed :: bool
  sched_timeout_tick :: nat
  sched_sticky :: bool
  owner_pid :: nat
  wait_target_pid :: nat
  join_waiter_tid :: nat

record sched =
  threads :: "nat \<Rightarrow> thread option"
  thread_table :: "nat list"
  wait_list :: "event_key \<Rightarrow> nat list"
  enqueued :: "nat list"
  g_enqueue_owed_count :: nat
  g_sched_timeout_next :: nat
  g_sched_timeout_arm_seq :: nat

definition upd_thread :: "nat \<Rightarrow> (thread \<Rightarrow> thread) \<Rightarrow> sched \<Rightarrow> sched" where
  "upd_thread tid f s = s\<lparr>threads := (threads s)(tid := map_option f (threads s tid))\<rparr>"

subsection \<open>The thread state machine\<close>

definition thread_transition_legal :: "thread_state \<Rightarrow> thread_state \<Rightarrow> bool" where
  "thread_transition_legal from to =
     (if from = to then True
      else if from = THREAD_STATE_ZOMBIE then to = THREAD_STATE_UNUSED
      else if from = THREAD_STATE_UNUSED then to = THREAD_STATE_NEW
      else if to = THREAD_STATE_UNUSED \<or> to = THREAD_STATE_NEW then False
      else if from = THREAD_STATE_NEW then to = THREAD_STATE_READY \<or> to = THREAD_STATE_BLOCKED
      else True)"

definition thread_transit :: "nat \<Rightarrow> thread_state \<Rightarrow> thread_state \<Rightarrow> sched \<Rightarrow> bool \<times> sched" where
  "thread_transit tid from to s =
     (case threads s tid of
        None \<Rightarrow> (False, s)
      | Some t \<Rightarrow>
          if \<not> thread_transition_legal from to \<or> th_state t \<noteq> from then (False, s)
          else (True, upd_thread tid (\<lambda>t. t\<lparr>th_state := to\<rparr>) s))"

definition thread_set_state :: "nat \<Rightarrow> thread_state \<Rightarrow> block_reason \<Rightarrow> sched \<Rightarrow> sched" where
  "thread_set_state tid st r s =
     (case threads s tid of
        None \<Rightarrow> s
      | Some t \<Rightarrow>
          if thread_transition_legal (th_state t) st
          then upd_thread tid (\<lambda>t. t\<lparr>th_state := st, th_reason := r\<rparr>) s else s)"

definition thread_wake_if_blocked :: "nat \<Rightarrow> sched \<Rightarrow> bool \<times> sched" where
  "thread_wake_if_blocked tid s =
     (if tid = 0 then (False, s)
      else case threads s tid of
             None \<Rightarrow> (False, s)
           | Some t \<Rightarrow>
               if th_state t \<noteq> THREAD_STATE_BLOCKED then (False, s)
               else (True, upd_thread tid
                       (\<lambda>t. t\<lparr>th_state := THREAD_STATE_READY, th_reason := THREAD_BLOCK_NONE\<rparr>) s))"

definition sched_mark_ready_if_live :: "nat \<Rightarrow> sched \<Rightarrow> bool \<times> sched" where
  "sched_mark_ready_if_live tid s =
     (case threads s tid of
        None \<Rightarrow> (False, s)
      | Some t \<Rightarrow>
          if th_state t = THREAD_STATE_READY then (True, s)
          else if th_state t \<noteq> THREAD_STATE_RUNNING \<and> th_state t \<noteq> THREAD_STATE_BLOCKED then (False, s)
          else thread_transit tid (th_state t) THREAD_STATE_READY s)"

subsection \<open>The wake\<close>

definition sched_owe_enqueue :: "nat \<Rightarrow> sched \<Rightarrow> sched" where
  "sched_owe_enqueue tid s =
     (case threads s tid of
        None \<Rightarrow> s
      | Some t \<Rightarrow>
          if enqueue_owed t then s
          else (upd_thread tid (\<lambda>t. t\<lparr>enqueue_owed := True\<rparr>) s)
                 \<lparr>g_enqueue_owed_count := add32 (g_enqueue_owed_count s) 1\<rparr>)"

definition cpu_sched_enqueue :: "nat \<Rightarrow> sched \<Rightarrow> sched" where
  "cpu_sched_enqueue tid s = s\<lparr>enqueued := tid # enqueued s\<rparr>"

text \<open>The two halves of the handshake: each publishes its flag before it reads the other's.\<close>

definition sched_wake_claim_enqueue :: "nat \<Rightarrow> sched \<Rightarrow> bool \<times> sched" where
  "sched_wake_claim_enqueue tid s =
     (let s1 = upd_thread tid (\<lambda>t. t\<lparr>wake_pending := True\<rparr>) s in
      case threads s1 tid of
        None \<Rightarrow> (False, s1)
      | Some t \<Rightarrow>
          if blocking_transition t then (False, s1)
          else (wake_pending t, upd_thread tid (\<lambda>t. t\<lparr>wake_pending := False\<rparr>) s1))"

definition sched_block_complete_claim :: "nat \<Rightarrow> sched \<Rightarrow> bool \<times> sched" where
  "sched_block_complete_claim tid s =
     (let s1 = upd_thread tid (\<lambda>t. t\<lparr>blocking_transition := False\<rparr>) s in
      case threads s1 tid of
        None \<Rightarrow> (False, s1)
      | Some t \<Rightarrow> (wake_pending t, upd_thread tid (\<lambda>t. t\<lparr>wake_pending := False\<rparr>) s1))"

definition sched_wake_thread :: "nat \<Rightarrow> sched \<Rightarrow> sched" where
  "sched_wake_thread tid s =
     (case threads s tid of
        None \<Rightarrow> s
      | Some _ \<Rightarrow>
          (case sched_wake_claim_enqueue tid s of
             (False, s1) \<Rightarrow>
               (case sched_mark_ready_if_live tid s1 of
                  (live, s2) \<Rightarrow>
                    sched_owe_enqueue tid
                      (if live then upd_thread tid (\<lambda>t. t\<lparr>th_reason := THREAD_BLOCK_NONE\<rparr>) s2 else s2))
           | (True, s1) \<Rightarrow>
               (case thread_wake_if_blocked tid s1 of
                  (False, s2) \<Rightarrow> s2
                | (True, s2) \<Rightarrow> cpu_sched_enqueue tid s2)))"

text \<open>
  The completion of a blocked yield (the \<open>PROCESS_RUN_BLOCKED\<close> branch of
  \<open>process_schedule_once_impl\<close>), run once the thread's context has been saved.
\<close>

definition block_complete :: "nat \<Rightarrow> sched \<Rightarrow> sched" where
  "block_complete tid s =
     (case sched_block_complete_claim tid s of
        (claimed, s1) \<Rightarrow>
          let blocked = (\<lambda>s. map_option th_state (threads s tid) = Some THREAD_STATE_BLOCKED);
              s2 = (if claimed \<and> blocked s1
                    then thread_set_state tid THREAD_STATE_READY THREAD_BLOCK_NONE s1 else s1)
          in (case map_option th_state (threads s2 tid) of
                Some THREAD_STATE_READY \<Rightarrow> cpu_sched_enqueue tid s2
              | Some THREAD_STATE_RUNNING \<Rightarrow>
                  cpu_sched_enqueue tid
                    (upd_thread tid (\<lambda>t. t\<lparr>sched_sticky := True\<rparr>)
                      (thread_set_state tid THREAD_STATE_READY THREAD_BLOCK_NONE s2))
              | _ \<Rightarrow> s2))"

subsection \<open>Events\<close>

definition sched_event_init :: "event_key \<Rightarrow> sched \<Rightarrow> sched" where
  "sched_event_init ev s = s\<lparr>wait_list := (wait_list s)(ev := [])\<rparr>"

text \<open>\<open>list_head_del(&t->event_node)\<close>.\<close>

definition unlink :: "nat \<Rightarrow> sched \<Rightarrow> sched" where
  "unlink tid s =
     (case threads s tid of
        None \<Rightarrow> s
      | Some t \<Rightarrow>
          (case event_node t of
             None \<Rightarrow> s
           | Some ev \<Rightarrow>
               (upd_thread tid (\<lambda>t. t\<lparr>event_node := None\<rparr>) s)
                 \<lparr>wait_list := (wait_list s)(ev := removeAll tid (wait_list s ev))\<rparr>))"

text \<open>The three shared accesses of an arm, in program order.\<close>

definition timeout_arm_store :: "nat \<Rightarrow> nat \<Rightarrow> sched \<Rightarrow> sched" where
  "timeout_arm_store tid d s = upd_thread tid (\<lambda>t. t\<lparr>sched_timeout_tick := d\<rparr>) s"

definition timeout_arm_bump :: "sched \<Rightarrow> sched" where
  "timeout_arm_bump s = s\<lparr>g_sched_timeout_arm_seq := add32 (g_sched_timeout_arm_seq s) 1\<rparr>"

definition timeout_arm_lower :: "nat \<Rightarrow> sched \<Rightarrow> sched" where
  "timeout_arm_lower d s =
     (if d < g_sched_timeout_next s then s\<lparr>g_sched_timeout_next := d\<rparr> else s)"

definition arm_tick :: "nat \<Rightarrow> nat" where
  "arm_tick deadline = (if deadline = 0 then 1 else deadline)"

definition sched_timeout_arm :: "nat \<Rightarrow> nat \<Rightarrow> sched \<Rightarrow> sched" where
  "sched_timeout_arm tid deadline s =
     (let d = arm_tick deadline in
      timeout_arm_lower d (timeout_arm_bump (timeout_arm_store tid d s)))"

definition timer_ms_to_ticks :: "nat \<Rightarrow> nat \<Rightarrow> nat" where
  "timer_ms_to_ticks hz ms = add64 (mul64 ms hz) 999 div 1000"

definition wait_arm :: "nat \<Rightarrow> nat \<Rightarrow> nat \<Rightarrow> nat \<Rightarrow> sched \<Rightarrow> sched" where
  "wait_arm hz now cur timeout_ms s =
     (if 0 < timeout_ms
      then sched_timeout_arm cur (add64 now (timer_ms_to_ticks hz timeout_ms)) s else s)"

definition wait_park :: "nat \<Rightarrow> event_key \<Rightarrow> sched \<Rightarrow> sched" where
  "wait_park cur ev s =
     (case threads s cur of
        None \<Rightarrow> s
      | Some t \<Rightarrow>
          let s2 = unlink cur s;
              s3 = (if wait_event t \<noteq> None \<and> wait_event t \<noteq> Some ev
                    then upd_thread cur (\<lambda>t. t\<lparr>blocking_transition := False\<rparr>) s2 else s2);
              s4 = upd_thread cur (\<lambda>t. t\<lparr>wait_event := Some ev, pend_state := SCHED_PEND_NONE, pend_data := 0,
                       blocking_transition := True, event_node := Some ev\<rparr>) s3;
              s5 = s4\<lparr>wait_list := (wait_list s4)(ev := wait_list s4 ev @ [cur])\<rparr>
          in thread_set_state cur THREAD_STATE_BLOCKED THREAD_BLOCK_EVENT s5)"

definition sched_event_wait ::
  "nat \<Rightarrow> nat \<Rightarrow> nat \<Rightarrow> event_key \<Rightarrow> nat \<Rightarrow> sched \<Rightarrow> sched" where
  "sched_event_wait hz now cur ev timeout_ms s =
     (case threads s cur of
        None \<Rightarrow> s
      | Some _ \<Rightarrow> wait_park cur ev (wait_arm hz now cur timeout_ms s))"

definition sched_event_resume :: "nat \<Rightarrow> sched \<Rightarrow> sched" where
  "sched_event_resume cur s = upd_thread cur (\<lambda>t. t\<lparr>sched_timeout_tick := 0\<rparr>) s"

definition sched_event_detach_wake :: "nat \<Rightarrow> nat \<Rightarrow> pend_state \<Rightarrow> sched \<Rightarrow> sched" where
  "sched_event_detach_wake tid data pend s =
     sched_wake_thread tid
       (upd_thread tid (\<lambda>t. t\<lparr>wait_event := None, sched_timeout_tick := 0, pend_state := pend, pend_data := data\<rparr>)
          (unlink tid s))"

definition sched_event_wake_one :: "event_key \<Rightarrow> nat \<Rightarrow> pend_state \<Rightarrow> sched \<Rightarrow> nat option \<times> sched" where
  "sched_event_wake_one ev data pend s =
     (case wait_list s ev of
        [] \<Rightarrow> (None, s)
      | t # _ \<Rightarrow> (Some t, sched_event_detach_wake t data pend s))"

text \<open>\<open>list_for_each_safe\<close> walks the nodes that were linked when it started.\<close>

definition sched_event_wake_all :: "event_key \<Rightarrow> nat \<Rightarrow> pend_state \<Rightarrow> sched \<Rightarrow> nat \<times> sched" where
  "sched_event_wake_all ev data pend s =
     (length (wait_list s ev), fold (\<lambda>t s. sched_event_detach_wake t data pend s) (wait_list s ev) s)"

definition sched_event_abort_all :: "event_key \<Rightarrow> sched \<Rightarrow> sched" where
  "sched_event_abort_all ev s = snd (sched_event_wake_all ev 0 SCHED_PEND_ABORT s)"

subsection \<open>Timed waits\<close>

definition sched_timeout_fire :: "nat \<Rightarrow> sched \<Rightarrow> sched" where
  "sched_timeout_fire tid s =
     (case threads s tid of
        None \<Rightarrow> s
      | Some t \<Rightarrow>
          (case wait_event t of
             None \<Rightarrow> s
           | Some ev \<Rightarrow>
               if event_node t \<noteq> None
               then sched_wake_thread tid
                      (upd_thread tid (\<lambda>t. t\<lparr>wait_event := None, pend_state := SCHED_PEND_TIMEOUT\<rparr>) (unlink tid s))
               else s))"

text \<open>The scan over the thread table: one slot at a time, carrying the recomputed bound.\<close>

definition timeout_slot :: "nat \<Rightarrow> nat \<Rightarrow> nat \<times> sched \<Rightarrow> nat \<times> sched" where
  "timeout_slot now tid ns =
     (case ns of (next, s) \<Rightarrow>
        case threads s tid of
          None \<Rightarrow> (next, s)
        | Some t \<Rightarrow>
            let d = sched_timeout_tick t in
            if d = 0 then (next, s)
            else if th_state t \<noteq> THREAD_STATE_BLOCKED
            then (next, upd_thread tid (\<lambda>t. t\<lparr>sched_timeout_tick := 0\<rparr>) s)
            else if d \<le> now
            then (next, sched_timeout_fire tid (upd_thread tid (\<lambda>t. t\<lparr>sched_timeout_tick := 0\<rparr>) s))
            else (if d < next then d else next, s))"

definition TIMEOUT_NONE :: nat where
  "TIMEOUT_NONE = 2 ^ 64 - 1"

definition timeout_scan :: "nat \<Rightarrow> sched \<Rightarrow> nat \<times> sched" where
  "timeout_scan now s = fold (timeout_slot now) (thread_table s) (TIMEOUT_NONE, s)"

text \<open>
  The publish step: \<open>same_seq\<close> is the outcome of the comparison of the generation counter,
  a load of its own before the compare-and-exchange on the bound.
\<close>

definition timeout_publish :: "bool \<Rightarrow> nat \<Rightarrow> nat \<Rightarrow> sched \<Rightarrow> sched" where
  "timeout_publish same_seq observed next s =
     (if same_seq \<and> g_sched_timeout_next s = observed
      then s\<lparr>g_sched_timeout_next := next\<rparr> else s)"

definition sched_timeout_check :: "nat \<Rightarrow> sched \<Rightarrow> sched" where
  "sched_timeout_check now s =
     (if now < g_sched_timeout_next s then s
      else case timeout_scan now s of
             (next, s') \<Rightarrow>
               timeout_publish (g_sched_timeout_arm_seq s' = g_sched_timeout_arm_seq s)
                 (g_sched_timeout_next s) next s')"

subsection \<open>The enqueue debt\<close>

definition sched_take_owed_enqueue :: "nat \<Rightarrow> sched \<Rightarrow> bool \<times> sched" where
  "sched_take_owed_enqueue tid s =
     (case threads s tid of
        None \<Rightarrow> (False, s)
      | Some t \<Rightarrow>
          if enqueue_owed t
          then (True, (upd_thread tid (\<lambda>t. t\<lparr>enqueue_owed := False\<rparr>) s)
                        \<lparr>g_enqueue_owed_count := sub32 (g_enqueue_owed_count s) 1\<rparr>)
          else (False, s))"

definition sched_settle_deferred_enqueue :: "nat \<Rightarrow> sched \<Rightarrow> sched" where
  "sched_settle_deferred_enqueue tid s =
     (if map_option th_state (threads s tid) \<noteq> Some THREAD_STATE_READY then s
      else case sched_take_owed_enqueue tid s of
             (False, s1) \<Rightarrow> s1
           | (True, s1) \<Rightarrow> cpu_sched_enqueue tid s1)"

subsection \<open>Blocking without an event\<close>

text \<open>
  A thread is also BLOCKED, on no wait list, while it is parked since its spawn, while it waits in
  \<open>process_wait\<close> and while it waits in \<open>process_thread_join\<close>.  The process table is outside this
  model: \<open>may\<close> is the answer of \<open>process_force_transit\<close> on the owner (for \<open>process_set_ready\<close>
  also of the test that the owner is not exiting), which a process on its way out refuses.
\<close>

definition process_set_blocked :: "bool \<Rightarrow> nat \<Rightarrow> block_reason \<Rightarrow> sched \<Rightarrow> sched" where
  "process_set_blocked may tid r s = (if \<not> may then s else thread_set_state tid THREAD_STATE_BLOCKED r s)"

definition process_set_ready :: "bool \<Rightarrow> nat \<Rightarrow> sched \<Rightarrow> bool \<times> sched" where
  "process_set_ready may tid s = (if \<not> may then (False, s) else (True, snd (thread_wake_if_blocked tid s)))"

text \<open>The slot a spawn hands out, with the given state and reason, under a tid that is not in use.\<close>

definition thread_spawn_in_owner :: "nat \<Rightarrow> nat \<Rightarrow> thread_state \<Rightarrow> block_reason \<Rightarrow> sched \<Rightarrow> sched" where
  "thread_spawn_in_owner tid pid st r s =
     s\<lparr>threads := (threads s)(tid \<mapsto>
         \<lparr>th_state = st, th_reason = r, wait_event = None, event_node = None, pend_state = SCHED_PEND_NONE,
          pend_data = 0, blocking_transition = False, wake_pending = False, enqueue_owed = False,
          sched_timeout_tick = 0, sched_sticky = False, owner_pid = pid, wait_target_pid = 0,
          join_waiter_tid = 0\<rparr>),
       thread_table := thread_table s @ [tid]\<rparr>"

text \<open>The parking ends of \<open>process_wait\<close>, for a live child, and of \<open>process_thread_join\<close>, for a live thread.\<close>

definition process_wait_park :: "bool \<Rightarrow> nat \<Rightarrow> nat \<Rightarrow> sched \<Rightarrow> sched" where
  "process_wait_park may tid target_pid s =
     upd_thread tid (\<lambda>t. t\<lparr>wait_target_pid := target_pid\<rparr>)
       (process_set_blocked may tid THREAD_BLOCK_WAIT_PROCESS s)"

definition thread_join_park :: "bool \<Rightarrow> nat \<Rightarrow> nat \<Rightarrow> sched \<Rightarrow> bool \<times> sched" where
  "thread_join_park may caller target s =
     (case threads s target of
        None \<Rightarrow> (False, s)
      | Some x \<Rightarrow>
          if join_waiter_tid x \<noteq> 0 \<and> join_waiter_tid x \<noteq> caller then (False, s)
          else (True, upd_thread caller (\<lambda>t. t\<lparr>wait_target_pid := 0\<rparr>)
                  (process_set_blocked may caller THREAD_BLOCK_WAIT_THREAD
                    (upd_thread target (\<lambda>t. t\<lparr>join_waiter_tid := caller\<rparr>) s))))"

text \<open>The end shared by the two wakes: enqueue on winning the wake/block handshake.\<close>

definition claim_and_enqueue :: "nat \<Rightarrow> bool \<times> sched \<Rightarrow> sched" where
  "claim_and_enqueue tid rs =
     (case rs of
        (False, s) \<Rightarrow> s
      | (True, s) \<Rightarrow>
          (case sched_wake_claim_enqueue tid s of
             (False, s1) \<Rightarrow> s1
           | (True, s1) \<Rightarrow> cpu_sched_enqueue tid s1))"

text \<open>One thread of the sweep; \<open>fast\<close> is the test for a sibling of the thread running on this CPU.\<close>

definition wake_waiter :: "(nat \<Rightarrow> bool) \<Rightarrow> (nat \<Rightarrow> bool) \<Rightarrow> nat \<Rightarrow> nat \<Rightarrow> sched \<Rightarrow> sched" where
  "wake_waiter fast may target_pid tid s =
     (case threads s tid of
        None \<Rightarrow> s
      | Some t \<Rightarrow>
          if th_state t \<noteq> THREAD_STATE_BLOCKED \<or> th_reason t \<noteq> THREAD_BLOCK_WAIT_PROCESS
             \<or> wait_target_pid t \<noteq> target_pid then s
          else let s1 = upd_thread tid (\<lambda>t. t\<lparr>wait_target_pid := 0\<rparr>) s
               in claim_and_enqueue tid
                    (if fast tid then (True, snd (thread_wake_if_blocked tid s1))
                     else process_set_ready (may tid) tid s1))"

definition process_wake_waiters :: "(nat \<Rightarrow> bool) \<Rightarrow> (nat \<Rightarrow> bool) \<Rightarrow> nat \<Rightarrow> nat list \<Rightarrow> sched \<Rightarrow> sched" where
  "process_wake_waiters fast may target_pid tids s =
     (if target_pid = 0 then s else fold (wake_waiter fast may target_pid) tids s)"

definition process_wake_thread_joiner :: "bool \<Rightarrow> nat \<Rightarrow> nat \<Rightarrow> sched \<Rightarrow> sched" where
  "process_wake_thread_joiner may pid exited s =
     (case threads s exited of
        None \<Rightarrow> s
      | Some x \<Rightarrow>
          if join_waiter_tid x = 0 then s
          else let s1 = upd_thread exited (\<lambda>t. t\<lparr>join_waiter_tid := 0\<rparr>) s
               in (case threads s1 (join_waiter_tid x) of
                     None \<Rightarrow> s1
                   | Some t \<Rightarrow>
                       if owner_pid t \<noteq> pid \<or> th_state t \<noteq> THREAD_STATE_BLOCKED then s1
                       else claim_and_enqueue (join_waiter_tid x) (process_set_ready may (join_waiter_tid x) s1)))"

text \<open>The releases of a thread spawned parked: a process, a user thread and a kernel worker.\<close>

definition process_unpark :: "nat \<Rightarrow> sched \<Rightarrow> sched" where
  "process_unpark tid s =
     (case thread_wake_if_blocked tid s of (False, s1) \<Rightarrow> s1 | (True, s1) \<Rightarrow> cpu_sched_enqueue tid s1)"

definition process_wake_thread :: "nat \<Rightarrow> sched \<Rightarrow> bool \<times> sched" where
  "process_wake_thread tid s =
     (if tid = 0 then (False, s)
      else case threads s tid of
             None \<Rightarrow> (False, s)
           | Some t \<Rightarrow> if th_state t \<noteq> THREAD_STATE_BLOCKED then (False, s) else (True, sched_wake_thread tid s))"

definition worker_publish :: "nat \<Rightarrow> sched \<Rightarrow> bool \<times> sched" where
  "worker_publish tid s =
     (case thread_transit tid THREAD_STATE_BLOCKED THREAD_STATE_READY s of
        (False, s1) \<Rightarrow> (False, s1)
      | (True, s1) \<Rightarrow> (True, cpu_sched_enqueue tid s1))"

subsection \<open>What each operation does to the state\<close>

named_theorems sched_simps

lemma threads_upd_thread [simp]:
  "threads (upd_thread t f s) u = (if u = t then map_option f (threads s t) else threads s u)"
  by (simp add: upd_thread_def)

lemma upd_thread_fields [simp]:
  "wait_list (upd_thread t f s) = wait_list s"
  "enqueued (upd_thread t f s) = enqueued s"
  "thread_table (upd_thread t f s) = thread_table s"
  "g_sched_timeout_next (upd_thread t f s) = g_sched_timeout_next s"
  "g_sched_timeout_arm_seq (upd_thread t f s) = g_sched_timeout_arm_seq s"
  by (simp_all add: upd_thread_def)

lemma transition_legal_simps [simp]:
  "thread_transition_legal THREAD_STATE_RUNNING THREAD_STATE_READY"
  "thread_transition_legal THREAD_STATE_BLOCKED THREAD_STATE_READY"
  "thread_transition_legal THREAD_STATE_READY THREAD_STATE_READY"
  "thread_transition_legal THREAD_STATE_RUNNING THREAD_STATE_BLOCKED"
  "thread_transition_legal THREAD_STATE_BLOCKED THREAD_STATE_BLOCKED"
  "thread_transition_legal THREAD_STATE_READY THREAD_STATE_RUNNING"
  by (simp_all add: thread_transition_legal_def)

text \<open>The thread a wake leaves behind.\<close>

definition woken :: "thread \<Rightarrow> thread" where
  "woken t =
     (if blocking_transition t
      then (if th_state t \<in> {THREAD_STATE_READY, THREAD_STATE_RUNNING, THREAD_STATE_BLOCKED}
            then t\<lparr>wake_pending := True, th_state := THREAD_STATE_READY, th_reason := THREAD_BLOCK_NONE,
                   enqueue_owed := True\<rparr>
            else t\<lparr>wake_pending := True, enqueue_owed := True\<rparr>)
      else (if th_state t = THREAD_STATE_BLOCKED
            then t\<lparr>wake_pending := False, th_state := THREAD_STATE_READY, th_reason := THREAD_BLOCK_NONE\<rparr>
            else t\<lparr>wake_pending := False\<rparr>))"

lemma sched_wake_thread_threads:
  assumes "t \<noteq> 0"
  shows "threads (sched_wake_thread t s) u
         = (if u = t then map_option woken (threads s t) else threads s u)"
proof (cases "threads s t")
  case None
  then show ?thesis by (simp add: sched_wake_thread_def)
next
  case (Some th)
  then show ?thesis
    using assms
    by (cases th; cases "th_state th")
      (simp_all add: sched_wake_thread_def sched_wake_claim_enqueue_def sched_mark_ready_if_live_def
        thread_transit_def sched_owe_enqueue_def thread_wake_if_blocked_def cpu_sched_enqueue_def
        woken_def Let_def)
qed

lemma sched_wake_thread_enqueued:
  assumes "t \<noteq> 0" and "threads s t = Some th"
  shows "enqueued (sched_wake_thread t s)
         = (if \<not> blocking_transition th \<and> th_state th = THREAD_STATE_BLOCKED
            then t # enqueued s else enqueued s)"
  using assms
  by (cases th; cases "th_state th")
    (simp_all add: sched_wake_thread_def sched_wake_claim_enqueue_def sched_mark_ready_if_live_def
      thread_transit_def sched_owe_enqueue_def thread_wake_if_blocked_def cpu_sched_enqueue_def Let_def)

lemma sched_wake_thread_fields [simp]:
  "wait_list (sched_wake_thread t s) = wait_list s"
  "thread_table (sched_wake_thread t s) = thread_table s"
  "g_sched_timeout_next (sched_wake_thread t s) = g_sched_timeout_next s"
  "g_sched_timeout_arm_seq (sched_wake_thread t s) = g_sched_timeout_arm_seq s"
  by (simp_all add: sched_wake_thread_def sched_wake_claim_enqueue_def sched_mark_ready_if_live_def
      thread_transit_def sched_owe_enqueue_def thread_wake_if_blocked_def cpu_sched_enqueue_def Let_def
      split: option.split bool.split)

lemma unlink_threads [simp]:
  "threads (unlink t s) u
   = (if u = t then map_option (\<lambda>t. t\<lparr>event_node := None\<rparr>) (threads s t) else threads s u)"
proof -
  have "event_node th = None \<Longrightarrow> th\<lparr>event_node := None\<rparr> = th" for th :: thread
    by (cases th) simp
  then show ?thesis
    by (auto simp: unlink_def split: option.split)
qed

lemma unlink_wait_list:
  "wait_list (unlink t s) ev
   = (if (\<exists>th. threads s t = Some th \<and> event_node th = Some ev) then removeAll t (wait_list s ev)
      else wait_list s ev)"
  by (auto simp: unlink_def split: option.split)

lemma unlink_fields [simp]:
  "enqueued (unlink t s) = enqueued s"
  "thread_table (unlink t s) = thread_table s"
  "g_sched_timeout_next (unlink t s) = g_sched_timeout_next s"
  "g_sched_timeout_arm_seq (unlink t s) = g_sched_timeout_arm_seq s"
  by (simp_all add: unlink_def split: option.split)

subsection \<open>The wait-list invariant\<close>

text \<open>
  A thread is BLOCKED for an event exactly while it is linked into the wait list of the event it
  names; a thread BLOCKED for another reason has no deadline and no block in progress; a READY
  thread has been handed to a run queue or is owed an enqueue.  A pending wake token outlives its
  waker only while the block it belongs to is still completing.
\<close>

definition thread_ok :: "nat list \<Rightarrow> nat \<Rightarrow> thread \<Rightarrow> bool" where
  "thread_ok en t th \<longleftrightarrow>
     wait_event th = event_node th
     \<and> (event_node th \<noteq> None \<longleftrightarrow> th_state th = THREAD_STATE_BLOCKED \<and> th_reason th = THREAD_BLOCK_EVENT)
     \<and> (th_state th = THREAD_STATE_READY \<longrightarrow> t \<in> set en \<or> enqueue_owed th)
     \<and> (wake_pending th \<longrightarrow> blocking_transition th \<and> th_state th \<noteq> THREAD_STATE_BLOCKED)
     \<and> (th_state th = THREAD_STATE_BLOCKED \<and> th_reason th \<noteq> THREAD_BLOCK_EVENT \<longrightarrow>
          \<not> blocking_transition th \<and> sched_timeout_tick th = 0)"

definition linked :: "sched \<Rightarrow> event_key \<Rightarrow> nat \<Rightarrow> bool" where
  "linked s ev t \<longleftrightarrow> (\<exists>th. threads s t = Some th \<and> event_node th = Some ev)"

definition sched_inv :: "sched \<Rightarrow> bool" where
  "sched_inv s \<longleftrightarrow>
     threads s 0 = None
     \<and> (\<forall>ev. distinct (wait_list s ev) \<and> (\<forall>t. t \<in> set (wait_list s ev) \<longleftrightarrow> linked s ev t))
     \<and> (\<forall>t th. threads s t = Some th \<longrightarrow> thread_ok (enqueued s) t th)"

lemma sched_invD:
  assumes "sched_inv s"
  shows "threads s 0 = None" and "distinct (wait_list s ev)"
    and "t \<in> set (wait_list s ev) \<longleftrightarrow> linked s ev t"
    and "threads s t = Some th \<Longrightarrow> thread_ok (enqueued s) t th"
  using assms by (auto simp: sched_inv_def)

lemma sched_inv_upd:
  assumes "sched_inv s"
    and "\<And>x. thread_ok (enqueued s) t x \<Longrightarrow> thread_ok (enqueued s) t (f x)"
    and "\<And>x. event_node (f x) = event_node x"
  shows "sched_inv (upd_thread t f s)"
  using assms by (auto simp: sched_inv_def linked_def)

lemma sched_inv_upd_enqueue:
  assumes inv: "sched_inv s"
    and f: "\<And>x. thread_ok (enqueued s) t x \<Longrightarrow> thread_ok (t # enqueued s) t (f x)"
    and ev: "\<And>x. event_node (f x) = event_node x"
  shows "sched_inv (cpu_sched_enqueue t (upd_thread t f s))" (is "sched_inv ?s")
proof -
  have ln: "linked ?s e u = linked s e u" for e u
    by (auto simp: linked_def cpu_sched_enqueue_def ev)
  have "thread_ok (enqueued ?s) u y" if "threads ?s u = Some y" for u y
  proof (cases "u = t")
    case True
    then show ?thesis
      using that f sched_invD(4) [OF inv] by (auto simp: cpu_sched_enqueue_def)
  next
    case False
    then have "thread_ok (enqueued s) u y"
      using that sched_invD(4) [OF inv] by (simp add: cpu_sched_enqueue_def)
    then show ?thesis by (auto simp: thread_ok_def cpu_sched_enqueue_def)
  qed
  then show ?thesis
    using inv unfolding sched_inv_def ln by (simp add: cpu_sched_enqueue_def)
qed

lemma enqueue_inv:
  assumes "sched_inv s"
  shows "sched_inv (cpu_sched_enqueue t s)"
  using assms by (auto simp: sched_inv_def linked_def cpu_sched_enqueue_def thread_ok_def)

text \<open>Unlink a waiter, touch fields the invariant does not read, wake it: normal and timed wakes.\<close>

lemma detach_inv:
  assumes inv: "sched_inv s" and th: "threads s t = Some th" and ln: "event_node th \<noteq> None"
    and g: "\<And>x. wait_event (g x) = None" "\<And>x. event_node (g x) = event_node x"
      "\<And>x. th_state (g x) = th_state x" "\<And>x. blocking_transition (g x) = blocking_transition x"
  shows "sched_inv (sched_wake_thread t (upd_thread t g (unlink t s)))" (is "sched_inv ?s")
proof -
  have t0: "t \<noteq> 0"
    using th sched_invD(1) [OF inv] by (metis option.distinct(1))
  have ok: "thread_ok (enqueued s) t th" using inv th by (rule sched_invD(4))
  have bl: "th_state th = THREAD_STATE_BLOCKED" using ok ln by (simp add: thread_ok_def)
  let ?x = "g (th\<lparr>event_node := None\<rparr>)"
  have thr: "threads ?s u = (if u = t then Some (woken ?x) else threads s u)" for u
    using th by (simp add: sched_wake_thread_threads t0)
  have en: "enqueued ?s = (if blocking_transition th then enqueued s else t # enqueued s)"
    using th bl by (simp add: sched_wake_thread_enqueued t0 g)
  have wl: "wait_list ?s ev = (if event_node th = Some ev then removeAll t (wait_list s ev) else wait_list s ev)" for ev
    using th by (simp add: unlink_wait_list)
  have nd: "event_node (woken ?x) = None"
    by (simp add: woken_def g)
  have wk: "thread_ok (enqueued ?s) t (woken ?x)"
    using bl by (simp add: thread_ok_def woken_def g en)
  show ?thesis
    unfolding sched_inv_def
  proof (intro conjI allI impI)
    show "threads ?s 0 = None" using t0 sched_invD(1) [OF inv] by (simp add: thr)
  next
    fix ev
    show "distinct (wait_list ?s ev)"
      unfolding wl using sched_invD(2) [OF inv] by (simp add: distinct_removeAll)
  next
    fix ev u
    show "u \<in> set (wait_list ?s ev) \<longleftrightarrow> linked ?s ev u"
      unfolding wl using sched_invD(3) [OF inv, of u ev] th nd by (auto simp: linked_def thr)
  next
    fix u y
    assume y: "threads ?s u = Some y"
    show "thread_ok (enqueued ?s) u y"
    proof (cases "u = t")
      case True
      then show ?thesis using y wk by (simp add: thr)
    next
      case False
      then have "thread_ok (enqueued s) u y"
        using y sched_invD(4) [OF inv] by (simp add: thr)
      then show ?thesis by (auto simp: thread_ok_def en)
    qed
  qed
qed

lemma detach_wake_inv:
  assumes inv: "sched_inv s" and th: "threads s t = Some th" and ln: "event_node th \<noteq> None"
  shows "sched_inv (sched_event_detach_wake t data pend s)"
  unfolding sched_event_detach_wake_def by (rule detach_inv [OF inv th ln]) simp_all

lemma detach_wake_threads:
  assumes "t \<noteq> 0"
  shows "threads (sched_event_detach_wake t data pend s) u
         = (if u = t
            then map_option (\<lambda>th. woken (th\<lparr>event_node := None, wait_event := None, sched_timeout_tick := 0,
                                        pend_state := pend, pend_data := data\<rparr>)) (threads s t)
            else threads s u)"
  using assms
  by (simp add: sched_event_detach_wake_def sched_wake_thread_threads option.map_comp comp_def)

lemma linked_nonzero: "\<lbrakk>sched_inv s; linked s ev t\<rbrakk> \<Longrightarrow> t \<noteq> 0"
  by (metis linked_def option.distinct(1) sched_invD(1))

lemma wake_list_inv:
  assumes "sched_inv s" and "distinct ts" and "\<forall>t\<in>set ts. linked s ev t"
  shows "sched_inv (fold (\<lambda>t s. sched_event_detach_wake t data pend s) ts s)"
  using assms
proof (induction ts arbitrary: s)
  case Nil
  then show ?case by simp
next
  case (Cons t ts)
  let ?s = "sched_event_detach_wake t data pend s"
  have l: "linked s ev t" using Cons.prems by simp
  then have t0: "t \<noteq> 0" using Cons.prems(1) linked_nonzero by blast
  have i: "sched_inv ?s"
    using l Cons.prems(1) by (auto simp: linked_def intro: detach_wake_inv)
  have "\<forall>u\<in>set ts. linked ?s ev u"
    using Cons.prems t0 by (auto simp: linked_def detach_wake_threads)
  then show ?case using Cons.IH [OF i] Cons.prems(2) by simp
qed

lemma wake_all_inv: "sched_inv s \<Longrightarrow> sched_inv (snd (sched_event_wake_all ev data pend s))"
  unfolding sched_event_wake_all_def snd_conv
  by (rule wake_list_inv) (auto dest: sched_invD)

lemma wake_one_inv: "sched_inv s \<Longrightarrow> sched_inv (snd (sched_event_wake_one ev data pend s))"
proof (cases "wait_list s ev")
  case (Cons t ts)
  assume inv: "sched_inv s"
  have "linked s ev t" using sched_invD(3) [OF inv, of t ev] Cons by simp
  then show ?thesis
    using Cons inv by (auto simp: sched_event_wake_one_def linked_def intro: detach_wake_inv)
qed (simp add: sched_event_wake_one_def)

lemma timeout_fire_inv:
  assumes "sched_inv s"
  shows "sched_inv (sched_timeout_fire t s)"
proof -
  have "sched_inv (sched_wake_thread t
          (upd_thread t (\<lambda>t. t\<lparr>wait_event := None, pend_state := SCHED_PEND_TIMEOUT\<rparr>) (unlink t s)))"
    if "threads s t = Some th" "event_node th \<noteq> None" for th
    by (rule detach_inv [OF assms that]) simp_all
  then show ?thesis
    using assms by (simp add: sched_timeout_fire_def split: option.split)
qed

lemma disarm_inv: "sched_inv s \<Longrightarrow> sched_inv (upd_thread t (\<lambda>t. t\<lparr>sched_timeout_tick := 0\<rparr>) s)"
  by (rule sched_inv_upd) (simp_all add: thread_ok_def)

lemma timeout_slot_inv: "sched_inv (snd ns) \<Longrightarrow> sched_inv (snd (timeout_slot now t ns))"
  by (cases ns) (simp add: timeout_slot_def Let_def disarm_inv timeout_fire_inv split: option.split)

lemma timeout_scan_inv: "sched_inv s \<Longrightarrow> sched_inv (snd (timeout_scan now s))"
proof -
  have "sched_inv (snd ns) \<Longrightarrow> sched_inv (snd (fold (timeout_slot now) ts ns))" for ts ns
    by (induction ts arbitrary: ns) (simp_all add: timeout_slot_inv)
  then show "sched_inv s \<Longrightarrow> ?thesis" by (simp add: timeout_scan_def)
qed

lemma sched_inv_fields [simp]:
  "sched_inv (s\<lparr>g_sched_timeout_next := n\<rparr>) = sched_inv s"
  "sched_inv (s\<lparr>g_sched_timeout_arm_seq := n\<rparr>) = sched_inv s"
  "sched_inv (s\<lparr>g_enqueue_owed_count := n\<rparr>) = sched_inv s"
  by (simp_all add: sched_inv_def linked_def)

lemma timeout_check_inv: "sched_inv s \<Longrightarrow> sched_inv (sched_timeout_check now s)"
  using timeout_scan_inv [of s now]
  by (cases "timeout_scan now s") (simp add: sched_timeout_check_def timeout_publish_def)

lemma sched_inv_upd_at:
  assumes "sched_inv s" and "threads s t = Some x" and "thread_ok (enqueued s) t (f x)" and "event_node (f x) = event_node x"
  shows "sched_inv (upd_thread t f s)"
  using assms by (auto simp: sched_inv_def linked_def)

lemma wait_arm_inv:
  assumes "sched_inv s" and "threads s cur = Some t" and "th_state t = THREAD_STATE_RUNNING"
  shows "sched_inv (wait_arm hz now cur ms s)"
proof -
  have "thread_ok (enqueued s) cur t" using assms by (intro sched_invD(4))
  then have "sched_inv (upd_thread cur (\<lambda>t. t\<lparr>sched_timeout_tick := d\<rparr>) s)" for d
    using assms(3) by (intro sched_inv_upd_at [OF assms(1,2)]) (auto simp: thread_ok_def)
  then show ?thesis
    using assms(1) by (simp add: wait_arm_def sched_timeout_arm_def Let_def timeout_arm_lower_def timeout_arm_bump_def
        timeout_arm_store_def)
qed

lemma wait_park_threads:
  assumes "threads s cur = Some t" and "th_state t = THREAD_STATE_RUNNING"
  shows "threads (wait_park cur ev s) u
         = (if u = cur
            then Some (t\<lparr>event_node := Some ev, wait_event := Some ev, pend_state := SCHED_PEND_NONE, pend_data := 0,
                        blocking_transition := True, th_state := THREAD_STATE_BLOCKED,
                        th_reason := THREAD_BLOCK_EVENT\<rparr>)
            else threads s u)"
  using assms by (cases t) (simp add: wait_park_def Let_def thread_set_state_def)

lemma wait_park_fields:
  assumes "threads s cur = Some t" and "th_state t = THREAD_STATE_RUNNING"
  shows "wait_list (wait_park cur ev s) = (wait_list (unlink cur s))(ev := wait_list (unlink cur s) ev @ [cur])"
    and "enqueued (wait_park cur ev s) = enqueued s"
    and "g_sched_timeout_next (wait_park cur ev s) = g_sched_timeout_next s"
    and "thread_table (wait_park cur ev s) = thread_table s"
  using assms by (simp_all add: wait_park_def Let_def thread_set_state_def)

lemma wait_park_inv:
  assumes inv: "sched_inv s" and th: "threads s cur = Some t"
    and run: "th_state t = THREAD_STATE_RUNNING" and bt: "\<not> blocking_transition t"
  shows "sched_inv (wait_park cur ev s)" (is "sched_inv ?s")
proof -
  have ok: "thread_ok (enqueued s) cur t" using inv th by (rule sched_invD(4))
  have nd: "event_node t = None" and wp: "\<not> wake_pending t"
    using ok run bt by (auto simp: thread_ok_def)
  have thr: "threads ?s u = (if u = cur
            then Some (t\<lparr>event_node := Some ev, wait_event := Some ev, pend_state := SCHED_PEND_NONE, pend_data := 0,
                        blocking_transition := True, th_state := THREAD_STATE_BLOCKED,
                        th_reason := THREAD_BLOCK_EVENT\<rparr>)
            else threads s u)" for u
    by (rule wait_park_threads [OF th run])
  have wl: "wait_list ?s = (wait_list s)(ev := wait_list s ev @ [cur])"
    using th nd wait_park_fields(1) [OF th run, of ev] by (simp add: unlink_def)
  have c0: "cur \<noteq> 0" using th sched_invD(1) [OF inv] by (metis option.distinct(1))
  have nl: "cur \<notin> set (wait_list s e)" for e
    using sched_invD(3) [OF inv, of cur e] th nd by (simp add: linked_def)
  have ln: "linked ?s e u \<longleftrightarrow> (if u = cur then e = ev else linked s e u)" for e u
    by (auto simp: linked_def thr)
  show ?thesis
    unfolding sched_inv_def
  proof (intro conjI allI impI)
    show "threads ?s 0 = None" using c0 sched_invD(1) [OF inv] by (simp add: thr)
  next
    fix e
    show "distinct (wait_list ?s e)" using sched_invD(2) [OF inv] nl by (simp add: wl)
  next
    fix e u
    show "u \<in> set (wait_list ?s e) \<longleftrightarrow> linked ?s e u"
      using sched_invD(3) [OF inv, of u e] nl [of e] by (auto simp: wl ln)
  next
    fix u y
    assume "threads ?s u = Some y"
    then show "thread_ok (enqueued ?s) u y"
      using sched_invD(4) [OF inv, of u y] wp
      by (auto simp: thr wait_park_fields(2) [OF th run] thread_ok_def split: if_splits)
  qed
qed

lemma wait_arm_threads:
  "threads (wait_arm hz now cur ms s) u
   = (if u = cur \<and> 0 < ms
      then map_option (\<lambda>t. t\<lparr>sched_timeout_tick := arm_tick (add64 now (timer_ms_to_ticks hz ms))\<rparr>) (threads s cur)
      else threads s u)"
  by (simp add: wait_arm_def sched_timeout_arm_def Let_def timeout_arm_lower_def timeout_arm_bump_def
      timeout_arm_store_def)

lemma event_wait_inv:
  assumes "sched_inv s" and "threads s cur = Some t"
    and "th_state t = THREAD_STATE_RUNNING" and "\<not> blocking_transition t"
  shows "sched_inv (sched_event_wait hz now cur ev ms s)"
proof -
  let ?s = "wait_arm hz now cur ms s"
  obtain t' where "threads ?s cur = Some t'" "th_state t' = THREAD_STATE_RUNNING" "\<not> blocking_transition t'"
    using assms(2-4) by (cases "0 < ms") (simp_all add: wait_arm_threads)
  then show ?thesis
    using assms(2) wait_park_inv [OF wait_arm_inv [OF assms(1-3)]] by (simp add: sched_event_wait_def)
qed

lemma block_complete_inv:
  assumes inv: "sched_inv s" and th: "threads s tid = Some t"
  shows "sched_inv (block_complete tid s)"
proof -
  let ?f = "\<lambda>t. t\<lparr>blocking_transition := False, wake_pending := False\<rparr>"
  have ok: "thread_ok (enqueued s) tid t" using inv th by (rule sched_invD(4))
  define s1 where "s1 = upd_thread tid (\<lambda>t. t\<lparr>wake_pending := False\<rparr>)
      (upd_thread tid (\<lambda>t. t\<lparr>blocking_transition := False\<rparr>) s)"
  have s1: "s1 = upd_thread tid ?f s"
    using th by (cases t) (simp add: s1_def upd_thread_def)
  have i1: "sched_inv s1"
    unfolding s1 by (rule sched_inv_upd [OF inv]) (auto simp: thread_ok_def)
  have t1: "threads s1 tid = Some (?f t)" using th by (simp add: s1)
  have cl: "sched_block_complete_claim tid s = (wake_pending t, s1)"
    using th by (simp add: sched_block_complete_claim_def s1_def Let_def)
  have nb: "\<not> (wake_pending t \<and> th_state t = THREAD_STATE_BLOCKED)"
    using ok by (auto simp: thread_ok_def)
  have run: "sched_inv (cpu_sched_enqueue tid (upd_thread tid (\<lambda>t. t\<lparr>sched_sticky := True\<rparr>)
        (upd_thread tid (\<lambda>t. t\<lparr>th_state := THREAD_STATE_READY, th_reason := THREAD_BLOCK_NONE\<rparr>) s1)))"
    if st: "th_state t = THREAD_STATE_RUNNING"
  proof -
    have "sched_inv (cpu_sched_enqueue tid (upd_thread tid (\<lambda>x. if th_state x = THREAD_STATE_RUNNING
       then x\<lparr>th_state := THREAD_STATE_READY, th_reason := THREAD_BLOCK_NONE, sched_sticky := True\<rparr> else x) s1))"
      by (rule sched_inv_upd_enqueue [OF i1]) (auto simp: thread_ok_def)
    then show ?thesis using t1 st by (simp add: upd_thread_def)
  qed
  show ?thesis
    using i1 t1 nb run
    by (cases "th_state t")
      (simp_all add: block_complete_def cl Let_def thread_set_state_def enqueue_inv)
qed

lemma settle_inv:
  assumes inv: "sched_inv s"
  shows "sched_inv (sched_settle_deferred_enqueue tid s)"
proof (cases "threads s tid")
  case (Some t)
  have "sched_inv (cpu_sched_enqueue tid (upd_thread tid (\<lambda>t. t\<lparr>enqueue_owed := False\<rparr>) s))"
    by (rule sched_inv_upd_enqueue [OF inv]) (auto simp: thread_ok_def)
  moreover have "sched_inv (x\<lparr>g_enqueue_owed_count := n, enqueued := e\<rparr>) = sched_inv (x\<lparr>enqueued := e\<rparr>)" for x n e
    by (simp add: sched_inv_def linked_def)
  ultimately show ?thesis
    using Some inv
    by (simp add: sched_settle_deferred_enqueue_def sched_take_owed_enqueue_def cpu_sched_enqueue_def)
qed (simp add: sched_settle_deferred_enqueue_def inv)

text \<open>Blocking and waking without an event.\<close>

lemma sched_inv_enqueue_at:
  assumes inv: "sched_inv s" and "threads s t = Some x" and "thread_ok (t # enqueued s) t (f x)"
    and "event_node (f x) = event_node x"
  shows "sched_inv (cpu_sched_enqueue t (upd_thread t f s))" (is "sched_inv ?s")
proof -
  have ln: "linked ?s e u = linked s e u" for e u
    using assms by (auto simp: linked_def cpu_sched_enqueue_def)
  have "thread_ok (t # enqueued s) u y" if "threads s u = Some y" for u y
    using sched_invD(4) [OF inv that] by (auto simp: thread_ok_def)
  then show ?thesis
    using assms unfolding sched_inv_def ln by (auto simp: cpu_sched_enqueue_def)
qed

lemma spawn_inv:
  assumes inv: "sched_inv s" and new: "threads s tid = None" and t0: "tid \<noteq> 0"
  shows "sched_inv (thread_spawn_in_owner tid pid THREAD_STATE_BLOCKED THREAD_BLOCK_NONE s)"
    and "sched_inv (cpu_sched_enqueue tid (thread_spawn_in_owner tid pid THREAD_STATE_READY THREAD_BLOCK_NONE s))"
proof -
  have ln: "linked (thread_spawn_in_owner tid pid st r s) e u = linked s e u" for st r e u
    using new by (auto simp: linked_def thread_spawn_in_owner_def)
  show "sched_inv (thread_spawn_in_owner tid pid THREAD_STATE_BLOCKED THREAD_BLOCK_NONE s)"
    using inv t0 unfolding sched_inv_def ln by (auto simp: thread_spawn_in_owner_def thread_ok_def)
  have ln': "linked (cpu_sched_enqueue tid (thread_spawn_in_owner tid pid st r s)) e u = linked s e u" for st r e u
    using ln by (simp add: linked_def cpu_sched_enqueue_def)
  show "sched_inv (cpu_sched_enqueue tid (thread_spawn_in_owner tid pid THREAD_STATE_READY THREAD_BLOCK_NONE s))"
    using inv t0 unfolding sched_inv_def ln'
    by (auto simp: thread_spawn_in_owner_def thread_ok_def cpu_sched_enqueue_def)
qed

lemma set_blocked_inv:
  assumes inv: "sched_inv s" and th: "threads s cur = Some t" "th_state t = THREAD_STATE_RUNNING"
    "\<not> blocking_transition t" "sched_timeout_tick t = 0" and r: "r \<noteq> THREAD_BLOCK_EVENT"
  shows "sched_inv (upd_thread cur (\<lambda>t. t\<lparr>wait_target_pid := p\<rparr>) (process_set_blocked may cur r s))"
proof -
  have ok: "thread_ok (enqueued s) cur t" using inv th(1) by (rule sched_invD(4))
  have keep: "sched_inv x \<Longrightarrow> sched_inv (upd_thread cur (\<lambda>t. t\<lparr>wait_target_pid := p\<rparr>) x)" for x
    by (rule sched_inv_upd) (simp_all add: thread_ok_def)
  have "sched_inv (upd_thread cur (\<lambda>t. t\<lparr>th_state := THREAD_STATE_BLOCKED, th_reason := r\<rparr>) s)"
    using ok th r by (intro sched_inv_upd_at [OF inv th(1)]) (auto simp: thread_ok_def)
  then show ?thesis
    using inv th by (auto simp: process_set_blocked_def thread_set_state_def intro!: keep)
qed

lemma join_park_inv:
  assumes inv: "sched_inv s" and th: "threads s cur = Some t" "th_state t = THREAD_STATE_RUNNING"
    "\<not> blocking_transition t" "sched_timeout_tick t = 0"
  shows "sched_inv (snd (thread_join_park may cur target s))"
proof -
  let ?s = "upd_thread target (\<lambda>t. t\<lparr>join_waiter_tid := cur\<rparr>) s"
  have i: "sched_inv ?s" by (rule sched_inv_upd [OF inv]) (simp_all add: thread_ok_def)
  obtain t' where "threads ?s cur = Some t'" "th_state t' = THREAD_STATE_RUNNING" "\<not> blocking_transition t'"
    "sched_timeout_tick t' = 0" using th by (cases "target = cur") auto
  from set_blocked_inv [OF i this] show ?thesis
    using inv by (simp add: thread_join_park_def split: option.split)
qed

lemma wake_parked_inv:
  assumes inv: "sched_inv s" and th: "threads s tid = Some t" "th_state t = THREAD_STATE_BLOCKED"
    "th_reason t \<noteq> THREAD_BLOCK_EVENT"
  shows "sched_inv (claim_and_enqueue tid (True, snd (thread_wake_if_blocked tid s)))"
    and "sched_inv (process_unpark tid s)" and "sched_inv (sched_wake_thread tid s)"
    and "th_reason t = THREAD_BLOCK_NONE \<Longrightarrow> sched_inv (snd (worker_publish tid s))"
proof -
  let ?f = "\<lambda>t. t\<lparr>th_state := THREAD_STATE_READY, th_reason := THREAD_BLOCK_NONE\<rparr>"
  let ?g = "\<lambda>t. t\<lparr>th_state := THREAD_STATE_READY, th_reason := THREAD_BLOCK_NONE, wake_pending := False\<rparr>"
  have ok: "thread_ok (enqueued s) tid t" using inv th(1) by (rule sched_invD(4))
  have t0: "tid \<noteq> 0" using th(1) sched_invD(1) [OF inv] by (metis option.distinct(1))
  have nb: "\<not> blocking_transition t" "\<not> wake_pending t" using ok th by (auto simp: thread_ok_def)
  have f: "sched_inv (cpu_sched_enqueue tid (upd_thread tid ?f s))"
    using ok nb th by (intro sched_inv_enqueue_at [OF inv th(1)]) (auto simp: thread_ok_def)
  have g: "sched_inv (cpu_sched_enqueue tid (upd_thread tid ?g s))"
    using ok nb th by (intro sched_inv_enqueue_at [OF inv th(1)]) (auto simp: thread_ok_def)
  show "sched_inv (claim_and_enqueue tid (True, snd (thread_wake_if_blocked tid s)))"
    using g t0 th nb
    by (simp add: claim_and_enqueue_def thread_wake_if_blocked_def sched_wake_claim_enqueue_def Let_def upd_thread_def)
  show "sched_inv (process_unpark tid s)"
    using f t0 th by (simp add: process_unpark_def thread_wake_if_blocked_def)
  have "sched_wake_thread tid s = cpu_sched_enqueue tid (upd_thread tid ?g s)"
    using t0 th nb by (cases t) (simp add: sched_wake_thread_def sched_wake_claim_enqueue_def thread_wake_if_blocked_def
        Let_def upd_thread_def)
  then show "sched_inv (sched_wake_thread tid s)" using g by simp
  assume r: "th_reason t = THREAD_BLOCK_NONE"
  have "sched_inv (cpu_sched_enqueue tid (upd_thread tid (\<lambda>t. t\<lparr>th_state := THREAD_STATE_READY\<rparr>) s))"
    using ok nb r th by (intro sched_inv_enqueue_at [OF inv th(1)]) (auto simp: thread_ok_def)
  then show "sched_inv (snd (worker_publish tid s))" using th by (simp add: worker_publish_def thread_transit_def)
qed

lemma claim_refused [simp]: "claim_and_enqueue tid (False, s) = s"
  by (simp add: claim_and_enqueue_def)

lemma wake_waiter_inv:
  assumes inv: "sched_inv s"
  shows "sched_inv (wake_waiter fast may target_pid tid s)"
proof -
  let ?s = "upd_thread tid (\<lambda>t. t\<lparr>wait_target_pid := 0\<rparr>) s"
  have i: "sched_inv ?s" by (rule sched_inv_upd [OF inv]) (simp_all add: thread_ok_def)
  have "sched_inv (claim_and_enqueue tid (True, snd (thread_wake_if_blocked tid ?s)))"
    if "threads s tid = Some t" "th_state t = THREAD_STATE_BLOCKED" "th_reason t = THREAD_BLOCK_WAIT_PROCESS" for t
    using that wake_parked_inv(1) [OF i, of tid "t\<lparr>wait_target_pid := 0\<rparr>"] by simp
  then show ?thesis
    using inv i by (auto simp: wake_waiter_def process_set_ready_def Let_def split: option.split)
qed

lemma wake_waiters_inv: "sched_inv s \<Longrightarrow> sched_inv (process_wake_waiters fast may target_pid tids s)"
proof -
  have "sched_inv s \<Longrightarrow> sched_inv (fold (wake_waiter fast may target_pid) ts s)" for ts
    by (induction ts arbitrary: s) (simp_all add: wake_waiter_inv)
  then show "sched_inv s \<Longrightarrow> ?thesis" by (simp add: process_wake_waiters_def)
qed

text \<open>The waiter that a thread records is a thread parked in its join, if it is BLOCKED at all.\<close>

definition joiner_parked :: "nat \<Rightarrow> sched \<Rightarrow> bool" where
  "joiner_parked x s \<longleftrightarrow>
     (\<forall>tx w. threads s x = Some tx \<and> threads s (join_waiter_tid tx) = Some w \<and> th_state w = THREAD_STATE_BLOCKED \<longrightarrow>
        th_reason w = THREAD_BLOCK_WAIT_THREAD)"

lemma wake_joiner_inv:
  assumes inv: "sched_inv s" and j: "joiner_parked x s"
  shows "sched_inv (process_wake_thread_joiner may pid x s)"
proof -
  let ?s = "upd_thread x (\<lambda>t. t\<lparr>join_waiter_tid := 0\<rparr>) s"
  have i: "sched_inv ?s" by (rule sched_inv_upd [OF inv]) (simp_all add: thread_ok_def)
  have "sched_inv (claim_and_enqueue w (True, snd (thread_wake_if_blocked w ?s)))"
    if wt: "threads s x = Some tx" "join_waiter_tid tx = w" "threads ?s w = Some t" "th_state t = THREAD_STATE_BLOCKED" for tx w t
  proof (rule wake_parked_inv(1) [OF i wt(3,4)])
    obtain t' where "threads s w = Some t'" "th_state t' = th_state t" "th_reason t' = th_reason t"
      using wt(3) by (auto split: if_splits)
    then show "th_reason t \<noteq> THREAD_BLOCK_EVENT" using j wt by (auto simp: joiner_parked_def)
  qed
  then show ?thesis
    using inv i unfolding process_wake_thread_joiner_def process_set_ready_def Let_def
    by (simp split: option.split)
qed

lemma wake_spawned_inv:
  assumes inv: "sched_inv s" and th: "threads s tid = Some t" "th_reason t = THREAD_BLOCK_NONE"
  shows "sched_inv (process_unpark tid s)" "sched_inv (snd (process_wake_thread tid s))"
    "sched_inv (snd (worker_publish tid s))"
proof -
  show "sched_inv (process_unpark tid s)"
    using wake_parked_inv(2) [OF inv th(1)] th inv
    by (cases "th_state t = THREAD_STATE_BLOCKED") (simp_all add: process_unpark_def thread_wake_if_blocked_def)
  show "sched_inv (snd (process_wake_thread tid s))"
    using wake_parked_inv(3) [OF inv th(1)] th inv by (simp add: process_wake_thread_def)
  show "sched_inv (snd (worker_publish tid s))"
    using wake_parked_inv(4) [OF inv th(1)] th inv
    by (cases "th_state t = THREAD_STATE_BLOCKED") (simp_all add: worker_publish_def thread_transit_def)
qed

subsection \<open>Every interleaving of waits and wakes\<close>

text \<open>
  The dispatcher takes a READY thread off its run queue once its last block has completed; the
  other steps are the operations above, each whole and in any order.  A thread parks itself, so it
  is RUNNING.  The releases of spawned threads go to a thread that has not run yet.  An exiting
  thread wakes the thread parked in its join, and a thread that parks without an event has no
  deadline armed: \<open>guards_met\<close> below shows that these two conditions hold in every reachable state.
\<close>

inductive sched_step :: "sched \<Rightarrow> sched \<Rightarrow> bool" where
  wait: "\<lbrakk>threads s cur = Some t; th_state t = THREAD_STATE_RUNNING; \<not> blocking_transition t\<rbrakk>
         \<Longrightarrow> sched_step s (sched_event_wait hz now cur ev ms s)"
| complete: "threads s tid = Some t \<Longrightarrow> sched_step s (block_complete tid s)"
| settle: "sched_step s (sched_settle_deferred_enqueue tid s)"
| wake_one: "sched_step s (snd (sched_event_wake_one ev data pend s))"
| wake_all: "sched_step s (snd (sched_event_wake_all ev data pend s))"
| check: "sched_step s (sched_timeout_check now s)"
| dispatch: "\<lbrakk>threads s tid = Some t; th_state t = THREAD_STATE_READY; tid \<in> set (enqueued s);
              \<not> blocking_transition t\<rbrakk>
             \<Longrightarrow> sched_step s ((upd_thread tid (\<lambda>t. t\<lparr>th_state := THREAD_STATE_RUNNING\<rparr>) s)
                               \<lparr>enqueued := removeAll tid (enqueued s)\<rparr>)"
| resume: "sched_step s (sched_event_resume tid s)"
| spawn_parked: "\<lbrakk>threads s tid = None; tid \<noteq> 0\<rbrakk>
                 \<Longrightarrow> sched_step s (thread_spawn_in_owner tid pid THREAD_STATE_BLOCKED THREAD_BLOCK_NONE s)"
| spawn_ready: "\<lbrakk>threads s tid = None; tid \<noteq> 0\<rbrakk>
                \<Longrightarrow> sched_step s (cpu_sched_enqueue tid
                      (thread_spawn_in_owner tid pid THREAD_STATE_READY THREAD_BLOCK_NONE s))"
| unpark: "\<lbrakk>threads s tid = Some t; th_reason t = THREAD_BLOCK_NONE\<rbrakk> \<Longrightarrow> sched_step s (process_unpark tid s)"
| wake_spawned: "\<lbrakk>threads s tid = Some t; th_reason t = THREAD_BLOCK_NONE\<rbrakk>
                 \<Longrightarrow> sched_step s (snd (process_wake_thread tid s))"
| publish: "\<lbrakk>threads s tid = Some t; th_reason t = THREAD_BLOCK_NONE\<rbrakk>
            \<Longrightarrow> sched_step s (snd (worker_publish tid s))"
| process_wait: "\<lbrakk>threads s cur = Some t; th_state t = THREAD_STATE_RUNNING; \<not> blocking_transition t;
                  sched_timeout_tick t = 0; target_pid \<noteq> 0\<rbrakk>
                 \<Longrightarrow> sched_step s (process_wait_park may cur target_pid s)"
| wake_waiters: "sched_step s (process_wake_waiters fast may' target_pid tids s)"
| thread_join: "\<lbrakk>threads s cur = Some t; th_state t = THREAD_STATE_RUNNING; \<not> blocking_transition t;
                 sched_timeout_tick t = 0; target \<noteq> cur\<rbrakk>
                \<Longrightarrow> sched_step s (snd (thread_join_park True cur target s))"
| wake_joiner: "joiner_parked x s \<Longrightarrow> sched_step s (process_wake_thread_joiner may pid x s)"

lemma dispatch_inv:
  assumes inv: "sched_inv s" and th: "threads s tid = Some t" and rd: "th_state t = THREAD_STATE_READY"
  shows "sched_inv ((upd_thread tid (\<lambda>t. t\<lparr>th_state := THREAD_STATE_RUNNING\<rparr>) s)
           \<lparr>enqueued := removeAll tid (enqueued s)\<rparr>)" (is "sched_inv ?s")
proof -
  have ok: "thread_ok (enqueued s) tid t" using inv th by (rule sched_invD(4))
  have ln: "linked ?s e u = linked s e u" for e u
    using th by (auto simp: linked_def)
  have "thread_ok (enqueued ?s) u y" if "threads ?s u = Some y" for u y
  proof (cases "u = tid")
    case True
    then show ?thesis using that th ok rd by (auto simp: thread_ok_def)
  next
    case False
    then have "thread_ok (enqueued s) u y"
      using that sched_invD(4) [OF inv] by simp
    then show ?thesis using False by (auto simp: thread_ok_def)
  qed
  then show ?thesis
    using inv th unfolding sched_inv_def ln by auto
qed

lemma sched_step_inv: "sched_step s s' \<Longrightarrow> sched_inv s \<Longrightarrow> sched_inv s'"
  by (induction rule: sched_step.induct)
    (simp_all add: event_wait_inv block_complete_inv settle_inv wake_one_inv wake_all_inv
      timeout_check_inv dispatch_inv sched_event_resume_def disarm_inv spawn_inv wake_spawned_inv
      set_blocked_inv process_wait_park_def wake_waiters_inv join_park_inv wake_joiner_inv)

lemma sched_steps_inv: "sched_step\<^sup>*\<^sup>* s s' \<Longrightarrow> sched_inv s \<Longrightarrow> sched_inv s'"
  by (induction rule: rtranclp_induct) (auto intro: sched_step_inv)

text \<open>
  A state in which nobody waits for an event: every thread runs, sits on a run queue, or is BLOCKED
  without an event.
\<close>

definition sched_idle :: "sched \<Rightarrow> bool" where
  "sched_idle s \<longleftrightarrow>
     threads s 0 = None
     \<and> (\<forall>ev. wait_list s ev = [])
     \<and> (\<forall>t th. threads s t = Some th \<longrightarrow>
          wait_event th = None \<and> event_node th = None
          \<and> (th_state th = THREAD_STATE_BLOCKED \<longrightarrow>
               th_reason th \<noteq> THREAD_BLOCK_EVENT \<and> \<not> blocking_transition th \<and> sched_timeout_tick th = 0)
          \<and> \<not> wake_pending th \<and> (th_state th = THREAD_STATE_READY \<longrightarrow> t \<in> set (enqueued s)))"

lemma sched_idle_inv: "sched_idle s \<Longrightarrow> sched_inv s"
  by (auto simp: sched_idle_def sched_inv_def linked_def thread_ok_def)

definition new_thread :: thread where
  "new_thread =
     \<lparr>th_state = THREAD_STATE_RUNNING, th_reason = THREAD_BLOCK_NONE, wait_event = None, event_node = None,
      pend_state = SCHED_PEND_NONE, pend_data = 0, blocking_transition = False, wake_pending = False,
      enqueue_owed = False, sched_timeout_tick = 0, sched_sticky = False, owner_pid = 1, wait_target_pid = 0,
      join_waiter_tid = 0\<rparr>"

definition demo_sched :: sched where
  "demo_sched =
     \<lparr>threads = [2 \<mapsto> new_thread, 3 \<mapsto> new_thread], thread_table = [2, 3], wait_list = (\<lambda>_. []),
      enqueued = [], g_enqueue_owed_count = 0, g_sched_timeout_next = TIMEOUT_NONE,
      g_sched_timeout_arm_seq = 0\<rparr>"

text \<open>
  C11.  From a state in which nobody waits for an event, after any sequence of event waits, wakes,
  timeouts, block completions, dispatches, spawns (parked ones included), waits for a process and
  for a thread and their wakes, every thread BLOCKED for an event is in exactly one wait list (so a
  later wake of that event can find it), no other thread is in any (a thread parked since its spawn,
  or BLOCKED in a process wait or a join, included), no list holds a thread twice, and every READY
  thread is on a run queue or is owed an enqueue.
\<close>

theorem sched_event_no_lost_thread:
  assumes "sched_idle s0" and "sched_step\<^sup>*\<^sup>* s0 s" and "threads s t = Some th"
  shows "(th_state th = THREAD_STATE_BLOCKED \<and> th_reason th = THREAD_BLOCK_EVENT
           \<longleftrightarrow> (\<exists>!ev. t \<in> set (wait_list s ev)))
    \<and> (th_state th \<noteq> THREAD_STATE_BLOCKED \<or> th_reason th \<noteq> THREAD_BLOCK_EVENT \<longrightarrow> t \<notin> set (wait_list s ev))
    \<and> distinct (wait_list s ev)
    \<and> (th_state th = THREAD_STATE_READY \<longrightarrow> t \<in> set (enqueued s) \<or> enqueue_owed th)"
proof (intro conjI impI)
  have inv: "sched_inv s" using assms(1,2) sched_idle_inv sched_steps_inv by blast
  have ok: "thread_ok (enqueued s) t th" using inv assms(3) by (rule sched_invD(4))
  have mem: "t \<in> set (wait_list s e) \<longleftrightarrow> event_node th = Some e" for e
    using sched_invD(3) [OF inv] assms(3) by (simp add: linked_def)
  show "th_state th = THREAD_STATE_BLOCKED \<and> th_reason th = THREAD_BLOCK_EVENT \<longleftrightarrow> (\<exists>!ev. t \<in> set (wait_list s ev))"
    using ok unfolding mem by (auto simp: thread_ok_def)
  show "t \<notin> set (wait_list s ev)" if "th_state th \<noteq> THREAD_STATE_BLOCKED \<or> th_reason th \<noteq> THREAD_BLOCK_EVENT"
    using ok that unfolding mem by (auto simp: thread_ok_def)
  show "distinct (wait_list s ev)" using inv by (rule sched_invD(2))
  show "t \<in> set (enqueued s) \<or> enqueue_owed th" if "th_state th = THREAD_STATE_READY"
    using ok that by (simp add: thread_ok_def)
qed

lemma demo_sched_idle: "sched_idle demo_sched"
  by (auto simp: sched_idle_def demo_sched_def new_thread_def split: if_splits)

definition demo_waiting :: sched where
  "demo_waiting = sched_event_wait 100 50 2 (EV_IPC 7) 0 demo_sched"

lemma demo_waiting_thread:
  "threads demo_waiting 2 = Some (new_thread\<lparr>event_node := Some (EV_IPC 7), wait_event := Some (EV_IPC 7),
     blocking_transition := True, th_state := THREAD_STATE_BLOCKED, th_reason := THREAD_BLOCK_EVENT\<rparr>)"
  by (simp add: demo_waiting_def sched_event_wait_def demo_sched_def wait_arm_def wait_park_def
      unlink_def thread_set_state_def new_thread_def Let_def)

lemma demo_waiting_reached: "sched_step\<^sup>*\<^sup>* demo_sched demo_waiting"
  unfolding demo_waiting_def
  by (rule r_into_rtranclp, rule sched_step.wait [where t = new_thread])
    (simp_all add: demo_sched_def new_thread_def)

text \<open>Thread 2 waits for a message and thread 3 for the end of thread 2; thread 4 is spawned parked.\<close>

definition demo_blocked :: sched where
  "demo_blocked = thread_spawn_in_owner 4 1 THREAD_STATE_BLOCKED THREAD_BLOCK_NONE
     (snd (thread_join_park True 3 2 demo_waiting))"

lemma demo_waiting_other: "threads demo_waiting 3 = Some new_thread" "threads demo_waiting 4 = None"
  by (simp_all add: demo_waiting_def sched_event_wait_def demo_sched_def wait_arm_def wait_park_def
      unlink_def thread_set_state_def new_thread_def Let_def)

lemma demo_joined: "threads (snd (thread_join_park True 3 2 demo_waiting)) u
   = (if u = 3 then Some (new_thread\<lparr>th_state := THREAD_STATE_BLOCKED, th_reason := THREAD_BLOCK_WAIT_THREAD\<rparr>)
      else if u = 2 then map_option (\<lambda>t. t\<lparr>join_waiter_tid := 3\<rparr>) (threads demo_waiting 2) else threads demo_waiting u)"
  by (simp add: thread_join_park_def demo_waiting_thread demo_waiting_other process_set_blocked_def
      thread_set_state_def new_thread_def)

lemma demo_blocked_reached: "sched_step\<^sup>*\<^sup>* demo_sched demo_blocked"
proof -
  let ?s = "snd (thread_join_park True 3 2 demo_waiting)"
  have "sched_step demo_waiting ?s"
    by (rule sched_step.thread_join [OF demo_waiting_other(1)]) (simp_all add: new_thread_def)
  moreover have "sched_step ?s demo_blocked"
    unfolding demo_blocked_def by (rule sched_step.spawn_parked) (simp_all add: demo_joined demo_waiting_other)
  ultimately show ?thesis using demo_waiting_reached by simp
qed

lemma demo_blocked_threads:
  "threads demo_blocked 2 = Some (new_thread\<lparr>event_node := Some (EV_IPC 7), wait_event := Some (EV_IPC 7),
     blocking_transition := True, th_state := THREAD_STATE_BLOCKED, th_reason := THREAD_BLOCK_EVENT,
     join_waiter_tid := 3\<rparr>)"
  "threads demo_blocked 3 = Some (new_thread\<lparr>th_state := THREAD_STATE_BLOCKED, th_reason := THREAD_BLOCK_WAIT_THREAD\<rparr>)"
  by (simp_all add: demo_blocked_def thread_spawn_in_owner_def demo_joined demo_waiting_thread)

theorem sched_event_no_lost_thread_witness:
  "(\<exists>!ev. 2 \<in> set (wait_list demo_blocked ev)) \<and> 3 \<notin> set (wait_list demo_blocked (EV_IPC 7))"
  using sched_event_no_lost_thread [OF demo_sched_idle demo_blocked_reached demo_blocked_threads(1)]
    sched_event_no_lost_thread [OF demo_sched_idle demo_blocked_reached demo_blocked_threads(2)]
  by simp

text \<open>
  C12.  A wake picks the longest waiting thread of its event: it returns that thread, takes it and
  only it out of the wait list, hands it the waker's data and pend state, cancels its deadline,
  leaves it READY and on a run queue or owed an enqueue, and changes no other thread.
\<close>

theorem sched_event_wake_one_fifo:
  assumes inv: "sched_inv s" and wl: "wait_list s ev = t # ts"
  shows "\<exists>s' th. sched_event_wake_one ev data pend s = (Some t, s') \<and> threads s' t = Some th
     \<and> wait_list s' = (wait_list s)(ev := ts)
     \<and> th_state th = THREAD_STATE_READY \<and> pend_state th = pend \<and> pend_data th = data
     \<and> wait_event th = None \<and> sched_timeout_tick th = 0
     \<and> (t \<in> set (enqueued s') \<or> enqueue_owed th \<and> blocking_transition th)
     \<and> (\<forall>u. u \<noteq> t \<longrightarrow> threads s' u = threads s u)"
proof -
  let ?s = "sched_event_detach_wake t data pend s"
  have l: "linked s ev t" using sched_invD(3) [OF inv, of t ev] wl by simp
  then obtain th where th: "threads s t = Some th" "event_node th = Some ev" by (auto simp: linked_def)
  have t0: "t \<noteq> 0" using inv l by (rule linked_nonzero)
  have bl: "th_state th = THREAD_STATE_BLOCKED"
    using sched_invD(4) [OF inv th(1)] th(2) by (simp add: thread_ok_def)
  have nt: "t \<notin> set ts" using sched_invD(2) [OF inv, of ev] wl by simp
  have wl': "wait_list ?s = (wait_list s)(ev := ts)"
    using th wl nt by (auto simp: sched_event_detach_wake_def unlink_def)
  have en: "enqueued ?s = (if blocking_transition th then enqueued s else t # enqueued s)"
    using th bl t0 by (simp add: sched_event_detach_wake_def sched_wake_thread_enqueued)
  show ?thesis
    using th(1) wl wl' bl t0 by (simp add: sched_event_wake_one_def woken_def en detach_wake_threads)
qed

lemma demo_waiting_inv: "sched_inv demo_waiting"
  using demo_waiting_reached demo_sched_idle sched_idle_inv sched_steps_inv by blast

lemma demo_waiting_list: "wait_list demo_waiting (EV_IPC 7) = [2]"
  by (simp add: demo_waiting_def sched_event_wait_def demo_sched_def wait_arm_def wait_park_def
      unlink_def thread_set_state_def new_thread_def Let_def)

theorem sched_event_wake_one_fifo_witness:
  "\<exists>s' th. sched_event_wake_one (EV_IPC 7) 9 SCHED_PEND_OK demo_waiting = (Some 2, s')
     \<and> threads s' 2 = Some th \<and> pend_data th = 9"
  using sched_event_wake_one_fifo [OF demo_waiting_inv demo_waiting_list, of 9 SCHED_PEND_OK] by auto

subsection \<open>The wake/block handshake, instruction by instruction\<close>

text \<open>
  A waker and the completion of the block it wakes run on two CPUs.  Each of the atomic accesses
  of \<open>sched_wake_thread\<close> (its program counters are those of \<open>waker_pc\<close>; the mark of a thread is the
  load of its state, the compare-and-exchange and the store of the reason) and of the completion path
  (C0 to C3) is one step; \<open>h_claims\<close> counts how often the wake token was taken, \<open>h_enqueues\<close> the enqueues.
\<close>

datatype waker_pc = W0 | W1 | W2 | W_mark | W_cas thread_state | W_reason | W_owe | W_wake | W_enqueue | W_done

datatype completion_pc = C0 | C1 | C2 bool | C3 | C_done

record handshake =
  h_thread :: thread
  h_waker :: waker_pc
  h_completion :: completion_pc
  h_claims :: nat
  h_enqueues :: nat

definition waker_next :: "handshake \<Rightarrow> handshake" where
  "waker_next h =
     (let t = h_thread h in
      case h_waker h of
        W0 \<Rightarrow> h\<lparr>h_thread := t\<lparr>wake_pending := True\<rparr>, h_waker := W1\<rparr>
      | W1 \<Rightarrow> h\<lparr>h_waker := (if blocking_transition t then W_mark else W2)\<rparr>
      | W2 \<Rightarrow> h\<lparr>h_thread := t\<lparr>wake_pending := False\<rparr>,
               h_waker := (if wake_pending t then W_wake else W_mark),
               h_claims := h_claims h + (if wake_pending t then 1 else 0)\<rparr>
      | W_mark \<Rightarrow> h\<lparr>h_waker := (if th_state t = THREAD_STATE_READY then W_reason
                              else if th_state t = THREAD_STATE_RUNNING \<or> th_state t = THREAD_STATE_BLOCKED
                              then W_cas (th_state t) else W_owe)\<rparr>
      | W_cas cur \<Rightarrow> (if th_state t = cur
                     then h\<lparr>h_thread := t\<lparr>th_state := THREAD_STATE_READY\<rparr>, h_waker := W_reason\<rparr>
                     else h\<lparr>h_waker := W_owe\<rparr>)
      | W_reason \<Rightarrow> h\<lparr>h_thread := t\<lparr>th_reason := THREAD_BLOCK_NONE\<rparr>, h_waker := W_owe\<rparr>
      | W_owe \<Rightarrow> h\<lparr>h_thread := t\<lparr>enqueue_owed := True\<rparr>, h_waker := W_done\<rparr>
      | W_wake \<Rightarrow> (if th_state t = THREAD_STATE_BLOCKED
                  then h\<lparr>h_thread := t\<lparr>th_state := THREAD_STATE_READY, th_reason := THREAD_BLOCK_NONE\<rparr>,
                         h_waker := W_enqueue\<rparr>
                  else h\<lparr>h_waker := W_done\<rparr>)
      | W_enqueue \<Rightarrow> h\<lparr>h_waker := W_done, h_enqueues := h_enqueues h + 1\<rparr>
      | W_done \<Rightarrow> h)"

definition completion_next :: "handshake \<Rightarrow> handshake" where
  "completion_next h =
     (let t = h_thread h in
      case h_completion h of
        C0 \<Rightarrow> h\<lparr>h_thread := t\<lparr>blocking_transition := False\<rparr>, h_completion := C1\<rparr>
      | C1 \<Rightarrow> h\<lparr>h_thread := t\<lparr>wake_pending := False\<rparr>, h_completion := C2 (wake_pending t),
               h_claims := h_claims h + (if wake_pending t then 1 else 0)\<rparr>
      | C2 claimed \<Rightarrow> h\<lparr>h_thread := (if claimed \<and> th_state t = THREAD_STATE_BLOCKED
                                    then t\<lparr>th_state := THREAD_STATE_READY, th_reason := THREAD_BLOCK_NONE\<rparr> else t),
                       h_completion := C3\<rparr>
      | C3 \<Rightarrow> h\<lparr>h_thread := (if th_state t = THREAD_STATE_RUNNING
                            then t\<lparr>th_state := THREAD_STATE_READY, th_reason := THREAD_BLOCK_NONE, sched_sticky := True\<rparr>
                            else t),
               h_completion := C_done,
               h_enqueues := h_enqueues h
                 + (if th_state t = THREAD_STATE_READY \<or> th_state t = THREAD_STATE_RUNNING then 1 else 0)\<rparr>
      | C_done \<Rightarrow> h)"

inductive handshake_step :: "handshake \<Rightarrow> handshake \<Rightarrow> bool" where
  waker: "h_waker h \<noteq> W_done \<Longrightarrow> handshake_step h (waker_next h)"
| completion: "h_completion h \<noteq> C_done \<Longrightarrow> handshake_step h (completion_next h)"

definition handshake_start :: "thread \<Rightarrow> handshake" where
  "handshake_start t =
     \<lparr>h_thread = t, h_waker = W0, h_completion = C0, h_claims = 0, h_enqueues = 0\<rparr>"

text \<open>What holds at each pair of program counters.  The completion has taken the token.\<close>

definition completion_claimed :: "bool \<Rightarrow> completion_pc \<Rightarrow> nat \<Rightarrow> bool" where
  "completion_claimed ready c enq \<longleftrightarrow>
     c = C2 True \<and> \<not> ready \<or> (c = C3 \<or> c = C_done) \<and> ready \<and> (c = C_done \<longrightarrow> 0 < enq)"

fun handshake_at :: "waker_pc \<Rightarrow> bool \<Rightarrow> bool \<Rightarrow> completion_pc \<Rightarrow> nat \<Rightarrow> nat \<Rightarrow> bool" where
  "handshake_at W0 wp ready c claims enq = (\<not> wp \<and> \<not> ready \<and> claims = 0 \<and> c \<noteq> C2 True)"
| "handshake_at W1 wp ready c claims enq =
     (if wp then \<not> ready \<and> claims = 0 \<and> c \<noteq> C2 True else claims = 1 \<and> completion_claimed ready c enq)"
| "handshake_at W2 wp ready c claims enq =
     (c \<noteq> C0 \<and> (if wp then \<not> ready \<and> claims = 0 \<and> c \<noteq> C2 True
                  else claims = 1 \<and> completion_claimed ready c enq))"
| "handshake_at W_mark wp ready c claims enq =
     (if wp then \<not> ready \<and> claims = 0 \<and> (c = C0 \<or> c = C1)
      else claims = 1 \<and> completion_claimed ready c enq)"
| "handshake_at (W_cas cur) wp ready c claims enq =
     (cur = THREAD_STATE_BLOCKED
      \<and> (if wp then \<not> ready \<and> claims = 0 \<and> (c = C0 \<or> c = C1)
           else claims = 1 \<and> completion_claimed ready c enq))"
| "handshake_at W_reason wp ready c claims enq =
     (ready \<and> (if wp then claims = 0 \<and> (c = C0 \<or> c = C1)
                else claims = 1 \<and> (c = C2 True \<or> c = C3 \<or> c = C_done \<and> 0 < enq)))"
| "handshake_at W_owe wp ready c claims enq =
     (ready \<and> (if wp then claims = 0 \<and> (c = C0 \<or> c = C1)
                else claims = 1 \<and> (c = C2 True \<or> c = C3 \<or> c = C_done \<and> 0 < enq)))"
| "handshake_at W_wake wp ready c claims enq =
     (\<not> wp \<and> \<not> ready \<and> claims = 1 \<and> c \<noteq> C0 \<and> c \<noteq> C2 True)"
| "handshake_at W_enqueue wp ready c claims enq =
     (\<not> wp \<and> ready \<and> claims = 1 \<and> c \<noteq> C0 \<and> c \<noteq> C2 True)"
| "handshake_at W_done wp ready c claims enq =
     (ready \<and> (if wp then claims = 0 \<and> (c = C0 \<or> c = C1)
                else claims = 1 \<and> c \<noteq> C0 \<and> (c = C_done \<longrightarrow> 0 < enq)))"

definition handshake_inv :: "handshake \<Rightarrow> bool" where
  "handshake_inv h \<longleftrightarrow>
     (th_state (h_thread h) = THREAD_STATE_BLOCKED \<or> th_state (h_thread h) = THREAD_STATE_READY)
     \<and> (blocking_transition (h_thread h) \<longleftrightarrow> h_completion h = C0)
     \<and> handshake_at (h_waker h) (wake_pending (h_thread h)) (th_state (h_thread h) = THREAD_STATE_READY)
         (h_completion h) (h_claims h) (h_enqueues h)"

lemma waker_next_inv: "handshake_inv h \<Longrightarrow> handshake_inv (waker_next h)"
  by (cases "h_waker h")
    (auto simp: handshake_inv_def waker_next_def completion_claimed_def Let_def split: if_splits)

lemma completion_next_inv: "handshake_inv h \<Longrightarrow> handshake_inv (completion_next h)"
  by (cases "h_completion h"; cases "h_waker h")
    (auto simp: handshake_inv_def completion_next_def completion_claimed_def Let_def split: if_splits)

lemma handshake_reach_inv: "handshake_step\<^sup>*\<^sup>* h h' \<Longrightarrow> handshake_inv h \<Longrightarrow> handshake_inv h'"
proof (induction rule: rtranclp_induct)
  case (step y z)
  then have "handshake_inv y" by blast
  then show ?case
    using step.hyps(2) by (auto elim!: handshake_step.cases intro: waker_next_inv completion_next_inv)
qed simp

text \<open>Run alone, the steps of the waker are \<open>sched_wake_thread\<close>.\<close>

lemma waker_next_simps:
  "h_waker h = W0 \<Longrightarrow> waker_next h = h\<lparr>h_thread := (h_thread h)\<lparr>wake_pending := True\<rparr>, h_waker := W1\<rparr>"
  "\<lbrakk>h_waker h = W1; blocking_transition (h_thread h)\<rbrakk> \<Longrightarrow> waker_next h = h\<lparr>h_waker := W_mark\<rparr>"
  "\<lbrakk>h_waker h = W1; \<not> blocking_transition (h_thread h)\<rbrakk> \<Longrightarrow> waker_next h = h\<lparr>h_waker := W2\<rparr>"
  "\<lbrakk>h_waker h = W2; wake_pending (h_thread h)\<rbrakk> \<Longrightarrow>
     waker_next h = h\<lparr>h_thread := (h_thread h)\<lparr>wake_pending := False\<rparr>, h_waker := W_wake, h_claims := h_claims h + 1\<rparr>"
  "h_waker h = W_owe \<Longrightarrow> waker_next h = h\<lparr>h_thread := (h_thread h)\<lparr>enqueue_owed := True\<rparr>, h_waker := W_done\<rparr>"
  "h_waker h = W_enqueue \<Longrightarrow> waker_next h = h\<lparr>h_waker := W_done, h_enqueues := h_enqueues h + 1\<rparr>"
  "h_waker h = W_done \<Longrightarrow> waker_next h = h"
  "h_waker h = W_mark \<Longrightarrow> waker_next h =
     h\<lparr>h_waker := (if th_state (h_thread h) = THREAD_STATE_READY then W_reason
        else if th_state (h_thread h) = THREAD_STATE_RUNNING \<or> th_state (h_thread h) = THREAD_STATE_BLOCKED
        then W_cas (th_state (h_thread h)) else W_owe)\<rparr>"
  "\<lbrakk>h_waker h = W_cas cur; th_state (h_thread h) = cur\<rbrakk> \<Longrightarrow> waker_next h =
     h\<lparr>h_thread := (h_thread h)\<lparr>th_state := THREAD_STATE_READY\<rparr>, h_waker := W_reason\<rparr>"
  "h_waker h = W_reason \<Longrightarrow> waker_next h = h\<lparr>h_thread := (h_thread h)\<lparr>th_reason := THREAD_BLOCK_NONE\<rparr>, h_waker := W_owe\<rparr>"
  "\<lbrakk>h_waker h = W_wake; th_state (h_thread h) = THREAD_STATE_BLOCKED\<rbrakk> \<Longrightarrow> waker_next h =
     h\<lparr>h_thread := (h_thread h)\<lparr>th_state := THREAD_STATE_READY, th_reason := THREAD_BLOCK_NONE\<rparr>,
       h_waker := W_enqueue\<rparr>"
  "\<lbrakk>h_waker h = W_wake; th_state (h_thread h) \<noteq> THREAD_STATE_BLOCKED\<rbrakk> \<Longrightarrow> waker_next h = h\<lparr>h_waker := W_done\<rparr>"
  by (simp_all add: waker_next_def Let_def)

lemma completion_next_done: "h_completion h = C_done \<Longrightarrow> completion_next h = h"
  by (simp add: completion_next_def)

lemma waker_steps_refine:
  assumes "tid \<noteq> 0" and "threads s tid = Some t"
  shows "threads (sched_wake_thread tid s) tid = Some (h_thread ((waker_next ^^ 6) (handshake_start t)))"
    and "length (enqueued (sched_wake_thread tid s))
         = length (enqueued s) + h_enqueues ((waker_next ^^ 6) (handshake_start t))"
  using assms
  by (cases "blocking_transition t"; cases "th_state t";
      simp add: sched_wake_thread_threads sched_wake_thread_enqueued handshake_start_def woken_def
        numeral_eq_Suc waker_next_simps)+

text \<open>
  C13.  A thread is parking and one waker detaches it, each atomic access interleaved in any
  order: whenever both have finished, the thread is READY, the wake token was taken exactly once
  and the thread was enqueued.  No interleaving leaves it runnable on no queue.
\<close>

theorem wake_block_handshake:
  assumes "th_state t = THREAD_STATE_BLOCKED" "blocking_transition t" "\<not> wake_pending t"
    and "handshake_step\<^sup>*\<^sup>* (handshake_start t) h"
    and "h_waker h = W_done" "h_completion h = C_done"
  shows "th_state (h_thread h) = THREAD_STATE_READY \<and> h_claims h = 1 \<and> 0 < h_enqueues h
         \<and> \<not> wake_pending (h_thread h) \<and> \<not> blocking_transition (h_thread h)"
proof -
  have "handshake_inv (handshake_start t)"
    using assms(1-3) by (simp add: handshake_inv_def handshake_start_def)
  then have "handshake_inv h" using assms(4) handshake_reach_inv by blast
  then show ?thesis
    using assms(5,6) by (auto simp: handshake_inv_def split: if_splits)
qed

text \<open>One schedule of the two sides: True runs the waker, False the completion.\<close>

definition handshake_run :: "bool list \<Rightarrow> handshake \<Rightarrow> handshake" where
  "handshake_run bs h = fold (\<lambda>b h. if b then waker_next h else completion_next h) bs h"

lemma handshake_run_reach: "handshake_step\<^sup>*\<^sup>* h (handshake_run bs h)"
proof (induction bs arbitrary: h)
  case (Cons b bs)
  have "handshake_step\<^sup>*\<^sup>* h (waker_next h)"
    by (cases "h_waker h = W_done") (auto simp: waker_next_simps(7) intro: handshake_step.waker)
  moreover have "handshake_step\<^sup>*\<^sup>* h (completion_next h)"
    by (cases "h_completion h = C_done") (auto simp: completion_next_done intro: handshake_step.completion)
  ultimately show ?case
    using Cons.IH by (cases b) (auto simp: handshake_run_def intro: rtranclp_trans)
qed (simp add: handshake_run_def)

definition demo_parking :: thread where
  "demo_parking = new_thread\<lparr>th_state := THREAD_STATE_BLOCKED, blocking_transition := True\<rparr>"

theorem wake_block_handshake_witness:
  "th_state (h_thread (handshake_run [False, True, True, False, True, False, True, True, True, True, False]
     (handshake_start demo_parking))) = THREAD_STATE_READY"
proof -
  let ?h = "handshake_run [False, True, True, False, True, False, True, True, True, True, False] (handshake_start demo_parking)"
  have "h_waker ?h = W_done \<and> h_completion ?h = C_done"
    by (simp add: handshake_run_def handshake_start_def demo_parking_def new_thread_def waker_next_def completion_next_def)
  then show ?thesis
    using wake_block_handshake [of demo_parking ?h] handshake_run_reach
    by (simp add: demo_parking_def new_thread_def)
qed

subsection \<open>Deadlines\<close>

text \<open>What one slot of the scan makes of its thread.\<close>

definition slot_thread :: "nat \<Rightarrow> thread \<Rightarrow> thread" where
  "slot_thread now t =
     (if sched_timeout_tick t = 0 then t
      else if th_state t \<noteq> THREAD_STATE_BLOCKED then t\<lparr>sched_timeout_tick := 0\<rparr>
      else if sched_timeout_tick t \<le> now
      then (if wait_event t \<noteq> None \<and> event_node t \<noteq> None
            then woken (t\<lparr>sched_timeout_tick := 0, event_node := None, wait_event := None,
                          pend_state := SCHED_PEND_TIMEOUT\<rparr>)
            else t\<lparr>sched_timeout_tick := 0\<rparr>)
      else t)"

lemma timeout_slot_threads:
  assumes "threads s 0 = None"
  shows "threads (snd (timeout_slot now t (n, s))) u
         = (if u = t then map_option (slot_thread now) (threads s t) else threads s u)"
proof (cases "threads s t")
  case None
  then show ?thesis by (simp add: timeout_slot_def)
next
  case (Some th)
  then have t0: "t \<noteq> 0" using assms by (metis option.distinct(1))
  show ?thesis
    using Some
    by (auto simp: timeout_slot_def Let_def slot_thread_def sched_timeout_fire_def t0 sched_wake_thread_threads
        split: option.split)
qed

lemma timeout_slot_bound:
  "fst (timeout_slot now t (n, s)) \<le> n"
  "\<lbrakk>threads s t = Some th; th_state th = THREAD_STATE_BLOCKED; now < sched_timeout_tick th\<rbrakk>
   \<Longrightarrow> fst (timeout_slot now t (n, s)) \<le> sched_timeout_tick th"
  by (auto simp: timeout_slot_def Let_def split: option.split)

lemma timeout_slot_fields:
  "g_sched_timeout_next (snd (timeout_slot now t ns)) = g_sched_timeout_next (snd ns)"
  "g_sched_timeout_arm_seq (snd (timeout_slot now t ns)) = g_sched_timeout_arm_seq (snd ns)"
  "thread_table (snd (timeout_slot now t ns)) = thread_table (snd ns)"
  by (cases ns; simp add: timeout_slot_def Let_def sched_timeout_fire_def split: option.split)+

lemma scan_fields:
  "g_sched_timeout_next (snd (fold (timeout_slot now) ts ns)) = g_sched_timeout_next (snd ns)"
  "g_sched_timeout_arm_seq (snd (fold (timeout_slot now) ts ns)) = g_sched_timeout_arm_seq (snd ns)"
  "thread_table (snd (fold (timeout_slot now) ts ns)) = thread_table (snd ns)"
  by (induction ts arbitrary: ns) (simp_all add: timeout_slot_fields)

lemma scan_threads:
  assumes "threads (snd ns) 0 = None" and "distinct ts"
  shows "threads (snd (fold (timeout_slot now) ts ns)) u
         = (if u \<in> set ts then map_option (slot_thread now) (threads (snd ns) u) else threads (snd ns) u)"
  using assms
proof (induction ts arbitrary: ns)
  case (Cons t ts)
  obtain n s where ns: "ns = (n, s)" by force
  have z: "threads (snd (timeout_slot now t (n, s))) v
           = (if v = t then map_option (slot_thread now) (threads s t) else threads s v)" for v
    using Cons.prems(1) by (simp add: ns timeout_slot_threads)
  then have "threads (snd (timeout_slot now t (n, s))) 0 = None"
    using Cons.prems(1) by (auto simp: ns)
  then show ?case
    using Cons.IH [of "timeout_slot now t (n, s)"] Cons.prems(2) by (auto simp: ns z)
qed simp

lemma scan_bound_mono: "fst (fold (timeout_slot now) ts ns) \<le> fst ns"
proof (induction ts arbitrary: ns)
  case (Cons t ts)
  have "fst (timeout_slot now t ns) \<le> fst ns" using timeout_slot_bound(1) by (cases ns) simp
  then show ?case using Cons.IH [of "timeout_slot now t ns"] by simp
qed simp

lemma scan_bound:
  assumes "threads (snd ns) 0 = None" and "distinct ts" and "u \<in> set ts"
    and "threads (snd ns) u = Some th" and "th_state th = THREAD_STATE_BLOCKED" and "now < sched_timeout_tick th"
  shows "fst (fold (timeout_slot now) ts ns) \<le> sched_timeout_tick th"
  using assms
proof (induction ts arbitrary: ns)
  case (Cons t ts)
  obtain n s where ns: "ns = (n, s)" by force
  let ?ns = "timeout_slot now t (n, s)"
  have z: "threads (snd ?ns) v = (if v = t then map_option (slot_thread now) (threads s t) else threads s v)" for v
    using Cons.prems(1) by (simp add: ns timeout_slot_threads)
  show ?case
  proof (cases "u = t")
    case True
    have "fst ?ns \<le> sched_timeout_tick th"
      using Cons.prems(4-6) True by (auto simp: ns intro: timeout_slot_bound(2))
    then show ?thesis using scan_bound_mono [of now ts ?ns] by (simp add: ns)
  next
    case False
    have "threads (snd ?ns) 0 = None" using z Cons.prems(1) by (auto simp: ns)
    then show ?thesis
      using Cons.IH [of ?ns] Cons.prems False by (simp add: ns z)
  qed
qed simp

text \<open>The bound never sits above the deadline of a blocked thread, and the scan sees every such thread.\<close>

definition deadlines_seen :: "sched \<Rightarrow> bool" where
  "deadlines_seen s \<longleftrightarrow>
     distinct (thread_table s)
     \<and> (\<forall>t th. threads s t = Some th \<and> th_state th = THREAD_STATE_BLOCKED \<and> sched_timeout_tick th \<noteq> 0 \<longrightarrow>
          t \<in> set (thread_table s) \<and> sched_timeout_tick th \<le> TIMEOUT_NONE
          \<and> g_sched_timeout_next s \<le> sched_timeout_tick th)"

lemma check_scans:
  assumes "g_sched_timeout_next s \<le> now"
  shows "sched_timeout_check now s
         = (snd (timeout_scan now s))\<lparr>g_sched_timeout_next := fst (timeout_scan now s)\<rparr>"
  using assms scan_fields [of now "thread_table s" "(TIMEOUT_NONE, s)"]
  by (simp add: sched_timeout_check_def timeout_publish_def timeout_scan_def case_prod_unfold)

lemma check_threads:
  assumes "sched_inv s" and "distinct (thread_table s)" and "g_sched_timeout_next s \<le> now"
  shows "threads (sched_timeout_check now s) u
         = (if u \<in> set (thread_table s) then map_option (slot_thread now) (threads s u) else threads s u)"
  using assms sched_invD(1) [OF assms(1)]
  by (simp add: check_scans timeout_scan_def scan_threads)

lemma slot_thread_kept:
  "th_state th = THREAD_STATE_BLOCKED \<Longrightarrow> now < sched_timeout_tick th \<Longrightarrow> slot_thread now th = th"
  by (simp add: slot_thread_def)

lemma slot_thread_blocked:
  assumes "th_state (slot_thread now th) = THREAD_STATE_BLOCKED" and "sched_timeout_tick (slot_thread now th) \<noteq> 0"
  shows "slot_thread now th = th \<and> now < sched_timeout_tick th"
  using assms by (auto simp: slot_thread_def woken_def split: if_splits)

text \<open>
  C14.  A run of the timeout check that no arm interrupts wakes every blocked thread whose
  deadline has passed (READY, with pend state TIMEOUT, queued or owed an enqueue), leaves every
  blocked thread whose deadline is still ahead as it was, and keeps the bound at or below all
  remaining deadlines, so that the fast path of a later check never skips one that is due.
\<close>

theorem sched_timeout_check_correct:
  assumes inv: "sched_inv s" and seen: "deadlines_seen s"
  shows "deadlines_seen (sched_timeout_check now s)
     \<and> (\<forall>t th. threads s t = Some th \<and> th_state th = THREAD_STATE_BLOCKED \<and> sched_timeout_tick th \<noteq> 0 \<longrightarrow>
          (if sched_timeout_tick th \<le> now
           then \<exists>th'. threads (sched_timeout_check now s) t = Some th' \<and> th_state th' = THREAD_STATE_READY
                  \<and> pend_state th' = SCHED_PEND_TIMEOUT \<and> wait_event th' = None
                  \<and> (t \<in> set (enqueued (sched_timeout_check now s)) \<or> enqueue_owed th')
           else threads (sched_timeout_check now s) t = Some th))"
proof (cases "g_sched_timeout_next s \<le> now")
  case False
  then have "sched_timeout_check now s = s" by (simp add: sched_timeout_check_def)
  moreover have "\<not> sched_timeout_tick th \<le> now"
    if "threads s t = Some th" "th_state th = THREAD_STATE_BLOCKED" "sched_timeout_tick th \<noteq> 0" for t th
    using that seen False unfolding deadlines_seen_def by (meson le_trans)
  ultimately show ?thesis using seen by auto
next
  case True
  let ?s = "sched_timeout_check now s"
  have dt: "distinct (thread_table s)" using seen by (simp add: deadlines_seen_def)
  have tb: "t \<in> set (thread_table s)" and le: "sched_timeout_tick th \<le> TIMEOUT_NONE"
    if "threads s t = Some th" "th_state th = THREAD_STATE_BLOCKED" "sched_timeout_tick th \<noteq> 0" for t th
    using that seen by (auto simp: deadlines_seen_def)
  have thr: "threads ?s u = (if u \<in> set (thread_table s) then map_option (slot_thread now) (threads s u) else threads s u)" for u
    by (rule check_threads [OF inv dt True])
  have inv': "sched_inv ?s" using inv by (rule timeout_check_inv)
  have tab: "thread_table ?s = thread_table s"
    using True by (simp add: check_scans timeout_scan_def scan_fields)
  have "deadlines_seen ?s"
    unfolding deadlines_seen_def tab
  proof (intro conjI allI impI dt)
    fix t y
    assume y: "threads ?s t = Some y \<and> th_state y = THREAD_STATE_BLOCKED \<and> sched_timeout_tick y \<noteq> 0"
    have t: "threads s t = Some y \<and> (t \<in> set (thread_table s) \<longrightarrow> now < sched_timeout_tick y)"
    proof (cases "t \<in> set (thread_table s)")
      case True
      then obtain z where "threads s t = Some z" "y = slot_thread now z" using y by (auto simp: thr)
      then show ?thesis using y slot_thread_blocked [of now z] by simp
    qed (use y in \<open>simp add: thr\<close>)
    then show "t \<in> set (thread_table s)" and "sched_timeout_tick y \<le> TIMEOUT_NONE"
      using y tb le by blast+
    then show "g_sched_timeout_next ?s \<le> sched_timeout_tick y"
      using t y True scan_bound [of "(TIMEOUT_NONE, s)" "thread_table s" t y now] dt sched_invD(1) [OF inv]
      by (simp add: check_scans timeout_scan_def)
  qed
  moreover have "\<exists>th'. threads ?s t = Some th' \<and> th_state th' = THREAD_STATE_READY
      \<and> pend_state th' = SCHED_PEND_TIMEOUT \<and> wait_event th' = None \<and> (t \<in> set (enqueued ?s) \<or> enqueue_owed th')"
    if th: "threads s t = Some th" "th_state th = THREAD_STATE_BLOCKED" "sched_timeout_tick th \<noteq> 0"
      "sched_timeout_tick th \<le> now" for t th
  proof -
    have "wait_event th \<noteq> None \<and> event_node th \<noteq> None"
      using sched_invD(4) [OF inv th(1)] th(2,3) by (auto simp: thread_ok_def)
    then have st: "th_state (slot_thread now th) = THREAD_STATE_READY"
      "pend_state (slot_thread now th) = SCHED_PEND_TIMEOUT" "wait_event (slot_thread now th) = None"
      using th by (simp_all add: slot_thread_def woken_def)
    have t': "threads ?s t = Some (slot_thread now th)" using th tb by (simp add: thr)
    have "thread_ok (enqueued ?s) t (slot_thread now th)" using inv' t' by (rule sched_invD(4))
    then show ?thesis using t' st by (simp add: thread_ok_def)
  qed
  moreover have "threads ?s t = Some th"
    if "threads s t = Some th" "th_state th = THREAD_STATE_BLOCKED" "\<not> sched_timeout_tick th \<le> now" for t th
    using that slot_thread_kept by (simp add: thr)
  ultimately show ?thesis by simp
qed

definition demo_timed :: sched where
  "demo_timed = sched_event_wait 100 50 2 (EV_IPC 7) 30 demo_sched"

lemma demo_timed_thread:
  "threads demo_timed 2 = Some (new_thread\<lparr>sched_timeout_tick := 53, event_node := Some (EV_IPC 7),
     wait_event := Some (EV_IPC 7), blocking_transition := True, th_state := THREAD_STATE_BLOCKED,
     th_reason := THREAD_BLOCK_EVENT\<rparr>)"
  "threads demo_timed 3 = Some new_thread" "t \<noteq> 2 \<Longrightarrow> t \<noteq> 3 \<Longrightarrow> threads demo_timed t = None"
  "g_sched_timeout_next demo_timed = 53" "thread_table demo_timed = [2, 3]"
  by (simp_all add: demo_timed_def sched_event_wait_def demo_sched_def wait_arm_def wait_park_def arm_tick_def
      sched_timeout_arm_def timeout_arm_store_def timeout_arm_bump_def timeout_arm_lower_def TIMEOUT_NONE_def
      timer_ms_to_ticks_def add64_def mul64_def unlink_def thread_set_state_def new_thread_def Let_def)

lemma demo_timed_inv: "sched_inv demo_timed"
  unfolding demo_timed_def
  by (rule event_wait_inv [OF sched_idle_inv [OF demo_sched_idle], where t = new_thread])
    (simp_all add: demo_sched_def new_thread_def)

lemma demo_timed_seen: "deadlines_seen demo_timed"
proof -
  have two: "t = 2 \<and> sched_timeout_tick th = 53"
    if "threads demo_timed t = Some th" "th_state th = THREAD_STATE_BLOCKED" for t th
  proof (cases "t = 2")
    case True
    then show ?thesis using that(1) demo_timed_thread(1) by auto
  next
    case False
    then have "t = 3" using that(1) demo_timed_thread(3) [of t] by (cases "t = 3") simp_all
    then have "th = new_thread" using that(1) demo_timed_thread(2) by simp
    then show ?thesis using that(2) by (simp add: new_thread_def)
  qed
  show ?thesis
    unfolding deadlines_seen_def demo_timed_thread(4,5)
  proof (intro conjI allI impI)
    fix t th
    assume "threads demo_timed t = Some th \<and> th_state th = THREAD_STATE_BLOCKED \<and> sched_timeout_tick th \<noteq> 0"
    then have e: "t = 2" "sched_timeout_tick th = 53" using two by blast+
    show "t \<in> set [2, 3]" "sched_timeout_tick th \<le> TIMEOUT_NONE" "53 \<le> sched_timeout_tick th"
      unfolding e by (simp_all add: TIMEOUT_NONE_def)
  qed simp
qed

theorem sched_timeout_check_correct_witness:
  "\<exists>th. threads (sched_timeout_check 60 demo_timed) 2 = Some th \<and> th_state th = THREAD_STATE_READY
     \<and> pend_state th = SCHED_PEND_TIMEOUT"
  using sched_timeout_check_correct [OF demo_timed_inv demo_timed_seen, of 60, THEN conjunct2, rule_format,
      of 2, OF conjI [OF demo_timed_thread(1)]]
  by auto

subsection \<open>Two races that lose a deadline\<close>

text \<open>
  \<open>sched_event_wait\<close> arms its deadline before it becomes BLOCKED, and a scan on another CPU takes
  an armed thread that is not BLOCKED for one that has been woken.
\<close>

text \<open>
  C15.  If a timeout scan runs between the arm and the park of a timed wait, it clears the
  deadline: the thread ends up BLOCKED and linked with no deadline at all, so no later timeout
  check wakes it.  Without the scan in between, the same wait parks with a non-zero deadline.
\<close>

theorem timeout_scan_before_park_loses_deadline:
  assumes inv: "sched_inv s" and th: "threads s cur = Some t" and run: "th_state t = THREAD_STATE_RUNNING"
    and tab: "cur \<in> set (thread_table s)" "distinct (thread_table s)"
    and due: "g_sched_timeout_next s \<le> now'" and ms: "0 < ms"
  shows "(\<exists>t'. threads (wait_park cur ev (sched_timeout_check now' (wait_arm hz now cur ms s))) cur = Some t'
            \<and> th_state t' = THREAD_STATE_BLOCKED \<and> event_node t' = Some ev \<and> sched_timeout_tick t' = 0)
     \<and> (\<exists>t'. threads (sched_event_wait hz now cur ev ms s) cur = Some t'
            \<and> th_state t' = THREAD_STATE_BLOCKED \<and> sched_timeout_tick t' \<noteq> 0)"
proof -
  let ?d = "arm_tick (add64 now (timer_ms_to_ticks hz ms))"
  let ?t = "t\<lparr>sched_timeout_tick := ?d\<rparr>"
  let ?s = "wait_arm hz now cur ms s"
  have d: "?d \<noteq> 0" by (simp add: arm_tick_def)
  have a: "threads ?s cur = Some ?t" using th ms by (simp add: wait_arm_threads)
  have f: "thread_table ?s = thread_table s" "g_sched_timeout_next ?s \<le> now'"
    using due by (auto simp: wait_arm_def sched_timeout_arm_def Let_def timeout_arm_lower_def timeout_arm_bump_def
        timeout_arm_store_def)
  have "threads (sched_timeout_check now' ?s) cur = Some (slot_thread now' ?t)"
    using a tab f by (simp add: check_threads [OF wait_arm_inv [OF inv th run]])
  moreover have "slot_thread now' ?t = t\<lparr>sched_timeout_tick := 0\<rparr>"
    using run d by (simp add: slot_thread_def)
  ultimately have c: "threads (sched_timeout_check now' ?s) cur = Some (t\<lparr>sched_timeout_tick := 0\<rparr>)" by simp
  have p: "\<exists>t'. threads (wait_park cur ev (sched_timeout_check now' ?s)) cur = Some t'
      \<and> th_state t' = THREAD_STATE_BLOCKED \<and> event_node t' = Some ev \<and> sched_timeout_tick t' = 0"
    using wait_park_threads [OF c, of ev cur] run by simp
  have q: "\<exists>t'. threads (wait_park cur ev ?s) cur = Some t'
      \<and> th_state t' = THREAD_STATE_BLOCKED \<and> sched_timeout_tick t' \<noteq> 0"
    using wait_park_threads [OF a, of ev cur] run d by simp
  show ?thesis using p q th by (simp add: sched_event_wait_def)
qed

lemma demo_timed_due:
  "threads demo_timed 3 = Some new_thread" "3 \<in> set (thread_table demo_timed)" "distinct (thread_table demo_timed)"
  "g_sched_timeout_next demo_timed \<le> 60"
  using demo_timed_thread by simp_all

theorem timeout_scan_before_park_loses_deadline_witness:
  "\<exists>t. threads (wait_park 3 (EV_SELECT 4) (sched_timeout_check 60 (wait_arm 100 59 3 1000 demo_timed))) 3 = Some t
     \<and> th_state t = THREAD_STATE_BLOCKED \<and> sched_timeout_tick t = 0"
  using timeout_scan_before_park_loses_deadline
    [OF demo_timed_inv demo_timed_due(1) _ demo_timed_due(2-4), of 1000 "EV_SELECT 4" 100 59]
  by (auto simp: new_thread_def)

text \<open>
  The generation counter is read by a load of its own, before the exchange that publishes the
  bound.  An arm that stores its tick behind the scan and bumps the counter and reads the bound
  between that load and the exchange is invisible to both checks: its deadline lies ahead of
  the clock and the observed bound does not, so it does not lower the bound either.
\<close>

definition racing_arm :: "nat \<Rightarrow> nat \<Rightarrow> nat \<Rightarrow> event_key \<Rightarrow> sched \<Rightarrow> bool \<times> sched" where
  "racing_arm now cur deadline ev s =
     (let observed = g_sched_timeout_next s;
          seq = g_sched_timeout_arm_seq s;
          (next, s1) = timeout_scan now s;
          s2 = timeout_arm_store cur (arm_tick deadline) s1;
          same_seq = (g_sched_timeout_arm_seq s2 = seq);
          s3 = timeout_arm_lower (arm_tick deadline) (timeout_arm_bump s2);
          s4 = timeout_publish same_seq observed next s3
      in (same_seq, wait_park cur ev s4))"

text \<open>
  C16.  In that interleaving the generation check succeeds and the published bound lies above the
  deadline just armed: the thread is BLOCKED with a deadline that every check between that
  deadline and the bound skips on its fast path.
\<close>

theorem timeout_publish_orphans_deadline:
  assumes inv: "sched_inv s" and th: "threads s cur = Some t" and run: "th_state t = THREAD_STATE_RUNNING"
    and tab: "distinct (thread_table s)"
    and due: "g_sched_timeout_next s \<le> now" and ahead: "now < d" and above: "d < fst (timeout_scan now s)"
  shows "\<exists>s' t'. racing_arm now cur d ev s = (True, s') \<and> threads s' cur = Some t'
     \<and> th_state t' = THREAD_STATE_BLOCKED \<and> sched_timeout_tick t' = d
     \<and> (\<forall>now'. d \<le> now' \<and> now' < fst (timeout_scan now s) \<longrightarrow> sched_timeout_check now' s' = s')"
proof -
  let ?s1 = "snd (timeout_scan now s)"
  let ?s4 = "(timeout_arm_bump (timeout_arm_store cur d ?s1))\<lparr>g_sched_timeout_next := fst (timeout_scan now s)\<rparr>"
  have z: "threads s 0 = None" using inv by (rule sched_invD(1))
  have dt: "arm_tick d = d" using ahead by (simp add: arm_tick_def)
  have f: "g_sched_timeout_next ?s1 = g_sched_timeout_next s" "g_sched_timeout_arm_seq ?s1 = g_sched_timeout_arm_seq s"
    by (simp_all add: timeout_scan_def scan_fields)
  have r: "racing_arm now cur d ev s = (True, wait_park cur ev ?s4)"
    using due ahead f
    by (simp add: racing_arm_def Let_def case_prod_unfold dt timeout_arm_store_def timeout_arm_bump_def
        timeout_arm_lower_def timeout_publish_def)
  have "threads ?s1 cur = Some (if cur \<in> set (thread_table s) then slot_thread now t else t)"
    using th z tab by (simp add: timeout_scan_def scan_threads)
  moreover have "th_state (slot_thread now t) = THREAD_STATE_RUNNING"
    using run by (simp add: slot_thread_def)
  ultimately obtain t1 where t1: "threads ?s1 cur = Some t1" "th_state t1 = THREAD_STATE_RUNNING"
    using run by (cases "cur \<in> set (thread_table s)") simp_all
  then have c: "threads ?s4 cur = Some (t1\<lparr>sched_timeout_tick := d\<rparr>)"
    by (simp add: timeout_arm_bump_def timeout_arm_store_def)
  have rn: "th_state (t1\<lparr>sched_timeout_tick := d\<rparr>) = THREAD_STATE_RUNNING" using t1 by simp
  have "g_sched_timeout_next (wait_park cur ev ?s4) = fst (timeout_scan now s)"
    using wait_park_fields(3) [OF c rn] by simp
  then show ?thesis
    using r wait_park_threads [OF c rn, of ev cur] by (simp add: sched_timeout_check_def)
qed

lemma demo_timed_scan: "fst (timeout_scan 60 demo_timed) = TIMEOUT_NONE"
proof -
  have "timeout_slot 60 2 (TIMEOUT_NONE, demo_timed)
        = (TIMEOUT_NONE, sched_timeout_fire 2 (upd_thread 2 (\<lambda>t. t\<lparr>sched_timeout_tick := 0\<rparr>) demo_timed))"
    using demo_timed_thread(1) by (simp add: timeout_slot_def new_thread_def)
  moreover have "threads (snd (timeout_slot 60 2 (TIMEOUT_NONE, demo_timed))) 3 = Some new_thread"
    using demo_timed_thread sched_invD(1) [OF demo_timed_inv] by (simp add: timeout_slot_threads)
  ultimately show ?thesis
    using demo_timed_thread(5) by (simp add: timeout_scan_def timeout_slot_def [of 60 3] new_thread_def)
qed

theorem timeout_publish_orphans_deadline_witness:
  "\<exists>s'. racing_arm 60 3 100 (EV_SELECT 4) demo_timed = (True, s') \<and> sched_timeout_check 1000000 s' = s'"
proof -
  have r: "th_state new_thread = THREAD_STATE_RUNNING" by (simp add: new_thread_def)
  have a: "100 < fst (timeout_scan 60 demo_timed)" by (simp add: demo_timed_scan TIMEOUT_NONE_def)
  obtain s' where s': "racing_arm 60 3 100 (EV_SELECT 4) demo_timed = (True, s')"
    "\<forall>now'. 100 \<le> now' \<and> now' < TIMEOUT_NONE \<longrightarrow> sched_timeout_check now' s' = s'"
    using timeout_publish_orphans_deadline
      [OF demo_timed_inv demo_timed_due(1) r demo_timed_due(3,4) _ a, of "EV_SELECT 4"]
    unfolding demo_timed_scan by auto
  moreover have "(1000000::nat) < TIMEOUT_NONE" by (simp add: TIMEOUT_NONE_def)
  ultimately show ?thesis by auto
qed

subsection \<open>Effect on the wait lists\<close>

lemma detach_wait_list:
  assumes "sched_inv s" and "linked s ev t"
  shows "wait_list (sched_event_detach_wake t data pend s) = (wait_list s)(ev := removeAll t (wait_list s ev))"
  using assms by (auto simp: linked_def sched_event_detach_wake_def unlink_def)

lemma wake_one_lists:
  assumes inv: "sched_inv s"
  shows "wait_list (snd (sched_event_wake_one ev data pend s)) = (wait_list s)(ev := tl (wait_list s ev))"
proof (cases "wait_list s ev")
  case Nil
  then show ?thesis by (simp add: sched_event_wake_one_def fun_upd_idem)
next
  case (Cons t ts)
  have l: "linked s ev t" using sched_invD(3) [OF inv, of t ev] Cons by simp
  have "t \<notin> set ts" using sched_invD(2) [OF inv, of ev] Cons by simp
  then show ?thesis
    using Cons by (simp add: sched_event_wake_one_def detach_wait_list [OF inv l])
qed

lemma wake_list_lists:
  assumes "sched_inv s" and "distinct ts" and "\<forall>t\<in>set ts. linked s ev t"
  shows "wait_list (fold (\<lambda>t s. sched_event_detach_wake t data pend s) ts s)
         = (wait_list s)(ev := filter (\<lambda>t. t \<notin> set ts) (wait_list s ev))"
  using assms
proof (induction ts arbitrary: s)
  case Nil
  then show ?case by (simp add: fun_upd_idem)
next
  case (Cons t ts)
  let ?s = "sched_event_detach_wake t data pend s"
  have l: "linked s ev t" using Cons.prems by simp
  have t0: "t \<noteq> 0" using Cons.prems(1) l by (rule linked_nonzero)
  have i: "sched_inv ?s" using l Cons.prems(1) by (auto simp: linked_def intro: detach_wake_inv)
  have "\<forall>u\<in>set ts. linked ?s ev u"
    using Cons.prems t0 by (auto simp: linked_def detach_wake_threads)
  then show ?case
    using Cons.IH [OF i] Cons.prems(2) detach_wait_list [OF Cons.prems(1) l]
    by (simp add: removeAll_filter_not_eq fun_upd_def) (auto intro!: ext filter_cong)
qed

lemma abort_lists:
  assumes inv: "sched_inv s"
  shows "wait_list (sched_event_abort_all ev s) = (wait_list s)(ev := [])"
proof -
  have "wait_list (sched_event_abort_all ev s) = (wait_list s)(ev := filter (\<lambda>t. t \<notin> set (wait_list s ev)) (wait_list s ev))"
    unfolding sched_event_abort_all_def sched_event_wake_all_def snd_conv
    using inv sched_invD by (intro wake_list_lists) auto
  then show ?thesis by simp
qed

lemma abort_inv: "sched_inv s \<Longrightarrow> sched_inv (sched_event_abort_all ev s)"
  by (simp add: sched_event_abort_all_def wake_all_inv)

lemma event_wait_lists:
  assumes inv: "sched_inv s" and th: "threads s cur = Some t" and run: "th_state t = THREAD_STATE_RUNNING"
  shows "wait_list (sched_event_wait hz now cur ev ms s) = (wait_list s)(ev := wait_list s ev @ [cur])"
proof -
  let ?s = "wait_arm hz now cur ms s"
  obtain t' where t': "threads ?s cur = Some t'" "th_state t' = THREAD_STATE_RUNNING" "event_node t' = None"
    using th run sched_invD(4) [OF inv th] by (cases "0 < ms") (auto simp: wait_arm_threads thread_ok_def)
  have "wait_list ?s = wait_list s"
    by (simp add: wait_arm_def sched_timeout_arm_def Let_def timeout_arm_lower_def timeout_arm_bump_def
        timeout_arm_store_def)
  then show ?thesis
    using wait_park_fields(1) [OF t'(1,2)] t' th by (simp add: sched_event_wait_def unlink_def)
qed

lemma resume_fields [simp]:
  "wait_list (sched_event_resume t s) = wait_list s" "sched_inv s \<Longrightarrow> sched_inv (sched_event_resume t s)"
  by (simp_all add: sched_event_resume_def disarm_inv)

subsection \<open>Event operations and threads blocked without an event\<close>

definition parked :: "sched \<Rightarrow> nat \<Rightarrow> bool" where
  "parked s t \<longleftrightarrow> (\<exists>th. threads s t = Some th \<and> th_state th = THREAD_STATE_BLOCKED \<and> th_reason th \<noteq> THREAD_BLOCK_EVENT)"

text \<open>None of the event operations blocks a thread without an event.\<close>

lemma parked_frames:
  "parked (block_complete t s) u \<Longrightarrow> parked s u"
  "parked (sched_settle_deferred_enqueue t s) u \<Longrightarrow> parked s u"
  "parked (sched_event_resume t s) u \<Longrightarrow> parked s u"
  "parked ((upd_thread t (\<lambda>t. t\<lparr>th_state := THREAD_STATE_RUNNING\<rparr>) s)\<lparr>enqueued := e\<rparr>) u \<Longrightarrow> parked s u"
proof -
  show "parked (block_complete t s) u \<Longrightarrow> parked s u"
    by (cases "threads s t")
      (auto simp: parked_def block_complete_def sched_block_complete_claim_def Let_def thread_set_state_def
        cpu_sched_enqueue_def split: if_splits thread_state.splits)
  show "parked (sched_settle_deferred_enqueue t s) u \<Longrightarrow> parked s u"
    by (cases "threads s t")
      (auto simp: parked_def sched_settle_deferred_enqueue_def sched_take_owed_enqueue_def cpu_sched_enqueue_def
        split: if_splits)
qed (auto simp: parked_def sched_event_resume_def split: if_splits)

lemma wake_one_parked:
  assumes inv: "sched_inv s" and p: "parked (snd (sched_event_wake_one ev data pend s)) u"
  shows "parked s u"
proof (cases "wait_list s ev")
  case (Cons t ts)
  have l: "linked s ev t" using sched_invD(3) [OF inv, of t ev] Cons by simp
  have t0: "t \<noteq> 0" using inv l by (rule linked_nonzero)
  obtain th where th: "threads s t = Some th" "event_node th = Some ev" using l by (auto simp: linked_def)
  have "th_state th = THREAD_STATE_BLOCKED" using sched_invD(4) [OF inv th(1)] th(2) by (simp add: thread_ok_def)
  then show ?thesis
    using p Cons th by (auto simp: parked_def sched_event_wake_one_def detach_wake_threads t0 woken_def split: if_splits)
qed (use p in \<open>simp add: sched_event_wake_one_def\<close>)

lemma event_wait_parked:
  assumes th: "threads s cur = Some t" "th_state t = THREAD_STATE_RUNNING" and p: "parked (sched_event_wait hz now cur ev ms s) u"
  shows "parked s u"
proof -
  let ?s = "wait_arm hz now cur ms s"
  obtain t' where t': "threads ?s cur = Some t'" "th_state t' = THREAD_STATE_RUNNING"
    using th by (cases "0 < ms") (auto simp: wait_arm_threads)
  show ?thesis
    using p th(1) by (auto simp: parked_def sched_event_wait_def wait_park_threads [OF t'] wait_arm_threads split: if_splits)
qed

lemma linked_not_parked: "\<lbrakk>sched_inv s; t \<in> set (wait_list s ev)\<rbrakk> \<Longrightarrow> \<not> parked s t"
  using sched_invD(3) [of s t ev] sched_invD(4) [of s t] by (auto simp: linked_def parked_def thread_ok_def)

subsection \<open>The conditions of the parking steps\<close>

text \<open>
  In every reachable state only a linked thread has a deadline, and the waiter a thread records is
  BLOCKED in its join and recorded by no other thread.
\<close>

definition parked_ok :: "sched \<Rightarrow> bool" where
  "parked_ok s \<longleftrightarrow>
     (\<forall>t th. threads s t = Some th \<and> sched_timeout_tick th \<noteq> 0 \<longrightarrow> event_node th \<noteq> None)
     \<and> (\<forall>x tx. threads s x = Some tx \<and> join_waiter_tid tx \<noteq> 0 \<longrightarrow>
          (\<exists>w. threads s (join_waiter_tid tx) = Some w \<and> th_state w = THREAD_STATE_BLOCKED
             \<and> th_reason w = THREAD_BLOCK_WAIT_THREAD))
     \<and> (\<forall>x y tx ty. threads s x = Some tx \<and> threads s y = Some ty \<and> join_waiter_tid tx \<noteq> 0
          \<and> join_waiter_tid tx = join_waiter_tid ty \<longrightarrow> x = y)"

lemma parked_okD:
  assumes "parked_ok s"
  shows "threads s t = Some th \<Longrightarrow> sched_timeout_tick th \<noteq> 0 \<Longrightarrow> event_node th \<noteq> None"
    and "threads s x = Some tx \<Longrightarrow> join_waiter_tid tx \<noteq> 0 \<Longrightarrow>
      \<exists>w. threads s (join_waiter_tid tx) = Some w \<and> th_state w = THREAD_STATE_BLOCKED \<and> th_reason w = THREAD_BLOCK_WAIT_THREAD"
    and "threads s x = Some tx \<Longrightarrow> threads s y = Some ty \<Longrightarrow> join_waiter_tid tx \<noteq> 0 \<Longrightarrow> join_waiter_tid tx = join_waiter_tid ty \<Longrightarrow> x = y"
  using assms unfolding parked_ok_def by blast+

lemma parked_okI:
  assumes "\<And>t th. threads s t = Some th \<Longrightarrow> sched_timeout_tick th \<noteq> 0 \<Longrightarrow> event_node th \<noteq> None"
    and "\<And>x tx. threads s x = Some tx \<Longrightarrow> join_waiter_tid tx \<noteq> 0 \<Longrightarrow>
      \<exists>w. threads s (join_waiter_tid tx) = Some w \<and> th_state w = THREAD_STATE_BLOCKED \<and> th_reason w = THREAD_BLOCK_WAIT_THREAD"
    and "\<And>x y tx ty. threads s x = Some tx \<Longrightarrow> threads s y = Some ty \<Longrightarrow> join_waiter_tid tx \<noteq> 0 \<Longrightarrow> join_waiter_tid tx = join_waiter_tid ty \<Longrightarrow> x = y"
  shows "parked_ok s"
  unfolding parked_ok_def using assms by blast

text \<open>What a step that starts or ends no join keeps of each thread.\<close>

definition kept :: "thread \<Rightarrow> thread \<Rightarrow> bool" where
  "kept a b \<longleftrightarrow> join_waiter_tid b = join_waiter_tid a
     \<and> (th_state a = THREAD_STATE_BLOCKED \<and> th_reason a = THREAD_BLOCK_WAIT_THREAD \<longrightarrow>
          th_state b = THREAD_STATE_BLOCKED \<and> th_reason b = THREAD_BLOCK_WAIT_THREAD)
     \<and> (sched_timeout_tick b \<noteq> 0 \<and> event_node b = None \<longrightarrow> sched_timeout_tick a \<noteq> 0 \<and> event_node a = None)"

definition all_kept :: "sched \<Rightarrow> sched \<Rightarrow> bool" where
  "all_kept s s' \<longleftrightarrow> (\<forall>t. rel_option kept (threads s t) (threads s' t))"

lemma keptD:
  assumes "kept a b"
  shows "join_waiter_tid b = join_waiter_tid a"
    and "th_state a = THREAD_STATE_BLOCKED \<Longrightarrow> th_reason a = THREAD_BLOCK_WAIT_THREAD \<Longrightarrow>
      th_state b = THREAD_STATE_BLOCKED \<and> th_reason b = THREAD_BLOCK_WAIT_THREAD"
    and "sched_timeout_tick b \<noteq> 0 \<Longrightarrow> event_node b = None \<Longrightarrow> sched_timeout_tick a \<noteq> 0 \<and> event_node a = None"
  using assms by (simp_all add: kept_def)

lemma kept_refl [simp]: "kept a a"
  by (simp add: kept_def)

lemma all_kept_refl [simp]: "all_kept s s"
  by (simp add: all_kept_def option.rel_refl)

lemma kept_trans: "kept a b \<Longrightarrow> kept b c \<Longrightarrow> kept a c"
  by (simp add: kept_def)

lemma all_kept_trans: "all_kept s1 s2 \<Longrightarrow> all_kept s2 s3 \<Longrightarrow> all_kept s1 s3"
  unfolding all_kept_def by (metis (no_types, lifting) kept_trans option.rel_cases option.rel_inject(2) option.rel_distinct(2) option.rel_intros(1))

lemma all_keptI:
  assumes "\<And>u. u \<noteq> t \<Longrightarrow> threads s' u = threads s u" and "rel_option kept (threads s t) (threads s' t)"
  shows "all_kept s s'"
  unfolding all_kept_def using assms by (metis kept_refl option.rel_refl)

lemma parked_ok_kept:
  assumes "parked_ok s" and k: "all_kept s s'"
  shows "parked_ok s'"
proof -
  have b: "\<exists>a. threads s t = Some a \<and> kept a y" if "threads s' t = Some y" for t y
    using k that unfolding all_kept_def by (metis option_rel_Some2)
  have f: "\<exists>y. threads s' t = Some y \<and> kept a y" if "threads s t = Some a" for t a
    using k that unfolding all_kept_def by (metis option_rel_Some1)
  show ?thesis
    unfolding parked_ok_def
  proof (intro conjI allI impI; elim conjE)
    fix t y
    assume y: "threads s' t = Some y" "sched_timeout_tick y \<noteq> 0"
    obtain a where a: "threads s t = Some a" "kept a y" using b [OF y(1)] by blast
    have "sched_timeout_tick a \<noteq> 0 \<longrightarrow> event_node a \<noteq> None"
      using assms(1) a(1) unfolding parked_ok_def by blast
    then show "event_node y \<noteq> None" using y(2) keptD(3) [OF a(2)] by metis
  next
    fix x y
    assume y: "threads s' x = Some y" "join_waiter_tid y \<noteq> 0"
    obtain a where a: "threads s x = Some a" "join_waiter_tid a = join_waiter_tid y"
      using b [OF y(1)] keptD(1) by metis
    then obtain w where "threads s (join_waiter_tid y) = Some w" "th_state w = THREAD_STATE_BLOCKED"
      "th_reason w = THREAD_BLOCK_WAIT_THREAD" using assms(1) y unfolding parked_ok_def by metis
    then show "\<exists>w. threads s' (join_waiter_tid y) = Some w \<and> th_state w = THREAD_STATE_BLOCKED
       \<and> th_reason w = THREAD_BLOCK_WAIT_THREAD" using f keptD(2) by metis
  next
    fix x y tx ty
    assume y: "threads s' x = Some tx" "threads s' y = Some ty" "join_waiter_tid tx \<noteq> 0"
      "join_waiter_tid tx = join_waiter_tid ty"
    obtain a c where "threads s x = Some a" "join_waiter_tid a = join_waiter_tid tx"
      "threads s y = Some c" "join_waiter_tid c = join_waiter_tid ty"
      using b [OF y(1)] b [OF y(2)] keptD(1) by metis
    then show "x = y" using assms(1) y unfolding parked_ok_def by metis
  qed
qed

lemma wake_kept:
  assumes "t \<noteq> 0" and "\<And>th. threads s t = Some th \<Longrightarrow> \<not> (th_state th = THREAD_STATE_BLOCKED \<and> th_reason th = THREAD_BLOCK_WAIT_THREAD)"
  shows "all_kept s (sched_wake_thread t s)"
  by (rule all_keptI [of t]; cases "threads s t")
    (use assms in \<open>auto simp: sched_wake_thread_threads woken_def kept_def\<close>)

lemma detach_kept:
  assumes inv: "sched_inv s" and l: "linked s ev t"
  shows "all_kept s (sched_event_detach_wake t data pend s)"
proof (rule all_keptI [of t])
  have t0: "t \<noteq> 0" using inv l by (rule linked_nonzero)
  show "threads (sched_event_detach_wake t data pend s) u = threads s u" if "u \<noteq> t" for u
    using that t0 by (simp add: detach_wake_threads)
  obtain th where th: "threads s t = Some th" "event_node th = Some ev" using l by (auto simp: linked_def)
  have "th_reason th = THREAD_BLOCK_EVENT" using sched_invD(4) [OF inv th(1)] th(2) by (simp add: thread_ok_def)
  then show "rel_option kept (threads s t) (threads (sched_event_detach_wake t data pend s) t)"
    using th t0 by (simp add: detach_wake_threads kept_def woken_def)
qed

lemma wake_list_kept:
  assumes "sched_inv s" and "distinct ts" and "\<forall>t\<in>set ts. linked s ev t"
  shows "all_kept s (fold (\<lambda>t s. sched_event_detach_wake t data pend s) ts s)"
  using assms
proof (induction ts arbitrary: s)
  case (Cons t ts)
  let ?s = "sched_event_detach_wake t data pend s"
  have l: "linked s ev t" using Cons.prems by simp
  have t0: "t \<noteq> 0" using Cons.prems(1) l by (rule linked_nonzero)
  have i: "sched_inv ?s" using l Cons.prems(1) by (auto simp: linked_def intro: detach_wake_inv)
  have "\<forall>u\<in>set ts. linked ?s ev u"
    using Cons.prems t0 by (auto simp: linked_def detach_wake_threads)
  then have "all_kept ?s (fold (\<lambda>t s. sched_event_detach_wake t data pend s) ts ?s)"
    using Cons.IH [OF i] Cons.prems(2) by simp
  then show ?case using all_kept_trans [OF detach_kept [OF Cons.prems(1) l]] by simp
qed simp

lemma wakes_kept:
  assumes inv: "sched_inv s"
  shows "all_kept s (snd (sched_event_wake_one ev data pend s))"
    and "all_kept s (snd (sched_event_wake_all ev data pend s))"
proof -
  have "all_kept s (sched_event_detach_wake t data pend s)" if "wait_list s ev = t # ts" for t ts
    using detach_kept [OF inv] sched_invD(3) [OF inv, of t ev] that by simp
  then show "all_kept s (snd (sched_event_wake_one ev data pend s))"
    by (simp add: sched_event_wake_one_def split: list.split)
  show "all_kept s (snd (sched_event_wake_all ev data pend s))"
    unfolding sched_event_wake_all_def snd_conv
    by (rule wake_list_kept [OF inv]) (use sched_invD [OF inv] in auto)
qed

lemma slot_kept:
  assumes "sched_inv s"
  shows "all_kept s (snd (timeout_slot now t (n, s)))"
proof (rule all_keptI [of t])
  note thr = timeout_slot_threads [OF sched_invD(1) [OF assms], of now t n]
  show "threads (snd (timeout_slot now t (n, s))) u = threads s u" if "u \<noteq> t" for u using that by (simp add: thr)
  have "kept th (slot_thread now th)" if "threads s t = Some th" for th
    using sched_invD(4) [OF assms that] by (auto simp: slot_thread_def kept_def woken_def thread_ok_def)
  then show "rel_option kept (threads s t) (threads (snd (timeout_slot now t (n, s))) t)"
    by (cases "threads s t") (simp_all add: thr)
qed

lemma check_kept:
  assumes "sched_inv s"
  shows "all_kept s (sched_timeout_check now s)"
proof -
  have "sched_inv x \<Longrightarrow> all_kept x (snd (fold (timeout_slot now) ts (n, x)))" for ts n x
  proof (induction ts arbitrary: n x)
    case (Cons t ts)
    obtain n' x' where x': "timeout_slot now t (n, x) = (n', x')" by force
    have "sched_inv x'" using timeout_slot_inv [of "(n, x)" now t] Cons.prems by (simp add: x')
    then show ?case
      using all_kept_trans [OF slot_kept [OF Cons.prems, of now t n]] Cons.IH [of x' n'] by (simp add: x')
  qed simp
  from this [OF assms] have "all_kept s (snd (timeout_scan now s))" by (simp add: timeout_scan_def)
  then show ?thesis
    by (simp add: sched_timeout_check_def timeout_publish_def all_kept_def case_prod_unfold option.rel_refl)
qed

lemma complete_kept:
  assumes inv: "sched_inv s" and th: "threads s tid = Some t"
  shows "all_kept s (block_complete tid s)"
proof (rule all_keptI [of tid])
  show "threads (block_complete tid s) u = threads s u" if "u \<noteq> tid" for u
    using that th by (cases "th_state t") (auto simp: block_complete_def sched_block_complete_claim_def Let_def
        thread_set_state_def cpu_sched_enqueue_def split: thread_state.split)
  have "\<not> (wake_pending t \<and> th_state t = THREAD_STATE_BLOCKED)"
    using sched_invD(4) [OF inv th] by (auto simp: thread_ok_def)
  then show "rel_option kept (threads s tid) (threads (block_complete tid s) tid)"
    using th by (cases "th_state t") (auto simp: block_complete_def sched_block_complete_claim_def Let_def
        thread_set_state_def cpu_sched_enqueue_def kept_def)
qed

lemma settle_kept: "all_kept s (sched_settle_deferred_enqueue tid s)"
  by (rule all_keptI [of tid]; cases "threads s tid")
    (auto simp: sched_settle_deferred_enqueue_def sched_take_owed_enqueue_def cpu_sched_enqueue_def kept_def)

lemma wait_kept:
  assumes th: "threads s cur = Some t" "th_state t = THREAD_STATE_RUNNING"
  shows "all_kept s (sched_event_wait hz now cur ev ms s)"
proof -
  let ?s = "wait_arm hz now cur ms s"
  obtain t' where t': "threads ?s cur = Some t'" "th_state t' = THREAD_STATE_RUNNING" "join_waiter_tid t' = join_waiter_tid t"
    using th by (cases "0 < ms") (auto simp: wait_arm_threads)
  show ?thesis
    by (rule all_keptI [of cur])
      (use th t' in \<open>simp_all add: sched_event_wait_def wait_park_threads [OF t'(1,2)] wait_arm_threads kept_def\<close>)
qed

lemma waiter_kept: "all_kept s (wake_waiter fast may target_pid tid s)"
  by (rule all_keptI [of tid]; cases "threads s tid")
    (auto simp: wake_waiter_def claim_and_enqueue_def process_set_ready_def thread_wake_if_blocked_def
      sched_wake_claim_enqueue_def cpu_sched_enqueue_def kept_def Let_def)

lemma waiters_kept: "all_kept s (process_wake_waiters fast may target_pid tids s)"
proof -
  have "all_kept s (fold (wake_waiter fast may target_pid) ts s)" for ts
    by (induction ts arbitrary: s) (auto intro: all_kept_trans [OF waiter_kept])
  then show ?thesis by (simp add: process_wake_waiters_def)
qed

lemma spawned_kept:
  assumes "threads s tid = Some t" "th_reason t = THREAD_BLOCK_NONE" and t0: "tid \<noteq> 0"
  shows "all_kept s (process_unpark tid s)" "all_kept s (snd (process_wake_thread tid s))"
    "all_kept s (snd (worker_publish tid s))"
proof -
  show "all_kept s (process_unpark tid s)"
    by (rule all_keptI [of tid])
      (use assms in \<open>auto simp: process_unpark_def thread_wake_if_blocked_def cpu_sched_enqueue_def kept_def\<close>)
  show "all_kept s (snd (process_wake_thread tid s))"
    using assms by (auto simp: process_wake_thread_def intro: wake_kept [OF t0])
  show "all_kept s (snd (worker_publish tid s))"
    by (rule all_keptI [of tid])
      (use assms in \<open>auto simp: worker_publish_def thread_transit_def cpu_sched_enqueue_def kept_def\<close>)
qed

lemma wait_park_kept:
  assumes "threads s cur = Some t" "th_state t = THREAD_STATE_RUNNING"
  shows "all_kept s (process_wait_park may cur target_pid s)"
  by (rule all_keptI [of cur])
    (use assms in \<open>auto simp: process_wait_park_def process_set_blocked_def thread_set_state_def kept_def\<close>)

text \<open>A spawn adds a thread without deadline and waiter; a join and the wake of a joiner change the record.\<close>

lemma spawn_parked_ok:
  assumes "parked_ok s" and "threads s tid = None"
  shows "parked_ok (thread_spawn_in_owner tid pid st r s)"
proof -
  let ?s = "thread_spawn_in_owner tid pid st r s"
  have old: "u \<noteq> tid \<and> threads s u = Some y" if "threads ?s u = Some y" "join_waiter_tid y \<noteq> 0 \<or> sched_timeout_tick y \<noteq> 0" for u y
    using that by (auto simp: thread_spawn_in_owner_def split: if_splits)
  have same: "threads ?s u = Some y" if "threads s u = Some y" for u y
    using that assms(2) by (auto simp: thread_spawn_in_owner_def)
  show ?thesis
  proof (rule parked_okI)
    show "event_node y \<noteq> None" if "threads ?s u = Some y" "sched_timeout_tick y \<noteq> 0" for u y
      using that old [of u y] parked_okD(1) [OF assms(1)] by blast
    show "\<exists>w. threads ?s (join_waiter_tid y) = Some w \<and> th_state w = THREAD_STATE_BLOCKED \<and> th_reason w = THREAD_BLOCK_WAIT_THREAD"
      if "threads ?s u = Some y" "join_waiter_tid y \<noteq> 0" for u y
      using that old [of u y] parked_okD(2) [OF assms(1)] same by blast
    show "x = y" if "threads ?s x = Some tx" "threads ?s y = Some ty" "join_waiter_tid tx \<noteq> 0" "join_waiter_tid tx = join_waiter_tid ty" for x y tx ty
    proof (rule parked_okD(3) [OF assms(1) _ _ that(3,4)])
      show "threads s x = Some tx" using old that(1,3) by blast
      have "join_waiter_tid ty \<noteq> 0" using that(3,4) by simp
      then show "threads s y = Some ty" using old that(2) by blast
    qed
  qed
qed

lemma join_parked_ok:
  assumes ok: "parked_ok s" and th: "threads s cur = Some t" "th_state t = THREAD_STATE_RUNNING" and ne: "target \<noteq> cur"
    and z: "threads s 0 = None"
  shows "parked_ok (snd (thread_join_park True cur target s))" (is "parked_ok ?s")
proof (cases "\<exists>x. threads s target = Some x \<and> (join_waiter_tid x = 0 \<or> join_waiter_tid x = cur)")
  case True
  then obtain x where x: "threads s target = Some x" "join_waiter_tid x = 0 \<or> join_waiter_tid x = cur" by blast
  have c0: "cur \<noteq> 0" using th(1) z by (metis option.distinct(1))
  have nw: "join_waiter_tid y \<noteq> cur" if "threads s u = Some y" for u y
    using parked_okD(2) [OF ok that] th c0 by (cases "join_waiter_tid y = 0") auto
  have thr: "threads ?s u = (if u = cur then Some (t\<lparr>th_state := THREAD_STATE_BLOCKED, th_reason := THREAD_BLOCK_WAIT_THREAD, wait_target_pid := 0\<rparr>)
      else if u = target then Some (x\<lparr>join_waiter_tid := cur\<rparr>) else threads s u)" for u
    using x th ne by (auto simp: thread_join_park_def process_set_blocked_def thread_set_state_def)
  show ?thesis
  proof (rule parked_okI)
    show "event_node y \<noteq> None" if "threads ?s u = Some y" "sched_timeout_tick y \<noteq> 0" for u y
      using that parked_okD(1) [OF ok th(1)] parked_okD(1) [OF ok x(1)] parked_okD(1) [OF ok, of u y]
      by (auto simp: thr split: if_splits)
    show "\<exists>w. threads ?s (join_waiter_tid y) = Some w \<and> th_state w = THREAD_STATE_BLOCKED \<and> th_reason w = THREAD_BLOCK_WAIT_THREAD"
      if y: "threads ?s u = Some y" "join_waiter_tid y \<noteq> 0" for u y
    proof (cases "u = target")
      case True
      then show ?thesis using y ne by (auto simp: thr)
    next
      case False
      then obtain a where a: "threads s u = Some a" "join_waiter_tid a = join_waiter_tid y"
        using y(1) th(1) by (auto simp: thr split: if_splits)
      obtain w where w: "threads s (join_waiter_tid y) = Some w" "th_state w = THREAD_STATE_BLOCKED"
        "th_reason w = THREAD_BLOCK_WAIT_THREAD" using parked_okD(2) [OF ok a(1)] a(2) y(2) by auto
      then show ?thesis using th(1,2) x(1) by (auto simp: thr)
    qed
    show "u = v" if "threads ?s u = Some y" "threads ?s v = Some y'" "join_waiter_tid y \<noteq> 0" "join_waiter_tid y = join_waiter_tid y'" for u v y y'
    proof -
      have o: "v = target \<and> join_waiter_tid b = cur
          \<or> v \<noteq> target \<and> (\<exists>a. threads s v = Some a \<and> join_waiter_tid a = join_waiter_tid b)"
        if "threads ?s v = Some b" for v b
        using that th(1) ne by (auto simp: thr split: if_splits)
      show ?thesis
        using o [OF that(1)] o [OF that(2)] that(3,4) nw parked_okD(3) [OF ok] by metis
    qed
  qed
next
  case False
  then have "?s = s" by (auto simp: thread_join_park_def split: option.split)
  then show ?thesis using ok by simp
qed

text \<open>The wake of a joiner leaves every thread but the exited one and the joiner as it was.\<close>

lemma wake_joiner_threads:
  assumes x: "threads s x = Some tx" "join_waiter_tid tx = w" "w \<noteq> 0"
  shows "\<exists>y. threads (process_wake_thread_joiner may pid x s) x = Some y \<and> join_waiter_tid y = 0
      \<and> sched_timeout_tick y = sched_timeout_tick tx \<and> event_node y = event_node tx
      \<and> (w \<noteq> x \<longrightarrow> th_state y = th_state tx \<and> th_reason y = th_reason tx)"
    and "\<lbrakk>u \<noteq> x; u \<noteq> w\<rbrakk> \<Longrightarrow> threads (process_wake_thread_joiner may pid x s) u = threads s u"
    and "\<lbrakk>threads s w = Some tw; w \<noteq> x\<rbrakk> \<Longrightarrow> \<exists>y. threads (process_wake_thread_joiner may pid x s) w = Some y
      \<and> join_waiter_tid y = join_waiter_tid tw \<and> sched_timeout_tick y = sched_timeout_tick tw \<and> event_node y = event_node tw"
  using x
  by (auto simp: process_wake_thread_joiner_def Let_def claim_and_enqueue_def process_set_ready_def
      thread_wake_if_blocked_def sched_wake_claim_enqueue_def cpu_sched_enqueue_def split: option.split)

lemma joiner_parked_ok:
  assumes ok: "parked_ok s"
  shows "parked_ok (process_wake_thread_joiner may pid x s)" (is "parked_ok ?s")
proof (cases "\<exists>tx. threads s x = Some tx \<and> join_waiter_tid tx \<noteq> 0")
  case True
  then obtain tx where tx: "threads s x = Some tx" "join_waiter_tid tx \<noteq> 0" by blast
  let ?w = "join_waiter_tid tx"
  obtain tw where tw: "threads s ?w = Some tw" using parked_okD(2) [OF ok tx] by blast
  note thr = wake_joiner_threads [where may = may and pid = pid, OF tx(1) refl tx(2)]
  have old: "\<exists>a. threads s u = Some a \<and> sched_timeout_tick y = sched_timeout_tick a \<and> event_node y = event_node a
      \<and> (join_waiter_tid y \<noteq> 0 \<longrightarrow> u \<noteq> x \<and> join_waiter_tid y = join_waiter_tid a)" if y: "threads ?s u = Some y" for u y
  proof -
    consider "u = x" | "u \<noteq> x" "u = ?w" | "u \<noteq> x" "u \<noteq> ?w" by blast
    then show ?thesis
    proof cases
      case 1
      then show ?thesis using y thr(1) tx(1) by auto
    next
      case 2
      then show ?thesis using y thr(3) [OF tw] tw by auto
    next
      case 3
      then have "threads s u = Some y" using y thr(2) by simp
      then show ?thesis using 3(1) by blast
    qed
  qed
  have other: "join_waiter_tid a \<noteq> ?w" if "threads s u = Some a" "u \<noteq> x" for u a
    using parked_okD(3) [OF ok that(1) tx(1)] that(2) tx(2) by metis
  show ?thesis
  proof (rule parked_okI)
    show "event_node y \<noteq> None" if "threads ?s u = Some y" "sched_timeout_tick y \<noteq> 0" for u y
      using old [OF that(1)] that(2) parked_okD(1) [OF ok] by metis
    show "\<exists>w. threads ?s (join_waiter_tid y) = Some w \<and> th_state w = THREAD_STATE_BLOCKED \<and> th_reason w = THREAD_BLOCK_WAIT_THREAD"
      if y: "threads ?s u = Some y" "join_waiter_tid y \<noteq> 0" for u y
    proof -
      obtain a where a: "threads s u = Some a" "join_waiter_tid y = join_waiter_tid a" "u \<noteq> x" using old [OF y(1)] y(2) by blast
      obtain w where w: "threads s (join_waiter_tid y) = Some w" "th_state w = THREAD_STATE_BLOCKED"
        "th_reason w = THREAD_BLOCK_WAIT_THREAD" using parked_okD(2) [OF ok a(1)] a(2) y(2) by auto
      have "join_waiter_tid y \<noteq> ?w" using other [OF a(1,3)] a(2) by simp
      then show ?thesis using w tx(1) thr(1) thr(2) [of "join_waiter_tid y"] by (cases "join_waiter_tid y = x") auto
    qed
    show "u = v" if "threads ?s u = Some y" "threads ?s v = Some y'" "join_waiter_tid y \<noteq> 0" "join_waiter_tid y = join_waiter_tid y'" for u v y y'
      using old [OF that(1)] old [OF that(2)] that(3,4) parked_okD(3) [OF ok] by metis
  qed
next
  case False
  then have "?s = s" by (auto simp: process_wake_thread_joiner_def split: option.split)
  then show ?thesis using ok by simp
qed

lemma step_parked_ok:
  assumes "sched_step s s'" and inv: "sched_inv s" and ok: "parked_ok s"
  shows "parked_ok s'"
proof -
  have z: "threads s 0 = None" using inv by (rule sched_invD(1))
  have nz: "tid \<noteq> 0" if "threads s tid = Some t" for tid t using that z by (metis option.distinct(1))
  note k = parked_ok_kept [OF ok]
  have enq: "parked_ok x \<Longrightarrow> parked_ok (cpu_sched_enqueue t x)" for x t
    by (rule parked_ok_kept, assumption) (auto simp: all_kept_def cpu_sched_enqueue_def intro!: option.rel_refl)
  show ?thesis
    using assms(1)
  proof cases
    case (dispatch tid t)
    have "all_kept s s'"
      by (rule all_keptI [of tid]) (use dispatch in \<open>auto simp: kept_def\<close>)
    then show ?thesis by (rule k)
  next
    case (resume tid)
    have "all_kept s s'"
      by (rule all_keptI [of tid]; cases "threads s tid") (use resume in \<open>auto simp: sched_event_resume_def kept_def\<close>)
    then show ?thesis by (rule k)
  qed (simp_all add: k wait_kept complete_kept [OF inv] settle_kept wakes_kept [OF inv] check_kept [OF inv] waiters_kept
      wait_park_kept spawn_parked_ok [OF ok] enq spawned_kept nz join_parked_ok [OF ok _ _ _ z] joiner_parked_ok [OF ok])
qed

text \<open>The conditions of the parking steps and of the wake of a joiner exclude nothing that is reachable.\<close>

lemma guards_met:
  assumes "sched_idle s0" and "parked_ok s0" and "sched_step\<^sup>*\<^sup>* s0 s"
  shows "joiner_parked x s" and "\<lbrakk>threads s t = Some th; th_state th = THREAD_STATE_RUNNING\<rbrakk> \<Longrightarrow> sched_timeout_tick th = 0"
proof -
  have "sched_inv s \<and> parked_ok s"
    using assms(3) by (induction rule: rtranclp_induct)
      (use assms(1,2) sched_idle_inv sched_step_inv step_parked_ok in blast)+
  then have inv: "sched_inv s" and ok: "parked_ok s" by blast+
  show "joiner_parked x s"
    unfolding joiner_parked_def
  proof (intro allI impI; elim conjE)
    fix tx w
    assume a: "threads s x = Some tx" "threads s (join_waiter_tid tx) = Some w"
    then have "join_waiter_tid tx \<noteq> 0" using sched_invD(1) [OF inv] by (metis option.distinct(1))
    then show "th_reason w = THREAD_BLOCK_WAIT_THREAD" using parked_okD(2) [OF ok a(1)] a(2) by auto
  qed
  assume th: "threads s t = Some th" "th_state th = THREAD_STATE_RUNNING"
  have "event_node th = None" using sched_invD(4) [OF inv th(1)] th(2) by (auto simp: thread_ok_def)
  then show "sched_timeout_tick th = 0" using parked_okD(1) [OF ok th(1)] by blast
qed

end
