(* ===== verification/Sync.thy ===== *)
theory Sync
  imports Sched_event
begin

section \<open>Mutexes, semaphores and futexes\<close>

text \<open>
  Model of \<open>src/kernel/sync_mutex.c\<close>, \<open>sync_semaphore.c\<close> and \<open>futex.c\<close>, the three blocking
  primitives built on events.  A blocking operation is a loop whose body runs under the event
  lock and either returns or parks in \<open>sched_event_wait\<close>; the model has one function per
  iteration, whose first result is the value returned, or None when the iteration parked.
  The calling thread is the argument \<open>cur\<close>; its tid is 0 before threads exist.  The refusal of a
  NULL object is not represented: the object is an argument.
\<close>

definition KSYNC_OK :: int where "KSYNC_OK = 0"
definition KSYNC_BUSY :: int where "KSYNC_BUSY = 1"

subsection \<open>Mutex\<close>

record mutex =
  m_event :: event_key
  owner_tid :: nat
  locked :: bool

definition ksync_mutex_current_owner_tid :: "nat \<Rightarrow> nat" where
  "ksync_mutex_current_owner_tid cur = (if cur \<noteq> 0 then cur else 0xFFFFFFFF)"

definition ksync_mutex_init :: "event_key \<Rightarrow> sched \<Rightarrow> mutex \<times> sched" where
  "ksync_mutex_init ev s = (\<lparr>m_event = ev, owner_tid = 0, locked = False\<rparr>, sched_event_init ev s)"

definition ksync_mutex_try_lock :: "nat \<Rightarrow> mutex \<Rightarrow> int \<times> mutex" where
  "ksync_mutex_try_lock cur m =
     (let owner = ksync_mutex_current_owner_tid cur in
      if \<not> locked m then (KSYNC_OK, m\<lparr>locked := True, owner_tid := owner\<rparr>)
      else if owner_tid m = owner then (-1, m)
      else (KSYNC_BUSY, m))"

definition ksync_mutex_lock :: "nat \<Rightarrow> mutex \<Rightarrow> sched \<Rightarrow> int option \<times> mutex \<times> sched" where
  "ksync_mutex_lock cur m s =
     (let owner = ksync_mutex_current_owner_tid cur in
      if \<not> locked m then (Some KSYNC_OK, m\<lparr>locked := True, owner_tid := owner\<rparr>, s)
      else if owner_tid m = owner then (Some (-1), m, s)
      else (None, m, sched_event_wait 0 0 cur (m_event m) 0 s))"

definition ksync_mutex_unlock :: "nat \<Rightarrow> mutex \<Rightarrow> sched \<Rightarrow> int \<times> mutex \<times> sched" where
  "ksync_mutex_unlock cur m s =
     (let owner = ksync_mutex_current_owner_tid cur in
      if \<not> locked m \<or> owner_tid m \<noteq> owner then (-1, m, s)
      else (KSYNC_OK, m\<lparr>locked := False, owner_tid := 0\<rparr>,
            snd (sched_event_wake_one (m_event m) 0 SCHED_PEND_OK s)))"

subsection \<open>Semaphore\<close>

record semaphore =
  sem_event :: event_key
  sem_cnt :: nat

definition ksync_semaphore_init :: "event_key \<Rightarrow> nat \<Rightarrow> sched \<Rightarrow> semaphore \<times> sched" where
  "ksync_semaphore_init ev initial_count s =
     (\<lparr>sem_event = ev, sem_cnt = initial_count\<rparr>, sched_event_init ev s)"

definition ksync_semaphore_try_acquire :: "semaphore \<Rightarrow> int \<times> semaphore" where
  "ksync_semaphore_try_acquire sem =
     (if sem_cnt sem \<noteq> 0 then (KSYNC_OK, sem\<lparr>sem_cnt := sem_cnt sem - 1\<rparr>) else (KSYNC_BUSY, sem))"

definition ksync_semaphore_acquire :: "nat \<Rightarrow> semaphore \<Rightarrow> sched \<Rightarrow> int option \<times> semaphore \<times> sched" where
  "ksync_semaphore_acquire cur sem s =
     (if sem_cnt sem \<noteq> 0 then (Some KSYNC_OK, sem\<lparr>sem_cnt := sem_cnt sem - 1\<rparr>, s)
      else (None, sem, sched_event_wait 0 0 cur (sem_event sem) 0 s))"

definition ksync_semaphore_release :: "semaphore \<Rightarrow> sched \<Rightarrow> int \<times> semaphore \<times> sched" where
  "ksync_semaphore_release sem s =
     (if sem_cnt sem = 0xFFFFFFFF then (-1, sem, s)
      else (KSYNC_OK, sem\<lparr>sem_cnt := sem_cnt sem + 1\<rparr>,
            snd (sched_event_wake_one (sem_event sem) 0 SCHED_PEND_OK s)))"

definition ksync_semaphore_count :: "semaphore \<Rightarrow> nat" where
  "ksync_semaphore_count sem = sem_cnt sem"

subsection \<open>Threads contending for a gate\<close>

text \<open>
  Threads call the three operations of a mutex or a semaphore in any order, each iteration of a
  blocking one being one step.  A thread is idle, about to run an iteration (\<open>Trying\<close>), or asleep
  in \<open>sched_event_wait\<close> (\<open>Sleeping\<close>), where a wake and the dispatcher bring it back; \<open>Inside\<close> is
  between a successful acquire and the release.  \<open>g_taken\<close> and \<open>g_given\<close> count the successful
  acquires and releases.
\<close>

datatype gate_pc = Idle | Trying | Sleeping | Inside

record 'r gate =
  g_res :: 'r
  g_sched :: sched
  g_pc :: "nat \<Rightarrow> gate_pc"
  g_taken :: nat
  g_given :: nat

definition runs :: "sched \<Rightarrow> nat \<Rightarrow> bool" where
  "runs s t \<longleftrightarrow> (\<exists>th. threads s t = Some th \<and> th_state th = THREAD_STATE_RUNNING \<and> \<not> blocking_transition th)"

inductive gate_step ::
  "(nat \<Rightarrow> 'r \<Rightarrow> int \<times> 'r) \<Rightarrow> (nat \<Rightarrow> 'r \<Rightarrow> sched \<Rightarrow> int option \<times> 'r \<times> sched)
   \<Rightarrow> (nat \<Rightarrow> 'r \<Rightarrow> sched \<Rightarrow> int \<times> 'r \<times> sched) \<Rightarrow> 'r gate \<Rightarrow> 'r gate \<Rightarrow> bool"
  for try_acquire acquire release where
  call: "\<lbrakk>runs (g_sched g) t; g_pc g t = Idle\<rbrakk>
         \<Longrightarrow> gate_step try_acquire acquire release g (g\<lparr>g_pc := (g_pc g)(t := Trying)\<rparr>)"
| try_ok: "\<lbrakk>runs (g_sched g) t; g_pc g t = Idle; try_acquire t (g_res g) = (KSYNC_OK, r)\<rbrakk>
         \<Longrightarrow> gate_step try_acquire acquire release g
               (g\<lparr>g_res := r, g_pc := (g_pc g)(t := Inside), g_taken := g_taken g + 1\<rparr>)"
| take: "\<lbrakk>runs (g_sched g) t; g_pc g t = Trying; acquire t (g_res g) (g_sched g) = (Some KSYNC_OK, r, s)\<rbrakk>
         \<Longrightarrow> gate_step try_acquire acquire release g
               (g\<lparr>g_res := r, g_sched := s, g_pc := (g_pc g)(t := Inside), g_taken := g_taken g + 1\<rparr>)"
| refuse: "\<lbrakk>runs (g_sched g) t; g_pc g t = Trying; acquire t (g_res g) (g_sched g) = (Some c, r, s); c \<noteq> KSYNC_OK\<rbrakk>
         \<Longrightarrow> gate_step try_acquire acquire release g
               (g\<lparr>g_res := r, g_sched := s, g_pc := (g_pc g)(t := Idle)\<rparr>)"
| sleep: "\<lbrakk>runs (g_sched g) t; g_pc g t = Trying; acquire t (g_res g) (g_sched g) = (None, r, s)\<rbrakk>
         \<Longrightarrow> gate_step try_acquire acquire release g
               (g\<lparr>g_res := r, g_sched := s, g_pc := (g_pc g)(t := Sleeping)\<rparr>)"
| resume: "\<lbrakk>runs (g_sched g) t; g_pc g t = Sleeping\<rbrakk>
         \<Longrightarrow> gate_step try_acquire acquire release g
               (g\<lparr>g_sched := sched_event_resume t (g_sched g), g_pc := (g_pc g)(t := Trying)\<rparr>)"
| release: "\<lbrakk>runs (g_sched g) t; g_pc g t = Inside \<or> g_pc g t = Idle; release t (g_res g) (g_sched g) = (KSYNC_OK, r, s)\<rbrakk>
         \<Longrightarrow> gate_step try_acquire acquire release g
               (g\<lparr>g_res := r, g_sched := s, g_pc := (g_pc g)(t := Idle), g_given := g_given g + 1\<rparr>)"
| complete: "threads (g_sched g) t = Some th
         \<Longrightarrow> gate_step try_acquire acquire release g (g\<lparr>g_sched := block_complete t (g_sched g)\<rparr>)"
| settle: "gate_step try_acquire acquire release g
             (g\<lparr>g_sched := sched_settle_deferred_enqueue t (g_sched g)\<rparr>)"
| dispatch: "\<lbrakk>threads (g_sched g) t = Some th; th_state th = THREAD_STATE_READY; t \<in> set (enqueued (g_sched g));
              \<not> blocking_transition th\<rbrakk>
         \<Longrightarrow> gate_step try_acquire acquire release g
               (g\<lparr>g_sched := (upd_thread t (\<lambda>t. t\<lparr>th_state := THREAD_STATE_RUNNING\<rparr>) (g_sched g))
                               \<lparr>enqueued := removeAll t (enqueued (g_sched g))\<rparr>\<rparr>)"

text \<open>Threads on their way to another iteration: trying, or asleep but already taken off the wait list.\<close>

definition pending :: "event_key \<Rightarrow> 'r gate \<Rightarrow> nat set" where
  "pending ev g = {t. g_pc g t = Trying \<or> g_pc g t = Sleeping \<and> t \<notin> set (wait_list (g_sched g) ev)}"

definition gate_ok :: "event_key \<Rightarrow> nat \<Rightarrow> 'r gate \<Rightarrow> nat \<Rightarrow> bool" where
  "gate_ok ev n0 g avail \<longleftrightarrow>
     sched_inv (g_sched g)
     \<and> finite {t. g_pc g t \<noteq> Idle}
     \<and> (\<forall>t \<in> set (wait_list (g_sched g) ev). g_pc g t = Sleeping)
     \<and> (\<forall>e. e \<noteq> ev \<longrightarrow> wait_list (g_sched g) e = [])
     \<and> (\<forall>t. g_pc g t \<noteq> Idle \<longrightarrow> \<not> parked (g_sched g) t)
     \<and> avail + g_taken g = n0 + g_given g
     \<and> (wait_list (g_sched g) ev \<noteq> [] \<longrightarrow> avail \<le> card (pending ev g))"

lemma park_wait_list:
  assumes "sched_inv s" and "runs s t"
  shows "wait_list (sched_event_wait 0 0 t ev 0 s) = (wait_list s)(ev := wait_list s ev @ [t])"
    and "sched_inv (sched_event_wait 0 0 t ev 0 s)"
proof -
  obtain th where th: "threads s t = Some th" "th_state th = THREAD_STATE_RUNNING" "\<not> blocking_transition th"
    using assms(2) by (auto simp: runs_def)
  have "event_node th = None"
    using sched_invD(4) [OF assms(1) th(1)] th(2) by (auto simp: thread_ok_def)
  then show "wait_list (sched_event_wait 0 0 t ev 0 s) = (wait_list s)(ev := wait_list s ev @ [t])"
    using th wait_park_fields(1) [OF th(1,2), of ev] by (simp add: sched_event_wait_def wait_arm_def unlink_def)
  show "sched_inv (sched_event_wait 0 0 t ev 0 s)"
    using assms(1) th by (rule event_wait_inv)
qed

lemma wake_one_wait_list:
  assumes "sched_inv s"
  shows "wait_list (snd (sched_event_wake_one ev data pend s)) e
         = (if e = ev then tl (wait_list s ev) else wait_list s e)"
proof (cases "wait_list s ev")
  case (Cons t ts)
  obtain th where th: "threads s t = Some th" "event_node th = Some ev"
    using sched_invD(3) [OF assms, of t ev] Cons by (auto simp: linked_def)
  have "t \<notin> set ts" using sched_invD(2) [OF assms, of ev] Cons by simp
  then show ?thesis
    using Cons th by (simp add: sched_event_wake_one_def sched_event_detach_wake_def unlink_wait_list)
qed (simp add: sched_event_wake_one_def)

lemma waiter_not_running: "\<lbrakk>sched_inv s; runs s t\<rbrakk> \<Longrightarrow> t \<notin> set (wait_list s ev)"
  using sched_invD(3) [of s t ev] sched_invD(4) [of s t]
  by (fastforce simp: runs_def linked_def thread_ok_def)

lemma other_wait_lists [simp]:
  "wait_list (block_complete t s) = wait_list s"
  "wait_list (sched_settle_deferred_enqueue t s) = wait_list s"
  "wait_list (sched_event_resume t s) = wait_list s"
  by (simp_all add: block_complete_def sched_block_complete_claim_def thread_set_state_def cpu_sched_enqueue_def
      sched_settle_deferred_enqueue_def sched_take_owed_enqueue_def sched_event_resume_def Let_def
      split: option.split thread_state.split prod.split bool.split)

lemma finite_pending: "finite {t. g_pc g t \<noteq> Idle} \<Longrightarrow> finite (pending ev g)"
  by (erule rev_finite_subset) (auto simp: pending_def)

lemma finite_pc_upd: "finite {t. pc t \<noteq> Idle} \<Longrightarrow> finite {u. (pc(t := x)) u \<noteq> Idle}"
  by (rule finite_subset [of _ "insert t {t. pc t \<noteq> Idle}"]) auto

text \<open>The contract of a gate: what its operations do to the permits, the wait list and the event.\<close>

locale blocking_gate =
  fixes try_acquire :: "nat \<Rightarrow> 'r \<Rightarrow> int \<times> 'r"
    and acquire :: "nat \<Rightarrow> 'r \<Rightarrow> sched \<Rightarrow> int option \<times> 'r \<times> sched"
    and release :: "nat \<Rightarrow> 'r \<Rightarrow> sched \<Rightarrow> int \<times> 'r \<times> sched"
    and avail :: "'r \<Rightarrow> nat"
    and key :: "'r \<Rightarrow> event_key"
  assumes try_ok: "try_acquire t r = (KSYNC_OK, r') \<Longrightarrow> avail r = Suc (avail r') \<and> key r' = key r"
    and acquire_ok: "acquire t r s = (Some KSYNC_OK, r', s') \<Longrightarrow>
          avail r = Suc (avail r') \<and> key r' = key r \<and> s' = s"
    and acquire_refused: "\<lbrakk>acquire t r s = (Some c, r', s'); c \<noteq> KSYNC_OK\<rbrakk> \<Longrightarrow> r' = r \<and> s' = s \<and> avail r = 0"
    and acquire_parks: "acquire t r s = (None, r', s') \<Longrightarrow>
          r' = r \<and> avail r = 0 \<and> s' = sched_event_wait 0 0 t (key r) 0 s"
    and release_ok: "release t r s = (KSYNC_OK, r', s') \<Longrightarrow>
          avail r' = Suc (avail r) \<and> key r' = key r
          \<and> s' = snd (sched_event_wake_one (key r) 0 SCHED_PEND_OK s)"
begin

lemma take_ok:
  assumes ok: "gate_ok ev n0 g (Suc a)" and t: "g_pc g t = Trying"
  shows "gate_ok ev n0 (g\<lparr>g_res := r, g_pc := (g_pc g)(t := Inside), g_taken := g_taken g + 1\<rparr>) a"
proof -
  let ?g = "g\<lparr>g_res := r, g_pc := (g_pc g)(t := Inside), g_taken := g_taken g + 1\<rparr>"
  have w: "\<forall>u \<in> set (wait_list (g_sched g) ev). g_pc g u = Sleeping" using ok by (simp add: gate_ok_def)
  have f: "finite (pending ev g)" using ok finite_pending by (auto simp: gate_ok_def)
  have "pending ev ?g = pending ev g - {t}" "t \<in> pending ev g" using t by (auto simp: pending_def)
  then have "card (pending ev ?g) = card (pending ev g) - 1" "0 < card (pending ev g)"
    using f by (auto simp: card_gt_0_iff)
  then show ?thesis
    using ok t w by (auto simp: gate_ok_def finite_pc_upd simp del: fun_upd_apply) (auto split: if_splits)
qed

end

lemma gate_okD:
  assumes "gate_ok ev n0 g a"
  shows "sched_inv (g_sched g)" "finite {t. g_pc g t \<noteq> Idle}"
    "t \<in> set (wait_list (g_sched g) ev) \<Longrightarrow> g_pc g t = Sleeping" "a + g_taken g = n0 + g_given g"
    "wait_list (g_sched g) ev \<noteq> [] \<Longrightarrow> a \<le> card (pending ev g)"
    "e \<noteq> ev \<Longrightarrow> wait_list (g_sched g) e = []" "g_pc g t \<noteq> Idle \<Longrightarrow> \<not> parked (g_sched g) t"
  using assms by (auto simp: gate_ok_def)

lemma gate_okI:
  assumes "sched_inv (g_sched g)" "finite {t. g_pc g t \<noteq> Idle}"
    "\<And>t. t \<in> set (wait_list (g_sched g) ev) \<Longrightarrow> g_pc g t = Sleeping" "a + g_taken g = n0 + g_given g"
    "wait_list (g_sched g) ev \<noteq> [] \<Longrightarrow> a \<le> card (pending ev g)"
    "\<And>e. e \<noteq> ev \<Longrightarrow> wait_list (g_sched g) e = []" "\<And>t. g_pc g t \<noteq> Idle \<Longrightarrow> \<not> parked (g_sched g) t"
  shows "gate_ok ev n0 g a"
  using assms by (simp add: gate_ok_def)

text \<open>Steps that leave the permits alone and do not shrink the set of pending threads.\<close>

lemma gate_ok_frame:
  assumes ok: "gate_ok ev n0 g a" and inv: "sched_inv s"
    and wl: "wait_list s = wait_list (g_sched g)"
    and t: "t \<notin> set (wait_list s ev)" "g_pc g t = Idle \<or> g_pc g t = Sleeping" "\<not> parked s t"
    and p: "\<And>u. parked s u \<Longrightarrow> parked (g_sched g) u"
  shows "gate_ok ev n0 (g\<lparr>g_sched := s, g_pc := (g_pc g)(t := Trying)\<rparr>) a" (is "gate_ok ev n0 ?g a")
proof -
  have f: "finite {u. g_pc ?g u \<noteq> Idle}"
    using finite_pc_upd [OF gate_okD(2) [OF ok], of t Trying] by simp
  have "pending ev g \<subseteq> pending ev ?g" using t wl by (auto simp: pending_def)
  then have "card (pending ev g) \<le> card (pending ev ?g)"
    using finite_pending [OF f] by (rule card_mono [rotated])
  then have c: "a \<le> card (pending ev ?g)" if "wait_list (g_sched ?g) ev \<noteq> []"
    using gate_okD(5) [OF ok] that wl by simp
  have "g_pc ?g u = Sleeping" if "u \<in> set (wait_list (g_sched ?g) ev)" for u
    using that t(1) wl gate_okD(3) [OF ok, of u] by auto
  moreover have "\<not> parked (g_sched ?g) u" if "g_pc ?g u \<noteq> Idle" for u
    using that t(3) p [of u] gate_okD(7) [OF ok, of u] by (auto split: if_splits)
  ultimately show ?thesis
    using gate_okD(4,6) [OF ok] inv wl by (intro gate_okI f c) simp_all
qed

lemma gate_ok_sched:
  assumes "gate_ok ev n0 g a" and "sched_inv s" and "wait_list s = wait_list (g_sched g)"
    and "\<And>u. parked s u \<Longrightarrow> parked (g_sched g) u"
  shows "gate_ok ev n0 (g\<lparr>g_sched := s\<rparr>) a"
  using assms by (auto simp: gate_ok_def pending_def)

lemma runs_not_parked: "runs s t \<Longrightarrow> \<not> parked s t"
  by (auto simp: runs_def parked_def)

context blocking_gate
begin

lemma try_take_ok:
  assumes ok: "gate_ok ev n0 g (Suc a)" and t: "g_pc g t = Idle" "runs (g_sched g) t"
  shows "gate_ok ev n0 (g\<lparr>g_res := r, g_pc := (g_pc g)(t := Inside), g_taken := g_taken g + 1\<rparr>) a"
    (is "gate_ok ev n0 ?g a")
proof -
  have f: "finite {u. g_pc ?g u \<noteq> Idle}"
    using finite_pc_upd [OF gate_okD(2) [OF ok], of t Inside] by simp
  have "pending ev ?g = pending ev g" using t(1) by (auto simp: pending_def)
  moreover have "g_pc ?g u = Sleeping" if "u \<in> set (wait_list (g_sched ?g) ev)" for u
    using that t(1) gate_okD(3) [OF ok, of u] by auto
  moreover have "\<not> parked (g_sched ?g) u" if "g_pc ?g u \<noteq> Idle" for u
    using that runs_not_parked [OF t(2)] gate_okD(7) [OF ok, of u] by (auto split: if_splits)
  ultimately show ?thesis
    using gate_okD(1,4,5,6) [OF ok] by (intro gate_okI f) (simp_all add: le_Suc_eq)
qed

lemma leave_ok:
  assumes ok: "gate_ok ev n0 g 0" and t: "runs (g_sched g) t" "g_pc g t = Trying"
  shows "gate_ok ev n0 (g\<lparr>g_pc := (g_pc g)(t := Idle)\<rparr>) 0" (is "gate_ok ev n0 ?g 0")
proof -
  have f: "finite {u. g_pc ?g u \<noteq> Idle}"
    using finite_pc_upd [OF gate_okD(2) [OF ok], of t Idle] by simp
  have "g_pc ?g u = Sleeping" if "u \<in> set (wait_list (g_sched ?g) ev)" for u
    using that waiter_not_running [OF gate_okD(1) [OF ok] t(1), of ev] gate_okD(3) [OF ok, of u] by auto
  moreover have "\<not> parked (g_sched ?g) u" if "g_pc ?g u \<noteq> Idle" for u
    using that gate_okD(7) [OF ok, of u] by (auto split: if_splits)
  ultimately show ?thesis
    using gate_okD(1,4,6) [OF ok] by (intro gate_okI f) simp_all
qed

lemma sleep_ok:
  assumes ok: "gate_ok ev n0 g 0" and t: "runs (g_sched g) t" "g_pc g t = Trying"
  shows "gate_ok ev n0 (g\<lparr>g_sched := sched_event_wait 0 0 t ev 0 (g_sched g), g_pc := (g_pc g)(t := Sleeping)\<rparr>) 0"
    (is "gate_ok ev n0 ?g 0")
proof -
  have f: "finite {u. g_pc ?g u \<noteq> Idle}"
    using finite_pc_upd [OF gate_okD(2) [OF ok], of t Sleeping] by simp
  have p: "parked (g_sched ?g) u \<Longrightarrow> parked (g_sched g) u" for u
    using t(1) event_wait_parked by (fastforce simp: runs_def)
  note w = park_wait_list [OF gate_okD(1) [OF ok] t(1), of ev]
  have "g_pc ?g u = Sleeping" if "u \<in> set (wait_list (g_sched ?g) ev)" for u
    using that w(1) gate_okD(3) [OF ok, of u] by auto
  moreover have "\<not> parked (g_sched ?g) u" if "g_pc ?g u \<noteq> Idle" for u
    using that t(2) p [of u] gate_okD(7) [OF ok, of u] by (auto split: if_splits)
  ultimately show ?thesis
    using gate_okD(4,6) [OF ok] w by (intro gate_okI f) simp_all
qed

lemma give_ok:
  assumes ok: "gate_ok ev n0 g a" and t: "g_pc g t = Inside \<or> g_pc g t = Idle"
  shows "gate_ok ev n0 (g\<lparr>g_res := r, g_sched := snd (sched_event_wake_one ev 0 SCHED_PEND_OK (g_sched g)),
           g_pc := (g_pc g)(t := Idle), g_given := g_given g + 1\<rparr>) (Suc a)" (is "gate_ok ev n0 ?g (Suc a)")
proof -
  have f: "finite {u. g_pc ?g u \<noteq> Idle}"
    using finite_pc_upd [OF gate_okD(2) [OF ok], of t Idle] by simp
  have wl: "wait_list (g_sched ?g) ev = tl (wait_list (g_sched g) ev)"
    using wake_one_wait_list [OF gate_okD(1) [OF ok]] by simp
  have inv: "sched_inv (g_sched ?g)" using gate_okD(1) [OF ok] by (simp add: wake_one_inv)
  have sl: "g_pc ?g u = Sleeping" if "u \<in> set (wait_list (g_sched ?g) ev)" for u
  proof -
    have "u \<in> set (wait_list (g_sched g) ev)"
      using that unfolding wl by (cases "wait_list (g_sched g) ev") simp_all
    then have "g_pc g u = Sleeping" by (rule gate_okD(3) [OF ok])
    then show ?thesis using t by auto
  qed
  have "Suc a \<le> card (pending ev ?g)" if "tl (wait_list (g_sched g) ev) \<noteq> []"
  proof -
    obtain u us where us: "wait_list (g_sched g) ev = u # us" using \<open>tl _ \<noteq> []\<close>
      by (cases "wait_list (g_sched g) ev") auto
    have d: "u \<notin> set us" using sched_invD(2) [OF gate_okD(1) [OF ok], of ev] us by simp
    have p: "g_pc g u = Sleeping" using gate_okD(3) [OF ok] us by simp
    have "pending ev ?g = insert u (pending ev g)"
      using t p us d wl unfolding pending_def by auto
    moreover have "u \<notin> pending ev g" using p us by (simp add: pending_def)
    ultimately show ?thesis
      using gate_okD(5) [OF ok] us finite_pending [OF gate_okD(2) [OF ok], of ev] by simp
  qed
  moreover have "wait_list (g_sched ?g) e = []" if "e \<noteq> ev" for e
    using wake_one_wait_list [OF gate_okD(1) [OF ok]] gate_okD(6) [OF ok that] that by simp
  moreover have "\<not> parked (g_sched ?g) u" if "g_pc ?g u \<noteq> Idle" for u
    using that gate_okD(7) [OF ok, of u] wake_one_parked [OF gate_okD(1) [OF ok]] by (auto split: if_splits)
  ultimately show ?thesis
    using inv f sl gate_okD(4) [OF ok] unfolding gate_ok_def wl by simp
qed

lemma gate_step_ok:
  assumes "gate_step try_acquire acquire release g g'" and "gate_ok ev n0 g (avail (g_res g))" and "key (g_res g) = ev"
  shows "gate_ok ev n0 g' (avail (g_res g')) \<and> key (g_res g') = ev"
  using assms(1)
proof cases
  case (call t)
  have "gate_ok ev n0 (g\<lparr>g_sched := g_sched g, g_pc := (g_pc g)(t := Trying)\<rparr>) (avail (g_res g))"
    using assms(2) call(2,3) gate_okD(1) [OF assms(2)] waiter_not_running runs_not_parked [OF call(2)]
    by (intro gate_ok_frame) auto
  then show ?thesis using call(1) assms(3) by simp
next
  case (try_ok t r)
  then show ?thesis
    using blocking_gate.try_ok [OF blocking_gate_axioms try_ok(4)] assms(2,3) try_take_ok [of ev n0 g "avail r" t r] by simp
next
  case (take t r s)
  then show ?thesis
    using acquire_ok [OF take(4)] assms(2,3) take_ok [of ev n0 g "avail r" t r] by simp
next
  case (refuse t c r s)
  then show ?thesis
    using acquire_refused [OF refuse(4,5)] assms(2,3) leave_ok [of ev n0 g t] by simp
next
  case (sleep t r s)
  then show ?thesis
    using acquire_parks [OF sleep(4)] assms(2,3) sleep_ok [of ev n0 g t] by simp
next
  case (resume t)
  have i: "sched_inv (g_sched g)" using assms(2) by (rule gate_okD(1))
  then have "sched_inv (sched_event_resume t (g_sched g))"
    unfolding sched_event_resume_def by (rule disarm_inv)
  then show ?thesis
    using resume assms(2,3) waiter_not_running [OF i resume(2)] runs_not_parked [OF resume(2)] parked_frames(3)
    by (auto intro!: gate_ok_frame)
next
  case (release t r s)
  then show ?thesis
    using release_ok [OF release(4)] assms(2,3) give_ok [of ev n0 g "avail (g_res g)" t r] by simp
next
  case (complete t th)
  then show ?thesis
    using assms(2,3) block_complete_inv [OF gate_okD(1) [OF assms(2)]] by (simp add: gate_ok_sched parked_frames(1))
next
  case (settle t)
  then show ?thesis
    using assms(2,3) settle_inv [OF gate_okD(1) [OF assms(2)]] by (simp add: gate_ok_sched parked_frames(2))
next
  case (dispatch t th)
  then show ?thesis
    using assms(2,3) dispatch_inv [OF gate_okD(1) [OF assms(2)] dispatch(2,3)] by (simp add: gate_ok_sched parked_frames(4))
qed

lemma gate_steps_ok:
  assumes "(gate_step try_acquire acquire release)\<^sup>*\<^sup>* g g'"
    and "gate_ok (key (g_res g)) n0 g (avail (g_res g))"
  shows "gate_ok (key (g_res g)) n0 g' (avail (g_res g')) \<and> key (g_res g') = key (g_res g)"
  using assms
proof (induction rule: rtranclp_induct)
  case (step y z)
  then show ?case using gate_step_ok by blast
qed simp

end

definition mutex_avail :: "mutex \<Rightarrow> nat" where
  "mutex_avail m = (if locked m then 0 else 1)"

interpretation mutex_gate: blocking_gate ksync_mutex_try_lock ksync_mutex_lock ksync_mutex_unlock mutex_avail m_event
  by unfold_locales
    (auto simp: ksync_mutex_try_lock_def ksync_mutex_lock_def ksync_mutex_unlock_def mutex_avail_def KSYNC_OK_def
      KSYNC_BUSY_def Let_def split: if_splits)

interpretation semaphore_gate: blocking_gate "\<lambda>_. ksync_semaphore_try_acquire" ksync_semaphore_acquire
  "\<lambda>_. ksync_semaphore_release" sem_cnt sem_event
  by unfold_locales
    (auto simp: ksync_semaphore_try_acquire_def ksync_semaphore_acquire_def ksync_semaphore_release_def KSYNC_OK_def
      KSYNC_BUSY_def split: if_splits)

abbreviation mutex_step :: "mutex gate \<Rightarrow> mutex gate \<Rightarrow> bool" where
  "mutex_step \<equiv> gate_step ksync_mutex_try_lock ksync_mutex_lock ksync_mutex_unlock"

abbreviation semaphore_step :: "semaphore gate \<Rightarrow> semaphore gate \<Rightarrow> bool" where
  "semaphore_step \<equiv>
     gate_step (\<lambda>_. ksync_semaphore_try_acquire) ksync_semaphore_acquire (\<lambda>_. ksync_semaphore_release)"

definition gate_start :: "'r \<Rightarrow> sched \<Rightarrow> 'r gate" where
  "gate_start r s = \<lparr>g_res = r, g_sched = s, g_pc = (\<lambda>_. Idle), g_taken = 0, g_given = 0\<rparr>"

lemma gate_start_ok: "sched_idle s \<Longrightarrow> gate_ok ev n0 (gate_start r s) n0"
  by (simp add: gate_ok_def gate_start_def sched_idle_inv) (simp add: sched_idle_def)

lemma sched_init_idle: "sched_idle s \<Longrightarrow> sched_idle (sched_event_init ev s)"
  by (auto simp: sched_idle_def sched_event_init_def)

text \<open>A pending thread is not asleep: it runs, or a run queue has it, or it is owed an enqueue.\<close>

lemma pending_awake:
  assumes ok: "gate_ok ev n0 g a" and t: "t \<in> pending ev g" and th: "threads (g_sched g) t = Some th"
  shows "th_state th \<noteq> THREAD_STATE_BLOCKED"
    and "th_state th = THREAD_STATE_READY \<Longrightarrow> t \<in> set (enqueued (g_sched g)) \<or> enqueue_owed th"
proof -
  have inv: "sched_inv (g_sched g)" using ok by (rule gate_okD(1))
  have "g_pc g t \<noteq> Idle" using t by (auto simp: pending_def)
  then have "th_state th = THREAD_STATE_BLOCKED \<longrightarrow> th_reason th = THREAD_BLOCK_EVENT"
    using gate_okD(7) [OF ok] th by (auto simp: parked_def)
  moreover have "thread_ok (enqueued (g_sched g)) t th" using inv th by (rule sched_invD(4))
  moreover have "event_node th = None"
  proof (rule ccontr)
    assume "event_node th \<noteq> None"
    then obtain e where e: "t \<in> set (wait_list (g_sched g) e)"
      using sched_invD(3) [OF inv] th by (auto simp: linked_def)
    then have "e = ev" using gate_okD(6) [OF ok, of e] by (cases "e = ev") auto
    then show False using e t gate_okD(3) [OF ok, of t] by (auto simp: pending_def)
  qed
  ultimately show "th_state th \<noteq> THREAD_STATE_BLOCKED"
    and "th_state th = THREAD_STATE_READY \<Longrightarrow> t \<in> set (enqueued (g_sched g)) \<or> enqueue_owed th"
    by (auto simp: thread_ok_def)
qed

lemma pending_of_permit:
  assumes ok: "gate_ok ev n0 g a" and "0 < a" and "wait_list (g_sched g) ev \<noteq> []"
  shows "pending ev g \<noteq> {}"
  using gate_okD(5) [OF ok] assms(2,3) by auto

lemma runs_nonzero: "\<lbrakk>sched_inv s; runs s t\<rbrakk> \<Longrightarrow> t \<noteq> 0"
  by (metis option.distinct(1) runs_def sched_invD(1))

definition mutex_held :: "mutex gate \<Rightarrow> bool" where
  "mutex_held g \<longleftrightarrow> (\<forall>t. g_pc g t = Inside \<longleftrightarrow> locked (g_res g) \<and> owner_tid (g_res g) = t)"

lemma mutex_step_held:
  assumes "mutex_step g g'" and "sched_inv (g_sched g)" and "mutex_held g"
  shows "mutex_held g'"
proof -
  have nz: "t \<noteq> 0" if "runs (g_sched g) t" for t using assms(2) that by (rule runs_nonzero)
  note simps = mutex_held_def ksync_mutex_try_lock_def ksync_mutex_lock_def ksync_mutex_unlock_def
    ksync_mutex_current_owner_tid_def KSYNC_OK_def KSYNC_BUSY_def Let_def
  have own: "locked (g_res g) \<Longrightarrow> g_pc g (owner_tid (g_res g)) \<notin> {Idle, Trying, Sleeping}"
    using assms(3) unfolding mutex_held_def by (metis gate_pc.distinct(5,9,11) empty_iff insert_iff)
  show ?thesis
    by (rule gate_step.cases [OF assms(1)])
      (use nz own assms(3) in \<open>auto simp: simps split: if_splits\<close>)
qed

lemma mutex_steps_held:
  assumes "mutex_step\<^sup>*\<^sup>* g g'" and "gate_ok (m_event (g_res g)) n0 g (mutex_avail (g_res g))" and "mutex_held g"
  shows "mutex_held g'"
  using assms
proof (induction rule: rtranclp_induct)
  case (step y z)
  then have "sched_inv (g_sched y)" using mutex_gate.gate_steps_ok [OF step(1,4)] gate_okD(1) by blast
  then show ?case using step mutex_step_held by blast
qed simp

text \<open>
  C17.  Threads lock, try and unlock one mutex in any interleaving, starting unlocked: at most one
  thread is ever inside, and it is the recorded owner; and no wake is lost, for while the mutex is
  free and threads wait, some other thread is awake on its way to take it.
\<close>

theorem mutex_exclusion_and_progress:
  assumes idle: "sched_idle s" and init: "ksync_mutex_init ev s = (m, s0)"
    and reach: "mutex_step\<^sup>*\<^sup>* (gate_start m s0) g"
  shows "(\<forall>t u. g_pc g t = Inside \<and> g_pc g u = Inside \<longrightarrow> t = u)
     \<and> (\<forall>t. g_pc g t = Inside \<longleftrightarrow> locked (g_res g) \<and> owner_tid (g_res g) = t)
     \<and> (\<not> locked (g_res g) \<and> wait_list (g_sched g) ev \<noteq> [] \<longrightarrow> pending ev g \<noteq> {})
     \<and> (\<forall>t \<in> pending ev g. \<forall>th. threads (g_sched g) t = Some th \<longrightarrow> th_state th \<noteq> THREAD_STATE_BLOCKED
          \<and> (th_state th = THREAD_STATE_READY \<longrightarrow> t \<in> set (enqueued (g_sched g)) \<or> enqueue_owed th))"
proof -
  have m: "m_event m = ev" "\<not> locked m" "sched_idle s0"
    using init idle sched_init_idle by (auto simp: ksync_mutex_init_def)
  have s0: "gate_ok (m_event (g_res (gate_start m s0))) 1 (gate_start m s0) (mutex_avail (g_res (gate_start m s0)))"
    using m gate_start_ok [of s0 ev 1 m] by (simp add: gate_start_def mutex_avail_def)
  have ok: "gate_ok ev 1 g (mutex_avail (g_res g))"
    using mutex_gate.gate_steps_ok [OF reach s0] m by (simp add: gate_start_def)
  have held: "mutex_held g"
    using m(2) by (intro mutex_steps_held [OF reach s0]) (simp add: mutex_held_def gate_start_def)
  then have "\<forall>t u. g_pc g t = Inside \<and> g_pc g u = Inside \<longrightarrow> t = u" by (auto simp: mutex_held_def)
  moreover have "\<not> locked (g_res g) \<and> wait_list (g_sched g) ev \<noteq> [] \<longrightarrow> pending ev g \<noteq> {}"
    using pending_of_permit [OF ok] by (simp add: mutex_avail_def)
  ultimately show ?thesis
    using held pending_awake [OF ok] by (auto simp: mutex_held_def)
qed

lemma demo_runs: "runs demo_sched 2"
  by (simp add: runs_def demo_sched_def new_thread_def)

lemma demo_event_init: "sched_event_init ev demo_sched = demo_sched"
  by (simp add: sched_event_init_def demo_sched_def fun_eq_iff)

definition demo_mutex :: mutex where
  "demo_mutex = \<lparr>m_event = EV_MUTEX 5, owner_tid = 0, locked = False\<rparr>"

definition demo_entered :: "mutex gate" where
  "demo_entered = (gate_start demo_mutex demo_sched)
     \<lparr>g_res := demo_mutex\<lparr>locked := True, owner_tid := 2\<rparr>, g_pc := (\<lambda>_. Idle)(2 := Inside), g_taken := 1\<rparr>"

lemma demo_entered_step: "mutex_step (gate_start demo_mutex demo_sched) demo_entered"
proof -
  let ?g = "gate_start demo_mutex demo_sched"
  have "mutex_step ?g (?g\<lparr>g_res := demo_mutex\<lparr>locked := True, owner_tid := 2\<rparr>, g_pc := (g_pc ?g)(2 := Inside),
          g_taken := g_taken ?g + 1\<rparr>)"
    by (rule gate_step.try_ok)
      (simp_all add: gate_start_def demo_runs ksync_mutex_try_lock_def ksync_mutex_current_owner_tid_def
        demo_mutex_def KSYNC_OK_def)
  then show ?thesis by (simp add: demo_entered_def gate_start_def)
qed

theorem mutex_exclusion_and_progress_witness:
  "\<forall>t. g_pc demo_entered t = Inside \<longleftrightarrow> locked (g_res demo_entered) \<and> owner_tid (g_res demo_entered) = t"
  using mutex_exclusion_and_progress
    [OF demo_sched_idle _ r_into_rtranclp [of mutex_step, OF demo_entered_step], of "EV_MUTEX 5"]
  by (simp add: ksync_mutex_init_def demo_mutex_def demo_event_init)

text \<open>
  C18.  Threads acquire, try and release one semaphore in any interleaving: no permit is created or
  destroyed (permits left plus acquires equal initial permits plus releases), and while threads
  wait, every permit left has a thread of its own awake on its way to take it.
\<close>

theorem semaphore_conservation_and_progress:
  assumes idle: "sched_idle s" and init: "ksync_semaphore_init ev n s = (sem, s0)"
    and reach: "semaphore_step\<^sup>*\<^sup>* (gate_start sem s0) g"
  shows "ksync_semaphore_count (g_res g) + g_taken g = n + g_given g
     \<and> (wait_list (g_sched g) ev \<noteq> [] \<longrightarrow> ksync_semaphore_count (g_res g) \<le> card (pending ev g))
     \<and> (\<forall>t \<in> pending ev g. \<forall>th. threads (g_sched g) t = Some th \<longrightarrow> th_state th \<noteq> THREAD_STATE_BLOCKED
          \<and> (th_state th = THREAD_STATE_READY \<longrightarrow> t \<in> set (enqueued (g_sched g)) \<or> enqueue_owed th))"
proof -
  have m: "sem_event sem = ev" "sem_cnt sem = n" "sched_idle s0"
    using init idle sched_init_idle by (auto simp: ksync_semaphore_init_def)
  have s0: "gate_ok (sem_event (g_res (gate_start sem s0))) n (gate_start sem s0) (sem_cnt (g_res (gate_start sem s0)))"
    using m gate_start_ok [of s0 ev n sem] by (simp add: gate_start_def)
  have ok: "gate_ok ev n g (sem_cnt (g_res g))"
    using semaphore_gate.gate_steps_ok [OF reach s0] m by (simp add: gate_start_def)
  show ?thesis
    using gate_okD(4,5) [OF ok] pending_awake [OF ok] by (auto simp: ksync_semaphore_count_def)
qed

theorem semaphore_conservation_and_progress_witness:
  "\<exists>g. semaphore_step\<^sup>*\<^sup>* (gate_start \<lparr>sem_event = EV_SEMAPHORE 5, sem_cnt = 3\<rparr> demo_sched) g
     \<and> ksync_semaphore_count (g_res g) + g_taken g = 3 + g_given g"
proof -
  let ?g = "gate_start \<lparr>sem_event = EV_SEMAPHORE 5, sem_cnt = 3\<rparr> demo_sched"
  have i: "ksync_semaphore_init (EV_SEMAPHORE 5) 3 demo_sched = (\<lparr>sem_event = EV_SEMAPHORE 5, sem_cnt = 3\<rparr>, demo_sched)"
    by (simp add: ksync_semaphore_init_def demo_event_init)
  have "semaphore_step\<^sup>*\<^sup>* ?g (?g\<lparr>g_pc := (g_pc ?g)(2 := Trying)\<rparr>)"
    by (rule r_into_rtranclp, rule gate_step.call) (simp_all add: gate_start_def demo_runs)
  then show ?thesis
    using semaphore_conservation_and_progress [OF demo_sched_idle i] by blast
qed

subsection \<open>Futex\<close>

text \<open>
  The table holds, per bucket, the physical addresses of the futex words seen so far, newest
  first; a word's event is named by its address.  \<open>region\<close> gives the physical base and size of a
  context's linear memory (\<open>mm_context_region_for_type\<close>), \<open>word\<close> reads physical memory, and
  \<open>alloc\<close> is whether \<open>malloc\<close> returned memory.
\<close>

type_synonym futex_table = "nat \<Rightarrow> nat list"

definition FUTEX_TABLE_SIZE :: nat where "FUTEX_TABLE_SIZE = 16"

definition futex_bucket :: "nat \<Rightarrow> nat" where
  "futex_bucket paddr = (paddr div 4096) mod FUTEX_TABLE_SIZE"

definition futex_init :: futex_table where
  "futex_init = (\<lambda>_. [])"

definition futex_uaddr_to_paddr :: "(nat \<Rightarrow> (nat \<times> nat) option) \<Rightarrow> nat \<Rightarrow> nat \<Rightarrow> nat" where
  "futex_uaddr_to_paddr region uaddr context_id =
     (case region context_id of
        None \<Rightarrow> 0
      | Some (phys_base, len) \<Rightarrow> if uaddr + 4 > len then 0 else add64 phys_base uaddr)"

definition futex_find :: "nat \<Rightarrow> nat \<Rightarrow> futex_table \<Rightarrow> nat option" where
  "futex_find paddr bucket tbl = List.find (\<lambda>p. p = paddr) (tbl bucket)"

definition futex_alloc :: "bool \<Rightarrow> nat \<Rightarrow> nat \<Rightarrow> futex_table \<Rightarrow> sched \<Rightarrow> (futex_table \<times> sched) option" where
  "futex_alloc alloc paddr bucket tbl s =
     (if \<not> alloc then None
      else Some (tbl(bucket := paddr # tbl bucket), sched_event_init (EV_FUTEX paddr) s))"

text \<open>Up to the park; a result means the call returned without waiting.\<close>

definition futex_wait ::
  "nat \<Rightarrow> nat \<Rightarrow> (nat \<Rightarrow> (nat \<times> nat) option) \<Rightarrow> (nat \<Rightarrow> nat) \<Rightarrow> bool \<Rightarrow> nat \<Rightarrow> nat \<Rightarrow> nat \<Rightarrow> nat \<Rightarrow> nat
   \<Rightarrow> futex_table \<Rightarrow> sched \<Rightarrow> int option \<times> futex_table \<times> sched" where
  "futex_wait hz now region word alloc cur uaddr expected timeout_ms context_id tbl s =
     (let paddr = futex_uaddr_to_paddr region uaddr context_id; bucket = futex_bucket paddr in
      if paddr = 0 then (Some IPC_ERR_INVALID, tbl, s)
      else case (case futex_find paddr bucket tbl of
                   Some _ \<Rightarrow> Some (tbl, s)
                 | None \<Rightarrow> futex_alloc alloc paddr bucket tbl s) of
             None \<Rightarrow> (Some IPC_ERR_FULL, tbl, s)
           | Some (tbl', s') \<Rightarrow>
               if word paddr \<noteq> expected then (Some 0, tbl', s')
               else (None, tbl', sched_event_wait hz now cur (EV_FUTEX paddr) timeout_ms s'))"

definition futex_wait_result :: "nat \<Rightarrow> sched \<Rightarrow> int" where
  "futex_wait_result cur s =
     (case threads s cur of
        Some t \<Rightarrow> if pend_state t = SCHED_PEND_TIMEOUT then IPC_ERR_TIMEOUT else 0
      | None \<Rightarrow> 0)"

fun futex_wake_loop :: "nat \<Rightarrow> event_key \<Rightarrow> nat \<Rightarrow> sched \<Rightarrow> nat \<times> sched" where
  "futex_wake_loop 0 ev n_woken s = (n_woken, s)"
| "futex_wake_loop (Suc n) ev n_woken s =
     (case sched_event_wake_one ev 0 SCHED_PEND_OK s of
        (None, s') \<Rightarrow> (n_woken, s')
      | (Some _, s') \<Rightarrow> futex_wake_loop n ev (n_woken + 1) s')"

definition futex_wake ::
  "(nat \<Rightarrow> (nat \<times> nat) option) \<Rightarrow> nat \<Rightarrow> nat \<Rightarrow> nat \<Rightarrow> futex_table \<Rightarrow> sched \<Rightarrow> nat \<times> sched" where
  "futex_wake region uaddr count context_id tbl s =
     (let paddr = futex_uaddr_to_paddr region uaddr context_id; bucket = futex_bucket paddr in
      if paddr = 0 then (0, s)
      else case futex_find paddr bucket tbl of
             None \<Rightarrow> (0, s)
           | Some _ \<Rightarrow> futex_wake_loop count (EV_FUTEX paddr) 0 s)"

text \<open>Words with waiters are in the table.\<close>

definition futex_ok :: "futex_table \<Rightarrow> sched \<Rightarrow> bool" where
  "futex_ok tbl s \<longleftrightarrow>
     sched_inv s \<and> (\<forall>p. wait_list s (EV_FUTEX p) \<noteq> [] \<longrightarrow> p \<in> set (tbl (futex_bucket p)))"

lemma futex_find_iff: "futex_find p b tbl \<noteq> None \<longleftrightarrow> p \<in> set (tbl b)"
  by (auto simp: futex_find_def find_None_iff)

text \<open>The outcome of waking, seen from one thread.\<close>

definition awake_ok :: "sched \<Rightarrow> nat \<Rightarrow> bool" where
  "awake_ok s t \<longleftrightarrow>
     (\<exists>th. threads s t = Some th \<and> th_state th = THREAD_STATE_READY \<and> pend_state th = SCHED_PEND_OK)"

lemma wake_one_step:
  assumes inv: "sched_inv s" and wl: "wait_list s ev = t # ts"
  shows "\<exists>s'. sched_event_wake_one ev data SCHED_PEND_OK s = (Some t, s') \<and> sched_inv s' \<and> wait_list s' = (wait_list s)(ev := ts)
     \<and> awake_ok s' t \<and> (\<forall>u. u \<noteq> t \<longrightarrow> threads s' u = threads s u)"
proof -
  let ?s = "sched_event_detach_wake t data SCHED_PEND_OK s"
  obtain th where th: "threads s t = Some th" "event_node th = Some ev"
    using sched_invD(3) [OF inv, of t ev] wl by (auto simp: linked_def)
  have t0: "t \<noteq> 0" using th sched_invD(1) [OF inv] by (metis option.distinct(1))
  have bl: "th_state th = THREAD_STATE_BLOCKED"
    using sched_invD(4) [OF inv th(1)] th(2) by (simp add: thread_ok_def)
  have nt: "t \<notin> set ts" using sched_invD(2) [OF inv, of ev] wl by simp
  have "wait_list ?s = (wait_list s)(ev := ts)"
    using th wl nt by (auto simp: sched_event_detach_wake_def unlink_def)
  moreover have "awake_ok ?s t"
    using th bl t0 by (simp add: awake_ok_def detach_wake_threads woken_def)
  moreover have "sched_inv ?s" using detach_wake_inv [OF inv th(1)] th(2) by simp
  ultimately show ?thesis
    using wl t0 by (simp add: sched_event_wake_one_def detach_wake_threads)
qed

lemma futex_wake_loop_ok:
  assumes "sched_inv s"
  shows "\<exists>s'. futex_wake_loop n ev w s = (w + min n (length (wait_list s ev)), s') \<and> sched_inv s'
     \<and> wait_list s' = (wait_list s)(ev := drop n (wait_list s ev))
     \<and> (\<forall>t \<in> set (take n (wait_list s ev)). awake_ok s' t)
     \<and> (\<forall>u. u \<notin> set (take n (wait_list s ev)) \<longrightarrow> threads s' u = threads s u)"
  using assms
proof (induction n arbitrary: w s)
  case 0
  then show ?case by simp
next
  case (Suc n)
  show ?case
  proof (cases "wait_list s ev")
    case Nil
    then show ?thesis using Suc.prems by (simp add: sched_event_wake_one_def fun_upd_idem)
  next
    case (Cons t ts)
    have d: "t \<notin> set ts" using sched_invD(2) [OF Suc.prems, of ev] Cons by simp
    obtain s1 where s1: "sched_event_wake_one ev 0 SCHED_PEND_OK s = (Some t, s1)" "sched_inv s1"
      "wait_list s1 = (wait_list s)(ev := ts)" "awake_ok s1 t" "\<forall>u. u \<noteq> t \<longrightarrow> threads s1 u = threads s u"
      using wake_one_step [OF Suc.prems Cons] by blast
    obtain s' where s': "futex_wake_loop n ev (w + 1) s1 = (w + 1 + min n (length ts), s')" "sched_inv s'"
      "wait_list s' = (wait_list s)(ev := drop n ts)" "\<forall>u \<in> set (take n ts). awake_ok s' u"
      "\<forall>u. u \<notin> set (take n ts) \<longrightarrow> threads s' u = threads s1 u"
      using Suc.IH [OF s1(2), of "w + 1"] unfolding s1(3) fun_upd_upd fun_upd_same by blast
    have "t \<notin> set (take n ts)" using d by (auto dest: in_set_takeD)
    then have "awake_ok s' t" using s'(5) s1(4) by (simp add: awake_ok_def)
    then show ?thesis using s1 s' Cons by (simp add: fun_upd_def)
  qed
qed

text \<open>
  C19.  A futex wake through any context whose address resolves to the word wakes the
  \<open>min count waiters\<close> longest-waiting threads parked on that word, whichever context they waited
  through, reports exactly that number, and touches no other thread or event.
\<close>

theorem futex_wake_correct:
  assumes ok: "futex_ok tbl s" and p: "futex_uaddr_to_paddr region uaddr ctx = paddr" "paddr \<noteq> 0"
  shows "\<exists>s'. futex_wake region uaddr count ctx tbl s = (min count (length (wait_list s (EV_FUTEX paddr))), s')
     \<and> futex_ok tbl s'
     \<and> wait_list s' = (wait_list s)(EV_FUTEX paddr := drop count (wait_list s (EV_FUTEX paddr)))
     \<and> (\<forall>t \<in> set (take count (wait_list s (EV_FUTEX paddr))). awake_ok s' t)
     \<and> (\<forall>u. u \<notin> set (take count (wait_list s (EV_FUTEX paddr))) \<longrightarrow> threads s' u = threads s u)"
proof (cases "futex_find paddr (futex_bucket paddr) tbl")
  case None
  then have e: "wait_list s (EV_FUTEX paddr) = []"
    using ok futex_find_iff [of paddr "futex_bucket paddr" tbl] by (auto simp: futex_ok_def)
  then have "(wait_list s)(EV_FUTEX paddr := []) = wait_list s" by (simp add: fun_upd_idem)
  then show ?thesis using None e p ok by (simp add: futex_wake_def)
next
  case (Some a)
  have inv: "sched_inv s" using ok by (simp add: futex_ok_def)
  obtain s' where s': "futex_wake_loop count (EV_FUTEX paddr) 0 s = (min count (length (wait_list s (EV_FUTEX paddr))), s')"
    "sched_inv s'" "wait_list s' = (wait_list s)(EV_FUTEX paddr := drop count (wait_list s (EV_FUTEX paddr)))"
    "\<forall>t \<in> set (take count (wait_list s (EV_FUTEX paddr))). awake_ok s' t"
    "\<forall>u. u \<notin> set (take count (wait_list s (EV_FUTEX paddr))) \<longrightarrow> threads s' u = threads s u"
    using futex_wake_loop_ok [OF inv, of count "EV_FUTEX paddr" 0] by auto
  have "paddr \<in> set (tbl (futex_bucket paddr))"
    using Some futex_find_iff [of paddr "futex_bucket paddr" tbl] by simp
  then have "futex_ok tbl s'" using ok s'(2,3) by (auto simp: futex_ok_def)
  then show ?thesis using s' Some p by (simp add: futex_wake_def)
qed

lemma futex_wait_ok:
  assumes ok: "futex_ok tbl s" and run: "runs s cur"
    and w: "futex_wait hz now region word alloc cur uaddr expected ms ctx tbl s = (r, tbl', s')"
  shows "futex_ok tbl' s'"
proof -
  obtain th where th: "threads s cur = Some th" "th_state th = THREAD_STATE_RUNNING" "\<not> blocking_transition th"
    using run by (auto simp: runs_def)
  have park: "futex_ok tbl (sched_event_wait hz now cur (EV_FUTEX p) ms s)"
    if "futex_ok tbl s" "threads s cur = Some th" "p \<in> set (tbl (futex_bucket p))" for tbl s p
  proof -
    note pre = that
    have inv: "sched_inv s" using pre(1) by (simp add: futex_ok_def)
    let ?s = "wait_arm hz now cur ms s"
    obtain t' where t': "threads ?s cur = Some t'" "th_state t' = THREAD_STATE_RUNNING" "event_node t' = None"
      using pre(2) th(2) sched_invD(4) [OF inv pre(2)]
      by (cases "0 < ms") (auto simp: wait_arm_threads thread_ok_def)
    have "wait_list ?s = wait_list s"
      by (simp add: wait_arm_def sched_timeout_arm_def Let_def timeout_arm_lower_def timeout_arm_bump_def
          timeout_arm_store_def)
    then have "wait_list (sched_event_wait hz now cur (EV_FUTEX p) ms s)
               = (wait_list s)(EV_FUTEX p := wait_list s (EV_FUTEX p) @ [cur])"
      using wait_park_fields(1) [OF t'(1,2)] t' pre(2) by (simp add: sched_event_wait_def unlink_def)
    then show ?thesis
      using pre event_wait_inv [OF inv pre(2) th(2,3)] by (auto simp: futex_ok_def)
  qed
  have init: "futex_ok (tbl(b := p # tbl b)) (sched_event_init (EV_FUTEX p) s)"
    if "p \<notin> set (tbl b)" "b = futex_bucket p" for p b
  proof -
    have e: "wait_list s (EV_FUTEX p) = []" using that ok by (auto simp: futex_ok_def)
    then have "sched_event_init (EV_FUTEX p) s = s" by (simp add: sched_event_init_def fun_upd_idem)
    then show ?thesis using ok by (auto simp: futex_ok_def)
  qed
  have init_th: "threads (sched_event_init ev s) cur = Some th" for ev
    using th(1) by (simp add: sched_event_init_def)
  show ?thesis
    using w ok th(1) init_th futex_find_iff [of "futex_uaddr_to_paddr region uaddr ctx" "futex_bucket (futex_uaddr_to_paddr region uaddr ctx)" tbl]
    by (auto simp: futex_wait_def futex_alloc_def Let_def split: if_splits option.splits intro!: park init)
qed

lemma demo_futex_ok: "futex_ok (futex_init(1 := [4096])) (sched_event_wait 100 50 2 (EV_FUTEX 4096) 0 demo_sched)"
proof -
  have "futex_ok (futex_init(1 := [4096])) demo_sched"
    using sched_idle_inv [OF demo_sched_idle] by (simp add: futex_ok_def demo_sched_def)
  moreover have "futex_wait 100 50 [7 \<mapsto> (4096, 64)] (\<lambda>_. 5) True 2 0 5 0 7 (futex_init(1 := [4096])) demo_sched
      = (None, futex_init(1 := [4096]), sched_event_wait 100 50 2 (EV_FUTEX 4096) 0 demo_sched)"
    by (simp add: futex_wait_def futex_uaddr_to_paddr_def futex_bucket_def FUTEX_TABLE_SIZE_def futex_find_def
        add64_def)
  ultimately show ?thesis by (rule futex_wait_ok [OF _ demo_runs])
qed

theorem futex_wake_correct_witness:
  "\<exists>s'. futex_wake [9 \<mapsto> (0, 8192)] 4096 3 9 (futex_init(1 := [4096]))
          (sched_event_wait 100 50 2 (EV_FUTEX 4096) 0 demo_sched) = (1, s') \<and> awake_ok s' 2"
proof -
  have w: "wait_list (sched_event_wait 100 50 2 (EV_FUTEX 4096) 0 demo_sched) (EV_FUTEX 4096) = [2]"
    by (simp add: sched_event_wait_def demo_sched_def wait_arm_def wait_park_def unlink_def thread_set_state_def
        new_thread_def Let_def)
  show ?thesis
    using futex_wake_correct [OF demo_futex_ok, of "[9 \<mapsto> (0, 8192)]" 4096 9 4096 3]
    by (auto simp: w futex_uaddr_to_paddr_def add64_def)
qed

end
