(* ===== verification/Objects.thy ===== *)
theory Objects
  imports Idtable
begin

section \<open>Object tables as maps from ids\<close>

text \<open>
  What a client of an id table relies on.  A client looks an object up by id, works on it through
  the pointer it gets back and never sees the store; \<open>idtable_put\<close> is such a write to the
  client's part of an element.  The locale states the contract over the map \<open>obj\<close> from ids to
  elements, and the id table of \<open>src/kernel/idtable.c\<close> is an instance of it.
\<close>

definition obj :: "'p idtable \<Rightarrow> nat \<Rightarrow> 'p id_elem option" where
  "obj t i = map_option snd (idtable_get t i)"

definition idtable_put :: "nat \<Rightarrow> 'p \<Rightarrow> 'p idtable \<Rightarrow> 'p idtable" where
  "idtable_put i b t =
     (case idtable_get t i of
        None \<Rightarrow> t
      | Some (p, e) \<Rightarrow> t\<lparr>store := list_write p (e\<lparr>body := b\<rparr>) (store t)\<rparr>)"

text \<open>The element a pointer returned by \<open>idtable_alloc\<close> points to.\<close>

definition idtable_at :: "'p idtable \<Rightarrow> nat \<Rightarrow> 'p id_elem option" where
  "idtable_at t p = map_option snd (List.find (\<lambda>pe. fst pe = p) (list_view (store t)))"

lemma obj_iff:
  assumes "idtable_ok t"
  shows "obj t i = Some e \<longleftrightarrow> e \<in> set (elems t) \<and> h_id (header e) = i"
proof -
  have "obj t i = Some e \<longleftrightarrow> (\<exists>p. idtable_get t i = Some (p, e))"
    by (auto simp: obj_def)
  then show ?thesis by (auto simp: idtable_get_iff [OF assms] elems_def image_iff Bex_def)
qed

lemma obj_header: "idtable_ok t \<Longrightarrow> obj t i = Some e \<Longrightarrow> h_id (header e) = i \<and> h_in_use (header e) \<and> valid_id i"
  by (auto simp: obj_iff) (auto simp: idtable_ok_def list_all_iff live_ids_def valid_id_def)

lemma idtable_put_ok:
  assumes ok: "idtable_ok t"
  shows "idtable_ok (idtable_put i b t) \<and> per_owner_max (idtable_put i b t) = per_owner_max t
    \<and> length (elems (idtable_put i b t)) = length (elems t)
    \<and> obj (idtable_put i b t) = (obj t)(i := map_option (\<lambda>e. e\<lparr>body := b\<rparr>) (obj t i))"
proof (cases "idtable_get t i")
  case None
  then have "obj t i = None" by (simp add: obj_def)
  then show ?thesis using ok None by (simp add: idtable_put_def fun_upd_idem)
next
  case (Some pe)
  obtain p e where pe: "pe = (p, e)" by force
  have m: "(p, e) \<in> set (list_view (store t))" "h_id (header e) = i"
    using Some idtable_get_iff [OF ok, of i p e] pe by simp_all
  let ?e = "e\<lparr>body := b\<rparr>" and ?t = "idtable_put i b t"
  have t: "?t = t\<lparr>store := list_write p ?e (store t)\<rparr>" using Some pe by (simp add: idtable_put_def)
  have lok: "list_ok (store t)" using ok by (simp add: idtable_ok_def)
  obtain as bs where v: "list_view (store t) = as @ (p, e) # bs" "list_view (store ?t) = as @ (p, ?e) # bs"
    using list_store.put_split [OF lok m(1), of ?e] t by auto
  have el: "elems t = map snd as @ e # map snd bs" "elems ?t = map snd as @ ?e # map snd bs"
    by (simp_all add: elems_def v)
  have ids: "live_ids ?t = live_ids t" by (simp add: live_ids_def el)
  have f: "next_id ?t = next_id t" "id_wrapped ?t = id_wrapped t" "list_ok (store ?t)"
    using list_store.put_ok [OF lok] by (simp_all add: t)
  have ok': "idtable_ok ?t"
    using ok f(3) unfolding idtable_ok_def f(1,2) ids el by simp
  have "obj ?t j = ((obj t)(i := Some ?e)) j" for j
  proof (cases "j = i")
    case True
    then show ?thesis using obj_iff [OF ok', of i ?e] m(2) el by simp
  next
    case False
    have "obj ?t j = Some x \<longleftrightarrow> obj t j = Some x" for x
      using False m(2) by (auto simp: obj_iff [OF ok'] obj_iff [OF ok] el)
    then show ?thesis using False by (metis fun_upd_other not_None_eq)
  qed
  moreover have "obj t i = Some e" using Some pe by (simp add: obj_def)
  ultimately show ?thesis using ok' el t by (auto simp: fun_eq_iff)
qed

lemma idtable_alloc_obj:
  assumes "idtable_ok t" and "fresh_for (store t) mem" and "length (elems t) < IDTABLE_ID_NONE - 2"
  shows "\<exists>st r t'. idtable_alloc mem z owner t = Some (st, r, t') \<and> idtable_ok t'
    \<and> per_owner_max t' = per_owner_max t
    \<and> (case r of
         None \<Rightarrow> st = WASMOS_FULL \<and> obj t' = obj t
       | Some p \<Rightarrow> st = WASMOS_OK \<and> (\<exists>i. obj t i = None \<and> valid_id i
           \<and> obj t' = (obj t)(i \<mapsto> new_elem i owner z)
           \<and> idtable_at t' p = Some (new_elem i owner z)))"
proof -
  obtain st r t' where a: "idtable_alloc mem z owner t = Some (st, r, t')" "idtable_ok t'"
    "per_owner_max t' = per_owner_max t"
    "case r of
         None \<Rightarrow> st = WASMOS_FULL \<and> list_view (store t') = list_view (store t)
       | Some p \<Rightarrow> st = WASMOS_OK \<and> p \<notin> fst ` set (list_view (store t))
           \<and> (per_owner_max t \<noteq> 0 \<longrightarrow> length (owned t owner) < per_owner_max t)
           \<and> (\<exists>i. valid_id i \<and> i \<notin> set (live_ids t)
               \<and> inserted (p, new_elem i owner z) (list_view (store t)) (list_view (store t')))"
    using idtable_alloc_ok [OF assms, of z owner] by blast
  show ?thesis
  proof (cases r)
    case None
    then have "obj t' = obj t" using a(4) by (simp add: obj_def idtable_get_def fun_eq_iff)
    then show ?thesis using a None by simp
  next
    case (Some p)
    then obtain i where i: "valid_id i" "i \<notin> set (live_ids t)" "p \<notin> fst ` set (list_view (store t))"
      "inserted (p, new_elem i owner z) (list_view (store t)) (list_view (store t'))"
      using a(4) by auto
    have el: "set (elems t') = insert (new_elem i owner z) (set (elems t))"
      using inserted_set [OF i(4)] by (simp add: elems_def)
    have n: "obj t i = None"
    proof (rule ccontr)
      assume "obj t i \<noteq> None"
      then obtain e where "e \<in> set (elems t)" "h_id (header e) = i" using obj_iff [OF assms(1)] by auto
      then show False using i(2) by (auto simp: live_ids_def)
    qed
    have hd: "h_id (header (new_elem i owner z)) = i" by (simp add: new_elem_def)
    have "obj t' j = ((obj t)(i \<mapsto> new_elem i owner z)) j" for j
    proof (cases "j = i")
      case True
      then show ?thesis using obj_iff [OF a(2), of i "new_elem i owner z"] el hd by simp
    next
      case False
      have "obj t' j = Some x \<longleftrightarrow> obj t j = Some x" for x
        using False hd by (auto simp: obj_iff [OF a(2)] obj_iff [OF assms(1)] el)
      then show ?thesis using False by (metis fun_upd_other not_None_eq)
    qed
    moreover have "idtable_at t' p = Some (new_elem i owner z)"
    proof -
      obtain xs ys where v: "list_view (store t) = xs @ ys" "list_view (store t') = xs @ (p, new_elem i owner z) # ys"
        using i(4) by (auto simp: inserted_def)
      have "filter (\<lambda>pe. fst pe = p) xs = []" using i(3) v(1) by (auto simp: filter_empty_conv)
      then show ?thesis by (simp add: idtable_at_def find_filter v(2))
    qed
    ultimately show ?thesis using a Some n i(1) by (auto simp: fun_eq_iff)
  qed
qed

lemma idtable_free_obj:
  assumes ok: "idtable_ok t"
  shows "idtable_ok (snd (idtable_free t i)) \<and> per_owner_max (snd (idtable_free t i)) = per_owner_max t
    \<and> obj (snd (idtable_free t i)) = (obj t)(i := None)"
proof (cases "idtable_get t i")
  case None
  then show ?thesis using ok by (simp add: idtable_free_def obj_def fun_upd_idem)
next
  case (Some pe)
  obtain p e where pe: "pe = (p, e)" by force
  have m: "(p, e) \<in> set (list_view (store t))" "h_id (header e) = i"
    using Some idtable_get_iff [OF ok, of i p e] pe by simp_all
  let ?t = "drop_elem p e t"
  have d: "idtable_ok ?t" "inserted e (elems ?t) (elems t)" "inserted i (live_ids ?t) (live_ids t)"
    using drop_elem_ok [OF ok m(1)] m(2) by auto
  have ni: "i \<notin> set (live_ids ?t)"
    using ok inserted_distinct [OF d(3)] by (simp add: idtable_ok_def)
  have "obj ?t j = ((obj t)(i := None)) j" for j
  proof (cases "j = i")
    case True
    have "obj ?t i \<noteq> Some x" for x
      using ni obj_iff [OF d(1), of i x] by (auto simp: live_ids_def)
    then show ?thesis using True by (metis fun_upd_same not_None_eq)
  next
    case False
    have "obj ?t j = Some x \<longleftrightarrow> obj t j = Some x" for x
      using False m(2) inserted_set [OF d(2)] by (auto simp: obj_iff [OF d(1)] obj_iff [OF ok])
    then show ?thesis using False by (metis fun_upd_other not_None_eq)
  qed
  then show ?thesis using Some pe d(1) by (simp add: idtable_free_def fun_eq_iff)
qed

text \<open>Releasing an owner keeps the objects of the others; the callbacks run over the owner's objects.\<close>

definition not_of :: "nat \<Rightarrow> 'p id_elem option \<Rightarrow> 'p id_elem option" where
  "not_of owner x = (case x of Some e \<Rightarrow> if h_owner (header e) = owner then None else Some e | None \<Rightarrow> None)"

lemma elems_bound:
  assumes "idtable_ok t"
  shows "length (elems t) < 2 ^ 32"
proof -
  have "set (live_ids t) \<subseteq> {0..<IDTABLE_ID_NONE}" "distinct (live_ids t)" using assms by (auto simp: idtable_ok_def)
  then have "length (live_ids t) \<le> IDTABLE_ID_NONE"
    using card_mono [of "{0..<IDTABLE_ID_NONE}" "set (live_ids t)"] by (simp add: distinct_card)
  then show ?thesis by (simp add: live_ids_def IDTABLE_ID_NONE_def)
qed

lemma idtable_release_obj:
  assumes ok: "idtable_ok t"
  shows "\<exists>n t'. idtable_release_owner cb owner u t = Some (n, fold cb (owned t owner) u, t') \<and> idtable_ok t'
    \<and> per_owner_max t' = per_owner_max t \<and> length (elems t') \<le> length (elems t)
    \<and> obj t' = not_of owner \<circ> obj t"
proof -
  have "length (owned t owner) < 2 ^ 32"
    using elems_bound [OF ok] le_less_trans [OF length_filter_le [of "elem_of owner" "elems t"]] by (simp only: owned_def)
  then obtain t' where t': "idtable_release_owner cb owner u t = Some (length (owned t owner), fold cb (owned t owner) u, t')"
    "idtable_ok t'" "per_owner_max t' = per_owner_max t" "elems t' = filter (\<lambda>e. \<not> elem_of owner e) (elems t)"
    using release_loop_ok [OF ok, of 0 owner cb u] by (auto simp: idtable_release_owner_def)
  have "obj t' i = (not_of owner \<circ> obj t) i" for i
  proof -
    have use: "elem_of owner e \<longleftrightarrow> h_owner (header e) = owner" if "e \<in> set (elems t)" for e
      using ok that by (auto simp: idtable_ok_def list_all_iff elem_of_def)
    have "obj t' i = Some x \<longleftrightarrow> obj t i = Some x \<and> h_owner (header x) \<noteq> owner" for x
      using use by (auto simp: obj_iff [OF t'(2)] obj_iff [OF ok] t'(4))
    then have "obj t' i = Some x \<longleftrightarrow> not_of owner (obj t i) = Some x" for x
      by (auto simp: not_of_def split: option.split)
    then show ?thesis by (metis comp_apply not_None_eq)
  qed
  then show ?thesis using t' by (auto simp: fun_eq_iff)
qed

lemma owned_obj:
  assumes "idtable_ok t"
  shows "set (owned t owner) = {e. \<exists>i. obj t i = Some e \<and> h_owner (header e) = owner}"
proof -
  have "e \<in> set (owned t owner) \<longleftrightarrow> (\<exists>i. obj t i = Some e \<and> h_owner (header e) = owner)" for e
    using assms by (auto simp: owned_def obj_iff elem_of_def idtable_ok_def list_all_iff)
  then show ?thesis by blast
qed

lemma owned_distinct_ids:
  assumes "idtable_ok t"
  shows "distinct (map (\<lambda>e. h_id (header e)) (owned t owner))"
  using assms distinct_map_filter [of "\<lambda>e. h_id (header e)" "elems t" "elem_of owner"]
  by (simp add: idtable_ok_def live_ids_def owned_def)

subsection \<open>A table of given objects\<close>

text \<open>A table whose store is one full chunk, for the examples: the objects have ids 1, 2, ... in order.\<close>

definition table_of :: "'p id_elem list \<Rightarrow> 'p idtable" where
  "table_of es = \<lparr>store = \<lparr>elem_size = 64, list_kind = LIST_IMPL_ARRAY_CHUNK, config_value = length es,
       list_state = Some (Array_state (length es) [\<lparr>ch_addr = 4096, ch_slots = map Some es\<rparr>])\<rparr>,
     next_id = Suc (length es), id_wrapped = False, per_owner_max = 64, t_elem_size = 64\<rparr>"

lemma table_of_elems: "elems (table_of es) = es"
proof -
  have "elems (table_of es) = map (\<lambda>i. es ! i) [0..<length es]"
    by (simp add: table_of_def elems_def list_view_def chunk_view_def comp_def cong: map_cong)
  then show ?thesis by (simp add: map_nth)
qed

lemma table_of_ok:
  assumes "map (\<lambda>e. h_id (header e)) es = [1..<Suc (length es)]" "\<forall>e \<in> set es. h_in_use (header e)"
    "length es < IDTABLE_ID_NONE - 2"
  shows "idtable_ok (table_of es)"
proof -
  have "live_ids (table_of es) = [1..<Suc (length es)]"
    using assms(1) by (simp add: live_ids_def table_of_elems del: upt_Suc)
  moreover have "list_ok (store (table_of es))" "next_id (table_of es) = Suc (length es)" "\<not> id_wrapped (table_of es)"
    by (simp_all add: table_of_def list_ok_def list_blocks_def)
  ultimately show ?thesis
    using assms(2,3) by (auto simp: idtable_ok_def table_of_elems list_all_iff)
qed

lemma obj_table_of:
  assumes "idtable_ok (table_of es)"
  shows "obj (table_of es) i = List.find (\<lambda>e. h_id (header e) = i) es"
proof (cases "List.find (\<lambda>e. h_id (header e) = i) es")
  case None
  then have "obj (table_of es) i = None"
    using obj_iff [OF assms, of i] by (cases "obj (table_of es) i") (auto simp: table_of_elems find_None_iff)
  then show ?thesis using None by simp
next
  case (Some e)
  then have "e \<in> set es \<and> h_id (header e) = i" by (auto simp: find_Some_iff)
  then show ?thesis using Some obj_iff [OF assms, of i e] by (simp add: table_of_elems)
qed

subsection \<open>The contract\<close>

locale object_table =
  fixes ok :: "'t \<Rightarrow> bool"
    and get :: "'t \<Rightarrow> nat \<Rightarrow> 'e option"
    and put :: "nat \<Rightarrow> 'b \<Rightarrow> 't \<Rightarrow> 't"
    and filled :: "'e \<Rightarrow> 'b \<Rightarrow> 'e"
    and free :: "'t \<Rightarrow> nat \<Rightarrow> 't"
  assumes put_ok: "ok t \<Longrightarrow> ok (put i b t)"
    and get_put: "ok t \<Longrightarrow> get (put i b t) j = (if j = i then map_option (\<lambda>e. filled e b) (get t i) else get t j)"
    and free_ok: "ok t \<Longrightarrow> ok (free t i)"
    and get_free: "ok t \<Longrightarrow> get (free t i) j = (if j = i then None else get t j)"
begin

definition all :: "'t \<Rightarrow> (nat \<Rightarrow> 'e \<Rightarrow> bool) \<Rightarrow> bool" where
  "all t P \<longleftrightarrow> (\<forall>i e. get t i = Some e \<longrightarrow> P i e)"

lemma allD: "all t P \<Longrightarrow> get t i = Some e \<Longrightarrow> P i e"
  by (simp add: all_def)

text \<open>Rewriting one object keeps a property of all objects if the new body has it.\<close>

lemma all_put:
  "\<lbrakk>ok t; all t P; \<And>e. get t i = Some e \<Longrightarrow> P i (filled e b)\<rbrakk> \<Longrightarrow> all (put i b t) P"
  by (auto simp: all_def get_put split: if_splits)

lemma all_free: "\<lbrakk>ok t; all t P\<rbrakk> \<Longrightarrow> all (free t i) P"
  by (auto simp: all_def get_free)

lemma get_put_fold:
  assumes "ok t"
  shows "ok (fold (\<lambda>i t. put i (f i t) t) js t)
    \<and> (j \<notin> set js \<longrightarrow> get (fold (\<lambda>i t. put i (f i t) t) js t) j = get t j)"
  using assms by (induction js arbitrary: t) (auto simp: put_ok get_put)

end

interpretation tables: object_table idtable_ok obj idtable_put "\<lambda>e b. e\<lparr>body := b\<rparr>" "\<lambda>t i. snd (idtable_free t i)"
  by unfold_locales (auto simp: idtable_put_ok idtable_free_obj)

end
