(* ===== verification/Poll.thy ===== *)
theory Poll
  imports Prelude
begin

section \<open>Poll hubs\<close>

text \<open>
  Model of \<open>src/kernel/poll.c\<close>: the lists of select sets watching one endpoint, one list per
  event kind, newest registration first.  A watched set is named by its id; the hub only borrows
  it.  \<open>alloc\<close> is whether \<open>malloc\<close> returned memory; \<open>poll_notify\<close> is given the signal function
  (\<open>ipc_select_signal\<close>) and threads the state it works on.  The event kind is an enumeration, so
  the range checks on it have no counterpart.
\<close>

datatype poll_ev = POLL_EV_IN | POLL_EV_OUT | POLL_EV_CLOSE | POLL_EV_KERNEL

record poll_watcher =
  w_sel :: nat
  w_user_data :: nat

type_synonym poll_struct = "poll_ev \<Rightarrow> poll_watcher list"

definition poll_struct_alloc :: "bool \<Rightarrow> poll_struct option" where
  "poll_struct_alloc alloc = (if alloc then Some (\<lambda>_. []) else None)"

definition poll_struct_add :: "bool \<Rightarrow> poll_ev \<Rightarrow> nat \<Rightarrow> nat \<Rightarrow> poll_struct \<Rightarrow> int \<times> poll_struct" where
  "poll_struct_add alloc ev sel user_data ps =
     (if \<not> alloc then (-1, ps)
      else (0, ps(ev := \<lparr>w_sel = sel, w_user_data = user_data\<rparr> # ps ev)))"

definition poll_struct_remove :: "nat \<Rightarrow> poll_struct \<Rightarrow> poll_struct" where
  "poll_struct_remove sel ps = (\<lambda>ev. filter (\<lambda>w. w_sel w \<noteq> sel) (ps ev))"

definition poll_notify :: "(nat \<Rightarrow> nat \<Rightarrow> 's \<Rightarrow> 's) \<Rightarrow> poll_struct option \<Rightarrow> poll_ev \<Rightarrow> nat \<Rightarrow> 's \<Rightarrow> 's" where
  "poll_notify signal ps ev ep_id s =
     (case ps of
        None \<Rightarrow> s
      | Some hub \<Rightarrow> fold (\<lambda>w s. signal (w_sel w) ep_id s) (hub ev) s)"

text \<open>The sets registered on a hub, for any event.\<close>

definition watching :: "poll_struct option \<Rightarrow> nat set" where
  "watching ps =
     (case ps of
        None \<Rightarrow> {}
      | Some hub \<Rightarrow> w_sel ` (set (hub POLL_EV_IN) \<union> set (hub POLL_EV_OUT) \<union> set (hub POLL_EV_CLOSE)
                          \<union> set (hub POLL_EV_KERNEL)))"

lemma watching_add:
  "watching (Some (snd (poll_struct_add True ev sel ud hub))) = insert sel (watching (Some hub))"
  by (cases ev) (auto simp: watching_def poll_struct_add_def)

lemma watching_remove: "watching (Some (poll_struct_remove sel hub)) = watching (Some hub) - {sel}"
  by (auto simp: watching_def poll_struct_remove_def)

lemma watching_alloc [simp]: "watching (Some (\<lambda>_. [])) = {}" "watching None = {}"
  by (simp_all add: watching_def)

lemma notify_fold:
  "poll_notify signal (Some hub) ev ep s = fold (\<lambda>sel s. signal sel ep s) (map w_sel (hub ev)) s"
  by (simp add: poll_notify_def fold_map comp_def)

end
