(* ===== verification/Ipc_queue.thy ===== *)
theory Ipc_queue
  imports Poll
begin

section \<open>Endpoint queues\<close>

text \<open>
  The data of one endpoint of \<open>src/kernel/ipc.c\<close> and the operations on its message ring: a ring of
  33 slots of which ordinary sends fill 32, and the list of hangups that found the ring full.
  The element header (id, owner) belongs to the id table; the lock and the embedded event have no
  counterpart here, because every critical section is one step and events are named by endpoint.
\<close>

definition IPC_QUEUE_DEPTH :: nat where "IPC_QUEUE_DEPTH = 32"
definition IPC_QUEUE_SLOTS :: nat where "IPC_QUEUE_SLOTS = IPC_QUEUE_DEPTH + 1"
definition IPC_ENDPOINT_CONTACTS_MAX :: nat where "IPC_ENDPOINT_CONTACTS_MAX = 8"
definition IPC_ENDPOINT_NONE :: nat where "IPC_ENDPOINT_NONE = 0xFFFFFFFF"
definition IPC_CONTEXT_KERNEL :: nat where "IPC_CONTEXT_KERNEL = 0"
definition WASMOS_IPC_HANGUP :: nat where "WASMOS_IPC_HANGUP = 0xFF03"

datatype ipc_endpoint_type = IPC_ENDPOINT_TYPE_MESSAGE | IPC_ENDPOINT_TYPE_NOTIFICATION

record ipc_message =
  msg_type :: nat
  source :: nat
  destination :: nat
  request_id :: nat
  arg0 :: nat
  arg1 :: nat
  arg2 :: nat
  arg3 :: nat

record ipc_hangup =
  hg_destination :: nat
  dead_endpoint :: nat
  hg_owner :: nat

record ipc_endpoint =
  ep_type :: ipc_endpoint_type
  queue :: "ipc_message list"
  head :: nat
  tail :: nat
  count :: nat
  notify_count :: nat
  refused_count :: nat
  last_refused_type :: nat
  last_refused_request_id :: nat
  last_refused_source :: nat
  poll_hub :: "poll_struct option"
  contacts :: "ipc_hangup list"
  contact_count :: nat
  contacts_overflowed :: bool
  pending_hangups :: "ipc_hangup list"

definition zero_message :: ipc_message where
  "zero_message =
     \<lparr>msg_type = 0, source = 0, destination = 0, request_id = 0, arg0 = 0, arg1 = 0, arg2 = 0, arg3 = 0\<rparr>"

definition zero_endpoint :: ipc_endpoint where
  "zero_endpoint =
     \<lparr>ep_type = IPC_ENDPOINT_TYPE_MESSAGE, queue = replicate IPC_QUEUE_SLOTS zero_message, head = 0, tail = 0,
      count = 0, notify_count = 0, refused_count = 0, last_refused_type = 0, last_refused_request_id = 0,
      last_refused_source = 0, poll_hub = None, contacts = [], contact_count = 0, contacts_overflowed = False,
      pending_hangups = []\<rparr>"

text \<open>The ring part of \<open>ipc_endpoint_enqueue_locked\<close> and \<open>ipc_endpoint_dequeue_locked\<close>.\<close>

definition ring_put :: "nat \<Rightarrow> ipc_message \<Rightarrow> ipc_endpoint \<Rightarrow> ipc_endpoint" where
  "ring_put i msg ep =
     ep\<lparr>queue := (queue ep)[tail ep := msg\<lparr>destination := i\<rparr>],
        tail := (tail ep + 1) mod IPC_QUEUE_SLOTS,
        count := count ep + 1\<rparr>"

definition ring_take :: "ipc_endpoint \<Rightarrow> ipc_message \<times> ipc_endpoint" where
  "ring_take ep =
     (queue ep ! head ep,
      ep\<lparr>head := (head ep + 1) mod IPC_QUEUE_SLOTS, count := count ep - 1\<rparr>)"

definition ipc_hangup_message :: "ipc_hangup \<Rightarrow> ipc_message" where
  "ipc_hangup_message r =
     \<lparr>msg_type = WASMOS_IPC_HANGUP, source = IPC_ENDPOINT_NONE, destination = hg_destination r, request_id = 0,
      arg0 = dead_endpoint r, arg1 = hg_owner r, arg2 = 0, arg3 = 0\<rparr>"

definition ipc_endpoint_has_contact :: "ipc_endpoint \<Rightarrow> nat \<Rightarrow> bool" where
  "ipc_endpoint_has_contact ep dst = list_ex (\<lambda>h. hg_destination h = dst) (contacts ep)"

subsection \<open>A queue as the sequence of its messages\<close>

definition ep_msgs :: "ipc_endpoint \<Rightarrow> ipc_message list" where
  "ep_msgs ep = map (\<lambda>k. queue ep ! ((head ep + k) mod IPC_QUEUE_SLOTS)) [0..<count ep]"

definition ring_ok :: "ipc_endpoint \<Rightarrow> bool" where
  "ring_ok ep \<longleftrightarrow>
     length (queue ep) = IPC_QUEUE_SLOTS \<and> head ep < IPC_QUEUE_SLOTS \<and> count ep \<le> IPC_QUEUE_SLOTS
     \<and> tail ep = (head ep + count ep) mod IPC_QUEUE_SLOTS"

text \<open>A bounded first-in first-out queue, and what follows for a burst of messages.\<close>

locale bounded_fifo =
  fixes ok :: "'q \<Rightarrow> bool"
    and items :: "'q \<Rightarrow> 'm list"
    and put :: "'m \<Rightarrow> 'q \<Rightarrow> 'q"
    and take_one :: "'q \<Rightarrow> 'm \<times> 'q"
    and room :: nat
  assumes put_ok: "\<lbrakk>ok q; length (items q) < room\<rbrakk> \<Longrightarrow> ok (put m q)"
    and items_put: "\<lbrakk>ok q; length (items q) < room\<rbrakk> \<Longrightarrow> items (put m q) = items q @ [m]"
    and take_ok: "\<lbrakk>ok q; items q \<noteq> []\<rbrakk> \<Longrightarrow> ok (snd (take_one q))"
    and items_take: "\<lbrakk>ok q; items q \<noteq> []\<rbrakk> \<Longrightarrow> items q = fst (take_one q) # items (snd (take_one q))"
begin

primrec takes :: "nat \<Rightarrow> 'q \<Rightarrow> 'm list \<times> 'q" where
  "takes 0 q = ([], q)"
| "takes (Suc n) q = (let (m, q') = take_one q; (ms, q'') = takes n q' in (m # ms, q''))"

lemma put_all:
  "\<lbrakk>ok q; length (items q) + length ms \<le> room\<rbrakk>
   \<Longrightarrow> ok (fold put ms q) \<and> items (fold put ms q) = items q @ ms"
  by (induction ms arbitrary: q) (auto simp: put_ok items_put)

lemma takes_prefix:
  "\<lbrakk>ok q; n \<le> length (items q)\<rbrakk>
   \<Longrightarrow> fst (takes n q) = take n (items q) \<and> items (snd (takes n q)) = drop n (items q) \<and> ok (snd (takes n q))"
proof (induction n arbitrary: q)
  case (Suc n)
  have ne: "items q \<noteq> []" using Suc.prems(2) by auto
  obtain m q' where t: "take_one q = (m, q')" by force
  have q': "ok q'" "items q = m # items q'"
    using take_ok [OF Suc.prems(1) ne] items_take [OF Suc.prems(1) ne] t by simp_all
  then show ?case using Suc.IH [of q'] Suc.prems(2) t by (simp add: case_prod_unfold)
qed simp

text \<open>A burst sent into an empty queue comes out complete and in order.\<close>

lemma burst:
  "\<lbrakk>ok q; items q = []; length ms \<le> room\<rbrakk>
   \<Longrightarrow> fst (takes (length ms) (fold put ms q)) = ms \<and> items (snd (takes (length ms) (fold put ms q))) = []"
  using put_all [of q ms] takes_prefix [of "fold put ms q" "length ms"] by simp

end

lemma ep_msgs_length [simp]: "length (ep_msgs ep) = count ep"
  by (simp add: ep_msgs_def)

lemma ring_put_msgs:
  assumes ok: "ring_ok ep" and room: "count ep < IPC_QUEUE_SLOTS"
  shows "ring_ok (ring_put i msg ep)" and "ep_msgs (ring_put i msg ep) = ep_msgs ep @ [msg\<lparr>destination := i\<rparr>]"
proof -
  let ?N = "IPC_QUEUE_SLOTS" and ?m = "msg\<lparr>destination := i\<rparr>" and ?ep = "ring_put i msg ep"
  have t: "tail ep = (head ep + count ep) mod ?N" "tail ep < ?N" "length (queue ep) = ?N"
    using ok by (simp_all add: ring_ok_def IPC_QUEUE_SLOTS_def)
  show "ring_ok ?ep"
    using ok room t by (simp add: ring_ok_def ring_put_def mod_simps add.assoc)
  have keep: "(queue ep)[tail ep := ?m] ! ((head ep + k) mod ?N) = queue ep ! ((head ep + k) mod ?N)"
    if k: "k < count ep" for k
  proof -
    have "\<not> ?N dvd (head ep + count ep) - (head ep + k)"
      using k room by (simp add: nat_dvd_not_less)
    then have "(head ep + count ep) mod ?N \<noteq> (head ep + k) mod ?N"
      using k by (simp add: mod_eq_dvd_iff_nat)
    then show ?thesis using t(1) by simp
  qed
  have new: "(queue ep)[tail ep := ?m] ! ((head ep + count ep) mod ?N) = ?m"
    using t by (metis nth_list_update_eq)
  show "ep_msgs ?ep = ep_msgs ep @ [?m]"
    using keep new by (simp add: ep_msgs_def ring_put_def)
qed

lemma ring_take_msgs:
  assumes ok: "ring_ok ep" and ne: "count ep \<noteq> 0"
  shows "ring_ok (snd (ring_take ep))" and "ep_msgs ep = fst (ring_take ep) # ep_msgs (snd (ring_take ep))"
proof -
  let ?N = "IPC_QUEUE_SLOTS"
  obtain c where c: "count ep = Suc c" using ne by (cases "count ep") auto
  show "ring_ok (snd (ring_take ep))"
    using ok c by (simp add: ring_ok_def ring_take_def mod_simps IPC_QUEUE_SLOTS_def)
  have "(head ep + Suc k) mod ?N = ((head ep + 1) mod ?N + k) mod ?N" for k by (simp add: mod_simps)
  moreover have "head ep mod ?N = head ep" using ok by (simp add: ring_ok_def)
  ultimately show "ep_msgs ep = fst (ring_take ep) # ep_msgs (snd (ring_take ep))"
    by (simp add: ep_msgs_def ring_take_def c map_upt_Suc del: upt_Suc)
qed

interpretation ring: bounded_fifo ring_ok ep_msgs "\<lambda>m. ring_put (destination m) m" ring_take IPC_QUEUE_SLOTS
proof unfold_locales
  fix m :: ipc_message and q :: ipc_endpoint
  have "m\<lparr>destination := destination m\<rparr> = m" by simp
  then show "\<lbrakk>ring_ok q; length (ep_msgs q) < IPC_QUEUE_SLOTS\<rbrakk> \<Longrightarrow> ring_ok (ring_put (destination m) m q)"
    and "\<lbrakk>ring_ok q; length (ep_msgs q) < IPC_QUEUE_SLOTS\<rbrakk>
         \<Longrightarrow> ep_msgs (ring_put (destination m) m q) = ep_msgs q @ [m]"
    by (simp_all add: ring_put_msgs)
  show "\<lbrakk>ring_ok q; ep_msgs q \<noteq> []\<rbrakk> \<Longrightarrow> ring_ok (snd (ring_take q))"
    and "\<lbrakk>ring_ok q; ep_msgs q \<noteq> []\<rbrakk> \<Longrightarrow> ep_msgs q = fst (ring_take q) # ep_msgs (snd (ring_take q))"
    using ring_take_msgs [of q] by (auto simp: ep_msgs_def)
qed

subsection \<open>The stream of an endpoint\<close>

text \<open>
  Everything an endpoint still has to deliver: the messages of its ring, then the hangups that wait
  behind them.
\<close>

definition addressed :: "nat \<Rightarrow> ipc_hangup \<Rightarrow> ipc_message" where
  "addressed i r = (ipc_hangup_message r)\<lparr>destination := i\<rparr>"

definition ep_stream :: "nat \<Rightarrow> ipc_endpoint \<Rightarrow> ipc_message list" where
  "ep_stream i ep = ep_msgs ep @ map (addressed i) (pending_hangups ep)"

definition ep_ok :: "ipc_endpoint \<Rightarrow> bool" where
  "ep_ok ep \<longleftrightarrow>
     ring_ok ep
     \<and> (pending_hangups ep \<noteq> [] \<longrightarrow> count ep = IPC_QUEUE_SLOTS)
     \<and> contact_count ep = length (contacts ep) \<and> contact_count ep \<le> IPC_ENDPOINT_CONTACTS_MAX
     \<and> distinct (map hg_destination (contacts ep))"

text \<open>The endpoint part of enqueueing, of dequeueing and of delivering a hangup.\<close>

definition ep_take :: "nat \<Rightarrow> ipc_endpoint \<Rightarrow> ipc_message \<times> ipc_endpoint" where
  "ep_take i ep =
     (case ring_take ep of
        (m, ep1) \<Rightarrow>
          (case pending_hangups ep1 of
             [] \<Rightarrow> (m, ep1)
           | r # rs \<Rightarrow> (m, ring_put i (ipc_hangup_message r) (ep1\<lparr>pending_hangups := rs\<rparr>))))"

definition ep_hangup :: "nat \<Rightarrow> ipc_hangup \<Rightarrow> ipc_endpoint \<Rightarrow> ipc_endpoint" where
  "ep_hangup i r ep =
     (if pending_hangups ep = [] \<and> count ep < IPC_QUEUE_SLOTS then ring_put i (ipc_hangup_message r) ep
      else ep\<lparr>pending_hangups := pending_hangups ep @ [r]\<rparr>)"

lemma ring_put_fields [simp]:
  "pending_hangups (ring_put i m ep) = pending_hangups ep" "contacts (ring_put i m ep) = contacts ep"
  "contact_count (ring_put i m ep) = contact_count ep" "poll_hub (ring_put i m ep) = poll_hub ep"
  "ep_type (ring_put i m ep) = ep_type ep" "count (ring_put i m ep) = count ep + 1"
  "contacts_overflowed (ring_put i m ep) = contacts_overflowed ep"
  by (simp_all add: ring_put_def)

lemma ring_take_fields [simp]:
  "pending_hangups (snd (ring_take ep)) = pending_hangups ep" "contacts (snd (ring_take ep)) = contacts ep"
  "contact_count (snd (ring_take ep)) = contact_count ep" "poll_hub (snd (ring_take ep)) = poll_hub ep"
  "ep_type (snd (ring_take ep)) = ep_type ep" "count (snd (ring_take ep)) = count ep - 1"
  "contacts_overflowed (snd (ring_take ep)) = contacts_overflowed ep"
  by (simp_all add: ring_take_def)

lemma ring_ok_pending [simp]:
  "ring_ok (ep\<lparr>pending_hangups := rs\<rparr>) = ring_ok ep" "ep_msgs (ep\<lparr>pending_hangups := rs\<rparr>) = ep_msgs ep"
  by (simp_all add: ring_ok_def ep_msgs_def)

lemma ep_put_ok:
  assumes "ep_ok ep" and "count ep < IPC_QUEUE_SLOTS"
  shows "ep_ok (ring_put i m ep)" and "ep_stream j (ring_put i m ep) = ep_stream j ep @ [m\<lparr>destination := i\<rparr>]"
proof -
  have p: "pending_hangups ep = []" using assms by (auto simp: ep_ok_def)
  have r: "ring_ok ep" using assms(1) by (simp add: ep_ok_def)
  show "ep_ok (ring_put i m ep)"
    using assms p ring_put_msgs(1) [OF r assms(2)] by (simp add: ep_ok_def)
  show "ep_stream j (ring_put i m ep) = ep_stream j ep @ [m\<lparr>destination := i\<rparr>]"
    using p ring_put_msgs(2) [OF r assms(2)] by (simp add: ep_stream_def)
qed

lemma ep_take_ok:
  assumes ok: "ep_ok ep" and ne: "count ep \<noteq> 0"
  shows "ep_ok (snd (ep_take i ep))" and "ep_stream i ep = fst (ep_take i ep) # ep_stream i (snd (ep_take i ep))"
proof -
  have r: "ring_ok ep" using ok by (simp add: ep_ok_def)
  obtain m ep1 where t: "ring_take ep = (m, ep1)" by force
  have ep1: "ring_ok ep1" "ep_msgs ep = m # ep_msgs ep1" "count ep1 = count ep - 1"
    "pending_hangups ep1 = pending_hangups ep" "contacts ep1 = contacts ep" "contact_count ep1 = contact_count ep"
    using ring_take_msgs [OF r ne] t ring_take_fields [of ep] by simp_all
  have "ep_ok (snd (ep_take i ep)) \<and> ep_stream i ep = fst (ep_take i ep) # ep_stream i (snd (ep_take i ep))"
  proof (cases "pending_hangups ep")
    case Nil
    then show ?thesis using ok t ep1 by (simp add: ep_take_def ep_ok_def ep_stream_def)
  next
    case (Cons x xs)
    have c: "count ep1 < IPC_QUEUE_SLOTS" using ok Cons ep1(3) ne by (simp add: ep_ok_def)
    have "ring_ok (ring_put i (ipc_hangup_message x) (ep1\<lparr>pending_hangups := xs\<rparr>))"
      "ep_msgs (ring_put i (ipc_hangup_message x) (ep1\<lparr>pending_hangups := xs\<rparr>)) = ep_msgs ep1 @ [addressed i x]"
      using ring_put_msgs [of "ep1\<lparr>pending_hangups := xs\<rparr>"] ep1(1) c by (simp_all add: addressed_def)
    moreover have "count ep = IPC_QUEUE_SLOTS" using ok Cons by (simp add: ep_ok_def)
    ultimately show ?thesis
      using ok t ep1 Cons by (simp add: ep_take_def ep_ok_def ep_stream_def IPC_QUEUE_SLOTS_def)
  qed
  then show "ep_ok (snd (ep_take i ep))" and "ep_stream i ep = fst (ep_take i ep) # ep_stream i (snd (ep_take i ep))"
    by simp_all
qed

lemma ep_hangup_ok:
  assumes ok: "ep_ok ep"
  shows "ep_ok (ep_hangup i r ep)" and "ep_stream i (ep_hangup i r ep) = ep_stream i ep @ [addressed i r]"
proof -
  have "ep_ok (ep_hangup i r ep) \<and> ep_stream i (ep_hangup i r ep) = ep_stream i ep @ [addressed i r]"
  proof (cases "pending_hangups ep = [] \<and> count ep < IPC_QUEUE_SLOTS")
    case True
    then show ?thesis using ep_put_ok [OF ok] by (simp add: ep_hangup_def addressed_def)
  next
    case False
    then have "count ep = IPC_QUEUE_SLOTS" using ok by (auto simp: ep_ok_def ring_ok_def)
    then show ?thesis using ok False by (auto simp: ep_hangup_def ep_ok_def ep_stream_def)
  qed
  then show "ep_ok (ep_hangup i r ep)" and "ep_stream i (ep_hangup i r ep) = ep_stream i ep @ [addressed i r]" by simp_all
qed

lemma zero_endpoint_ok: "ep_ok zero_endpoint" "ep_stream i zero_endpoint = []"
  by (simp_all add: ep_ok_def ring_ok_def zero_endpoint_def ep_stream_def ep_msgs_def IPC_QUEUE_SLOTS_def
      IPC_ENDPOINT_CONTACTS_MAX_def)

end
