(* ===== verification/Ipc.thy ===== *)
theory Ipc
  imports Objects Ipc_queue Sched_event
begin

section \<open>Inter-process communication\<close>

text \<open>
  Model of \<open>src/kernel/ipc.c\<close>: the endpoint and select tables, sending and receiving, hangups,
  and select sets.  Endpoints and select sets live in two id tables; the events embedded in them
  are the wait lists \<open>EV_IPC id\<close> and \<open>EV_SELECT id\<close> of the scheduler state.  Every critical section
  is one function on the whole state.  The blocking operations are two functions, before the
  thread parks and after it resumes; a first half returns None when it parked.  Results of
  \<open>kmem_alloc\<close> and \<open>malloc\<close> are arguments.  Out parameters are results, so the refusals of NULL
  out pointers have no counterpart.
\<close>

definition IPC_SELECT_EPS_MAX :: nat where "IPC_SELECT_EPS_MAX = 8"
definition IPC_SELECT_TABLE_CHUNK :: nat where "IPC_SELECT_TABLE_CHUNK = 32"
definition IPC_ENDPOINT_TABLE_CHUNK :: nat where "IPC_ENDPOINT_TABLE_CHUNK = 16"
definition IPC_SELECT_PER_CONTEXT_MAX :: nat where "IPC_SELECT_PER_CONTEXT_MAX = 8"
definition IPC_ENDPOINT_PER_CONTEXT_MAX :: nat where "IPC_ENDPOINT_PER_CONTEXT_MAX = 64"

record ipc_select =
  ready_ep :: nat
  ep_ids :: "nat list"
  scan_cursor :: nat

definition zero_select :: ipc_select where
  "zero_select = \<lparr>ready_ep = 0, ep_ids = [], scan_cursor = 0\<rparr>"

record ipc =
  endpoints :: "ipc_endpoint idtable"
  selects :: "ipc_select idtable"
  g_context_watches :: "ipc_hangup list"
  ipc_sched :: sched

definition put_endpoint :: "nat \<Rightarrow> ipc_endpoint \<Rightarrow> ipc \<Rightarrow> ipc" where
  "put_endpoint i ep st = st\<lparr>endpoints := idtable_put i ep (endpoints st)\<rparr>"

definition put_select :: "nat \<Rightarrow> ipc_select \<Rightarrow> ipc \<Rightarrow> ipc" where
  "put_select i sel st = st\<lparr>selects := idtable_put i sel (selects st)\<rparr>"

subsection \<open>Endpoints\<close>

definition ipc_init :: "nat option \<Rightarrow> nat option \<Rightarrow> nat \<Rightarrow> nat \<Rightarrow> ipc \<Rightarrow> ipc option" where
  "ipc_init mem1 mem2 ep_size sel_size st =
     (case idtable_init mem1 ep_size IPC_ENDPOINT_TABLE_CHUNK IPC_ENDPOINT_PER_CONTEXT_MAX (endpoints st) of
        (r1, t1) \<Rightarrow>
          if r1 \<noteq> WASMOS_OK then None
          else case idtable_init mem2 sel_size IPC_SELECT_TABLE_CHUNK IPC_SELECT_PER_CONTEXT_MAX (selects st) of
                 (r2, t2) \<Rightarrow>
                   if r2 \<noteq> WASMOS_OK then None else Some (st\<lparr>endpoints := t1, selects := t2\<rparr>))"

definition ipc_endpoint_get :: "nat \<Rightarrow> ipc \<Rightarrow> ipc_endpoint id_elem option" where
  "ipc_endpoint_get i st = (if i = 0 \<or> i = IPC_ENDPOINT_NONE then None else obj (endpoints st) i)"

definition ipc_endpoint_owner_context :: "nat \<Rightarrow> ipc \<Rightarrow> nat" where
  "ipc_endpoint_owner_context i st =
     (if i = 0 \<or> i = IPC_ENDPOINT_NONE then 0
      else case obj (endpoints st) i of Some e \<Rightarrow> h_owner (header e) | None \<Rightarrow> 0)"

definition ipc_endpoint_acquire :: "nat \<Rightarrow> ipc_endpoint_type \<Rightarrow> ipc \<Rightarrow> int + ipc_endpoint id_elem" where
  "ipc_endpoint_acquire i ty st =
     (case ipc_endpoint_get i st of
        None \<Rightarrow> Inl IPC_ERR_NOENT
      | Some e \<Rightarrow> if ep_type (body e) \<noteq> ty then Inl IPC_ERR_UNSUPPORTED else Inr e)"

definition ipc_endpoint_acquire_owned ::
  "nat \<Rightarrow> ipc_endpoint_type \<Rightarrow> nat \<Rightarrow> ipc \<Rightarrow> int + ipc_endpoint id_elem" where
  "ipc_endpoint_acquire_owned i ty context_id st =
     (case ipc_endpoint_acquire i ty st of
        Inl rc \<Rightarrow> Inl rc
      | Inr e \<Rightarrow>
          if context_id \<noteq> IPC_CONTEXT_KERNEL \<and> h_owner (header e) \<noteq> context_id then Inl IPC_ERR_PERM
          else Inr e)"

definition ipc_endpoint_create_typed ::
  "nat option \<Rightarrow> nat \<Rightarrow> ipc_endpoint_type \<Rightarrow> ipc \<Rightarrow> (int \<times> nat option \<times> ipc) option" where
  "ipc_endpoint_create_typed mem owner ty st =
     (case idtable_alloc mem zero_endpoint owner (endpoints st) of
        None \<Rightarrow> None
      | Some (status, None, t) \<Rightarrow>
          Some (if status = WASMOS_INVAL then IPC_ERR_INVALID else IPC_ERR_FULL, None, st\<lparr>endpoints := t\<rparr>)
      | Some (status, Some p, t) \<Rightarrow>
          (case idtable_at t p of
             None \<Rightarrow> None
           | Some e \<Rightarrow>
               let i = h_id (header e);
                   ep = (body e)\<lparr>ep_type := ty, head := 0, tail := 0, count := 0, notify_count := 0,
                          poll_hub := None, contacts := [], contact_count := 0, contacts_overflowed := False,
                          pending_hangups := []\<rparr>
               in Some (IPC_OK, Some i,
                    st\<lparr>endpoints := idtable_put i ep t, ipc_sched := sched_event_init (EV_IPC i) (ipc_sched st)\<rparr>)))"

definition ipc_endpoint_create :: "nat option \<Rightarrow> nat \<Rightarrow> ipc \<Rightarrow> (int \<times> nat option \<times> ipc) option" where
  "ipc_endpoint_create mem owner st = ipc_endpoint_create_typed mem owner IPC_ENDPOINT_TYPE_MESSAGE st"

definition ipc_notification_create :: "nat option \<Rightarrow> nat \<Rightarrow> ipc \<Rightarrow> (int \<times> nat option \<times> ipc) option" where
  "ipc_notification_create mem owner st = ipc_endpoint_create_typed mem owner IPC_ENDPOINT_TYPE_NOTIFICATION st"

definition ipc_endpoint_owner :: "nat \<Rightarrow> ipc \<Rightarrow> int + nat" where
  "ipc_endpoint_owner i st =
     (case ipc_endpoint_get i st of None \<Rightarrow> Inl IPC_ERR_NOENT | Some e \<Rightarrow> Inr (h_owner (header e)))"

definition ipc_endpoint_count :: "nat \<Rightarrow> ipc \<Rightarrow> int + nat" where
  "ipc_endpoint_count i st =
     (case ipc_endpoint_get i st of None \<Rightarrow> Inl IPC_ERR_NOENT | Some e \<Rightarrow> Inr (count (body e)))"

subsection \<open>Signalling and queueing\<close>

definition ipc_select_signal :: "nat \<Rightarrow> nat \<Rightarrow> ipc \<Rightarrow> ipc" where
  "ipc_select_signal sel ep_id st =
     (case obj (selects st) sel of
        None \<Rightarrow> st
      | Some e \<Rightarrow>
          (put_select sel ((body e)\<lparr>ready_ep := ep_id\<rparr>) st)
            \<lparr>ipc_sched := snd (sched_event_wake_one (EV_SELECT sel) ep_id SCHED_PEND_OK (ipc_sched st))\<rparr>)"

definition ipc_endpoint_enqueue_locked :: "nat \<Rightarrow> ipc_message \<Rightarrow> ipc_endpoint \<Rightarrow> ipc \<Rightarrow> ipc" where
  "ipc_endpoint_enqueue_locked i msg ep st =
     (let st1 = put_endpoint i (ring_put i msg ep) st;
          st2 = st1\<lparr>ipc_sched := snd (sched_event_wake_one (EV_IPC i) 0 SCHED_PEND_OK (ipc_sched st1))\<rparr>
      in poll_notify ipc_select_signal (poll_hub ep) POLL_EV_IN i st2)"

definition ipc_endpoint_dequeue_locked :: "nat \<Rightarrow> ipc_endpoint \<Rightarrow> ipc \<Rightarrow> ipc_message \<times> ipc" where
  "ipc_endpoint_dequeue_locked i ep st =
     (case ring_take ep of
        (m, ep1) \<Rightarrow>
          (case pending_hangups ep1 of
             [] \<Rightarrow> (m, put_endpoint i ep1 st)
           | r # rs \<Rightarrow>
               (m, ipc_endpoint_enqueue_locked i (ipc_hangup_message r) (ep1\<lparr>pending_hangups := rs\<rparr>) st)))"

text \<open>
  \<open>ipc_endpoint_note_contact\<close> drops the lock to allocate its record: the first function decides
  whether to go on, the second re-resolves the source and re-checks.  In a send the two run back to
  back, and so do the sweep and the deliveries of \<open>ipc_endpoints_release_owner\<close>.
\<close>

definition note_contact_check :: "nat \<Rightarrow> nat \<Rightarrow> ipc \<Rightarrow> bool \<times> ipc" where
  "note_contact_check src dst st =
     (if src = IPC_ENDPOINT_NONE \<or> dst = IPC_ENDPOINT_NONE \<or> src = dst then (False, st)
      else case ipc_endpoint_acquire src IPC_ENDPOINT_TYPE_MESSAGE st of
             Inl _ \<Rightarrow> (False, st)
           | Inr e \<Rightarrow>
               if h_owner (header e) = IPC_CONTEXT_KERNEL \<or> ipc_endpoint_has_contact (body e) dst then (False, st)
               else if IPC_ENDPOINT_CONTACTS_MAX \<le> contact_count (body e)
               then (False, put_endpoint src ((body e)\<lparr>contacts_overflowed := True\<rparr>) st)
               else (True, st))"

definition note_contact_record :: "bool \<Rightarrow> nat \<Rightarrow> nat \<Rightarrow> ipc \<Rightarrow> ipc" where
  "note_contact_record mem src dst st =
     (case ipc_endpoint_acquire src IPC_ENDPOINT_TYPE_MESSAGE st of
        Inl _ \<Rightarrow> st
      | Inr e \<Rightarrow>
          let ep = body e in
          if \<not> mem \<or> IPC_ENDPOINT_CONTACTS_MAX \<le> contact_count ep
          then put_endpoint src (ep\<lparr>contacts_overflowed := True\<rparr>) st
          else if ipc_endpoint_has_contact ep dst then st
          else put_endpoint src
                 (ep\<lparr>contacts := \<lparr>hg_destination = dst, dead_endpoint = src, hg_owner = h_owner (header e)\<rparr> # contacts ep,
                     contact_count := contact_count ep + 1\<rparr>) st)"

definition ipc_endpoint_note_contact :: "bool \<Rightarrow> nat \<Rightarrow> nat \<Rightarrow> ipc \<Rightarrow> ipc" where
  "ipc_endpoint_note_contact mem src dst st =
     (case note_contact_check src dst st of
        (False, st1) \<Rightarrow> st1
      | (True, st1) \<Rightarrow> note_contact_record mem src dst st1)"

subsection \<open>Sending and receiving\<close>

text \<open>The permission check of a send, made before the destination is looked up.\<close>

definition send_permitted :: "nat \<Rightarrow> ipc_message \<Rightarrow> ipc \<Rightarrow> bool" where
  "send_permitted sender msg st =
     (if sender = IPC_CONTEXT_KERNEL then True
      else if source msg = IPC_ENDPOINT_NONE then False
      else if msg_type msg = WASMOS_IPC_HANGUP then False
      else let src_owner = ipc_endpoint_owner_context (source msg) st
           in \<not> (src_owner = 0 \<or> src_owner \<noteq> sender))"

definition ipc_send_from :: "bool \<Rightarrow> nat \<Rightarrow> nat \<Rightarrow> ipc_message \<Rightarrow> ipc \<Rightarrow> int \<times> ipc" where
  "ipc_send_from mem sender endpoint msg st =
     (if \<not> send_permitted sender msg st then (IPC_ERR_PERM, st)
      else case ipc_endpoint_acquire endpoint IPC_ENDPOINT_TYPE_MESSAGE st of
             Inl rc \<Rightarrow> (rc, st)
           | Inr e \<Rightarrow>
               let ep = body e in
               if IPC_QUEUE_DEPTH \<le> count ep
               then (IPC_ERR_FULL,
                     put_endpoint endpoint
                       (ep\<lparr>refused_count := add32 (refused_count ep) 1, last_refused_type := msg_type msg,
                           last_refused_request_id := request_id msg, last_refused_source := source msg\<rparr>) st)
               else (IPC_OK,
                     ipc_endpoint_note_contact mem (source msg) endpoint
                       (ipc_endpoint_enqueue_locked endpoint msg ep st)))"

definition ipc_recv_for :: "nat \<Rightarrow> nat \<Rightarrow> ipc \<Rightarrow> int \<times> ipc_message option \<times> ipc" where
  "ipc_recv_for receiver endpoint st =
     (case ipc_endpoint_acquire_owned endpoint IPC_ENDPOINT_TYPE_MESSAGE receiver st of
        Inl rc \<Rightarrow> (rc, None, st)
      | Inr e \<Rightarrow>
          if count (body e) = 0 then (IPC_EMPTY, None, st)
          else case ipc_endpoint_dequeue_locked endpoint (body e) st of (m, st') \<Rightarrow> (IPC_OK, Some m, st'))"

definition ipc_recv_blocking_for ::
  "nat \<Rightarrow> nat \<Rightarrow> nat \<Rightarrow> ipc \<Rightarrow> (int \<times> ipc_message option) option \<times> ipc" where
  "ipc_recv_blocking_for cur receiver endpoint st =
     (case ipc_endpoint_acquire_owned endpoint IPC_ENDPOINT_TYPE_MESSAGE receiver st of
        Inl rc \<Rightarrow> (Some (rc, None), st)
      | Inr e \<Rightarrow>
          if count (body e) = 0
          then (None, st\<lparr>ipc_sched := sched_event_wait 0 0 cur (EV_IPC endpoint) 0 (ipc_sched st)\<rparr>)
          else case ipc_endpoint_dequeue_locked endpoint (body e) st of (m, st') \<Rightarrow> (Some (IPC_OK, Some m), st'))"

definition ipc_recv_blocking_resume :: "nat \<Rightarrow> nat \<Rightarrow> ipc \<Rightarrow> int \<times> ipc_message option \<times> ipc" where
  "ipc_recv_blocking_resume cur endpoint st0 =
     (let st = st0\<lparr>ipc_sched := sched_event_resume cur (ipc_sched st0)\<rparr> in
      case ipc_endpoint_get endpoint st of
        None \<Rightarrow> (IPC_ERR_PEER_GONE, None, st)
      | Some e \<Rightarrow>
          if count (body e) = 0 then (IPC_EMPTY, None, st)
          else case ipc_endpoint_dequeue_locked endpoint (body e) st of (m, st') \<Rightarrow> (IPC_OK, Some m, st'))"

text \<open>Parks (None), or returns at once; after the park the result is \<open>IPC_OK\<close>.\<close>

definition ipc_endpoint_wait_for ::
  "nat \<Rightarrow> nat \<Rightarrow> nat \<Rightarrow> nat \<Rightarrow> nat \<Rightarrow> nat \<Rightarrow> ipc \<Rightarrow> int option \<times> ipc" where
  "ipc_endpoint_wait_for hz now cur receiver endpoint timeout_ms st =
     (case ipc_endpoint_acquire_owned endpoint IPC_ENDPOINT_TYPE_MESSAGE receiver st of
        Inl rc \<Rightarrow> (Some rc, st)
      | Inr e \<Rightarrow>
          if count (body e) \<noteq> 0 then (Some IPC_OK, st)
          else (None, st\<lparr>ipc_sched := sched_event_wait hz now cur (EV_IPC endpoint) timeout_ms (ipc_sched st)\<rparr>))"

definition ipc_notify_from :: "nat \<Rightarrow> nat \<Rightarrow> ipc \<Rightarrow> int \<times> ipc" where
  "ipc_notify_from sender endpoint st =
     (case ipc_endpoint_acquire_owned endpoint IPC_ENDPOINT_TYPE_NOTIFICATION sender st of
        Inl rc \<Rightarrow> (rc, st)
      | Inr e \<Rightarrow>
          let ep = body e;
              ep' = (if notify_count ep \<noteq> 0xFFFFFFFF then ep\<lparr>notify_count := notify_count ep + 1\<rparr> else ep)
          in (IPC_OK, poll_notify ipc_select_signal (poll_hub ep) POLL_EV_IN endpoint (put_endpoint endpoint ep' st)))"

definition ipc_wait_for :: "nat \<Rightarrow> nat \<Rightarrow> ipc \<Rightarrow> int \<times> ipc" where
  "ipc_wait_for receiver endpoint st =
     (case ipc_endpoint_acquire_owned endpoint IPC_ENDPOINT_TYPE_NOTIFICATION receiver st of
        Inl rc \<Rightarrow> (rc, st)
      | Inr e \<Rightarrow>
          let ep = body e in
          if notify_count ep = 0 then (IPC_EMPTY, st)
          else (IPC_OK, put_endpoint endpoint (ep\<lparr>notify_count := notify_count ep - 1\<rparr>) st))"

definition ipc_send :: "bool \<Rightarrow> nat \<Rightarrow> ipc_message \<Rightarrow> ipc \<Rightarrow> int \<times> ipc" where
  "ipc_send mem = ipc_send_from mem IPC_CONTEXT_KERNEL"

definition ipc_recv :: "nat \<Rightarrow> ipc \<Rightarrow> int \<times> ipc_message option \<times> ipc" where
  "ipc_recv = ipc_recv_for IPC_CONTEXT_KERNEL"

definition ipc_notify :: "nat \<Rightarrow> ipc \<Rightarrow> int \<times> ipc" where
  "ipc_notify = ipc_notify_from IPC_CONTEXT_KERNEL"

definition ipc_wait :: "nat \<Rightarrow> ipc \<Rightarrow> int \<times> ipc" where
  "ipc_wait = ipc_wait_for IPC_CONTEXT_KERNEL"

subsection \<open>Hangups and teardown\<close>

record ipc_hangup_batch =
  deliver :: "ipc_hangup list"
  discard :: "ipc_hangup list"
  overflowed :: nat

text \<open>
  The callback of \<open>idtable_release_owner\<close>: it works on the batch and on the events; the element is
  dropped by the table right afterwards, with the poll hub it owned.
\<close>

definition ipc_endpoint_teardown ::
  "ipc_endpoint id_elem \<Rightarrow> ipc_hangup_batch \<times> sched \<Rightarrow> ipc_hangup_batch \<times> sched" where
  "ipc_endpoint_teardown e u =
     (case u of (batch, s) \<Rightarrow>
        let ep = body e;
            b1 = batch\<lparr>deliver := fold Cons (contacts ep) (deliver batch)\<rparr>;
            b2 = (if contacts_overflowed ep then b1\<lparr>overflowed := add32 (overflowed b1) 1\<rparr> else b1);
            b3 = b2\<lparr>discard := pending_hangups ep @ discard b2\<rparr>
        in (b3, sched_event_abort_all (EV_IPC (h_id (header e))) s))"

definition ipc_hangup_deliver :: "ipc_hangup \<Rightarrow> ipc \<Rightarrow> ipc" where
  "ipc_hangup_deliver r st =
     (case ipc_endpoint_acquire (hg_destination r) IPC_ENDPOINT_TYPE_MESSAGE st of
        Inl _ \<Rightarrow> st
      | Inr e \<Rightarrow>
          let ep = body e; i = hg_destination r in
          if pending_hangups ep = [] \<and> count ep < IPC_QUEUE_SLOTS
          then ipc_endpoint_enqueue_locked i (ipc_hangup_message r) ep st
          else put_endpoint i (ep\<lparr>pending_hangups := pending_hangups ep @ [r]\<rparr>) st)"

definition ipc_endpoints_release_owner :: "nat \<Rightarrow> ipc \<Rightarrow> ipc option" where
  "ipc_endpoints_release_owner owner st =
     (if owner = 0 then Some st
      else case idtable_release_owner ipc_endpoint_teardown owner
                  (\<lparr>deliver = [], discard = [], overflowed = 0\<rparr>, ipc_sched st) (endpoints st) of
             None \<Rightarrow> None
           | Some (_, (batch, s), t) \<Rightarrow>
               let ws = g_context_watches st;
                   owed = fold Cons (filter (\<lambda>r. hg_owner r = owner) ws) (deliver batch);
                   st1 = st\<lparr>endpoints := t, ipc_sched := s,
                            g_context_watches := filter (\<lambda>r. hg_owner r \<noteq> owner) ws\<rparr>
               in Some (fold ipc_hangup_deliver owed st1))"

definition ipc_context_watch :: "bool \<Rightarrow> nat \<Rightarrow> nat \<Rightarrow> ipc \<Rightarrow> int \<times> ipc" where
  "ipc_context_watch mem context_id dst st =
     (if context_id = IPC_CONTEXT_KERNEL \<or> dst = IPC_ENDPOINT_NONE then (IPC_ERR_INVALID, st)
      else if \<not> mem then (IPC_ERR_FULL, st)
      else (IPC_OK, st\<lparr>g_context_watches :=
              \<lparr>hg_destination = dst, dead_endpoint = IPC_ENDPOINT_NONE, hg_owner = context_id\<rparr> # g_context_watches st\<rparr>))"

subsection \<open>Select sets\<close>

definition ipc_select_find :: "nat \<Rightarrow> nat \<Rightarrow> ipc \<Rightarrow> int + ipc_select id_elem" where
  "ipc_select_find select_id owner st =
     (case obj (selects st) select_id of
        None \<Rightarrow> Inl IPC_ERR_NOENT
      | Some e \<Rightarrow>
          if owner \<noteq> IPC_CONTEXT_KERNEL \<and> h_owner (header e) \<noteq> owner then Inl IPC_ERR_PERM else Inr e)"

definition ipc_select_create :: "nat option \<Rightarrow> nat \<Rightarrow> ipc \<Rightarrow> (int \<times> nat option \<times> ipc) option" where
  "ipc_select_create mem owner st =
     (case idtable_alloc mem zero_select owner (selects st) of
        None \<Rightarrow> None
      | Some (status, None, t) \<Rightarrow>
          Some (if status = WASMOS_INVAL then IPC_ERR_INVALID else IPC_ERR_FULL, None, st\<lparr>selects := t\<rparr>)
      | Some (status, Some p, t) \<Rightarrow>
          (case idtable_at t p of
             None \<Rightarrow> None
           | Some e \<Rightarrow>
               let i = h_id (header e);
                   sel = (body e)\<lparr>ready_ep := IPC_ENDPOINT_NONE, ep_ids := [], scan_cursor := 0\<rparr>
               in Some (IPC_OK, Some i,
                    st\<lparr>selects := idtable_put i sel t, ipc_sched := sched_event_init (EV_SELECT i) (ipc_sched st)\<rparr>)))"

text \<open>\<open>hub_mem\<close> and \<open>node_mem\<close> are the outcomes of the two allocations.\<close>

definition ipc_select_add :: "bool \<Rightarrow> bool \<Rightarrow> nat \<Rightarrow> nat \<Rightarrow> nat \<Rightarrow> ipc \<Rightarrow> int \<times> ipc" where
  "ipc_select_add hub_mem node_mem select_id endpoint_id owner st =
     (case ipc_select_find select_id owner st of
        Inl rc \<Rightarrow> (rc, st)
      | Inr e \<Rightarrow>
          let sel = body e in
          if endpoint_id \<in> set (ep_ids sel) then (IPC_OK, st)
          else if IPC_SELECT_EPS_MAX \<le> length (ep_ids sel) then (IPC_ERR_FULL, st)
          else case ipc_endpoint_get endpoint_id st of
                 None \<Rightarrow> (IPC_ERR_NOENT, st)
               | Some ee \<Rightarrow>
                   let ep = body ee;
                       ep1 = (if poll_hub ep = None then ep\<lparr>poll_hub := poll_struct_alloc hub_mem\<rparr> else ep)
                   in case poll_hub ep1 of
                        None \<Rightarrow> (IPC_ERR_FULL, put_endpoint endpoint_id ep1 st)
                      | Some hub \<Rightarrow>
                          (case poll_struct_add node_mem POLL_EV_IN select_id 0 hub of
                             (rc, hub') \<Rightarrow>
                               if rc \<noteq> 0 then (IPC_ERR_FULL, put_endpoint endpoint_id ep1 st)
                               else (IPC_OK,
                                     put_select select_id (sel\<lparr>ep_ids := ep_ids sel @ [endpoint_id]\<rparr>)
                                       (put_endpoint endpoint_id (ep1\<lparr>poll_hub := Some hub'\<rparr>) st))))"

definition ipc_endpoint_is_ready :: "nat \<Rightarrow> ipc \<Rightarrow> bool" where
  "ipc_endpoint_is_ready i st =
     (case ipc_endpoint_get i st of
        None \<Rightarrow> False
      | Some e \<Rightarrow>
          if ep_type (body e) = IPC_ENDPOINT_TYPE_NOTIFICATION then notify_count (body e) \<noteq> 0
          else count (body e) \<noteq> 0)"

definition ipc_select_scan_ready :: "ipc_select \<Rightarrow> ipc \<Rightarrow> nat option \<times> ipc_select" where
  "ipc_select_scan_ready sel st =
     (let n = length (ep_ids sel) in
      if n = 0 then (None, sel)
      else
        let c = (if n \<le> scan_cursor sel then 0 else scan_cursor sel) in
        case List.find (\<lambda>i. ipc_endpoint_is_ready (ep_ids sel ! i) st) (map (\<lambda>k. (c + k) mod n) [0..<n]) of
          None \<Rightarrow> (None, sel\<lparr>scan_cursor := c\<rparr>)
        | Some i \<Rightarrow> (Some (ep_ids sel ! i), sel\<lparr>scan_cursor := (i + 1) mod n\<rparr>))"

definition ipc_select_clear_latch :: "ipc_select \<Rightarrow> ipc_select" where
  "ipc_select_clear_latch sel = sel\<lparr>ready_ep := IPC_ENDPOINT_NONE\<rparr>"

definition ipc_select_take_ready :: "ipc_select \<Rightarrow> nat option \<times> ipc_select" where
  "ipc_select_take_ready sel =
     (if ready_ep sel = IPC_ENDPOINT_NONE then (None, sel)
      else (Some (ready_ep sel), sel\<lparr>ready_ep := IPC_ENDPOINT_NONE\<rparr>))"

text \<open>
  A wait asks the queues first, under the table lock, and then the latch, under the event lock.  The
  table lock is dropped only when the event lock is held, so the set stays, but a signal may come
  in between: the two checks are two functions.
\<close>

definition select_scan :: "nat \<Rightarrow> ipc_select \<Rightarrow> ipc \<Rightarrow> nat option \<times> ipc" where
  "select_scan select_id sel st =
     (case ipc_select_scan_ready sel st of
        (Some ep, sel1) \<Rightarrow> (Some ep, put_select select_id (ipc_select_clear_latch sel1) st)
      | (None, sel1) \<Rightarrow> (None, put_select select_id sel1 st))"

definition select_take :: "nat \<Rightarrow> ipc \<Rightarrow> nat option \<times> ipc" where
  "select_take select_id st =
     (case obj (selects st) select_id of
        None \<Rightarrow> (None, st)
      | Some e \<Rightarrow>
          (case ipc_select_take_ready (body e) of (r, sel) \<Rightarrow> (r, put_select select_id sel st)))"

definition select_wait_scan :: "nat \<Rightarrow> nat \<Rightarrow> ipc \<Rightarrow> (int \<times> nat option) option \<times> ipc" where
  "select_wait_scan select_id owner st =
     (case ipc_select_find select_id owner st of
        Inl rc \<Rightarrow> (Some (rc, None), st)
      | Inr e \<Rightarrow>
          (case select_scan select_id (body e) st of
             (Some ep, st1) \<Rightarrow> (Some (IPC_OK, Some ep), st1)
           | (None, st1) \<Rightarrow> (None, st1)))"

definition select_wait_block :: "nat \<Rightarrow> nat \<Rightarrow> nat \<Rightarrow> nat \<Rightarrow> nat \<Rightarrow> ipc \<Rightarrow> (int \<times> nat option) option \<times> ipc" where
  "select_wait_block hz now cur select_id timeout_ms st =
     (case select_take select_id st of
        (Some ep, st1) \<Rightarrow> (Some (IPC_OK, Some ep), st1)
      | (None, st1) \<Rightarrow>
          (None, st1\<lparr>ipc_sched := sched_event_wait hz now cur (EV_SELECT select_id) timeout_ms (ipc_sched st1)\<rparr>))"

definition ipc_select_wait ::
  "nat \<Rightarrow> nat \<Rightarrow> nat \<Rightarrow> nat \<Rightarrow> nat \<Rightarrow> nat \<Rightarrow> ipc \<Rightarrow> (int \<times> nat option) option \<times> ipc" where
  "ipc_select_wait hz now cur select_id owner timeout_ms st =
     (case select_wait_scan select_id owner st of
        (Some r, st1) \<Rightarrow> (Some r, st1)
      | (None, st1) \<Rightarrow> select_wait_block hz now cur select_id timeout_ms st1)"

definition ipc_select_wait_resume :: "nat \<Rightarrow> nat \<Rightarrow> nat \<Rightarrow> ipc \<Rightarrow> int \<times> nat option \<times> ipc" where
  "ipc_select_wait_resume cur select_id owner st0 =
     (case select_wait_scan select_id owner (st0\<lparr>ipc_sched := sched_event_resume cur (ipc_sched st0)\<rparr>) of
        (Some (rc, None), st1) \<Rightarrow> (IPC_EMPTY, None, st1)
      | (Some (rc, Some ep), st1) \<Rightarrow> (rc, Some ep, st1)
      | (None, st1) \<Rightarrow>
          (case select_take select_id st1 of
             (Some ep, st2) \<Rightarrow> (IPC_OK, Some ep, st2)
           | (None, st2) \<Rightarrow> (IPC_EMPTY, None, st2)))"

definition unwatch :: "nat \<Rightarrow> nat \<Rightarrow> ipc \<Rightarrow> ipc" where
  "unwatch select_id i st =
     (case ipc_endpoint_get i st of
        None \<Rightarrow> st
      | Some e \<Rightarrow>
          (case poll_hub (body e) of
             None \<Rightarrow> st
           | Some hub \<Rightarrow>
               put_endpoint i ((body e)\<lparr>poll_hub := Some (poll_struct_remove select_id hub)\<rparr>) st))"

definition ipc_select_destroy :: "nat \<Rightarrow> nat \<Rightarrow> ipc \<Rightarrow> ipc" where
  "ipc_select_destroy select_id owner st =
     (case ipc_select_find select_id owner st of
        Inl _ \<Rightarrow> st
      | Inr e \<Rightarrow>
          let sel = body e;
              st1 = fold (unwatch select_id) (ep_ids sel) st;
              st2 = st1\<lparr>ipc_sched := sched_event_abort_all (EV_SELECT select_id) (ipc_sched st1)\<rparr>;
              st3 = put_select select_id (sel\<lparr>ep_ids := []\<rparr>) st2
          in st3\<lparr>selects := snd (idtable_free (selects st3) select_id)\<rparr>)"

fun listen_loop :: "nat \<Rightarrow> nat \<Rightarrow> (bool \<times> bool \<times> nat) list \<Rightarrow> ipc \<Rightarrow> int \<times> ipc" where
  "listen_loop sel owner [] st = (IPC_OK, st)"
| "listen_loop sel owner ((hub_mem, node_mem, ep) # eps) st =
     (case ipc_select_add hub_mem node_mem sel ep owner st of
        (rc, st1) \<Rightarrow>
          if rc \<noteq> IPC_OK then (rc, ipc_select_destroy sel owner st1) else listen_loop sel owner eps st1)"

definition ipc_select_listen ::
  "nat option \<Rightarrow> nat \<Rightarrow> (bool \<times> bool \<times> nat) list \<Rightarrow> ipc \<Rightarrow> (int \<times> nat option \<times> ipc) option" where
  "ipc_select_listen mem owner eps st =
     (if eps = [] then Some (IPC_ERR_INVALID, None, st)
      else case ipc_select_create mem owner st of
             None \<Rightarrow> None
           | Some (rc, None, st1) \<Rightarrow> Some (rc, None, st1)
           | Some (rc, Some sel, st1) \<Rightarrow>
               (case listen_loop sel owner eps st1 of
                  (rc, st2) \<Rightarrow> Some (rc, if rc = IPC_OK then Some sel else None, st2)))"

text \<open>The receive that follows a successful \<open>ipc_select_wait\<close> in \<open>ipc_select_recv\<close>.\<close>

definition ipc_select_recv ::
  "nat \<Rightarrow> nat \<Rightarrow> nat \<Rightarrow> nat \<Rightarrow> nat \<Rightarrow> nat \<Rightarrow> ipc \<Rightarrow> (int \<times> nat option \<times> ipc_message option) option \<times> ipc" where
  "ipc_select_recv hz now cur select_id owner timeout_ms st =
     (case ipc_select_wait hz now cur select_id owner timeout_ms st of
        (None, st1) \<Rightarrow> (None, st1)
      | (Some (rc, None), st1) \<Rightarrow> (Some (rc, None, None), st1)
      | (Some (rc, Some ep), st1) \<Rightarrow>
          (case ipc_recv_for owner ep st1 of (rc2, m, st2) \<Rightarrow> (Some (rc2, Some ep, m), st2)))"

subsection \<open>The invariant\<close>

text \<open>
  Both tables are well formed; every endpoint's ring and contact list is; a contact record names the
  endpoint that holds it and its owner as the dead one; every select set lists an
  endpoint once and at most eight; a hub only names live select sets that list its endpoint; and
  nobody is parked on an endpoint or a set that does not exist.
\<close>

definition select_ok :: "ipc_select \<Rightarrow> bool" where
  "select_ok sel \<longleftrightarrow> distinct (ep_ids sel) \<and> length (ep_ids sel) \<le> IPC_SELECT_EPS_MAX"

definition hub_ok :: "ipc_select idtable \<Rightarrow> nat \<Rightarrow> ipc_endpoint \<Rightarrow> bool" where
  "hub_ok t i ep \<longleftrightarrow> (\<forall>s \<in> watching (poll_hub ep). \<exists>f. obj t s = Some f \<and> i \<in> set (ep_ids (body f)))"

definition contacts_ok :: "ipc_endpoint id_elem \<Rightarrow> bool" where
  "contacts_ok e \<longleftrightarrow>
     (\<forall>r \<in> set (contacts (body e)). dead_endpoint r = h_id (header e) \<and> hg_owner r = h_owner (header e))"

definition parked_live :: "ipc \<Rightarrow> bool" where
  "parked_live st \<longleftrightarrow>
     (\<forall>i. wait_list (ipc_sched st) (EV_IPC i) \<noteq> [] \<longrightarrow> obj (endpoints st) i \<noteq> None)
     \<and> (\<forall>i. wait_list (ipc_sched st) (EV_SELECT i) \<noteq> [] \<longrightarrow> obj (selects st) i \<noteq> None)"

definition ipc_inv :: "ipc \<Rightarrow> bool" where
  "ipc_inv st \<longleftrightarrow>
     idtable_ok (endpoints st) \<and> idtable_ok (selects st)
     \<and> (\<forall>i e. obj (endpoints st) i = Some e \<longrightarrow> ep_ok (body e) \<and> hub_ok (selects st) i (body e) \<and> contacts_ok e)
     \<and> (\<forall>i f. obj (selects st) i = Some f \<longrightarrow> select_ok (body f))
     \<and> sched_inv (ipc_sched st) \<and> parked_live st"

lemma ipc_invD:
  assumes "ipc_inv st"
  shows "idtable_ok (endpoints st)" "idtable_ok (selects st)" "sched_inv (ipc_sched st)" "parked_live st"
    "obj (endpoints st) i = Some e \<Longrightarrow> ep_ok (body e)"
    "obj (endpoints st) i = Some e \<Longrightarrow> hub_ok (selects st) i (body e)"
    "obj (selects st) i = Some f \<Longrightarrow> select_ok (body f)"
    "obj (endpoints st) i = Some e \<Longrightarrow> contacts_ok e"
  using assms by (auto simp: ipc_inv_def)

text \<open>Endpoints as the map of their bodies.\<close>

definition ep_of :: "ipc \<Rightarrow> nat \<Rightarrow> ipc_endpoint option" where
  "ep_of st i = map_option body (obj (endpoints st) i)"

definition stream :: "ipc \<Rightarrow> nat \<Rightarrow> ipc_message list" where
  "stream st i = (case ep_of st i of Some ep \<Rightarrow> ep_stream i ep | None \<Rightarrow> [])"

lemma put_endpoint_fields [simp]:
  "selects (put_endpoint i ep st) = selects st" "ipc_sched (put_endpoint i ep st) = ipc_sched st"
  "g_context_watches (put_endpoint i ep st) = g_context_watches st"
  "endpoints (put_endpoint i ep st) = idtable_put i ep (endpoints st)"
  by (simp_all add: put_endpoint_def)

lemma put_select_fields [simp]:
  "endpoints (put_select i s st) = endpoints st" "ipc_sched (put_select i s st) = ipc_sched st"
  "g_context_watches (put_select i s st) = g_context_watches st"
  "selects (put_select i s st) = idtable_put i s (selects st)"
  by (simp_all add: put_select_def)

lemma parked_live_put [simp]:
  assumes "ipc_inv st"
  shows "parked_live (put_endpoint i ep st) = parked_live st" "parked_live (put_select i s st) = parked_live st"
  using ipc_invD(1,2) [OF assms] by (auto simp: parked_live_def tables.get_put)

lemma put_endpoint_inv:
  assumes inv: "ipc_inv st" and ok: "ep_ok ep"
    and sub: "\<And>e. obj (endpoints st) i = Some e \<Longrightarrow> watching (poll_hub ep) \<subseteq> watching (poll_hub (body e))"
    and contacts: "\<And>e. obj (endpoints st) i = Some e \<Longrightarrow> set (contacts ep) \<subseteq> set (contacts (body e))
        \<union> {r. dead_endpoint r = i \<and> hg_owner r = h_owner (header e)}"
  shows "ipc_inv (put_endpoint i ep st)"
proof -
  have "contacts_ok e" if "obj (endpoints (put_endpoint i ep st)) j = Some e" for j e
    using that contacts ipc_invD(8) [OF inv] ipc_invD(1) [OF inv] obj_header [OF ipc_invD(1) [OF inv]]
    by (cases "j = i") (fastforce simp: tables.get_put contacts_ok_def)+
  moreover have "ep_ok (body e) \<and> hub_ok (selects st) j (body e)"
    if "obj (endpoints (put_endpoint i ep st)) j = Some e" for j e
    using that ok sub ipc_invD(5,6) [OF inv] ipc_invD(1) [OF inv]
    by (cases "j = i") (fastforce simp: tables.get_put hub_ok_def)+
  ultimately show ?thesis
    using inv ipc_invD [OF inv] tables.put_ok by (simp add: ipc_inv_def)
qed

lemma put_select_inv:
  assumes inv: "ipc_inv st" and ok: "select_ok sel"
    and sub: "\<And>f. obj (selects st) i = Some f \<Longrightarrow> set (ep_ids (body f)) \<subseteq> set (ep_ids sel)"
  shows "ipc_inv (put_select i sel st)"
proof -
  have s: "obj (idtable_put i sel (selects st)) j = (if j = i then map_option (\<lambda>e. e\<lparr>body := sel\<rparr>) (obj (selects st) i) else obj (selects st) j)" for j
    using ipc_invD(2) [OF inv] by (simp add: tables.get_put)
  have h: "hub_ok (idtable_put i sel (selects st)) j ep" if hub: "hub_ok (selects st) j ep" for j ep
    unfolding hub_ok_def
  proof
    fix x
    assume "x \<in> watching (poll_hub ep)"
    then obtain f where "obj (selects st) x = Some f" "j \<in> set (ep_ids (body f))"
      using hub by (auto simp: hub_ok_def)
    then show "\<exists>f. obj (idtable_put i sel (selects st)) x = Some f \<and> j \<in> set (ep_ids (body f))"
      using sub by (cases "x = i") (auto simp: s)
  qed
  have "select_ok (body f)" if "obj (idtable_put i sel (selects st)) j = Some f" for j f
    using that ok ipc_invD(7) [OF inv] by (auto simp: s split: if_splits)
  then show ?thesis
    using inv ipc_invD [OF inv] tables.put_ok h by (simp add: ipc_inv_def)
qed

lemma sched_upd_inv:
  assumes inv: "ipc_inv st" and s: "sched_inv s"
    and sub: "\<And>ev. wait_list s ev \<noteq> [] \<Longrightarrow> wait_list (ipc_sched st) ev \<noteq> []
        \<or> (\<exists>i. ev = EV_IPC i \<and> obj (endpoints st) i \<noteq> None) \<or> (\<exists>i. ev = EV_SELECT i \<and> obj (selects st) i \<noteq> None)"
  shows "ipc_inv (st\<lparr>ipc_sched := s\<rparr>)"
proof -
  have "obj (endpoints st) i \<noteq> None" if "wait_list s (EV_IPC i) \<noteq> []" for i
    using sub [OF that] ipc_invD(4) [OF inv] by (auto simp: parked_live_def)
  moreover have "obj (selects st) i \<noteq> None" if "wait_list s (EV_SELECT i) \<noteq> []" for i
    using sub [OF that] ipc_invD(4) [OF inv] by (auto simp: parked_live_def)
  ultimately show ?thesis
    using inv s by (simp add: ipc_inv_def parked_live_def)
qed

lemma wake_inv:
  assumes "ipc_inv st"
  shows "ipc_inv (st\<lparr>ipc_sched := snd (sched_event_wake_one ev data pend (ipc_sched st))\<rparr>)"
  using assms wake_one_inv [OF ipc_invD(3) [OF assms]] wake_one_lists [OF ipc_invD(3) [OF assms]]
  by (intro sched_upd_inv) (auto split: if_splits)

lemma signal_inv:
  assumes inv: "ipc_inv st"
  shows "ipc_inv (ipc_select_signal sel ep st)"
proof (cases "obj (selects st) sel")
  case (Some e)
  let ?s = "put_select sel ((body e)\<lparr>ready_ep := ep\<rparr>) st"
  have "ipc_inv ?s"
    using Some ipc_invD(7) [OF inv Some] by (intro put_select_inv [OF inv]) (auto simp: select_ok_def)
  from wake_inv [OF this] show ?thesis using Some by (simp add: ipc_select_signal_def)
qed (simp add: ipc_select_signal_def inv)

text \<open>What a signal leaves alone: everything but the latch of the set and the thread it wakes.\<close>

definition same_selects :: "ipc \<Rightarrow> ipc \<Rightarrow> bool" where
  "same_selects st st' \<longleftrightarrow>
     (\<forall>s. rel_option (\<lambda>f f'. header f' = header f \<and> ep_ids (body f') = ep_ids (body f)
            \<and> scan_cursor (body f') = scan_cursor (body f)) (obj (selects st) s) (obj (selects st') s))"

lemma same_selects_refl [simp]: "same_selects st st"
  by (simp add: same_selects_def option.rel_refl)

lemma same_selects_trans: "same_selects a b \<Longrightarrow> same_selects b c \<Longrightarrow> same_selects a c"
  unfolding same_selects_def
  by (metis (mono_tags, lifting) option.rel_sel)

lemma signal_frame:
  assumes inv: "ipc_inv st"
  shows "endpoints (ipc_select_signal sel ep st) = endpoints st
    \<and> g_context_watches (ipc_select_signal sel ep st) = g_context_watches st
    \<and> same_selects st (ipc_select_signal sel ep st)"
proof (cases "obj (selects st) sel")
  case (Some e)
  have "same_selects st (ipc_select_signal sel ep st)"
    using Some ipc_invD(2) [OF inv]
    by (auto simp: same_selects_def ipc_select_signal_def tables.get_put intro: option.rel_refl)
  then show ?thesis using Some by (simp add: ipc_select_signal_def)
qed (simp add: ipc_select_signal_def)

lemma notify_ok:
  assumes "ipc_inv st"
  shows "ipc_inv (poll_notify ipc_select_signal hub ev i st)
    \<and> endpoints (poll_notify ipc_select_signal hub ev i st) = endpoints st
    \<and> g_context_watches (poll_notify ipc_select_signal hub ev i st) = g_context_watches st
    \<and> same_selects st (poll_notify ipc_select_signal hub ev i st)"
proof -
  have "ipc_inv (fold (\<lambda>sel. ipc_select_signal sel i) ss st)
    \<and> endpoints (fold (\<lambda>sel. ipc_select_signal sel i) ss st) = endpoints st
    \<and> g_context_watches (fold (\<lambda>sel. ipc_select_signal sel i) ss st) = g_context_watches st
    \<and> same_selects st (fold (\<lambda>sel. ipc_select_signal sel i) ss st)" for ss
    using assms
  proof (induction ss arbitrary: st)
    case (Cons s ss)
    then show ?case
      using Cons.IH [OF signal_inv [OF Cons.prems, of s i]] signal_frame [OF Cons.prems, of s i]
      by (auto intro: same_selects_trans)
  qed simp
  then show ?thesis
    using assms by (cases hub) (simp_all add: notify_fold, simp add: poll_notify_def)
qed

subsection \<open>Each operation\<close>

lemma acquire_some:
  assumes "ipc_endpoint_acquire i ty st = Inr e"
  shows "obj (endpoints st) i = Some e" "ep_type (body e) = ty" "i \<noteq> 0" "i \<noteq> IPC_ENDPOINT_NONE"
  using assms
  by (auto simp: ipc_endpoint_acquire_def ipc_endpoint_get_def split: option.splits if_splits)

lemma acquire_owned_some:
  assumes "ipc_endpoint_acquire_owned i ty ctx st = Inr e"
  shows "obj (endpoints st) i = Some e" "ep_type (body e) = ty" "ctx = IPC_CONTEXT_KERNEL \<or> h_owner (header e) = ctx"
  using assms acquire_some [of i ty st e]
  by (auto simp: ipc_endpoint_acquire_owned_def split: sum.splits if_splits)

lemma acquire_owned_error:
  "ipc_endpoint_acquire_owned i ty ctx st = Inl rc \<Longrightarrow> rc \<in> {IPC_ERR_NOENT, IPC_ERR_UNSUPPORTED, IPC_ERR_PERM}"
  by (auto simp: ipc_endpoint_acquire_owned_def ipc_endpoint_acquire_def split: sum.splits option.splits if_splits)

lemma ep_of_put:
  "ipc_inv st \<Longrightarrow> ep_of (put_endpoint i ep st) j = (if j = i \<and> obj (endpoints st) i \<noteq> None then Some ep else ep_of st j)"
  using ipc_invD(1) by (auto simp: ep_of_def tables.get_put)

lemma owner_put:
  "ipc_inv st \<Longrightarrow> map_option header (obj (endpoints (put_endpoint i ep st)) j) = map_option header (obj (endpoints st) j)"
  using ipc_invD(1) by (simp add: tables.get_put option.map_comp comp_def)

lemma enqueue_ok:
  assumes inv: "ipc_inv st" and e: "obj (endpoints st) i = Some e" and ep: "ep_ok (ring_put i msg ep)"
    and hub: "poll_hub ep = poll_hub (body e)" and con: "contacts ep = contacts (body e)"
  shows "ipc_inv (ipc_endpoint_enqueue_locked i msg ep st)
    \<and> endpoints (ipc_endpoint_enqueue_locked i msg ep st) = idtable_put i (ring_put i msg ep) (endpoints st)
    \<and> g_context_watches (ipc_endpoint_enqueue_locked i msg ep st) = g_context_watches st
    \<and> same_selects st (ipc_endpoint_enqueue_locked i msg ep st)"
proof -
  let ?s1 = "put_endpoint i (ring_put i msg ep) st"
  let ?s2 = "?s1\<lparr>ipc_sched := snd (sched_event_wake_one (EV_IPC i) 0 SCHED_PEND_OK (ipc_sched ?s1))\<rparr>"
  have "ipc_inv ?s1"
    using ep e hub con by (intro put_endpoint_inv [OF inv]) auto
  then have "ipc_inv ?s2" by (rule wake_inv)
  from notify_ok [OF this, of "poll_hub ep" POLL_EV_IN i] show ?thesis
    by (simp add: ipc_endpoint_enqueue_locked_def same_selects_def)
qed

lemma enqueue_stream:
  assumes "ipc_inv st" and "obj (endpoints st) i = Some e" and "ep_ok ep" "count ep < IPC_QUEUE_SLOTS"
    and "poll_hub ep = poll_hub (body e)" "contacts ep = contacts (body e)"
  shows "stream (ipc_endpoint_enqueue_locked i msg ep st) j
         = (if j = i then ep_stream i ep @ [msg\<lparr>destination := i\<rparr>] else stream st j)"
  using enqueue_ok [OF assms(1,2) ep_put_ok(1) [OF assms(3,4)] assms(5,6), of msg] ep_put_ok(2) [OF assms(3,4)] ipc_invD(1) [OF assms(1)] assms(2)
  by (simp add: stream_def ep_of_def tables.get_put)

lemma dequeue_ok:
  assumes inv: "ipc_inv st" and e: "obj (endpoints st) i = Some e" and ne: "count (body e) \<noteq> 0"
    and d: "ipc_endpoint_dequeue_locked i (body e) st = (m, st')"
  shows "ipc_inv st' \<and> endpoints st' = idtable_put i (snd (ep_take i (body e))) (endpoints st) \<and> m = fst (ep_take i (body e))
    \<and> g_context_watches st' = g_context_watches st \<and> same_selects st st'"
proof -
  obtain x ep1 where t: "ring_take (body e) = (x, ep1)" by force
  have f: "pending_hangups ep1 = pending_hangups (body e)" "poll_hub ep1 = poll_hub (body e)" "count ep1 = count (body e) - 1"
    using ring_take_fields [of "body e"] t by simp_all
  have ok: "ep_ok (body e)" using ipc_invD(5) [OF inv e] .
  have r: "ring_ok ep1" "contact_count ep1 = contact_count (body e)" "contacts ep1 = contacts (body e)"
    using ring_take_msgs(1) [of "body e"] ok ne t ring_take_fields [of "body e"] by (simp_all add: ep_ok_def)
  show ?thesis
  proof (cases "pending_hangups (body e)")
    case Nil
    have "ep_ok ep1" using ep_take_ok(1) [OF ok ne, of i] t f Nil by (simp add: ep_take_def)
    then have "ipc_inv (put_endpoint i ep1 st)" using f e r(3) by (intro put_endpoint_inv [OF inv]) auto
    then show ?thesis
      using d t f Nil by (auto simp: ipc_endpoint_dequeue_locked_def ep_take_def same_selects_def option.rel_refl)
  next
    case (Cons h hs)
    have "ep_ok (ring_put i (ipc_hangup_message h) (ep1\<lparr>pending_hangups := hs\<rparr>))"
      using ep_take_ok(1) [OF ok ne, of i] t f Cons by (simp add: ep_take_def)
    then show ?thesis
      using enqueue_ok [OF inv e, of "ipc_hangup_message h" "ep1\<lparr>pending_hangups := hs\<rparr>"] f r(3) d t Cons
      by (auto simp: ipc_endpoint_dequeue_locked_def ep_take_def)
  qed
qed

lemma dequeue_stream:
  assumes inv: "ipc_inv st" and e: "obj (endpoints st) i = Some e" and ne: "count (body e) \<noteq> 0"
    and d: "ipc_endpoint_dequeue_locked i (body e) st = (m, st')"
  shows "stream st i = m # stream st' i" and "j \<noteq> i \<Longrightarrow> stream st' j = stream st j"
  using dequeue_ok [OF inv e ne d] ep_take_ok(2) [OF ipc_invD(5) [OF inv e] ne, of i] ipc_invD(1) [OF inv] e
  by (auto simp: stream_def ep_of_def tables.get_put)

text \<open>Recording a contact touches only the contacts and the overflow mark of the source.\<close>

lemma note_contact_put:
  assumes inv: "ipc_inv st" and e: "obj (endpoints st) src = Some e" and ok: "ep_ok ep"
    and same: "poll_hub ep = poll_hub (body e)" "queue ep = queue (body e)" "head ep = head (body e)"
      "count ep = count (body e)" "pending_hangups ep = pending_hangups (body e)"
    and con: "set (contacts ep) \<subseteq> set (contacts (body e)) \<union> {r. dead_endpoint r = src \<and> hg_owner r = h_owner (header e)}"
  shows "ipc_inv (put_endpoint src ep st)" and "stream (put_endpoint src ep st) = stream st"
proof -
  show "ipc_inv (put_endpoint src ep st)"
    using ok e same con by (intro put_endpoint_inv [OF inv]) auto
  have "ep_stream src ep = ep_stream src (body e)"
    using same by (simp add: ep_stream_def ep_msgs_def)
  moreover have "ep_of st src = Some (body e)" using e by (simp add: ep_of_def)
  ultimately show "stream (put_endpoint src ep st) = stream st"
    using e by (simp add: stream_def ep_of_put [OF inv] fun_eq_iff)
qed

lemma ep_ok_overflow: "ep_ok ep \<Longrightarrow> ep_ok (ep\<lparr>contacts_overflowed := b\<rparr>)"
  by (simp add: ep_ok_def ring_ok_def)

lemma ep_ok_contact:
  assumes "ep_ok ep" and "\<not> ipc_endpoint_has_contact ep dst" and "contact_count ep < IPC_ENDPOINT_CONTACTS_MAX"
    and "hg_destination r = dst"
  shows "ep_ok (ep\<lparr>contacts := r # contacts ep, contact_count := contact_count ep + 1\<rparr>)"
  using assms by (auto simp: ep_ok_def ring_ok_def ipc_endpoint_has_contact_def list_ex_iff)

lemma note_check_ok:
  assumes inv: "ipc_inv st" and c: "note_contact_check src dst st = (go, st')"
  shows "ipc_inv st' \<and> stream st' = stream st"
proof -
  have "ipc_inv (put_endpoint src ((body e)\<lparr>contacts_overflowed := True\<rparr>) st)
      \<and> stream (put_endpoint src ((body e)\<lparr>contacts_overflowed := True\<rparr>) st) = stream st"
    if "ipc_endpoint_acquire src IPC_ENDPOINT_TYPE_MESSAGE st = Inr e" for e
    using note_contact_put [OF inv acquire_some(1) [OF that] ep_ok_overflow [OF ipc_invD(5) [OF inv acquire_some(1) [OF that]], of True]]
    by simp
  then show ?thesis
    using c inv by (auto simp: note_contact_check_def split: sum.splits if_splits)
qed

lemma note_record_ok:
  assumes inv: "ipc_inv st"
  shows "ipc_inv (note_contact_record mem src dst st) \<and> stream (note_contact_record mem src dst st) = stream st"
proof (cases "ipc_endpoint_acquire src IPC_ENDPOINT_TYPE_MESSAGE st")
  case (Inr e)
  note e = acquire_some(1) [OF Inr]
  have ok: "ep_ok (body e)" using ipc_invD(5) [OF inv e] .
  have "ep_ok ((body e)\<lparr>contacts := \<lparr>hg_destination = dst, dead_endpoint = src, hg_owner = h_owner (header e)\<rparr> # contacts (body e),
                     contact_count := contact_count (body e) + 1\<rparr>)"
    if "\<not> ipc_endpoint_has_contact (body e) dst" "contact_count (body e) < IPC_ENDPOINT_CONTACTS_MAX"
    by (rule ep_ok_contact [OF ok that]) simp
  then show ?thesis
    using Inr inv note_contact_put [OF inv e] ep_ok_overflow [OF ok]
    by (auto simp: note_contact_record_def Let_def not_le)
qed (simp add: note_contact_record_def inv)

lemma note_contact_ok:
  assumes inv: "ipc_inv st"
  shows "ipc_inv (ipc_endpoint_note_contact mem src dst st) \<and> stream (ipc_endpoint_note_contact mem src dst st) = stream st"
proof -
  obtain go st1 where c: "note_contact_check src dst st = (go, st1)" by force
  have "ipc_inv st1" "stream st1 = stream st" using note_check_ok [OF inv c] by auto
  then show ?thesis
    using note_record_ok [of st1 mem src dst] c by (cases go) (auto simp: ipc_endpoint_note_contact_def)
qed

lemma send_ok:
  assumes inv: "ipc_inv st" and s: "ipc_send_from mem sender endpoint msg st = (rc, st')"
  shows "ipc_inv st'
    \<and> stream st' = (if rc = IPC_OK then (stream st)(endpoint := stream st endpoint @ [msg\<lparr>destination := endpoint\<rparr>])
                    else stream st)
    \<and> (rc = IPC_OK \<longrightarrow> length (stream st endpoint) < IPC_QUEUE_DEPTH)
    \<and> (rc = IPC_ERR_FULL \<longrightarrow> IPC_QUEUE_DEPTH \<le> length (stream st endpoint))"
proof (cases "send_permitted sender msg st")
  case False
  then show ?thesis using s inv by (auto simp: ipc_send_from_def ipc_codes)
next
  case perm: True
  show ?thesis
  proof (cases "ipc_endpoint_acquire endpoint IPC_ENDPOINT_TYPE_MESSAGE st")
    case (Inl c)
    then have "c = IPC_ERR_NOENT \<or> c = IPC_ERR_UNSUPPORTED"
      by (auto simp: ipc_endpoint_acquire_def split: option.splits if_splits)
    then show ?thesis using s inv perm Inl by (auto simp: ipc_send_from_def ipc_codes)
  next
    case (Inr e)
    note e = acquire_some(1) [OF Inr]
    have ok: "ep_ok (body e)" using ipc_invD(5) [OF inv e] .
    have str: "stream st endpoint = ep_stream endpoint (body e)" using e by (simp add: stream_def ep_of_def)
    show ?thesis
    proof (cases "IPC_QUEUE_DEPTH \<le> count (body e)")
      case True
      let ?ep = "(body e)\<lparr>refused_count := add32 (refused_count (body e)) 1, last_refused_type := msg_type msg,
                           last_refused_request_id := request_id msg, last_refused_source := source msg\<rparr>"
      have "ep_ok ?ep" using ok by (simp add: ep_ok_def ring_ok_def)
      from note_contact_put [OF inv e this] show ?thesis
        using s perm Inr True str by (auto simp: ipc_send_from_def ipc_codes ep_stream_def Let_def)
    next
      case False
      then have c: "count (body e) < IPC_QUEUE_SLOTS" by (simp add: IPC_QUEUE_SLOTS_def)
      have p: "pending_hangups (body e) = []" using ok c by (auto simp: ep_ok_def)
      let ?st = "ipc_endpoint_enqueue_locked endpoint msg (body e) st"
      have st: "ipc_inv ?st" "stream ?st = (stream st)(endpoint := stream st endpoint @ [msg\<lparr>destination := endpoint\<rparr>])"
        using enqueue_ok [OF inv e ep_put_ok(1) [OF ok c] refl refl, of msg] enqueue_stream [OF inv e ok c refl refl, of msg] str
        by (auto simp: fun_eq_iff)
      then show ?thesis
        using s perm Inr False note_contact_ok [OF st(1), of mem "source msg" endpoint] str p
        by (auto simp: ipc_send_from_def ipc_codes ep_stream_def Let_def)
    qed
  qed
qed

text \<open>What an accepted send did.\<close>

lemma send_accepted:
  assumes inv: "ipc_inv st" and s: "ipc_send_from mem sender i msg st = (IPC_OK, st')"
  obtains e where "ipc_endpoint_acquire i IPC_ENDPOINT_TYPE_MESSAGE st = Inr e" "obj (endpoints st) i = Some e"
    "count (body e) < IPC_QUEUE_DEPTH" "ep_ok (ring_put i msg (body e))"
    "st' = ipc_endpoint_note_contact mem (source msg) i (ipc_endpoint_enqueue_locked i msg (body e) st)"
proof -
  have perm: "send_permitted sender msg st" using s by (auto simp: ipc_send_from_def ipc_codes split: if_splits)
  obtain e where a: "ipc_endpoint_acquire i IPC_ENDPOINT_TYPE_MESSAGE st = Inr e" and lt: "count (body e) < IPC_QUEUE_DEPTH"
    using s by (auto simp: ipc_send_from_def Let_def ipc_codes ipc_endpoint_acquire_def split: if_splits option.splits)
  have "ep_ok (ring_put i msg (body e))"
    using ep_put_ok(1) [OF ipc_invD(5) [OF inv acquire_some(1) [OF a]]] lt by (simp add: IPC_QUEUE_SLOTS_def)
  moreover have "st' = ipc_endpoint_note_contact mem (source msg) i (ipc_endpoint_enqueue_locked i msg (body e) st)"
    using s a lt perm by (simp add: ipc_send_from_def Let_def)
  ultimately show thesis using that a lt acquire_some(1) [OF a] by blast
qed

lemma recv_ok:
  assumes inv: "ipc_inv st" and r: "ipc_recv_for receiver endpoint st = (rc, m, st')"
  shows "ipc_inv st'
    \<and> (if rc = IPC_OK then \<exists>x. m = Some x \<and> stream st endpoint = x # stream st' endpoint
                              \<and> (\<forall>j. j \<noteq> endpoint \<longrightarrow> stream st' j = stream st j)
       else m = None \<and> st' = st)
    \<and> (rc = IPC_EMPTY \<longrightarrow> stream st endpoint = [])"
proof (cases "ipc_endpoint_acquire_owned endpoint IPC_ENDPOINT_TYPE_MESSAGE receiver st")
  case (Inl c)
  then show ?thesis using r inv acquire_owned_error [OF Inl] by (auto simp: ipc_recv_for_def ipc_codes)
next
  case (Inr e)
  note e = acquire_owned_some(1) [OF Inr]
  show ?thesis
  proof (cases "count (body e) = 0")
    case True
    then have "pending_hangups (body e) = []"
      using ipc_invD(5) [OF inv e] by (auto simp: ep_ok_def IPC_QUEUE_SLOTS_def)
    then have "stream st endpoint = []"
      using e True by (simp add: stream_def ep_of_def ep_stream_def ep_msgs_def)
    then show ?thesis using r inv Inr True by (auto simp: ipc_recv_for_def ipc_codes)
  next
    case False
    obtain x st1 where d: "ipc_endpoint_dequeue_locked endpoint (body e) st = (x, st1)" by force
    then have e': "rc = IPC_OK" "m = Some x" "st' = st1"
      using r Inr False by (simp_all add: ipc_recv_for_def)
    have ne: "IPC_OK \<noteq> IPC_EMPTY" by (simp add: ipc_codes)
    have "\<forall>j. j \<noteq> endpoint \<longrightarrow> stream st1 j = stream st j"
      using dequeue_stream(2) [OF inv e False d] by blast
    then show ?thesis
      unfolding e' if_P [OF refl] using ne dequeue_ok [OF inv e False d] dequeue_stream(1) [OF inv e False d]
      by blast
  qed
qed

subsection \<open>An example state\<close>

text \<open>
  Three endpoints - 1 of context 5, and 2 and the notification endpoint 3 of context 7 - and the
  empty select set 1 of context 7.
\<close>

definition demo_ipc :: ipc where
  "demo_ipc =
     \<lparr>endpoints = table_of [new_elem 1 5 zero_endpoint, new_elem 2 7 zero_endpoint,
                  new_elem 3 7 (zero_endpoint\<lparr>ep_type := IPC_ENDPOINT_TYPE_NOTIFICATION\<rparr>)],
      selects = table_of [new_elem 1 7 (zero_select\<lparr>ready_ep := IPC_ENDPOINT_NONE\<rparr>)],
      g_context_watches = [], ipc_sched = demo_sched\<rparr>"

lemma demo_tables_ok: "idtable_ok (endpoints demo_ipc)" "idtable_ok (selects demo_ipc)"
  by (simp_all add: demo_ipc_def table_of_ok new_elem_def upt_rec IDTABLE_ID_NONE_def)

lemma demo_objs:
  "obj (endpoints demo_ipc) i =
     (if i = 1 then Some (new_elem 1 5 zero_endpoint) else if i = 2 then Some (new_elem 2 7 zero_endpoint)
      else if i = 3 then Some (new_elem 3 7 (zero_endpoint\<lparr>ep_type := IPC_ENDPOINT_TYPE_NOTIFICATION\<rparr>)) else None)"
  "obj (selects demo_ipc) i =
     (if i = 1 then Some (new_elem 1 7 (zero_select\<lparr>ready_ep := IPC_ENDPOINT_NONE\<rparr>)) else None)"
  using demo_tables_ok by (simp_all add: demo_ipc_def obj_table_of new_elem_def)

lemma demo_ipc_inv: "ipc_inv demo_ipc"
proof -
  have "wait_list (ipc_sched demo_ipc) ev = []" "sched_inv (ipc_sched demo_ipc)" for ev
    using sched_idle_inv [OF demo_sched_idle] by (simp_all add: demo_ipc_def) (simp add: demo_sched_def)
  moreover have "ep_ok (zero_endpoint\<lparr>ep_type := ty\<rparr>)" "poll_hub zero_endpoint = None" "contacts zero_endpoint = []" for ty
    using zero_endpoint_ok(1) by (simp_all add: ep_ok_def ring_ok_def zero_endpoint_def)
  ultimately show ?thesis
    using demo_tables_ok zero_endpoint_ok(1)
    by (auto simp: ipc_inv_def demo_objs new_elem_def hub_ok_def contacts_ok_def parked_live_def select_ok_def zero_select_def
        split: if_splits)
qed

end
