(* ===== verification/Ipc_channel.thy ===== *)
theory Ipc_channel
  imports Ipc
begin

section \<open>Message passing refines a set of bounded channels\<close>

text \<open>
  The contract of \<open>ipc_send_from\<close> and \<open>ipc_recv_for\<close> (\<open>src/kernel/ipc.c\<close>) without rings, locks,
  watchers or contacts: a directory of endpoints with an owner and a type, and one sequence of
  messages per endpoint.  Each call of the code is one step of the specification with the same
  result code, errors included.
\<close>

type_synonym directory = "nat \<Rightarrow> (nat \<times> ipc_endpoint_type) option"
type_synonym channels = "directory \<times> (nat \<Rightarrow> ipc_message list)"

definition dir :: "ipc \<Rightarrow> directory" where
  "dir st i = map_option (\<lambda>e. (h_owner (header e), ep_type (body e))) (obj (endpoints st) i)"

definition channels_of :: "ipc \<Rightarrow> channels" where
  "channels_of st = (dir st, stream st)"

definition sender_ok :: "directory \<Rightarrow> nat \<Rightarrow> ipc_message \<Rightarrow> bool" where
  "sender_ok d sender msg \<longleftrightarrow>
     sender = IPC_CONTEXT_KERNEL
     \<or> msg_type msg \<noteq> WASMOS_IPC_HANGUP \<and> map_option fst (d (source msg)) = Some sender"

definition channel_send :: "nat \<Rightarrow> nat \<Rightarrow> ipc_message \<Rightarrow> channels \<Rightarrow> int \<times> channels" where
  "channel_send sender i msg c =
     (case c of (d, q) \<Rightarrow>
        if \<not> sender_ok d sender msg then (IPC_ERR_PERM, c)
        else case d i of
               None \<Rightarrow> (IPC_ERR_NOENT, c)
             | Some (_, IPC_ENDPOINT_TYPE_NOTIFICATION) \<Rightarrow> (IPC_ERR_UNSUPPORTED, c)
             | Some (_, IPC_ENDPOINT_TYPE_MESSAGE) \<Rightarrow>
                 if IPC_QUEUE_DEPTH \<le> length (q i) then (IPC_ERR_FULL, c)
                 else (IPC_OK, (d, q(i := q i @ [msg\<lparr>destination := i\<rparr>]))))"

definition channel_recv :: "nat \<Rightarrow> nat \<Rightarrow> channels \<Rightarrow> int \<times> ipc_message option \<times> channels" where
  "channel_recv receiver i c =
     (case c of (d, q) \<Rightarrow>
        case d i of
          None \<Rightarrow> (IPC_ERR_NOENT, None, c)
        | Some (_, IPC_ENDPOINT_TYPE_NOTIFICATION) \<Rightarrow> (IPC_ERR_UNSUPPORTED, None, c)
        | Some (own, IPC_ENDPOINT_TYPE_MESSAGE) \<Rightarrow>
            if receiver \<noteq> IPC_CONTEXT_KERNEL \<and> own \<noteq> receiver then (IPC_ERR_PERM, None, c)
            else case q i of
                   [] \<Rightarrow> (IPC_EMPTY, None, c)
                 | x # xs \<Rightarrow> (IPC_OK, Some x, (d, q(i := xs))))"

subsection \<open>The directory does not change\<close>

lemma valid_id_names: "valid_id i \<Longrightarrow> i \<noteq> 0 \<and> i \<noteq> IPC_ENDPOINT_NONE"
  by (simp add: valid_id_def IPC_ENDPOINT_NONE_def IDTABLE_ID_NONE_def)

lemma endpoint_get_obj: "ipc_inv st \<Longrightarrow> ipc_endpoint_get i st = obj (endpoints st) i"
  using obj_header [OF ipc_invD(1), of st i] valid_id_names [of i]
  by (cases "obj (endpoints st) i") (auto simp: ipc_endpoint_get_def)

lemma owner_context_dir:
  "ipc_inv st \<Longrightarrow> ipc_endpoint_owner_context i st = (case dir st i of Some (own, _) \<Rightarrow> own | None \<Rightarrow> 0)"
  using obj_header [OF ipc_invD(1), of st i] valid_id_names [of i]
  by (cases "obj (endpoints st) i") (auto simp: ipc_endpoint_owner_context_def dir_def)

lemma send_permitted_dir:
  assumes inv: "ipc_inv st"
  shows "send_permitted sender msg st = sender_ok (dir st) sender msg"
proof -
  have "dir st IPC_ENDPOINT_NONE = None"
    using obj_header [OF ipc_invD(1) [OF inv], of IPC_ENDPOINT_NONE] valid_id_names [of IPC_ENDPOINT_NONE]
    by (cases "obj (endpoints st) IPC_ENDPOINT_NONE") (auto simp: dir_def)
  then show ?thesis
    by (auto simp: send_permitted_def sender_ok_def owner_context_dir [OF inv] IPC_CONTEXT_KERNEL_def
        split: option.splits)
qed

lemma dir_put:
  "\<lbrakk>ipc_inv st; obj (endpoints st) i = Some e; ep_type ep = ep_type (body e)\<rbrakk>
   \<Longrightarrow> dir (put_endpoint i ep st) = dir st"
  using ipc_invD(1) by (auto simp: dir_def fun_eq_iff tables.get_put)

lemma dir_endpoints: "endpoints st' = endpoints (put_endpoint i ep st) \<Longrightarrow> dir st' = dir (put_endpoint i ep st)"
  by (simp add: dir_def fun_eq_iff)

lemma note_record_dir:
  assumes inv: "ipc_inv st"
  shows "dir (note_contact_record mem src dst st) = dir st"
  using acquire_some(1) [of src IPC_ENDPOINT_TYPE_MESSAGE st]
  by (auto simp: note_contact_record_def Let_def dir_put [OF inv] split: sum.splits)

lemma note_contact_dir:
  assumes inv: "ipc_inv st"
  shows "dir (ipc_endpoint_note_contact mem src dst st) = dir st"
proof -
  obtain go st1 where c: "note_contact_check src dst st = (go, st1)" by force
  have "dir st1 = dir st"
    using c acquire_some(1) [of src IPC_ENDPOINT_TYPE_MESSAGE st]
    by (auto simp: note_contact_check_def dir_put [OF inv] split: sum.splits if_splits)
  then show ?thesis
    using note_check_ok [OF inv c] note_record_dir [of st1 mem src dst] c
    by (cases go) (auto simp: ipc_endpoint_note_contact_def)
qed

lemma enqueue_dir:
  assumes inv: "ipc_inv st" and e: "obj (endpoints st) i = Some e" and ep: "ep_ok (ring_put i msg ep)"
    and "poll_hub ep = poll_hub (body e)" "contacts ep = contacts (body e)" and "ep_type ep = ep_type (body e)"
  shows "dir (ipc_endpoint_enqueue_locked i msg ep st) = dir st"
  using dir_endpoints [of "ipc_endpoint_enqueue_locked i msg ep st" i "ring_put i msg ep" st]
    enqueue_ok [OF assms(1-5)] dir_put [OF inv e, of "ring_put i msg ep"] assms(6)
  by simp

lemma ep_take_type: "ep_type (snd (ep_take i ep)) = ep_type ep"
  by (simp add: ep_take_def ring_take_def split: list.split prod.split)

lemma dequeue_dir:
  assumes inv: "ipc_inv st" and e: "obj (endpoints st) i = Some e" and ne: "count (body e) \<noteq> 0"
    and d: "ipc_endpoint_dequeue_locked i (body e) st = (m, st')"
  shows "dir st' = dir st"
  using dir_endpoints [of st' i "snd (ep_take i (body e))" st] dequeue_ok [OF inv e ne d]
    dir_put [OF inv e, of "snd (ep_take i (body e))"]
  by (simp add: ep_take_type)

lemma send_dir:
  assumes inv: "ipc_inv st" and s: "ipc_send_from mem sender i msg st = (rc, st')"
  shows "dir st' = dir st"
proof (cases "\<exists>e. ipc_endpoint_acquire i IPC_ENDPOINT_TYPE_MESSAGE st = Inr e \<and> count (body e) < IPC_QUEUE_DEPTH")
  case True
  then obtain e where a: "ipc_endpoint_acquire i IPC_ENDPOINT_TYPE_MESSAGE st = Inr e" and lt: "count (body e) < IPC_QUEUE_DEPTH"
    by blast
  note e = acquire_some(1) [OF a]
  have put: "ep_ok (ring_put i msg (body e))"
    using ep_put_ok(1) [OF ipc_invD(5) [OF inv e]] lt by (simp add: IPC_QUEUE_SLOTS_def)
  show ?thesis
    using s a lt enqueue_dir [OF inv e put refl refl refl] enqueue_ok [OF inv e put refl refl]
      note_contact_dir [of "ipc_endpoint_enqueue_locked i msg (body e) st" mem "source msg" i]
    by (auto simp: ipc_send_from_def Let_def split: if_splits)
next
  case False
  then show ?thesis
    using s acquire_some(1) [of i IPC_ENDPOINT_TYPE_MESSAGE st]
    by (auto simp: ipc_send_from_def Let_def dir_put [OF inv] not_less split: sum.splits if_splits)
qed

subsection \<open>The refinement\<close>

lemma acquire_dir:
  assumes inv: "ipc_inv st"
  shows "ipc_endpoint_acquire i ty st =
    (case dir st i of
       None \<Rightarrow> Inl IPC_ERR_NOENT
     | Some (_, t) \<Rightarrow> if t \<noteq> ty then Inl IPC_ERR_UNSUPPORTED else Inr (the (obj (endpoints st) i)))"
  by (auto simp: ipc_endpoint_acquire_def endpoint_get_obj [OF inv] dir_def split: option.splits)

lemma stream_room:
  assumes inv: "ipc_inv st" and e: "obj (endpoints st) i = Some e"
  shows "IPC_QUEUE_DEPTH \<le> length (stream st i) \<longleftrightarrow> IPC_QUEUE_DEPTH \<le> count (body e)"
    and "stream st i = [] \<longleftrightarrow> count (body e) = 0"
  using ipc_invD(5) [OF inv e] e
  by (auto simp: stream_def ep_of_def ep_stream_def ep_msgs_def ep_ok_def IPC_QUEUE_SLOTS_def)

lemma send_code:
  assumes inv: "ipc_inv st"
  shows "fst (ipc_send_from mem sender i msg st) = fst (channel_send sender i msg (channels_of st))"
proof (cases "dir st i")
  case None
  then show ?thesis
    by (simp add: ipc_send_from_def channel_send_def channels_of_def send_permitted_dir [OF inv] acquire_dir [OF inv])
next
  case (Some ot)
  then obtain own ty e where e: "ot = (own, ty)" "obj (endpoints st) i = Some e" "ep_type (body e) = ty"
    by (auto simp: dir_def)
  then show ?thesis
    using Some stream_room(1) [OF inv e(2)]
    by (cases ty) (auto simp: ipc_send_from_def channel_send_def channels_of_def send_permitted_dir [OF inv]
        acquire_dir [OF inv] Let_def)
qed

lemma channel_send_codes:
  "snd (channel_send sender i msg (d, q)) =
     (if fst (channel_send sender i msg (d, q)) = IPC_OK then (d, q(i := q i @ [msg\<lparr>destination := i\<rparr>])) else (d, q))"
  by (auto simp: channel_send_def ipc_codes split: option.split ipc_endpoint_type.split)

lemma send_refines:
  assumes inv: "ipc_inv st" and s: "ipc_send_from mem sender i msg st = (rc, st')"
  shows "ipc_inv st'" and "(rc, channels_of st') = channel_send sender i msg (channels_of st)"
proof -
  show "ipc_inv st'" using send_ok [OF inv s] by simp
  have rc: "rc = fst (channel_send sender i msg (channels_of st))"
    using send_code [OF inv, of mem sender i msg] s by simp
  moreover have "channels_of st' = snd (channel_send sender i msg (channels_of st))"
    using send_ok [OF inv s] send_dir [OF inv s] channel_send_codes [of sender i msg "dir st" "stream st"] rc
    by (simp add: channels_of_def)
  ultimately show "(rc, channels_of st') = channel_send sender i msg (channels_of st)" by simp
qed

lemma recv_code:
  assumes inv: "ipc_inv st"
  shows "fst (ipc_recv_for receiver i st) = fst (channel_recv receiver i (channels_of st))"
proof (cases "dir st i")
  case None
  then show ?thesis
    by (simp add: ipc_recv_for_def channel_recv_def channels_of_def ipc_endpoint_acquire_owned_def acquire_dir [OF inv])
next
  case (Some ot)
  then obtain own ty e where e: "ot = (own, ty)" "obj (endpoints st) i = Some e" "ep_type (body e) = ty"
    "h_owner (header e) = own"
    by (auto simp: dir_def)
  then show ?thesis
    using Some stream_room(2) [OF inv e(2)]
    by (cases ty) (auto simp: ipc_recv_for_def channel_recv_def channels_of_def ipc_endpoint_acquire_owned_def
        acquire_dir [OF inv] split: list.split prod.split)
qed

lemma recv_dir:
  assumes inv: "ipc_inv st" and r: "ipc_recv_for receiver i st = (rc, m, st')"
  shows "dir st' = dir st"
  using r dequeue_dir [OF inv acquire_owned_some(1)]
  by (auto simp: ipc_recv_for_def split: sum.splits if_splits prod.splits)

lemma channel_recv_codes:
  "snd (channel_recv receiver i (d, q)) =
     (if fst (channel_recv receiver i (d, q)) = IPC_OK then (Some (hd (q i)), (d, q(i := tl (q i)))) else (None, (d, q)))"
  by (auto simp: channel_recv_def ipc_codes split: option.split ipc_endpoint_type.split list.split)

lemma recv_refines:
  assumes inv: "ipc_inv st" and r: "ipc_recv_for receiver i st = (rc, m, st')"
  shows "ipc_inv st'" and "(rc, m, channels_of st') = channel_recv receiver i (channels_of st)"
proof -
  show "ipc_inv st'" using recv_ok [OF inv r] by simp
  have rc: "rc = fst (channel_recv receiver i (channels_of st))"
    using recv_code [OF inv, of receiver i] r by simp
  have "(m, channels_of st') = snd (channel_recv receiver i (channels_of st))"
  proof (cases "rc = IPC_OK")
    case True
    then obtain x where x: "m = Some x" "stream st i = x # stream st' i" "\<forall>j. j \<noteq> i \<longrightarrow> stream st' j = stream st j"
      using recv_ok [OF inv r] by auto
    then have "stream st' = (stream st)(i := tl (stream st i))" "hd (stream st i) = x"
      by (auto simp: fun_eq_iff)
    then show ?thesis
      using True x(1) rc channel_recv_codes [of receiver i "dir st" "stream st"] recv_dir [OF inv r]
      by (simp add: channels_of_def)
  next
    case False
    then show ?thesis
      using recv_ok [OF inv r] rc channel_recv_codes [of receiver i "dir st" "stream st"]
      by (simp add: channels_of_def)
  qed
  then show "(rc, m, channels_of st') = channel_recv receiver i (channels_of st)" using rc by simp
qed

text \<open>
  C20. Sending and receiving implement the channel specification: for every sender, destination,
  message and receiver the code answers with the result the specification gives - a refused sender,
  a missing or mistyped endpoint, a full or empty queue, or success - and changes the directory and
  the message sequences exactly as the specification does, while the invariant is kept.
\<close>

theorem ipc_refines_channels:
  assumes "ipc_inv st"
  shows "(case ipc_send_from mem sender i msg st of (rc, st') \<Rightarrow>
            ipc_inv st' \<and> (rc, channels_of st') = channel_send sender i msg (channels_of st))
       \<and> (case ipc_recv_for receiver j st of (rc, m, st') \<Rightarrow>
            ipc_inv st' \<and> (rc, m, channels_of st') = channel_recv receiver j (channels_of st))"
  using send_refines [OF assms] recv_refines [OF assms] by (auto split: prod.splits)

definition demo_msg :: ipc_message where
  "demo_msg = zero_message\<lparr>source := 1, request_id := 9\<rparr>"

lemma demo_channels:
  "dir demo_ipc 1 = Some (5, IPC_ENDPOINT_TYPE_MESSAGE)" "dir demo_ipc 2 = Some (7, IPC_ENDPOINT_TYPE_MESSAGE)"
  "dir demo_ipc 3 = Some (7, IPC_ENDPOINT_TYPE_NOTIFICATION)" "stream demo_ipc i = []"
  "dir demo_ipc (Suc 0) = Some (5, IPC_ENDPOINT_TYPE_MESSAGE)"
  by (simp_all add: dir_def demo_objs new_elem_def stream_def ep_of_def zero_endpoint_ok)
     (simp_all add: zero_endpoint_def ep_stream_def ep_msgs_def)

lemmas demo_channel_simps = channel_send_def channel_recv_def channels_of_def demo_channels sender_ok_def demo_msg_def
  zero_message_def WASMOS_IPC_HANGUP_def IPC_CONTEXT_KERNEL_def IPC_QUEUE_DEPTH_def

theorem ipc_refines_channels_witness:
  "(case ipc_send_from True 5 2 demo_msg demo_ipc of
      (rc, st') \<Rightarrow> rc = IPC_OK \<and> ipc_inv st' \<and> stream st' 2 = [demo_msg\<lparr>destination := 2\<rparr>])
   \<and> fst (ipc_recv_for 5 2 demo_ipc) = IPC_ERR_PERM"
  using ipc_refines_channels [OF demo_ipc_inv, where mem = True and sender = 5 and i = 2 and msg = demo_msg and receiver = 5 and j = 2]
  by (auto simp: demo_channel_simps)

subsection \<open>Runs\<close>

datatype ipc_call = Send bool nat nat ipc_message | Receive nat nat

text \<open>The messages endpoint \<open>i\<close> accepted and the messages received from it, over a sequence of calls.\<close>

fun ipc_trace :: "nat \<Rightarrow> ipc_call list \<Rightarrow> ipc \<Rightarrow> ipc_message list \<times> ipc_message list \<times> ipc" where
  "ipc_trace i [] st = ([], [], st)"
| "ipc_trace i (Send mem sender e msg # cs) st =
     (case ipc_send_from mem sender e msg st of (rc, st1) \<Rightarrow>
        case ipc_trace i cs st1 of (acc, got, st2) \<Rightarrow>
          (if rc = IPC_OK \<and> e = i then msg\<lparr>destination := i\<rparr> # acc else acc, got, st2))"
| "ipc_trace i (Receive receiver e # cs) st =
     (case ipc_recv_for receiver e st of (rc, m, st1) \<Rightarrow>
        case ipc_trace i cs st1 of (acc, got, st2) \<Rightarrow>
          (acc, if rc = IPC_OK \<and> e = i then the m # got else got, st2))"

lemma channel_send_sender:
  "fst (channel_send sender i msg (d, q)) = IPC_OK \<Longrightarrow> sender_ok d sender msg"
  by (auto simp: channel_send_def ipc_codes split: if_splits)

text \<open>A message that a call of the sequence submitted, by a sender entitled to it.\<close>

definition submitted :: "directory \<Rightarrow> nat \<Rightarrow> ipc_call list \<Rightarrow> ipc_message \<Rightarrow> bool" where
  "submitted d i cs m \<longleftrightarrow>
     (\<exists>mem sender msg. Send mem sender i msg \<in> set cs \<and> m = msg\<lparr>destination := i\<rparr> \<and> sender_ok d sender msg)"

lemma submitted_Cons: "submitted d i cs m \<Longrightarrow> submitted d i (c # cs) m"
  unfolding submitted_def by (metis list.set_intros(2))

lemma trace_ok:
  assumes "ipc_inv st" and "ipc_trace i cs st = (acc, got, st')"
  shows "ipc_inv st' \<and> dir st' = dir st \<and> stream st i @ acc = got @ stream st' i
    \<and> (\<forall>m \<in> set acc. submitted (dir st) i cs m)"
  using assms
proof (induction i cs st arbitrary: acc got rule: ipc_trace.induct)
  case (1 i st)
  then show ?case by simp
next
  case (2 i mem sender e msg cs st)
  obtain rc st1 where s: "ipc_send_from mem sender e msg st = (rc, st1)" by force
  obtain acc1 got1 where r: "ipc_trace i cs st1 = (acc1, got1, st')"
    using 2(3) s by (auto split: prod.splits)
  have inv1: "ipc_inv st1" using send_refines(1) [OF 2(2) s] .
  have a: "acc = (if rc = IPC_OK \<and> e = i then msg\<lparr>destination := i\<rparr> # acc1 else acc1)" "got = got1"
    using 2(3) s r by simp_all
  have str: "stream st i @ acc = stream st1 i @ acc1"
    using send_ok [OF 2(2) s] a(1) by simp
  have new: "submitted (dir st) e (Send mem sender e msg # cs) (msg\<lparr>destination := e\<rparr>)" if "rc = IPC_OK"
    using channel_send_sender [of sender e msg "dir st" "stream st"] send_refines(2) [OF 2(2) s] that
    unfolding submitted_def by (metis channels_of_def fst_conv list.set_intros(1))
  note IH = 2(1) [OF s [symmetric] inv1 r]
  have "\<forall>m \<in> set acc1. submitted (dir st) i (Send mem sender e msg # cs) m"
    using IH send_dir [OF 2(2) s] by (simp add: submitted_Cons)
  then show ?case
    using IH str a send_dir [OF 2(2) s] new by (cases "rc = IPC_OK \<and> e = i") auto
next
  case (3 i receiver e cs st)
  obtain rc m st1 where s: "ipc_recv_for receiver e st = (rc, m, st1)" by (metis prod_cases3)
  obtain acc1 got1 where r: "ipc_trace i cs st1 = (acc1, got1, st')"
    using 3(3) s by (auto split: prod.splits)
  have inv1: "ipc_inv st1" using recv_refines(1) [OF 3(2) s] .
  have a: "acc = acc1" "got = (if rc = IPC_OK \<and> e = i then the m # got1 else got1)"
    using 3(3) s r by simp_all
  have str: "stream st i = (if rc = IPC_OK \<and> e = i then the m # stream st1 i else stream st1 i)"
  proof (cases "rc = IPC_OK")
    case True
    then obtain x where "m = Some x" "stream st e = x # stream st1 e" "\<forall>j. j \<noteq> e \<longrightarrow> stream st1 j = stream st j"
      using recv_ok [OF 3(2) s] by auto
    then show ?thesis using True by (cases "e = i") simp_all
  next
    case False
    then show ?thesis using recv_ok [OF 3(2) s] by simp
  qed
  have "stream st i @ acc1 = got @ stream st' i"
    using 3(1) [OF s [symmetric] refl inv1 r] str a by simp
  then show ?case
    using 3(1) [OF s [symmetric] refl inv1 r] recv_dir [OF 3(2) s] unfolding a(1) by (simp add: submitted_Cons)
qed

text \<open>
  C21. Delivery is first-in first-out, complete and authentic: over any sequence of sends and
  receives by any contexts, what was received from an endpoint followed by what it still holds is
  what it held at the start followed by the accepted sends, in their order; and every accepted
  message was handed to \<open>ipc_send_from\<close> by the kernel or by the owner of its source endpoint, is
  stamped with the endpoint as its destination, and is no forged hangup.
\<close>

theorem ipc_fifo_authentic:
  assumes "ipc_inv st" and "ipc_trace i cs st = (acc, got, st')"
  shows "stream st i @ acc = got @ stream st' i
    \<and> (\<forall>m \<in> set acc. \<exists>mem sender msg. Send mem sender i msg \<in> set cs \<and> m = msg\<lparr>destination := i\<rparr>
          \<and> (sender = IPC_CONTEXT_KERNEL
             \<or> msg_type m \<noteq> WASMOS_IPC_HANGUP \<and> ipc_endpoint_owner_context (source m) st = sender))"
proof -
  have o: "sender = IPC_CONTEXT_KERNEL \<or> msg_type m \<noteq> WASMOS_IPC_HANGUP \<and> ipc_endpoint_owner_context (source m) st = sender"
    if "sender_ok (dir st) sender msg" and "m = msg\<lparr>destination := i\<rparr>" for msg m sender
    using that by (auto simp: owner_context_dir [OF assms(1)] sender_ok_def)
  have "\<exists>mem sender msg. Send mem sender i msg \<in> set cs \<and> m = msg\<lparr>destination := i\<rparr>
          \<and> (sender = IPC_CONTEXT_KERNEL
             \<or> msg_type m \<noteq> WASMOS_IPC_HANGUP \<and> ipc_endpoint_owner_context (source m) st = sender)"
    if "m \<in> set acc" for m
    using trace_ok [OF assms] that o unfolding submitted_def by blast
  then show ?thesis using trace_ok [OF assms] by blast
qed

theorem ipc_fifo_authentic_witness:
  "\<exists>acc got st'. ipc_trace 2 [Send True 5 2 demo_msg, Send True 7 2 demo_msg, Receive 7 2] demo_ipc = (acc, got, st')
     \<and> stream demo_ipc 2 @ acc = got @ stream st' 2 \<and> acc = [demo_msg\<lparr>destination := 2\<rparr>] \<and> got = acc"
proof -
  obtain rc1 st1 where 1: "ipc_send_from True 5 2 demo_msg demo_ipc = (rc1, st1)" by force
  have c1: "rc1 = IPC_OK" "dir st1 = dir demo_ipc" "stream st1 = (stream demo_ipc)(2 := [demo_msg\<lparr>destination := 2\<rparr>])"
    and i1: "ipc_inv st1"
    using send_refines [OF demo_ipc_inv 1] by (simp_all add: demo_channel_simps)
  obtain rc2 st2 where 2: "ipc_send_from True 7 2 demo_msg st1 = (rc2, st2)" by force
  have c2: "rc2 = IPC_ERR_PERM" "dir st2 = dir demo_ipc" "stream st2 = stream st1" and i2: "ipc_inv st2"
    using send_refines [OF i1 2] c1 by (simp_all add: demo_channel_simps)
  obtain rc3 m st3 where 3: "ipc_recv_for 7 2 st2 = (rc3, m, st3)" by (metis prod_cases3)
  have "stream st2 2 = [demo_msg\<lparr>destination := 2\<rparr>]" using c2 c1 by simp
  then have c3: "rc3 = IPC_OK" "m = Some (demo_msg\<lparr>destination := 2\<rparr>)"
    using recv_refines [OF i2 3] c2(2) by (simp_all add: channel_recv_def channels_of_def demo_channels)
  have "ipc_trace 2 [Send True 5 2 demo_msg, Send True 7 2 demo_msg, Receive 7 2] demo_ipc
        = ([demo_msg\<lparr>destination := 2\<rparr>], [demo_msg\<lparr>destination := 2\<rparr>], st3)"
    using 1 2 3 c1(1) c2(1) c3 by (simp add: ipc_codes)
  from this ipc_fifo_authentic [OF demo_ipc_inv this] show ?thesis by blast
qed

end
