(* ===== verification/Ipc_hangup.thy ===== *)
theory Ipc_hangup
  imports "HOL-Library.Multiset" Ipc_channel
begin

section \<open>Hangups\<close>

text \<open>
  What the death of a context tells its peers (\<open>ipc_endpoints_release_owner\<close> and its helpers in
  \<open>src/kernel/ipc.c\<close>): which records are owed, where they end up, and that a peer that was sent to
  hears of it.
\<close>

definition contacts_at :: "ipc \<Rightarrow> nat \<Rightarrow> ipc_hangup list" where
  "contacts_at st i = (case ep_of st i of Some ep \<Rightarrow> contacts ep | None \<Rightarrow> [])"

definition is_message :: "ipc \<Rightarrow> nat \<Rightarrow> bool" where
  "is_message st i \<longleftrightarrow> (\<exists>own. dir st i = Some (own, IPC_ENDPOINT_TYPE_MESSAGE))"

text \<open>The records a context owes: watches on it and the contacts of its endpoints.\<close>

definition owed :: "nat \<Rightarrow> ipc \<Rightarrow> ipc_hangup list" where
  "owed owner st =
     filter (\<lambda>r. hg_owner r = owner) (g_context_watches st)
     @ concat (map (\<lambda>e. contacts (body e)) (owned (endpoints st) owner))"

subsection \<open>Delivering one record\<close>

lemma acquire_message:
  assumes inv: "ipc_inv st"
  shows "is_message st i \<longleftrightarrow> (\<exists>e. ipc_endpoint_acquire i IPC_ENDPOINT_TYPE_MESSAGE st = Inr e)"
  by (auto simp: is_message_def acquire_dir [OF inv] split: option.splits)

lemma deliver_ok:
  assumes inv: "ipc_inv st"
  shows "ipc_inv (ipc_hangup_deliver r st)" and "dir (ipc_hangup_deliver r st) = dir st"
    and "stream (ipc_hangup_deliver r st) i =
       (if i = hg_destination r \<and> is_message st i then stream st i @ [addressed i r] else stream st i)"
proof -
  let ?d = "hg_destination r" and ?st = "ipc_hangup_deliver r st"
  have "ipc_inv ?st \<and> dir ?st = dir st \<and> (\<forall>i. stream ?st i =
       (if i = ?d \<and> is_message st i then stream st i @ [addressed i r] else stream st i))"
  proof (cases "ipc_endpoint_acquire ?d IPC_ENDPOINT_TYPE_MESSAGE st")
    case (Inl rc)
    then have "\<not> is_message st ?d" using acquire_message [OF inv, of ?d] by auto
    then show ?thesis using Inl inv by (auto simp: ipc_hangup_deliver_def)
  next
    case (Inr e)
    note e = acquire_some(1) [OF Inr]
    have ok: "ep_ok (body e)" using ipc_invD(5) [OF inv e] .
    have msg: "is_message st ?d" using acquire_message [OF inv, of ?d] Inr by blast
    have str: "stream st ?d = ep_stream ?d (body e)" using e by (simp add: stream_def ep_of_def)
    show ?thesis
    proof (cases "pending_hangups (body e) = [] \<and> count (body e) < IPC_QUEUE_SLOTS")
      case True
      have d: "?st = ipc_endpoint_enqueue_locked ?d (ipc_hangup_message r) (body e) st"
        using True Inr by (simp add: ipc_hangup_deliver_def Let_def)
      note put = ep_put_ok(1) [OF ok conjunct2 [OF True], of ?d "ipc_hangup_message r"]
      show ?thesis
        unfolding d using enqueue_ok [OF inv e put refl refl] enqueue_dir [OF inv e put refl refl refl]
          enqueue_stream [OF inv e ok conjunct2 [OF True] refl refl, of "ipc_hangup_message r"] msg str
        by (simp add: addressed_def)
    next
      case False
      let ?ep = "(body e)\<lparr>pending_hangups := pending_hangups (body e) @ [r]\<rparr>"
      have d: "?st = put_endpoint ?d ?ep st" using False Inr by (auto simp: ipc_hangup_deliver_def Let_def)
      have h: "ep_hangup ?d r (body e) = ?ep" using False by (auto simp: ep_hangup_def)
      have "ipc_inv (put_endpoint ?d ?ep st)"
        using ep_hangup_ok(1) [OF ok, of ?d r] e h by (intro put_endpoint_inv [OF inv]) auto
      moreover have "dir (put_endpoint ?d ?ep st) = dir st" by (rule dir_put [OF inv e]) simp
      moreover have "stream (put_endpoint ?d ?ep st) i =
          (if i = ?d \<and> is_message st i then stream st i @ [addressed i r] else stream st i)" for i
        using ep_hangup_ok(2) [OF ok, of ?d r] e h msg str
        by (simp add: stream_def ep_of_put [OF inv])
      ultimately show ?thesis unfolding d by blast
    qed
  qed
  then show "ipc_inv ?st" and "dir ?st = dir st" and "stream ?st i =
       (if i = ?d \<and> is_message st i then stream st i @ [addressed i r] else stream st i)"
    by simp_all
qed

lemma deliver_all:
  assumes "ipc_inv st"
  shows "ipc_inv (fold ipc_hangup_deliver rs st) \<and> dir (fold ipc_hangup_deliver rs st) = dir st
    \<and> (\<forall>i. stream (fold ipc_hangup_deliver rs st) i =
          stream st i @ (if is_message st i then map (addressed i) (filter (\<lambda>r. hg_destination r = i) rs) else []))"
  using assms
proof (induction rs arbitrary: st)
  case (Cons r rs)
  have m: "is_message (ipc_hangup_deliver r st) i = is_message st i" for i
    using deliver_ok(2) [OF Cons.prems] by (simp add: is_message_def)
  show ?case
    using Cons.IH [OF deliver_ok(1) [OF Cons.prems, of r]] deliver_ok(2,3) [OF Cons.prems, of r] m by auto
qed simp

subsection \<open>Releasing a context\<close>

lemma mset_fold_Cons: "mset (fold Cons xs ys) = mset xs + mset ys"
  by (simp add: fold_Cons_rev)

text \<open>What the teardown callbacks leave: the contacts of all endpoints in the batch, nobody parked on them.\<close>

lemma teardown_fold:
  assumes "sched_inv s"
  shows "\<exists>b' s'. fold ipc_endpoint_teardown es (b, s) = (b', s') \<and> sched_inv s'
    \<and> mset (deliver b') = mset (concat (map (\<lambda>e. contacts (body e)) es)) + mset (deliver b)
    \<and> wait_list s' = (\<lambda>ev. if ev \<in> (\<lambda>e. EV_IPC (h_id (header e))) ` set es then [] else wait_list s ev)"
  using assms
proof (induction es arbitrary: b s)
  case (Cons e es)
  obtain b1 where t: "ipc_endpoint_teardown e (b, s) = (b1, sched_event_abort_all (EV_IPC (h_id (header e))) s)"
    and b1: "deliver b1 = fold Cons (contacts (body e)) (deliver b)"
    by (auto simp: ipc_endpoint_teardown_def Let_def)
  let ?s = "sched_event_abort_all (EV_IPC (h_id (header e))) s"
  have s1: "sched_inv ?s" "wait_list ?s = (wait_list s)(EV_IPC (h_id (header e)) := [])"
    using abort_inv [OF Cons.prems] abort_lists [OF Cons.prems] by simp_all
  from Cons.IH [OF s1(1), of b1] obtain b' s' where "fold ipc_endpoint_teardown es (b1, ?s) = (b', s')" "sched_inv s'"
    "mset (deliver b') = mset (concat (map (\<lambda>e. contacts (body e)) es)) + mset (deliver b1)"
    "wait_list s' = (\<lambda>ev. if ev \<in> (\<lambda>e. EV_IPC (h_id (header e))) ` set es then [] else wait_list ?s ev)"
    by blast
  then show ?case using t b1 s1(2) by (auto simp: mset_fold_Cons fun_eq_iff)
qed auto

text \<open>The state once the tables are swept and before the records go out.\<close>

lemma release_sweep:
  assumes inv: "ipc_inv st" and own: "owner \<noteq> 0"
  shows "\<exists>st1 rs. ipc_endpoints_release_owner owner st = Some (fold ipc_hangup_deliver rs st1)
    \<and> mset rs = mset (owed owner st) \<and> ipc_inv st1 \<and> obj (endpoints st1) = not_of owner \<circ> obj (endpoints st)"
proof -
  let ?b = "\<lparr>deliver = [], discard = [], overflowed = 0\<rparr>"
  let ?es = "owned (endpoints st) owner"
  obtain n t where rel: "idtable_release_owner ipc_endpoint_teardown owner (?b, ipc_sched st) (endpoints st)
      = Some (n, fold ipc_endpoint_teardown ?es (?b, ipc_sched st), t)" "idtable_ok t"
    "obj t = not_of owner \<circ> obj (endpoints st)"
    using idtable_release_obj [OF ipc_invD(1) [OF inv], of ipc_endpoint_teardown owner "(?b, ipc_sched st)"] by blast
  obtain b s where f: "fold ipc_endpoint_teardown ?es (?b, ipc_sched st) = (b, s)" "sched_inv s"
    "mset (deliver b) = mset (concat (map (\<lambda>e. contacts (body e)) ?es))"
    "wait_list s = (\<lambda>ev. if ev \<in> (\<lambda>e. EV_IPC (h_id (header e))) ` set ?es then [] else wait_list (ipc_sched st) ev)"
    using teardown_fold [OF ipc_invD(3) [OF inv], of ?es ?b] by auto
  define rs where "rs = fold Cons (filter (\<lambda>r. hg_owner r = owner) (g_context_watches st)) (deliver b)"
  define st1 where "st1 = st\<lparr>endpoints := t, ipc_sched := s,
      g_context_watches := filter (\<lambda>r. hg_owner r \<noteq> owner) (g_context_watches st)\<rparr>"
  have "ipc_endpoints_release_owner owner st = Some (fold ipc_hangup_deliver rs st1)"
    using own rel(1) f(1) by (simp add: ipc_endpoints_release_owner_def rs_def st1_def Let_def)
  moreover have "mset rs = mset (owed owner st)"
    by (simp add: rs_def owed_def mset_fold_Cons f(3) add.commute)
  moreover have "ipc_inv st1"
  proof -
    have o: "obj t i = Some e \<longleftrightarrow> obj (endpoints st) i = Some e \<and> h_owner (header e) \<noteq> owner" for i e
      by (auto simp: rel(3) not_of_def split: option.splits)
    have ids: "EV_IPC i \<in> (\<lambda>e. EV_IPC (h_id (header e))) ` set ?es"
      if "obj (endpoints st) i = Some e" "h_owner (header e) = owner" for i e
      using that owned_obj [OF ipc_invD(1) [OF inv], of owner] obj_header [OF ipc_invD(1) [OF inv] that(1)] by force
    have "obj t i \<noteq> None" if w: "wait_list s (EV_IPC i) \<noteq> []" for i
    proof -
      have w': "wait_list (ipc_sched st) (EV_IPC i) \<noteq> []" "EV_IPC i \<notin> (\<lambda>e. EV_IPC (h_id (header e))) ` set ?es"
        using w by (auto simp: f(4) split: if_splits)
      then obtain e where e: "obj (endpoints st) i = Some e" using ipc_invD(4) [OF inv] by (auto simp: parked_live_def)
      then show ?thesis using ids [OF e] w'(2) o [of i e] by auto
    qed
    moreover have "wait_list s (EV_SELECT i) = wait_list (ipc_sched st) (EV_SELECT i)" for i
      by (auto simp: f(4))
    ultimately have "parked_live st1" using ipc_invD(4) [OF inv] by (auto simp: parked_live_def st1_def)
    then show ?thesis
      using ipc_invD [OF inv] rel(2) f(2) by (auto simp: ipc_inv_def o st1_def)
  qed
  moreover have "obj (endpoints st1) = not_of owner \<circ> obj (endpoints st)" by (simp add: st1_def rel(3))
  ultimately show ?thesis by blast
qed

definition survivors :: "nat \<Rightarrow> directory \<Rightarrow> directory" where
  "survivors owner d i = (case d i of Some (own, ty) \<Rightarrow> if own = owner then None else Some (own, ty) | None \<Rightarrow> None)"

lemma release_ok:
  assumes inv: "ipc_inv st" and own: "owner \<noteq> 0"
  shows "\<exists>st' rs. ipc_endpoints_release_owner owner st = Some st' \<and> ipc_inv st' \<and> mset rs = mset (owed owner st)
    \<and> dir st' = survivors owner (dir st)
    \<and> (\<forall>i. stream st' i =
         (if dir st' i = None then []
          else stream st i @ (if is_message st i then map (addressed i) (filter (\<lambda>r. hg_destination r = i) rs) else [])))"
proof -
  obtain st1 rs where s: "ipc_endpoints_release_owner owner st = Some (fold ipc_hangup_deliver rs st1)"
    "mset rs = mset (owed owner st)" "ipc_inv st1" "obj (endpoints st1) = not_of owner \<circ> obj (endpoints st)"
    using release_sweep [OF assms] by blast
  have d: "dir st1 = survivors owner (dir st)"
    by (auto simp: dir_def s(4) survivors_def not_of_def fun_eq_iff split: option.split)
  have str: "stream st1 i = (if dir st1 i = None then [] else stream st i)"
    "is_message st1 i \<longleftrightarrow> dir st1 i \<noteq> None \<and> is_message st i" for i
    by (auto simp: stream_def ep_of_def dir_def s(4) not_of_def is_message_def split: option.split if_splits)
  show ?thesis
    using s(1,2) deliver_all [OF s(3), of rs] d str by (intro exI [of _ "fold ipc_hangup_deliver rs st1"] exI [of _ rs]) simp
qed

text \<open>
  C22. The death of a context is reported exactly once to everyone it concerns.  Releasing a context
  always completes; its endpoints are gone and nobody stays parked on one of them, while every other
  endpoint keeps its owner and type; the messages a surviving message endpoint had queued are kept,
  in order, and behind them come precisely the hangups addressed to it out of the records the context
  owed - the contacts of its endpoints and the watches on it - each delivered once, whether or not
  the ring had room; nothing else changes in any queue.
\<close>

theorem ipc_release_reports_death:
  assumes "ipc_inv st" and "owner \<noteq> 0"
  shows "\<exists>st' rs. ipc_endpoints_release_owner owner st = Some st' \<and> ipc_inv st'
    \<and> mset rs = mset (owed owner st) \<and> dir st' = survivors owner (dir st)
    \<and> (\<forall>i ty. dir st i = Some (owner, ty) \<longrightarrow> wait_list (ipc_sched st') (EV_IPC i) = [])
    \<and> (\<forall>i. dir st' i \<noteq> None \<longrightarrow>
         stream st' i = stream st i @ (if is_message st i then map (addressed i) (filter (\<lambda>r. hg_destination r = i) rs) else []))"
proof -
  obtain st' rs where r: "ipc_endpoints_release_owner owner st = Some st'" "ipc_inv st'" "mset rs = mset (owed owner st)"
    "dir st' = survivors owner (dir st)"
    "\<forall>i. stream st' i =
         (if dir st' i = None then []
          else stream st i @ (if is_message st i then map (addressed i) (filter (\<lambda>r. hg_destination r = i) rs) else []))"
    using release_ok [OF assms] by blast
  have "wait_list (ipc_sched st') (EV_IPC i) = []" if "dir st i = Some (owner, ty)" for i ty
  proof -
    have "dir st' i = None" using that r(4) by (simp add: survivors_def)
    then show ?thesis using ipc_invD(4) [OF r(2)] by (auto simp: parked_live_def dir_def)
  qed
  then show ?thesis using r by (intro exI [of _ st'] exI [of _ rs]) simp
qed

text \<open>Context 5 dies while a watch on it is owed to endpoint 2.\<close>

definition demo_watched :: ipc where
  "demo_watched = demo_ipc\<lparr>g_context_watches := [\<lparr>hg_destination = 2, dead_endpoint = IPC_ENDPOINT_NONE, hg_owner = 5\<rparr>]\<rparr>"

lemma demo_watched_facts:
  "ipc_inv demo_watched" "owed 5 demo_watched = g_context_watches demo_watched" "dir demo_watched = dir demo_ipc" "stream demo_watched = stream demo_ipc"
proof -
  show "ipc_inv demo_watched"
    using demo_ipc_inv by (simp add: demo_watched_def ipc_inv_def parked_live_def)
  show "owed 5 demo_watched = g_context_watches demo_watched"
    by (simp add: demo_watched_def demo_ipc_def table_of_elems owed_def owned_def elem_of_def new_elem_def zero_endpoint_def)
  show "dir demo_watched = dir demo_ipc" "stream demo_watched = stream demo_ipc"
    by (simp_all add: demo_watched_def dir_def stream_def ep_of_def fun_eq_iff)
qed

theorem ipc_release_reports_death_witness:
  "\<exists>st'. ipc_endpoints_release_owner 5 demo_watched = Some st' \<and> dir st' 1 = None
     \<and> stream st' 2 = [\<lparr>msg_type = WASMOS_IPC_HANGUP, source = IPC_ENDPOINT_NONE, destination = 2, request_id = 0,
          arg0 = IPC_ENDPOINT_NONE, arg1 = 5, arg2 = 0, arg3 = 0\<rparr>]"
proof -
  obtain st' rs where r: "ipc_endpoints_release_owner 5 demo_watched = Some st'" "mset rs = mset (owed 5 demo_watched)"
    "dir st' = survivors 5 (dir demo_watched)"
    "\<forall>i. dir st' i \<noteq> None \<longrightarrow> stream st' i = stream demo_watched i
        @ (if is_message demo_watched i then map (addressed i) (filter (\<lambda>r. hg_destination r = i) rs) else [])"
    using ipc_release_reports_death [OF demo_watched_facts(1), of 5] by auto
  have rs: "rs = [\<lparr>hg_destination = 2, dead_endpoint = IPC_ENDPOINT_NONE, hg_owner = 5\<rparr>]"
    using r(2) unfolding demo_watched_facts(2) by (simp add: demo_watched_def)
  have "dir st' 1 = None" "dir st' 2 \<noteq> None" "is_message demo_watched 2"
    by (simp_all add: r(3) demo_watched_facts(3) survivors_def is_message_def demo_channels)
  then show ?thesis
    using r(1,4) by (simp add: rs demo_watched_facts(4) demo_channels(4) addressed_def ipc_hangup_message_def)
qed

subsection \<open>Contacts\<close>

lemma contacts_put:
  assumes inv: "ipc_inv st" and e: "obj (endpoints st) i = Some e"
  shows "contacts_at (put_endpoint i ep st) j = (if j = i then contacts ep else contacts_at st j)"
  using e by (simp add: contacts_at_def ep_of_put [OF inv])

lemma contacts_endpoints: "endpoints st' = endpoints st \<Longrightarrow> contacts_at st' = contacts_at st"
  by (simp add: contacts_at_def ep_of_def fun_eq_iff)

lemma contacts_obj: "obj (endpoints st) i = Some e \<Longrightarrow> contacts_at st i = contacts (body e)"
  by (simp add: contacts_at_def ep_of_def)

lemma enqueue_contacts:
  assumes inv: "ipc_inv st" and e: "obj (endpoints st) i = Some e" and ep: "ep_ok (ring_put i msg ep)"
    and "poll_hub ep = poll_hub (body e)" "contacts ep = contacts (body e)"
  shows "contacts_at (ipc_endpoint_enqueue_locked i msg ep st) = contacts_at st"
proof -
  have "contacts_at (ipc_endpoint_enqueue_locked i msg ep st) = contacts_at (put_endpoint i (ring_put i msg ep) st)"
    by (rule contacts_endpoints) (use enqueue_ok [OF assms] in simp)
  then show ?thesis
    using assms(5) by (auto simp: contacts_put [OF inv e] contacts_obj [OF e] fun_eq_iff)
qed

lemma ep_take_contacts: "contacts (snd (ep_take i ep)) = contacts ep"
  by (simp add: ep_take_def ring_take_def split: list.split prod.split)

lemma recv_contacts:
  assumes inv: "ipc_inv st" and r: "ipc_recv_for receiver i st = (rc, m, st')"
  shows "contacts_at st' = contacts_at st"
proof -
  have "contacts_at st'' = contacts_at st"
    if e: "obj (endpoints st) i = Some e" and ne: "count (body e) \<noteq> 0"
      and d: "ipc_endpoint_dequeue_locked i (body e) st = (x, st'')" for e x st''
  proof -
    have "contacts_at st'' = contacts_at (put_endpoint i (snd (ep_take i (body e))) st)"
      by (rule contacts_endpoints) (use dequeue_ok [OF inv e ne d] in simp)
    then show ?thesis by (auto simp: contacts_put [OF inv e] contacts_obj [OF e] ep_take_contacts fun_eq_iff)
  qed
  then show ?thesis
    using r acquire_owned_some(1) [of i IPC_ENDPOINT_TYPE_MESSAGE receiver st]
    by (auto simp: ipc_recv_for_def split: sum.splits if_splits prod.splits)
qed

lemma note_record_contacts:
  assumes inv: "ipc_inv st"
  shows "set (contacts_at st i) \<subseteq> set (contacts_at (note_contact_record mem src dst st) i)"
  using acquire_some(1) [of src IPC_ENDPOINT_TYPE_MESSAGE st]
  by (auto simp: note_contact_record_def Let_def contacts_put [OF inv] contacts_obj split: sum.splits)

lemma note_contact_contacts:
  assumes inv: "ipc_inv st"
  shows "set (contacts_at st i) \<subseteq> set (contacts_at (ipc_endpoint_note_contact mem src dst st) i)"
proof -
  obtain go st1 where c: "note_contact_check src dst st = (go, st1)" by force
  have "contacts_at st1 = contacts_at st"
    using c acquire_some(1) [of src IPC_ENDPOINT_TYPE_MESSAGE st]
    by (auto simp: note_contact_check_def contacts_put [OF inv] contacts_obj fun_eq_iff split: sum.splits if_splits)
  then show ?thesis
    using note_check_ok [OF inv c] note_record_contacts [of st1 i mem src dst] c
    by (cases go) (auto simp: ipc_endpoint_note_contact_def)
qed

lemma send_contacts:
  assumes inv: "ipc_inv st" and s: "ipc_send_from mem sender i msg st = (rc, st')"
  shows "set (contacts_at st j) \<subseteq> set (contacts_at st' j)"
proof (cases "\<exists>e. ipc_endpoint_acquire i IPC_ENDPOINT_TYPE_MESSAGE st = Inr e \<and> count (body e) < IPC_QUEUE_DEPTH")
  case True
  then obtain e where a: "ipc_endpoint_acquire i IPC_ENDPOINT_TYPE_MESSAGE st = Inr e" and lt: "count (body e) < IPC_QUEUE_DEPTH"
    by blast
  note e = acquire_some(1) [OF a]
  have put: "ep_ok (ring_put i msg (body e))"
    using ep_put_ok(1) [OF ipc_invD(5) [OF inv e]] lt by (simp add: IPC_QUEUE_SLOTS_def)
  show ?thesis
    using s a lt enqueue_contacts [OF inv e put refl refl] enqueue_ok [OF inv e put refl refl]
      note_contact_contacts [of "ipc_endpoint_enqueue_locked i msg (body e) st" j mem "source msg" i]
    by (auto simp: ipc_send_from_def Let_def split: if_splits)
next
  case False
  then show ?thesis
    using s acquire_some(1) [of i IPC_ENDPOINT_TYPE_MESSAGE st]
    by (auto simp: ipc_send_from_def Let_def contacts_put [OF inv] contacts_obj not_less split: sum.splits if_splits)
qed

lemma trace_contacts:
  assumes "ipc_inv st" and "ipc_trace k cs st = (acc, got, st')"
  shows "set (contacts_at st j) \<subseteq> set (contacts_at st' j)"
  using assms
proof (induction k cs st arbitrary: acc got rule: ipc_trace.induct)
  case (2 k mem sender e msg cs st)
  obtain rc st1 where s: "ipc_send_from mem sender e msg st = (rc, st1)" by force
  obtain acc1 got1 where r: "ipc_trace k cs st1 = (acc1, got1, st')" using 2(3) s by (auto split: prod.splits)
  show ?case using 2(1) [OF s [symmetric] send_refines(1) [OF 2(2) s] r] send_contacts [OF 2(2) s] by blast
next
  case (3 k receiver e cs st)
  obtain rc m st1 where s: "ipc_recv_for receiver e st = (rc, m, st1)" by (metis prod_cases3)
  obtain acc1 got1 where r: "ipc_trace k cs st1 = (acc1, got1, st')" using 3(3) s by (auto split: prod.splits)
  show ?case using 3(1) [OF s [symmetric] refl recv_refines(1) [OF 3(2) s] r] recv_contacts [OF 3(2) s] by simp
qed simp

definition overflow_at :: "ipc \<Rightarrow> nat \<Rightarrow> bool" where
  "overflow_at st i = (case ep_of st i of Some ep \<Rightarrow> contacts_overflowed ep | None \<Rightarrow> False)"

abbreviation death_record :: "nat \<Rightarrow> nat \<Rightarrow> nat \<Rightarrow> ipc_hangup" where
  "death_record dst src own \<equiv> \<lparr>hg_destination = dst, dead_endpoint = src, hg_owner = own\<rparr>"

lemma has_contact_record:
  assumes "contacts_ok e" and "ipc_endpoint_has_contact (body e) dst"
  shows "death_record dst (h_id (header e)) (h_owner (header e)) \<in> set (contacts (body e))"
proof -
  obtain r where r: "r \<in> set (contacts (body e))" "hg_destination r = dst"
    using assms(2) by (auto simp: ipc_endpoint_has_contact_def list_ex_iff)
  then have "r = death_record dst (h_id (header e)) (h_owner (header e))"
    using assms(1) by (auto simp: contacts_ok_def intro: ipc_hangup.equality)
  then show ?thesis using r(1) by simp
qed

lemma note_contact_recorded:
  assumes inv: "ipc_inv st" and src: "dir st src = Some (own, IPC_ENDPOINT_TYPE_MESSAGE)"
    and own: "own \<noteq> 0" and ne: "src \<noteq> dst" "dst \<noteq> IPC_ENDPOINT_NONE"
  shows "overflow_at (ipc_endpoint_note_contact mem src dst st) src
    \<or> death_record dst src own \<in> set (contacts_at (ipc_endpoint_note_contact mem src dst st) src)"
proof -
  obtain e where e: "obj (endpoints st) src = Some e" and h: "h_owner (header e) = own" "h_id (header e) = src"
    using src obj_header [OF ipc_invD(1) [OF inv], of src] by (auto simp: dir_def)
  have a: "ipc_endpoint_acquire src IPC_ENDPOINT_TYPE_MESSAGE st = Inr e"
    using e src by (simp add: acquire_dir [OF inv])
  have s: "src \<noteq> IPC_ENDPOINT_NONE" using acquire_some(4) [OF a] .
  have put: "ep_of (put_endpoint src ep st) src = Some ep" for ep
    using e by (simp add: ep_of_put [OF inv])
  show ?thesis
  proof (cases "ipc_endpoint_has_contact (body e) dst")
    case True
    then show ?thesis
      using has_contact_record [OF ipc_invD(8) [OF inv e] True] a s ne h contacts_obj [OF e]
      by (simp add: ipc_endpoint_note_contact_def note_contact_check_def)
  next
    case False
    then show ?thesis
      using a s ne own h
      by (auto simp: ipc_endpoint_note_contact_def note_contact_check_def note_contact_record_def Let_def
          overflow_at_def contacts_at_def put IPC_CONTEXT_KERNEL_def)
  qed
qed

lemma send_recorded:
  assumes inv: "ipc_inv st" and s: "ipc_send_from mem sender dst msg st = (IPC_OK, st1)" and "sender \<noteq> 0"
    and src: "dir st (source msg) = Some (sender, IPC_ENDPOINT_TYPE_MESSAGE)"
    and other: "ipc_endpoint_owner_context dst st \<noteq> sender"
  shows "is_message st dst"
    and "overflow_at st1 (source msg) \<or> death_record dst (source msg) sender \<in> set (contacts_at st1 (source msg))"
proof -
  obtain e where a: "ipc_endpoint_acquire dst IPC_ENDPOINT_TYPE_MESSAGE st = Inr e"
    and put: "ep_ok (ring_put dst msg (body e))"
    and st1: "st1 = ipc_endpoint_note_contact mem (source msg) dst (ipc_endpoint_enqueue_locked dst msg (body e) st)"
    using send_accepted [OF inv s] by blast
  note e = acquire_some [OF a]
  have dst: "dir st dst = Some (h_owner (header e), IPC_ENDPOINT_TYPE_MESSAGE)" using e by (simp add: dir_def)
  then show "is_message st dst" by (simp add: is_message_def)
  have "source msg \<noteq> dst" using src dst other by (auto simp: owner_context_dir [OF inv])
  then show "overflow_at st1 (source msg) \<or> death_record dst (source msg) sender \<in> set (contacts_at st1 (source msg))"
    using note_contact_recorded [of "ipc_endpoint_enqueue_locked dst msg (body e) st" "source msg" sender dst mem]
      enqueue_ok [OF inv e(1) put refl refl] enqueue_dir [OF inv e(1) put refl refl refl] assms(3) src e(4)
    unfolding st1 by simp
qed

text \<open>
  C23. A peer hears of the death of a sender.  When a context has sent from one of its message
  endpoints to an endpoint of somebody else, and that send did not mark the source's contact list as
  overflowed, then - whatever sends and receives by anybody follow - releasing the context puts into
  the destination's queue, behind everything already there, a hangup from no endpoint that names the
  dead endpoint and the dead context.
\<close>

theorem ipc_death_notice:
  assumes "ipc_inv st" and "ipc_send_from mem sender dst msg st = (IPC_OK, st1)"
    and "sender \<noteq> 0" and "dir st (source msg) = Some (sender, IPC_ENDPOINT_TYPE_MESSAGE)"
    and "ipc_endpoint_owner_context dst st \<noteq> sender" and "\<not> overflow_at st1 (source msg)"
    and "ipc_trace k cs st1 = (acc, got, st2)"
  shows "\<exists>st3 notices. ipc_endpoints_release_owner sender st2 = Some st3
    \<and> stream st3 dst = stream st2 dst @ notices
    \<and> (\<exists>m \<in> set notices. msg_type m = WASMOS_IPC_HANGUP \<and> source m = IPC_ENDPOINT_NONE \<and> destination m = dst
          \<and> arg0 m = source msg \<and> arg1 m = sender)"
proof -
  let ?src = "source msg" and ?r = "death_record dst (source msg) sender"
  have ok: "ipc_inv st1" "ipc_inv st2" "dir st1 = dir st" "dir st2 = dir st"
    using send_refines(1) [OF assms(1,2)] trace_ok [OF _ assms(7)] send_dir [OF assms(1,2)] by auto
  have "?r \<in> set (contacts_at st1 ?src)" using send_recorded(2) [OF assms(1-5)] assms(6) by simp
  then have "?r \<in> set (contacts_at st2 ?src)" using trace_contacts [OF ok(1) assms(7)] by blast
  then obtain e2 where e2: "obj (endpoints st2) ?src = Some e2" "?r \<in> set (contacts (body e2))" "h_owner (header e2) = sender"
    using assms(4) ok(4) by (auto simp: contacts_at_def ep_of_def dir_def fun_eq_iff split: option.splits dest!: spec [of _ ?src])
  then have "?r \<in># mset (owed sender st2)"
    using owned_obj [OF ipc_invD(1) [OF ok(2)], of sender] by (auto simp: owed_def)
  moreover obtain st3 rs where r: "ipc_endpoints_release_owner sender st2 = Some st3" "mset rs = mset (owed sender st2)"
    "dir st3 = survivors sender (dir st2)"
    "stream st3 dst = (if dir st3 dst = None then []
       else stream st2 dst @ (if is_message st2 dst then map (addressed dst) (filter (\<lambda>r. hg_destination r = dst) rs) else []))"
    using release_ok [OF ok(2) assms(3)] by blast
  ultimately have "?r \<in> set rs" by (metis set_mset_mset)
  then have "addressed dst ?r \<in> set (map (addressed dst) (filter (\<lambda>r. hg_destination r = dst) rs))" by force
  moreover have "is_message st2 dst" "dir st3 dst \<noteq> None"
    using r(3) ok(4) assms(5) send_recorded(1) [OF assms(1-5)]
    by (auto simp: survivors_def is_message_def owner_context_dir [OF assms(1)])
  ultimately show ?thesis
    using r(1,4) by (auto simp: addressed_def ipc_hangup_message_def intro!: bexI [of _ "addressed dst ?r"])
qed

text \<open>With memory and room in the contact list nothing overflows.\<close>

lemma note_contact_quiet:
  assumes inv: "ipc_inv st" and room: "length (contacts_at st src) < IPC_ENDPOINT_CONTACTS_MAX"
  shows "overflow_at (ipc_endpoint_note_contact True src dst st) = overflow_at st"
proof (cases "ipc_endpoint_acquire src IPC_ENDPOINT_TYPE_MESSAGE st")
  case (Inl rc)
  then show ?thesis by (simp add: ipc_endpoint_note_contact_def note_contact_check_def)
next
  case (Inr e)
  note e = acquire_some(1) [OF Inr]
  have "ep_of st src = Some (body e)" using e by (simp add: ep_of_def)
  moreover have "contact_count (body e) < IPC_ENDPOINT_CONTACTS_MAX"
    using room ipc_invD(5) [OF inv e] by (simp add: contacts_obj [OF e] ep_ok_def)
  ultimately show ?thesis
    using Inr e by (auto simp: ipc_endpoint_note_contact_def note_contact_check_def note_contact_record_def Let_def
        overflow_at_def ep_of_put [OF inv] fun_eq_iff)
qed

lemma send_quiet:
  assumes inv: "ipc_inv st" and s: "ipc_send_from True sender dst msg st = (IPC_OK, st1)"
    and room: "length (contacts_at st (source msg)) < IPC_ENDPOINT_CONTACTS_MAX"
  shows "overflow_at st1 = overflow_at st"
proof -
  obtain e where e: "obj (endpoints st) dst = Some e" and put: "ep_ok (ring_put dst msg (body e))"
    and st1: "st1 = ipc_endpoint_note_contact True (source msg) dst (ipc_endpoint_enqueue_locked dst msg (body e) st)"
    using send_accepted [OF inv s] by blast
  let ?st = "ipc_endpoint_enqueue_locked dst msg (body e) st"
  have "ep_of ?st i = (if i = dst then Some (ring_put dst msg (body e)) else ep_of st i)" for i
    using enqueue_ok [OF inv e put refl refl] e ipc_invD(1) [OF inv] by (simp add: ep_of_def tables.get_put)
  then have "overflow_at ?st = overflow_at st" using e by (auto simp: overflow_at_def ep_of_def fun_eq_iff)
  then show ?thesis
    using note_contact_quiet [of ?st "source msg" dst] enqueue_ok [OF inv e put refl refl] room
      enqueue_contacts [OF inv e put refl refl] unfolding st1 by simp
qed

theorem ipc_death_notice_witness:
  "\<exists>st1 st3 notices. ipc_send_from True 5 2 demo_msg demo_ipc = (IPC_OK, st1)
    \<and> ipc_endpoints_release_owner 5 st1 = Some st3 \<and> stream st3 2 = stream st1 2 @ notices
    \<and> (\<exists>m \<in> set notices. msg_type m = WASMOS_IPC_HANGUP \<and> arg0 m = 1 \<and> arg1 m = 5)"
proof -
  obtain rc st1 where s: "ipc_send_from True 5 2 demo_msg demo_ipc = (rc, st1)" by force
  have rc: "rc = IPC_OK" using send_refines(2) [OF demo_ipc_inv s] by (simp add: demo_channel_simps)
  have src: "source demo_msg = 1" by (simp add: demo_msg_def)
  have q: "\<not> overflow_at st1 1" "\<not> overflow_at demo_ipc 1" "length (contacts_at demo_ipc 1) < IPC_ENDPOINT_CONTACTS_MAX"
    using send_quiet [OF demo_ipc_inv s [unfolded rc]]
    by (simp_all add: src overflow_at_def contacts_at_def ep_of_def demo_objs new_elem_def zero_endpoint_def IPC_ENDPOINT_CONTACTS_MAX_def)
  have "ipc_endpoint_owner_context 2 demo_ipc \<noteq> 5"
    by (simp add: owner_context_dir [OF demo_ipc_inv] demo_channels)
  then show ?thesis
    using ipc_death_notice [OF demo_ipc_inv s [unfolded rc], where k = 2 and cs = "[]"] s rc q(1)
    by (auto simp: src demo_channels)
qed

end
