(* ===== verification/Ipc_select.thy ===== *)
theory Ipc_select
  imports Ipc_hangup
begin

section \<open>Select sets and the life of the IPC tables\<close>

text \<open>
  Every remaining operation of \<open>src/kernel/ipc.c\<close> keeps the invariant, so that no history of calls
  leaves a watcher pointing at a freed select set or a thread parked on a freed object; a signal is
  never lost between the scan of a wait and its park; and the rotating scan starves nobody.
\<close>

lemmas put_simps = tables.get_put tables.get_free

subsection \<open>Creation\<close>

lemma sched_event_init_idem: "wait_list s ev = [] \<Longrightarrow> sched_event_init ev s = s"
  by (simp add: sched_event_init_def fun_upd_idem)

lemma parked_nobody:
  assumes "ipc_inv st"
  shows "obj (endpoints st) i = None \<Longrightarrow> wait_list (ipc_sched st) (EV_IPC i) = []"
    and "obj (selects st) i = None \<Longrightarrow> wait_list (ipc_sched st) (EV_SELECT i) = []"
  using ipc_invD(4) [OF assms] by (auto simp: parked_live_def)

lemma add_endpoint_inv:
  assumes inv: "ipc_inv st" and t: "idtable_ok t" "obj t = (obj (endpoints st))(i \<mapsto> e)"
    and e: "ep_ok (body e)" "poll_hub (body e) = None" "contacts (body e) = []"
  shows "ipc_inv (st\<lparr>endpoints := t\<rparr>)"
  using ipc_invD [OF inv] t e
  by (auto simp: ipc_inv_def parked_live_def hub_ok_def contacts_ok_def split: if_splits)

lemma add_select_inv:
  assumes inv: "ipc_inv st" and t: "idtable_ok t" "obj t = (obj (selects st))(i \<mapsto> f)"
    and new: "obj (selects st) i = None" and f: "select_ok (body f)"
  shows "ipc_inv (st\<lparr>selects := t\<rparr>)"
proof -
  have "hub_ok t j ep" if "hub_ok (selects st) j ep" for j ep
    using that t(2) new by (fastforce simp: hub_ok_def)
  then show ?thesis
    using ipc_invD [OF inv] t f by (auto simp: ipc_inv_def parked_live_def split: if_splits)
qed

text \<open>A table at its quota, or without memory, changes only its bookkeeping.\<close>

lemma same_endpoints_inv:
  assumes "ipc_inv st" "idtable_ok t" "obj t = obj (endpoints st)"
  shows "ipc_inv (st\<lparr>endpoints := t\<rparr>)" "dir (st\<lparr>endpoints := t\<rparr>) = dir st"
  using assms by (auto simp: ipc_inv_def parked_live_def dir_def fun_eq_iff)

lemma same_selects_inv:
  assumes "ipc_inv st" "idtable_ok t" "obj t = obj (selects st)"
  shows "ipc_inv (st\<lparr>selects := t\<rparr>)"
  using assms by (auto simp: ipc_inv_def parked_live_def hub_ok_def)

lemma create_typed_ok:
  assumes inv: "ipc_inv st" and mem: "fresh_for (store (endpoints st)) mem"
    and len: "length (elems (endpoints st)) < IDTABLE_ID_NONE - 2"
  shows "\<exists>rc r st'. ipc_endpoint_create_typed mem owner ty st = Some (rc, r, st') \<and> ipc_inv st'
    \<and> (case r of
         None \<Rightarrow> rc = IPC_ERR_FULL \<and> dir st' = dir st
       | Some i \<Rightarrow> rc = IPC_OK \<and> dir st i = None \<and> dir st' = (dir st)(i \<mapsto> (owner, ty)) \<and> stream st' i = [])"
proof -
  obtain status r t where a: "idtable_alloc mem zero_endpoint owner (endpoints st) = Some (status, r, t)" "idtable_ok t"
    and r: "case r of
         None \<Rightarrow> status = WASMOS_FULL \<and> obj t = obj (endpoints st)
       | Some p \<Rightarrow> status = WASMOS_OK \<and> (\<exists>i. obj (endpoints st) i = None \<and> valid_id i
           \<and> obj t = (obj (endpoints st))(i \<mapsto> new_elem i owner zero_endpoint)
           \<and> idtable_at t p = Some (new_elem i owner zero_endpoint))"
    using idtable_alloc_obj [OF ipc_invD(1) [OF inv] mem len, of zero_endpoint owner] by blast
  show ?thesis
  proof (cases r)
    case None
    then show ?thesis
      using a r same_endpoints_inv [OF inv a(2)]
      by (auto simp: ipc_endpoint_create_typed_def WASMOS_FULL_def WASMOS_INVAL_def)
  next
    case (Some p)
    then obtain i where i: "obj (endpoints st) i = None" "obj t = (obj (endpoints st))(i \<mapsto> new_elem i owner zero_endpoint)"
      "idtable_at t p = Some (new_elem i owner zero_endpoint)" using r by auto
    let ?ep = "zero_endpoint\<lparr>ep_type := ty\<rparr>" and ?t = "idtable_put i (zero_endpoint\<lparr>ep_type := ty\<rparr>) t"
    have ot: "obj ?t = (obj (endpoints st))(i \<mapsto> new_elem i owner ?ep)"
      using i(2) a(2) by (auto simp: put_simps fun_eq_iff new_elem_def)
    have ep: "ep_ok ?ep" "ep_stream i ?ep = []" "poll_hub ?ep = None" "contacts ?ep = []"
      using zero_endpoint_ok by (simp_all add: ep_ok_def ring_ok_def zero_endpoint_def ep_stream_def ep_msgs_def)
    have c: "ipc_endpoint_create_typed mem owner ty st = Some (IPC_OK, Some i, st\<lparr>endpoints := ?t\<rparr>)"
      using a(1) Some i(3) sched_event_init_idem [OF parked_nobody(1) [OF inv i(1)]]
      by (simp add: ipc_endpoint_create_typed_def Let_def new_elem_def zero_endpoint_def)
    have "ipc_inv (st\<lparr>endpoints := ?t\<rparr>)"
      using add_endpoint_inv [OF inv tables.put_ok [OF a(2)] ot] ep by (simp add: new_elem_def)
    moreover have "dir st i = None" "dir (st\<lparr>endpoints := ?t\<rparr>) = (dir st)(i \<mapsto> (owner, ty))" "stream (st\<lparr>endpoints := ?t\<rparr>) i = []"
      using i(1) ot ep by (auto simp: dir_def fun_eq_iff stream_def ep_of_def new_elem_def)
    ultimately show ?thesis using c by (intro exI [of _ IPC_OK] exI [of _ "Some i"]) auto
  qed
qed

lemma select_create_ok:
  assumes inv: "ipc_inv st" and mem: "fresh_for (store (selects st)) mem"
    and len: "length (elems (selects st)) < IDTABLE_ID_NONE - 2"
  shows "\<exists>rc r st'. ipc_select_create mem owner st = Some (rc, r, st') \<and> ipc_inv st' \<and> endpoints st' = endpoints st
    \<and> (case r of
         None \<Rightarrow> rc = IPC_ERR_FULL \<and> obj (selects st') = obj (selects st)
       | Some i \<Rightarrow> rc = IPC_OK \<and> obj (selects st) i = None
           \<and> obj (selects st') = (obj (selects st))(i \<mapsto> new_elem i owner (zero_select\<lparr>ready_ep := IPC_ENDPOINT_NONE\<rparr>)))"
proof -
  obtain status r t where a: "idtable_alloc mem zero_select owner (selects st) = Some (status, r, t)" "idtable_ok t"
    and r: "case r of
         None \<Rightarrow> status = WASMOS_FULL \<and> obj t = obj (selects st)
       | Some p \<Rightarrow> status = WASMOS_OK \<and> (\<exists>i. obj (selects st) i = None \<and> valid_id i
           \<and> obj t = (obj (selects st))(i \<mapsto> new_elem i owner zero_select)
           \<and> idtable_at t p = Some (new_elem i owner zero_select))"
    using idtable_alloc_obj [OF ipc_invD(2) [OF inv] mem len, of zero_select owner] by blast
  show ?thesis
  proof (cases r)
    case None
    then show ?thesis
      using a r same_selects_inv [OF inv a(2)]
      by (auto simp: ipc_select_create_def WASMOS_FULL_def WASMOS_INVAL_def)
  next
    case (Some p)
    then obtain i where i: "obj (selects st) i = None" "obj t = (obj (selects st))(i \<mapsto> new_elem i owner zero_select)"
      "idtable_at t p = Some (new_elem i owner zero_select)" using r by auto
    let ?sel = "zero_select\<lparr>ready_ep := IPC_ENDPOINT_NONE\<rparr>"
    let ?t = "idtable_put i ?sel t"
    have ot: "obj ?t = (obj (selects st))(i \<mapsto> new_elem i owner ?sel)"
      using i(2) a(2) by (auto simp: put_simps fun_eq_iff new_elem_def)
    have "ipc_select_create mem owner st = Some (IPC_OK, Some i, st\<lparr>selects := ?t\<rparr>)"
      using a(1) Some i(3) sched_event_init_idem [OF parked_nobody(2) [OF inv i(1)]]
      by (simp add: ipc_select_create_def Let_def new_elem_def zero_select_def)
    moreover have "ipc_inv (st\<lparr>selects := ?t\<rparr>)"
      using add_select_inv [OF inv tables.put_ok [OF a(2)] ot i(1)] by (simp add: new_elem_def select_ok_def zero_select_def)
    ultimately show ?thesis using ot i(1) by auto
  qed
qed

subsection \<open>Adding to a set and scanning it\<close>

lemma select_find_some:
  assumes "ipc_select_find s owner st = Inr e"
  shows "obj (selects st) s = Some e" "owner = IPC_CONTEXT_KERNEL \<or> h_owner (header e) = owner"
  using assms by (auto simp: ipc_select_find_def split: option.splits if_splits)

lemma put_hub_inv:
  assumes inv: "ipc_inv st" and e: "obj (endpoints st) i = Some e" and ok: "ep_ok ep" "hub_ok (selects st) i ep"
    and con: "contacts ep = contacts (body e)"
  shows "ipc_inv (put_endpoint i ep st)"
  using ipc_invD [OF inv] e ok con
  by (auto simp: ipc_inv_def put_simps contacts_ok_def hub_ok_def parked_live_put [OF inv] tables.put_ok split: if_splits)

lemma put_commute: "put_select s sel (put_endpoint i ep st) = put_endpoint i ep (put_select s sel st)"
  by (simp add: put_select_def put_endpoint_def)

lemma ep_ok_hub: "ep_ok (ep\<lparr>poll_hub := h\<rparr>) = ep_ok ep"
  by (simp add: ep_ok_def ring_ok_def)

lemma select_add_inv:
  assumes inv: "ipc_inv st"
  shows "ipc_inv (snd (ipc_select_add hub_mem node_mem s i owner st))"
proof (cases "ipc_select_find s owner st")
  case (Inl rc)
  then show ?thesis using inv by (simp add: ipc_select_add_def)
next
  case (Inr f)
  note f = select_find_some(1) [OF Inr]
  show ?thesis
  proof (cases "i \<in> set (ep_ids (body f)) \<or> IPC_SELECT_EPS_MAX \<le> length (ep_ids (body f)) \<or> ipc_endpoint_get i st = None")
    case True
    then show ?thesis using inv Inr by (auto simp: ipc_select_add_def Let_def)
  next
    case False
    then obtain e where e: "obj (endpoints st) i = Some e" by (auto simp: endpoint_get_obj [OF inv])
    define ep where "ep = (if poll_hub (body e) = None then (body e)\<lparr>poll_hub := poll_struct_alloc hub_mem\<rparr> else body e)"
    have ep: "ep_ok ep" "contacts ep = contacts (body e)" "watching (poll_hub ep) = watching (poll_hub (body e))"
      using ipc_invD(5) [OF inv e] by (auto simp: ep_def ep_ok_hub poll_struct_alloc_def)
    have 1: "ipc_inv (put_endpoint i ep st)"
      using ep e by (intro put_endpoint_inv [OF inv]) auto
    have 2: "ipc_inv (put_select s ((body f)\<lparr>ep_ids := ep_ids (body f) @ [i]\<rparr>) (put_endpoint i (ep\<lparr>poll_hub := Some hub'\<rparr>) st))"
      if hub: "poll_hub ep = Some hub" "poll_struct_add True POLL_EV_IN s 0 hub = (rc, hub')" for hub rc hub'
    proof -
      let ?st = "put_select s ((body f)\<lparr>ep_ids := ep_ids (body f) @ [i]\<rparr>) st"
      have st: "ipc_inv ?st"
        using False ipc_invD(7) [OF inv f] f by (intro put_select_inv [OF inv]) (auto simp: select_ok_def)
      have "hub_ok (selects ?st) i (ep\<lparr>poll_hub := Some hub'\<rparr>)"
        using watching_add [of POLL_EV_IN s 0 hub] hub ipc_invD(6) [OF inv e] ep(3) ipc_invD(2) [OF inv] f
        by (auto simp: hub_ok_def put_simps)
      then show ?thesis
        unfolding put_commute using st e ep by (intro put_hub_inv [OF st]) (auto simp: ep_ok_hub)
    qed
    have "ipc_select_add hub_mem node_mem s i owner st =
        (case poll_hub ep of
           None \<Rightarrow> (IPC_ERR_FULL, put_endpoint i ep st)
         | Some hub \<Rightarrow>
             (case poll_struct_add node_mem POLL_EV_IN s 0 hub of
                (rc, hub') \<Rightarrow>
                  if rc \<noteq> 0 then (IPC_ERR_FULL, put_endpoint i ep st)
                  else (IPC_OK, put_select s ((body f)\<lparr>ep_ids := ep_ids (body f) @ [i]\<rparr>)
                                  (put_endpoint i (ep\<lparr>poll_hub := Some hub'\<rparr>) st))))"
      using Inr False e unfolding ep_def by (simp add: ipc_select_add_def Let_def endpoint_get_obj [OF inv])
    then show ?thesis
      using 1 2 by (cases node_mem) (auto simp: poll_struct_add_def split: option.splits)
  qed
qed

lemma scan_ready_keeps: "ep_ids (snd (ipc_select_scan_ready sel st)) = ep_ids sel"
  by (simp add: ipc_select_scan_ready_def Let_def split: option.split)

lemma put_scan_inv:
  assumes "ipc_inv st" "obj (selects st) s = Some f" "ep_ids sel = ep_ids (body f)"
  shows "ipc_inv (put_select s sel st)"
  using assms ipc_invD(7) [OF assms(1,2)] by (intro put_select_inv) (auto simp: select_ok_def)

lemma select_scan_inv:
  assumes inv: "ipc_inv st" and f: "obj (selects st) s = Some f"
  shows "ipc_inv (snd (select_scan s (body f) st))"
  using scan_ready_keeps [of "body f" st]
  by (auto simp: select_scan_def ipc_select_clear_latch_def split: prod.split option.split intro!: put_scan_inv [OF inv f])

lemma select_take_inv: "ipc_inv st \<Longrightarrow> ipc_inv (snd (select_take s st))"
  by (auto simp: select_take_def ipc_select_take_ready_def split: option.split intro!: put_scan_inv)

lemma select_wait_scan_inv:
  assumes "ipc_inv st"
  shows "ipc_inv (snd (select_wait_scan s owner st))"
  using assms select_scan_inv [OF assms select_find_some(1)]
  by (auto simp: select_wait_scan_def split: sum.split prod.split option.split) (metis snd_conv)+

subsection \<open>Parking, waking, resuming\<close>

definition running :: "nat \<Rightarrow> ipc \<Rightarrow> bool" where
  "running cur st \<longleftrightarrow>
     (\<exists>t. threads (ipc_sched st) cur = Some t \<and> th_state t = THREAD_STATE_RUNNING \<and> \<not> blocking_transition t)"

lemma park_inv:
  assumes inv: "ipc_inv st" and run: "running cur st"
    and live: "(\<exists>i. ev = EV_IPC i \<and> obj (endpoints st) i \<noteq> None) \<or> (\<exists>i. ev = EV_SELECT i \<and> obj (selects st) i \<noteq> None)"
  shows "ipc_inv (st\<lparr>ipc_sched := sched_event_wait hz now cur ev ms (ipc_sched st)\<rparr>)"
proof -
  obtain t where t: "threads (ipc_sched st) cur = Some t" "th_state t = THREAD_STATE_RUNNING" "\<not> blocking_transition t"
    using run by (auto simp: running_def)
  show ?thesis
    using event_wait_inv [OF ipc_invD(3) [OF inv] t] event_wait_lists [OF ipc_invD(3) [OF inv] t(1,2)] live
    by (intro sched_upd_inv [OF inv]) (auto split: if_splits)
qed

lemma resume_inv:
  assumes inv: "ipc_inv st"
  shows "ipc_inv (st\<lparr>ipc_sched := sched_event_resume cur (ipc_sched st)\<rparr>)"
proof -
  have "wait_list (sched_event_resume cur (ipc_sched st)) = wait_list (ipc_sched st)" by simp
  moreover have "sched_inv (sched_event_resume cur (ipc_sched st))"
    using disarm_inv [OF ipc_invD(3) [OF inv]] by (simp add: sched_event_resume_def)
  ultimately show ?thesis by (intro sched_upd_inv [OF inv]) auto
qed

lemma dequeue_inv:
  assumes "ipc_inv st" "ipc_endpoint_get i st = Some e" "count (body e) \<noteq> 0"
  shows "ipc_inv (snd (ipc_endpoint_dequeue_locked i (body e) st))"
  using dequeue_ok [OF assms(1) _ assms(3), of i] assms(2) by (metis endpoint_get_obj [OF assms(1)] prod.collapse)

lemma recv_blocking_inv:
  assumes inv: "ipc_inv st"
  shows "running cur st \<Longrightarrow> ipc_inv (snd (ipc_recv_blocking_for cur receiver i st))"
    and "ipc_inv (snd (snd (ipc_recv_blocking_resume cur i st)))"
proof -
  show "ipc_inv (snd (ipc_recv_blocking_for cur receiver i st))" if run: "running cur st"
  proof (cases "ipc_endpoint_acquire_owned i IPC_ENDPOINT_TYPE_MESSAGE receiver st")
    case (Inr e)
    note e = acquire_owned_some(1) [OF Inr]
    show ?thesis
      using Inr park_inv [OF inv run, of "EV_IPC i" 0 0 0] e dequeue_inv [OF inv, of i e]
      by (cases "count (body e) = 0") (auto simp: ipc_recv_blocking_for_def endpoint_get_obj [OF inv] split: prod.split)
  qed (simp add: ipc_recv_blocking_for_def inv)
  let ?st = "st\<lparr>ipc_sched := sched_event_resume cur (ipc_sched st)\<rparr>"
  show "ipc_inv (snd (snd (ipc_recv_blocking_resume cur i st)))"
    using resume_inv [OF inv, of cur] dequeue_inv [OF resume_inv [OF inv, of cur], of i]
    by (auto simp: ipc_recv_blocking_resume_def Let_def split: option.split prod.split)
qed

lemma endpoint_wait_inv:
  assumes inv: "ipc_inv st" and run: "running cur st"
  shows "ipc_inv (snd (ipc_endpoint_wait_for hz now cur receiver i ms st))"
  using inv park_inv [OF inv run, of "EV_IPC i"] acquire_owned_some(1) [of i IPC_ENDPOINT_TYPE_MESSAGE receiver st]
  by (auto simp: ipc_endpoint_wait_for_def split: sum.split)

lemma ep_ok_notify: "ep_ok (ep\<lparr>notify_count := n\<rparr>) = ep_ok ep"
  by (simp add: ep_ok_def ring_ok_def)

lemma notify_from_inv:
  assumes inv: "ipc_inv st"
  shows "ipc_inv (snd (ipc_notify_from sender i st))"
proof (cases "ipc_endpoint_acquire_owned i IPC_ENDPOINT_TYPE_NOTIFICATION sender st")
  case (Inr e)
  note e = acquire_owned_some(1) [OF Inr]
  have "ipc_inv (put_endpoint i (if notify_count (body e) \<noteq> 0xFFFFFFFF
      then (body e)\<lparr>notify_count := notify_count (body e) + 1\<rparr> else body e) st)"
    using e ipc_invD(5) [OF inv e] by (intro put_endpoint_inv [OF inv]) (auto simp: ep_ok_notify)
  from notify_ok [OF this] show ?thesis using Inr by (simp add: ipc_notify_from_def Let_def)
qed (simp add: ipc_notify_from_def inv)

lemma wait_for_inv:
  assumes inv: "ipc_inv st"
  shows "ipc_inv (snd (ipc_wait_for receiver i st))"
proof (cases "ipc_endpoint_acquire_owned i IPC_ENDPOINT_TYPE_NOTIFICATION receiver st")
  case (Inr e)
  note e = acquire_owned_some(1) [OF Inr]
  have "ipc_inv (put_endpoint i ((body e)\<lparr>notify_count := notify_count (body e) - 1\<rparr>) st)"
    using e ipc_invD(5) [OF inv e] by (intro put_endpoint_inv [OF inv]) (auto simp: ep_ok_notify)
  then show ?thesis using Inr inv by (simp add: ipc_wait_for_def Let_def)
qed (simp add: ipc_wait_for_def inv)

lemma select_wait_block_inv:
  assumes inv: "ipc_inv st" and run: "running cur st" and f: "obj (selects st) s \<noteq> None"
  shows "ipc_inv (snd (select_wait_block hz now cur s ms st))"
proof -
  obtain r st1 where t: "select_take s st = (r, st1)" by force
  have "ipc_inv st1" using select_take_inv [OF inv, of s] t by simp
  moreover have "running cur st1" "obj (selects st1) s \<noteq> None"
    using t run f ipc_invD(2) [OF inv]
    by (auto simp: select_take_def running_def put_simps split: option.splits prod.splits)
  ultimately show ?thesis
    using t park_inv [of st1 cur "EV_SELECT s"] by (cases r) (auto simp: select_wait_block_def)
qed

subsection \<open>Destroying a set\<close>

definition watchers_of :: "ipc \<Rightarrow> nat \<Rightarrow> nat set" where
  "watchers_of st i = (case ep_of st i of Some ep \<Rightarrow> watching (poll_hub ep) | None \<Rightarrow> {})"

lemma unwatch_ok:
  assumes inv: "ipc_inv st"
  shows "ipc_inv (unwatch s i st)" "selects (unwatch s i st) = selects st" "ipc_sched (unwatch s i st) = ipc_sched st"
    "watchers_of (unwatch s i st) j = watchers_of st j - (if j = i then {s} else {})"
    "dir (unwatch s i st) = dir st"
proof -
  have "ipc_inv (unwatch s i st) \<and> selects (unwatch s i st) = selects st \<and> ipc_sched (unwatch s i st) = ipc_sched st
    \<and> watchers_of (unwatch s i st) j = watchers_of st j - (if j = i then {s} else {}) \<and> dir (unwatch s i st) = dir st"
  proof (cases "\<exists>e hub. obj (endpoints st) i = Some e \<and> poll_hub (body e) = Some hub")
    case True
    then obtain e hub where e: "obj (endpoints st) i = Some e" "poll_hub (body e) = Some hub" by blast
    let ?ep = "(body e)\<lparr>poll_hub := Some (poll_struct_remove s hub)\<rparr>"
    have u: "unwatch s i st = put_endpoint i ?ep st" using e by (simp add: unwatch_def endpoint_get_obj [OF inv])
    have "ipc_inv (put_endpoint i ?ep st)"
      using e ipc_invD(5) [OF inv e(1)] by (intro put_endpoint_inv [OF inv]) (auto simp: ep_ok_hub watching_remove)
    moreover have "ep_of st i = Some (body e)" using e by (simp add: ep_of_def)
    moreover have "dir (put_endpoint i ?ep st) = dir st" by (rule dir_put [OF inv e(1)]) simp
    ultimately show ?thesis
      using e by (simp add: u watchers_of_def ep_of_put [OF inv] watching_remove)
  next
    case False
    then have "unwatch s i st = st" by (auto simp: unwatch_def endpoint_get_obj [OF inv] split: option.splits)
    moreover have "watchers_of st i = {}"
      using False by (cases "obj (endpoints st) i") (auto simp: watchers_of_def ep_of_def)
    ultimately show ?thesis using inv by auto
  qed
  then show "ipc_inv (unwatch s i st)" "selects (unwatch s i st) = selects st" "ipc_sched (unwatch s i st) = ipc_sched st"
    "watchers_of (unwatch s i st) j = watchers_of st j - (if j = i then {s} else {})" "dir (unwatch s i st) = dir st"
    by simp_all
qed

lemma unwatch_all:
  assumes "ipc_inv st"
  shows "ipc_inv (fold (unwatch s) is st) \<and> selects (fold (unwatch s) is st) = selects st
    \<and> ipc_sched (fold (unwatch s) is st) = ipc_sched st \<and> dir (fold (unwatch s) is st) = dir st
    \<and> (\<forall>j. watchers_of (fold (unwatch s) is st) j = watchers_of st j - (if j \<in> set is then {s} else {}))"
  using assms
proof (induction "is" arbitrary: st)
  case (Cons i "is")
  then show ?case
    using Cons.IH [OF unwatch_ok(1) [OF Cons.prems, of s i]] unwatch_ok(2-5) [OF Cons.prems, of s i] by auto
qed simp

lemma hub_ok_watchers:
  assumes "ipc_inv st" and "s \<in> watchers_of st i"
  shows "\<exists>f. obj (selects st) s = Some f \<and> i \<in> set (ep_ids (body f))"
proof -
  obtain e where "obj (endpoints st) i = Some e" "s \<in> watching (poll_hub (body e))"
    using assms(2) by (auto simp: watchers_of_def ep_of_def split: option.splits)
  then show ?thesis using ipc_invD(6) [OF assms(1)] by (auto simp: hub_ok_def)
qed

lemma select_destroy_ok:
  assumes inv: "ipc_inv st" and f: "ipc_select_find s owner st = Inr f"
  shows "ipc_inv (ipc_select_destroy s owner st)"
    and "obj (selects (ipc_select_destroy s owner st)) = (obj (selects st))(s := None)"
    and "s \<notin> watchers_of (ipc_select_destroy s owner st) i"
    and "dir (ipc_select_destroy s owner st) = dir st"
proof -
  note o = select_find_some(1) [OF f]
  define st1 where "st1 = fold (unwatch s) (ep_ids (body f)) st"
  have u: "ipc_inv st1" "selects st1 = selects st" "ipc_sched st1 = ipc_sched st" "dir st1 = dir st"
    "\<And>j. watchers_of st1 j = watchers_of st j - (if j \<in> set (ep_ids (body f)) then {s} else {})"
    using unwatch_all [OF inv, of s "ep_ids (body f)"] by (simp_all add: st1_def)
  have none: "s \<notin> watchers_of st1 j" for j
    using hub_ok_watchers [OF inv, of s j] o by (auto simp: u(5))
  define t where "t = snd (idtable_free (idtable_put s ((body f)\<lparr>ep_ids := []\<rparr>) (selects st)) s)"
  define st' where "st' = st1\<lparr>selects := t, ipc_sched := sched_event_abort_all (EV_SELECT s) (ipc_sched st)\<rparr>"
  have d: "ipc_select_destroy s owner st = st'"
    using f u(2,3) by (simp add: ipc_select_destroy_def Let_def st1_def [symmetric] st'_def t_def put_select_def)
  have t: "idtable_ok t" "obj t = (obj (selects st))(s := None)"
    using ipc_invD(2) [OF inv] by (auto simp: t_def put_simps tables.put_ok tables.free_ok fun_eq_iff)
  have w: "watchers_of st' = watchers_of st1" by (simp add: st'_def watchers_of_def ep_of_def fun_eq_iff)
  have "hub_ok t i (body e)" if e: "obj (endpoints st1) i = Some e" for i e
  proof -
    have "s \<notin> watching (poll_hub (body e))" using none [of i] e by (simp add: watchers_of_def ep_of_def)
    then show ?thesis using ipc_invD(6) [OF u(1) e] t(2) u(2) by (fastforce simp: hub_ok_def)
  qed
  moreover have "parked_live st'"
    using ipc_invD(4) [OF u(1)] abort_lists [OF ipc_invD(3) [OF inv], of "EV_SELECT s"] t(2) u(2,3)
    by (auto simp: parked_live_def st'_def split: if_splits)
  ultimately have "ipc_inv st'"
    using ipc_invD [OF u(1)] t u(2) abort_inv [OF ipc_invD(3) [OF inv]] by (auto simp: ipc_inv_def st'_def)
  then show "ipc_inv (ipc_select_destroy s owner st)" using d by simp
  show "obj (selects (ipc_select_destroy s owner st)) = (obj (selects st))(s := None)" using d t by (simp add: st'_def)
  show "s \<notin> watchers_of (ipc_select_destroy s owner st) i" using d w none by simp
  show "dir (ipc_select_destroy s owner st) = dir st" using d u(4) by (simp add: st'_def dir_def fun_eq_iff)
qed

lemma select_destroy_inv: "ipc_inv st \<Longrightarrow> ipc_inv (ipc_select_destroy s owner st)"
  using select_destroy_ok(1) by (cases "ipc_select_find s owner st") (simp_all add: ipc_select_destroy_def)

lemma listen_loop_inv: "ipc_inv st \<Longrightarrow> ipc_inv (snd (listen_loop s owner eps st))"
proof (induction s owner eps st rule: listen_loop.induct)
  case (2 s owner hub_mem node_mem ep eps st)
  obtain rc st1 where a: "ipc_select_add hub_mem node_mem s ep owner st = (rc, st1)" by force
  then have "ipc_inv st1" using select_add_inv [OF 2(2), of hub_mem node_mem s ep owner] by simp
  then show ?case using 2(1) [OF a [symmetric]] a select_destroy_inv by simp
qed simp

lemma listen_inv:
  assumes inv: "ipc_inv st" and mem: "fresh_for (store (selects st)) mem"
    and len: "length (elems (selects st)) < IDTABLE_ID_NONE - 2"
    and l: "ipc_select_listen mem owner eps st = Some (rc, r, st')"
  shows "ipc_inv st'"
proof -
  obtain rc1 r1 st1 where c: "ipc_select_create mem owner st = Some (rc1, r1, st1)" "ipc_inv st1"
    using select_create_ok [OF inv mem len] by blast
  show ?thesis
  proof (cases r1)
    case None
    then show ?thesis using l c inv by (auto simp: ipc_select_listen_def split: if_splits)
  next
    case (Some s)
    then show ?thesis
      using l c inv listen_loop_inv [OF c(2), of s owner eps] by (auto simp: ipc_select_listen_def split: if_splits prod.splits)
  qed
qed

lemma idtable_init_fresh:
  assumes "idtable_init mem sz cap quota t = (WASMOS_OK, t')" "sz + 15 < 2 ^ 32"
  shows "idtable_ok t'" "obj t' = (\<lambda>_. None)"
proof -
  have v: "list_view (store t') = []" "list_ok (store t')" "next_id t' = 1"
    using assms by (auto simp: idtable_init_def list_init_def list_array_chunk_impl_init_def Let_def list_view_def list_ok_def
        list_blocks_def WASMOS_OK_def WASMOS_INVAL_def WASMOS_NOMEM_def split: if_splits option.splits)
  then show ok: "idtable_ok t'" by (simp add: idtable_ok_def elems_def live_ids_def IDTABLE_ID_NONE_def)
  have "obj t' j = None" for j
    using obj_iff [OF ok, of j] v(1) by (cases "obj t' j") (auto simp: elems_def)
  then show "obj t' = (\<lambda>_. None)" by blast
qed

lemma init_ok:
  assumes i: "ipc_init mem1 mem2 ep_size sel_size st = Some st'" and s: "sched_idle (ipc_sched st)"
    and big: "ep_size + 15 < 2 ^ 32" "sel_size + 15 < 2 ^ 32"
  shows "ipc_inv st'" and "dir st' = (\<lambda>_. None)"
proof -
  obtain t1 t2 where t: "idtable_init mem1 ep_size IPC_ENDPOINT_TABLE_CHUNK IPC_ENDPOINT_PER_CONTEXT_MAX (endpoints st) = (WASMOS_OK, t1)"
    "idtable_init mem2 sel_size IPC_SELECT_TABLE_CHUNK IPC_SELECT_PER_CONTEXT_MAX (selects st) = (WASMOS_OK, t2)"
    "st' = st\<lparr>endpoints := t1, selects := t2\<rparr>"
    using i by (auto simp: ipc_init_def split: prod.splits if_splits)
  note o = idtable_init_fresh [OF t(1) big(1)] idtable_init_fresh [OF t(2) big(2)]
  show "ipc_inv st'"
    using o sched_idle_inv [OF s] s by (simp add: t(3) ipc_inv_def parked_live_def sched_idle_def)
  show "dir st' = (\<lambda>_. None)" using o by (simp add: t(3) dir_def fun_eq_iff)
qed

lemma wait_resume_inv:
  assumes "ipc_inv st"
  shows "ipc_inv (snd (snd (ipc_select_wait_resume cur s owner st)))"
proof -
  obtain r st1 where w: "select_wait_scan s owner (st\<lparr>ipc_sched := sched_event_resume cur (ipc_sched st)\<rparr>) = (r, st1)" by force
  then have "ipc_inv st1" using select_wait_scan_inv [OF resume_inv [OF assms, of cur], of s owner] by simp
  then show ?thesis
    using w select_take_inv [of st1 s]
    by (cases r) (auto simp: ipc_select_wait_resume_def split: prod.split option.split)
qed

subsection \<open>Histories\<close>

text \<open>
  One critical section of \<open>ipc.c\<close>, or a scheduler step that parks nobody on an IPC object.  Between
  the scan and the park of a wait the caller holds the event lock, which keeps the set alive.
\<close>

inductive ipc_step :: "ipc \<Rightarrow> ipc \<Rightarrow> bool" where
  create: "\<lbrakk>fresh_for (store (endpoints st)) mem; length (elems (endpoints st)) < IDTABLE_ID_NONE - 2;
      ipc_endpoint_create_typed mem owner ty st = Some (rc, r, st')\<rbrakk> \<Longrightarrow> ipc_step st st'"
| select_create: "\<lbrakk>fresh_for (store (selects st)) mem; length (elems (selects st)) < IDTABLE_ID_NONE - 2;
      ipc_select_create mem owner st = Some (rc, r, st')\<rbrakk> \<Longrightarrow> ipc_step st st'"
| listen: "\<lbrakk>fresh_for (store (selects st)) mem; length (elems (selects st)) < IDTABLE_ID_NONE - 2;
      ipc_select_listen mem owner eps st = Some (rc, r, st')\<rbrakk> \<Longrightarrow> ipc_step st st'"
| send: "ipc_step st (snd (ipc_send_from memb sender i msg st))"
| recv: "ipc_step st (snd (snd (ipc_recv_for receiver i st)))"
| recv_block: "running cur st \<Longrightarrow> ipc_step st (snd (ipc_recv_blocking_for cur receiver i st))"
| recv_resume: "ipc_step st (snd (snd (ipc_recv_blocking_resume cur i st)))"
| endpoint_wait: "running cur st \<Longrightarrow> ipc_step st (snd (ipc_endpoint_wait_for hz now cur receiver i ms st))"
| notify: "ipc_step st (snd (ipc_notify_from sender i st))"
| notification_wait: "ipc_step st (snd (ipc_wait_for receiver i st))"
| watch: "ipc_step st (snd (ipc_context_watch memb context_id dst st))"
| release: "ipc_endpoints_release_owner owner st = Some st' \<Longrightarrow> ipc_step st st'"
| add: "ipc_step st (snd (ipc_select_add hub_mem node_mem s i owner st))"
| scan: "ipc_step st (snd (select_wait_scan s owner st))"
| block: "\<lbrakk>running cur st; obj (selects st) s \<noteq> None\<rbrakk> \<Longrightarrow> ipc_step st (snd (select_wait_block hz now cur s ms st))"
| wait_resume: "ipc_step st (snd (snd (ipc_select_wait_resume cur s owner st)))"
| destroy: "ipc_step st (ipc_select_destroy s owner st)"
| sched: "\<lbrakk>sched_step (ipc_sched st) s';
      \<forall>i. set (wait_list s' (EV_IPC i)) \<subseteq> set (wait_list (ipc_sched st) (EV_IPC i));
      \<forall>i. set (wait_list s' (EV_SELECT i)) \<subseteq> set (wait_list (ipc_sched st) (EV_SELECT i))\<rbrakk>
      \<Longrightarrow> ipc_step st (st\<lparr>ipc_sched := s'\<rparr>)"

lemma watch_inv: "ipc_inv st \<Longrightarrow> ipc_inv (snd (ipc_context_watch memb context_id dst st))"
  by (simp add: ipc_context_watch_def ipc_inv_def parked_live_def)

lemma release_inv:
  assumes "ipc_inv st" "ipc_endpoints_release_owner owner st = Some st'"
  shows "ipc_inv st'"
  using assms release_ok [OF assms(1), of owner]
  by (cases "owner = 0") (auto simp: ipc_endpoints_release_owner_def)

lemma sched_move_inv:
  assumes inv: "ipc_inv st" and s: "sched_step (ipc_sched st) s'"
    and sub: "\<forall>i. set (wait_list s' (EV_IPC i)) \<subseteq> set (wait_list (ipc_sched st) (EV_IPC i))"
      "\<forall>i. set (wait_list s' (EV_SELECT i)) \<subseteq> set (wait_list (ipc_sched st) (EV_SELECT i))"
  shows "ipc_inv (st\<lparr>ipc_sched := s'\<rparr>)"
proof -
  have "wait_list (ipc_sched st) (EV_IPC i) \<noteq> []" if "wait_list s' (EV_IPC i) \<noteq> []" for i
    using sub(1) that by (metis empty_set set_empty subset_empty)
  moreover have "wait_list (ipc_sched st) (EV_SELECT i) \<noteq> []" if "wait_list s' (EV_SELECT i) \<noteq> []" for i
    using sub(2) that by (metis empty_set set_empty subset_empty)
  ultimately have "parked_live (st\<lparr>ipc_sched := s'\<rparr>)"
    using ipc_invD(4) [OF inv] by (auto simp: parked_live_def)
  then show ?thesis using inv sched_step_inv [OF s] by (simp add: ipc_inv_def)
qed

lemma ipc_step_inv: "ipc_step st st' \<Longrightarrow> ipc_inv st \<Longrightarrow> ipc_inv st'"
proof (induction rule: ipc_step.induct)
  case (create st mem owner ty rc r st')
  then show ?case using create_typed_ok [of st mem owner ty] by auto
next
  case (select_create st mem owner rc r st')
  then show ?case using select_create_ok [of st mem owner] by auto
next
  case (send st memb sender i msg)
  then show ?case using send_refines(1) [OF send] by (metis prod.collapse)
next
  case (recv st receiver i)
  then show ?case using recv_refines(1) [OF recv] by (metis prod.collapse)
qed (auto intro: listen_inv recv_blocking_inv endpoint_wait_inv notify_from_inv wait_for_inv watch_inv release_inv
    select_add_inv select_wait_scan_inv select_wait_block_inv wait_resume_inv select_destroy_inv sched_move_inv)

lemma ipc_steps_inv: "ipc_step\<^sup>*\<^sup>* st st' \<Longrightarrow> ipc_inv st \<Longrightarrow> ipc_inv st'"
  by (induction rule: rtranclp_induct) (auto intro: ipc_step_inv)

text \<open>
  C24. Nothing dangles.  After \<open>ipc_init\<close> and any history of calls, with endpoints and select sets
  created and destroyed at will by any context: every watcher of an endpoint names a live select set
  that lists the endpoint, so a signal never reaches freed memory; a thread is parked only on an
  endpoint or set that exists; a set lists at most eight endpoints, each once; and a ring never holds
  more than its 33 slots, the last one only for hangups, which wait outside only while it is full.
\<close>

theorem ipc_nothing_dangles:
  assumes "ipc_init mem1 mem2 ep_size sel_size st0 = Some st" and "sched_idle (ipc_sched st0)"
    and "ep_size + 15 < 2 ^ 32" and "sel_size + 15 < 2 ^ 32" and "ipc_step\<^sup>*\<^sup>* st st'"
  shows "(\<forall>i e. obj (endpoints st') i = Some e \<longrightarrow>
            (\<forall>s \<in> watching (poll_hub (body e)). \<exists>f. obj (selects st') s = Some f \<and> i \<in> set (ep_ids (body f)))
            \<and> count (body e) \<le> IPC_QUEUE_SLOTS
            \<and> (pending_hangups (body e) \<noteq> [] \<longrightarrow> count (body e) = IPC_QUEUE_SLOTS))
    \<and> (\<forall>s f. obj (selects st') s = Some f \<longrightarrow> distinct (ep_ids (body f)) \<and> length (ep_ids (body f)) \<le> IPC_SELECT_EPS_MAX)
    \<and> (\<forall>i. wait_list (ipc_sched st') (EV_IPC i) \<noteq> [] \<longrightarrow> obj (endpoints st') i \<noteq> None)
    \<and> (\<forall>i. wait_list (ipc_sched st') (EV_SELECT i) \<noteq> [] \<longrightarrow> obj (selects st') i \<noteq> None)"
proof -
  have "ipc_inv st'" using ipc_steps_inv [OF assms(5)] init_ok(1) [OF assms(1-4)] by simp
  then show ?thesis
    by (auto simp: ipc_inv_def hub_ok_def ep_ok_def ring_ok_def select_ok_def parked_live_def)
qed

text \<open>The tables right after \<open>ipc_init\<close>, and the first endpoint.\<close>

definition demo_boot :: ipc where
  "demo_boot = the (ipc_init (Some 4096) (Some 8192) 128 64 demo_ipc)"

lemma demo_boot_init: "ipc_init (Some 4096) (Some 8192) 128 64 demo_ipc = Some demo_boot"
  by (simp add: demo_boot_def ipc_init_def idtable_init_def list_init_def list_array_chunk_impl_init_def
      IPC_ENDPOINT_TABLE_CHUNK_def IPC_SELECT_TABLE_CHUNK_def WASMOS_OK_def)

lemma demo_boot_endpoints:
  "store (endpoints demo_boot) = \<lparr>elem_size = 128, list_kind = LIST_IMPL_ARRAY_CHUNK, config_value = 16, list_state = Some (Array_state 16 [])\<rparr>"
  "per_owner_max (endpoints demo_boot) = 64"
  by (simp_all add: demo_boot_def ipc_init_def idtable_init_def list_init_def list_array_chunk_impl_init_def
      IPC_ENDPOINT_TABLE_CHUNK_def IPC_SELECT_TABLE_CHUNK_def IPC_ENDPOINT_PER_CONTEXT_MAX_def WASMOS_OK_def)

lemma demo_boot_create:
  "\<exists>i st'. ipc_endpoint_create_typed (Some 16384) 5 IPC_ENDPOINT_TYPE_MESSAGE demo_boot = Some (IPC_OK, Some i, st')
     \<and> ipc_step demo_boot st' \<and> dir st' i = Some (5, IPC_ENDPOINT_TYPE_MESSAGE)"
proof -
  have inv: "ipc_inv demo_boot"
    using init_ok(1) [OF demo_boot_init] demo_sched_idle by (simp add: demo_ipc_def)
  have fr: "fresh_for (store (endpoints demo_boot)) (Some 16384)" "length (elems (endpoints demo_boot)) < IDTABLE_ID_NONE - 2"
    by (simp_all add: demo_boot_endpoints fresh_for_def list_blocks_def elems_def list_view_def IDTABLE_ID_NONE_def)
  obtain rc r st' where c: "ipc_endpoint_create_typed (Some 16384) 5 IPC_ENDPOINT_TYPE_MESSAGE demo_boot = Some (rc, r, st')"
    "case r of None \<Rightarrow> rc = IPC_ERR_FULL \<and> dir st' = dir demo_boot
       | Some i \<Rightarrow> rc = IPC_OK \<and> dir demo_boot i = None \<and> dir st' = (dir demo_boot)(i \<mapsto> (5, IPC_ENDPOINT_TYPE_MESSAGE)) \<and> stream st' i = []"
    using create_typed_ok [OF inv fr, of 5 IPC_ENDPOINT_TYPE_MESSAGE] by blast
  have "r \<noteq> None"
    using c(1) by (auto simp: ipc_endpoint_create_typed_def idtable_alloc_def idtable_count_for_owner_def list_view_def
        demo_boot_endpoints list_alloc_def list_array_chunk_alloc_def Let_def split: option.splits prod.splits if_splits)
  then show ?thesis using c ipc_step.create [OF fr c(1)] by auto
qed

theorem ipc_nothing_dangles_witness:
  "\<exists>st' i e. ipc_init (Some 4096) (Some 8192) 128 64 demo_ipc = Some demo_boot \<and> ipc_step\<^sup>*\<^sup>* demo_boot st'
     \<and> obj (endpoints st') i = Some e \<and> count (body e) \<le> IPC_QUEUE_SLOTS"
proof -
  obtain i st' where s: "ipc_step demo_boot st'" "dir st' i = Some (5, IPC_ENDPOINT_TYPE_MESSAGE)"
    using demo_boot_create by blast
  obtain e where e: "obj (endpoints st') i = Some e" using s(2) by (auto simp: dir_def)
  have "sched_idle (ipc_sched demo_ipc)" using demo_sched_idle by (simp add: demo_ipc_def)
  then show ?thesis
    using ipc_nothing_dangles [OF demo_boot_init _ _ _ r_into_rtranclp [of ipc_step, OF s(1)]] s(1) e demo_boot_init
    by (intro exI [of _ st'] exI [of _ i] exI [of _ e]) auto
qed

end
