(* ===== verification/Ipc_wakeup.thy ===== *)
theory Ipc_wakeup
  imports Ipc_select
begin

section \<open>Waits on select sets\<close>

text \<open>
  What a wait on a select set promises (\<open>ipc_select_wait\<close>, \<open>ipc_select_signal\<close> and the scan in
  \<open>src/kernel/ipc.c\<close>): the scan reports a ready endpoint whenever there is one and rotates, and a
  signal reaches the waiter wherever it is - before the scan, between scan and park, or parked.
\<close>

subsection \<open>The scan\<close>

lemma cyclic_index: "0 < n \<Longrightarrow> k < n \<Longrightarrow> \<exists>j < n. (c + j) mod n = (k::nat)"
proof -
  assume n: "0 < n" and k: "k < n"
  have "(c + (k + (n - c mod n)) mod n) mod n = (c mod n + (k + (n - c mod n))) mod n"
    by (simp add: mod_add_left_eq mod_add_right_eq)
  also have "c mod n + (k + (n - c mod n)) = k + n" using mod_less_divisor [OF n, of c] by linarith
  finally show ?thesis using n k by (intro exI [of _ "(k + (n - c mod n)) mod n"]) simp
qed

definition effective_cursor :: "ipc_select \<Rightarrow> nat" where
  "effective_cursor sel = (if length (ep_ids sel) \<le> scan_cursor sel then 0 else scan_cursor sel)"

lemma effective_cursor_set: "x < length (ep_ids sel) \<Longrightarrow> effective_cursor (sel\<lparr>scan_cursor := x\<rparr>) = x"
  by (simp add: effective_cursor_def)

text \<open>The scan finds the first ready endpoint at or after the cursor, cyclically.\<close>

lemma scan_first:
  assumes n: "ep_ids sel \<noteq> []" and d: "d < length (ep_ids sel)"
    and ready: "ipc_endpoint_is_ready (ep_ids sel ! ((effective_cursor sel + d) mod length (ep_ids sel))) st"
  shows "\<exists>j \<le> d. ipc_endpoint_is_ready (ep_ids sel ! ((effective_cursor sel + j) mod length (ep_ids sel))) st
    \<and> ipc_select_scan_ready sel st =
       (Some (ep_ids sel ! ((effective_cursor sel + j) mod length (ep_ids sel))),
        sel\<lparr>scan_cursor := ((effective_cursor sel + j) mod length (ep_ids sel) + 1) mod length (ep_ids sel)\<rparr>)"
proof -
  let ?n = "length (ep_ids sel)" and ?c = "effective_cursor sel"
  let ?P = "\<lambda>i. ipc_endpoint_is_ready (ep_ids sel ! i) st" and ?xs = "map (\<lambda>k. (?c + k) mod ?n) [0..<?n]"
  have "List.find ?P ?xs \<noteq> None"
    using d ready by (auto simp: find_None_iff)
  then obtain x where x: "List.find ?P ?xs = Some x" by blast
  then obtain j where j: "j < ?n" "x = (?c + j) mod ?n" "?P x" "\<forall>m < j. \<not> ?P ((?c + m) mod ?n)"
    by (auto simp: find_Some_iff)
  then have "j \<le> d" using ready by (metis not_le)
  moreover have "ipc_select_scan_ready sel st = (Some (ep_ids sel ! x), sel\<lparr>scan_cursor := (x + 1) mod ?n\<rparr>)"
    using n x by (simp add: ipc_select_scan_ready_def Let_def effective_cursor_def)
  ultimately show ?thesis using j by auto
qed

lemma scan_none:
  "fst (ipc_select_scan_ready sel st) = None \<longleftrightarrow> (\<forall>i \<in> set (ep_ids sel). \<not> ipc_endpoint_is_ready i st)"
proof (cases "\<exists>i \<in> set (ep_ids sel). ipc_endpoint_is_ready i st")
  case True
  then obtain k where k: "k < length (ep_ids sel)" "ipc_endpoint_is_ready (ep_ids sel ! k) st"
    by (metis in_set_conv_nth)
  then obtain d where "d < length (ep_ids sel)" "(effective_cursor sel + d) mod length (ep_ids sel) = k"
    using cyclic_index [of "length (ep_ids sel)" k "effective_cursor sel"] by (auto simp del: length_greater_0_conv)
  then have "fst (ipc_select_scan_ready sel st) \<noteq> None" using scan_first [of sel d st] k by force
  then show ?thesis using True by blast
next
  case False
  then have "List.find (\<lambda>i. ipc_endpoint_is_ready (ep_ids sel ! i) st) (map (\<lambda>k. (c + k) mod length (ep_ids sel)) [0..<length (ep_ids sel)]) = None"
    if "ep_ids sel \<noteq> []" for c
    using that by (auto simp: find_None_iff)
  then show ?thesis using False by (auto simp: ipc_select_scan_ready_def Let_def)
qed

lemma scan_some:
  assumes "fst (ipc_select_scan_ready sel st) = Some i"
  shows "i \<in> set (ep_ids sel)" "ipc_endpoint_is_ready i st"
  using assms
  by (auto simp: ipc_select_scan_ready_def Let_def find_Some_iff split: if_splits option.splits)

subsection \<open>Rotation\<close>

text \<open>The reports of consecutive scans of one set, each in the state it ran in.\<close>

fun scan_reports :: "ipc_select \<Rightarrow> ipc list \<Rightarrow> nat option list" where
  "scan_reports sel [] = []"
| "scan_reports sel (st # sts) =
     (case ipc_select_scan_ready sel st of (r, sel') \<Rightarrow> r # scan_reports sel' sts)"

lemma scan_reports_within:
  assumes "d < length (ep_ids sel)" "d < length sts"
    and "\<forall>st \<in> set sts. ipc_endpoint_is_ready (ep_ids sel ! ((effective_cursor sel + d) mod length (ep_ids sel))) st"
  shows "Some (ep_ids sel ! ((effective_cursor sel + d) mod length (ep_ids sel))) \<in> set (take (Suc d) (scan_reports sel sts))"
  using assms
proof (induction d arbitrary: sel sts rule: less_induct)
  case (less d)
  let ?n = "length (ep_ids sel)" and ?c = "effective_cursor sel"
  obtain st sts' where sts: "sts = st # sts'" using less.prems(2) by (cases sts) auto
  have n: "ep_ids sel \<noteq> []" using less.prems(1) by auto
  obtain j where j: "j \<le> d" and s: "ipc_select_scan_ready sel st =
       (Some (ep_ids sel ! ((?c + j) mod ?n)), sel\<lparr>scan_cursor := ((?c + j) mod ?n + 1) mod ?n\<rparr>)"
    using scan_first [OF n less.prems(1), of st] less.prems(3) sts by auto
  show ?case
  proof (cases "j = d")
    case True
    then show ?thesis using s sts by simp
  next
    case False
    let ?sel = "sel\<lparr>scan_cursor := ((?c + j) mod ?n + 1) mod ?n\<rparr>" and ?d = "d - j - 1"
    have c: "effective_cursor ?sel = ((?c + j) mod ?n + 1) mod ?n"
      using n by (intro effective_cursor_set) simp
    have lt: "?d < d" "Suc ?d \<le> d" using j False by auto
    have "(effective_cursor ?sel + ?d) mod ?n = (?c + j + 1 + ?d) mod ?n"
      unfolding c by (metis mod_add_left_eq)
    also have "?c + j + 1 + ?d = ?c + d" using j False by simp
    finally have k: "(effective_cursor ?sel + ?d) mod ?n = (?c + d) mod ?n" .
    have "Some (ep_ids sel ! ((?c + d) mod ?n)) \<in> set (take (Suc ?d) (scan_reports ?sel sts'))"
      using less.IH [OF lt(1), of ?sel sts'] less.prems lt sts k by simp
    then have "Some (ep_ids sel ! ((?c + d) mod ?n)) \<in> set (take d (scan_reports ?sel sts'))"
      using set_take_subset_set_take [OF lt(2), of "scan_reports ?sel sts'"] by blast
    then show ?thesis using s sts by simp
  qed
qed

subsection \<open>Signals\<close>

definition latch :: "ipc \<Rightarrow> nat \<Rightarrow> nat" where
  "latch st s = (case obj (selects st) s of Some f \<Rightarrow> ready_ep (body f) | None \<Rightarrow> IPC_ENDPOINT_NONE)"

text \<open>The set is registered for arrivals on the endpoint.\<close>

definition registered :: "ipc \<Rightarrow> nat \<Rightarrow> nat \<Rightarrow> bool" where
  "registered st s i \<longleftrightarrow>
     (\<exists>e hub. obj (endpoints st) i = Some e \<and> poll_hub (body e) = Some hub \<and> s \<in> w_sel ` set (hub POLL_EV_IN))"

text \<open>Waiting threads only leave their lists, and nobody comes to block without an event.\<close>

definition fewer_waiting :: "sched \<Rightarrow> sched \<Rightarrow> bool" where
  "fewer_waiting s s' \<longleftrightarrow> (\<forall>ev. set (wait_list s' ev) \<subseteq> set (wait_list s ev)) \<and> (\<forall>t. parked s' t \<longrightarrow> parked s t)"

lemma fewer_waiting_refl [simp]: "fewer_waiting s s"
  by (simp add: fewer_waiting_def)

lemma fewer_waiting_trans: "fewer_waiting a b \<Longrightarrow> fewer_waiting b c \<Longrightarrow> fewer_waiting a c"
  unfolding fewer_waiting_def by (meson subset_trans)

lemma wake_one_fewer: "sched_inv s \<Longrightarrow> fewer_waiting s (snd (sched_event_wake_one ev data pend s))"
  by (auto simp: fewer_waiting_def wake_one_lists dest: list.set_sel(2) wake_one_parked split: if_splits)
     (metis list.sel(2) list.set_sel(2))

lemma signal_effect:
  assumes inv: "ipc_inv st"
  shows "wait_list (ipc_sched (ipc_select_signal x i st)) =
      (if obj (selects st) x = None then wait_list (ipc_sched st)
       else (wait_list (ipc_sched st))(EV_SELECT x := tl (wait_list (ipc_sched st) (EV_SELECT x))))"
    and "fewer_waiting (ipc_sched st) (ipc_sched (ipc_select_signal x i st))"
    and "latch (ipc_select_signal x i st) s = (if s = x \<and> obj (selects st) s \<noteq> None then i else latch st s)"
  using wake_one_lists [OF ipc_invD(3) [OF inv]] wake_one_fewer [OF ipc_invD(3) [OF inv]] ipc_invD(2) [OF inv]
  by (auto simp: ipc_select_signal_def latch_def put_simps split: option.split)

lemma same_selects_live: "same_selects st st' \<Longrightarrow> obj (selects st') s = None \<longleftrightarrow> obj (selects st) s = None"
  unfolding same_selects_def by (drule spec [of _ s], cases "obj (selects st) s"; cases "obj (selects st') s") auto

lemma signal_live: "ipc_inv st \<Longrightarrow> obj (selects (ipc_select_signal x i st)) s = None \<longleftrightarrow> obj (selects st) s = None"
  using signal_frame [of st x i] same_selects_live by blast

lemma signals_effect:
  fixes i :: nat
  defines "go \<equiv> fold (\<lambda>x. ipc_select_signal x i)"
  assumes "ipc_inv st"
  shows "ipc_inv (go xs st)" and "fewer_waiting (ipc_sched st) (ipc_sched (go xs st))"
    and "latch st s = i \<Longrightarrow> latch (go xs st) s = i"
    and "s \<in> set xs \<Longrightarrow> obj (selects st) s \<noteq> None \<Longrightarrow> latch (go xs st) s = i"
    and "s \<in> set xs \<Longrightarrow> obj (selects st) s \<noteq> None \<Longrightarrow> wait_list (ipc_sched st) (EV_SELECT s) = w # ws
         \<Longrightarrow> w \<notin> set (wait_list (ipc_sched (go xs st)) (EV_SELECT s))"
proof -
  have "ipc_inv (go xs st) \<and> fewer_waiting (ipc_sched st) (ipc_sched (go xs st))
    \<and> (latch st s = i \<longrightarrow> latch (go xs st) s = i)
    \<and> (s \<in> set xs \<and> obj (selects st) s \<noteq> None \<longrightarrow> latch (go xs st) s = i)
    \<and> (s \<in> set xs \<and> obj (selects st) s \<noteq> None \<and> wait_list (ipc_sched st) (EV_SELECT s) = w # ws
         \<longrightarrow> w \<notin> set (wait_list (ipc_sched (go xs st)) (EV_SELECT s)))"
    using assms(2)
  proof (induction xs arbitrary: st)
    case (Cons x xs)
    let ?st = "ipc_select_signal x i st"
    note inv = Cons.prems
    note IH = Cons.IH [OF signal_inv [OF inv, of x i]]
    have go: "go (x # xs) st = go xs ?st" by (simp add: go_def)
    have f: "fewer_waiting (ipc_sched st) (ipc_sched (go xs ?st))"
      using IH signal_effect(2) [OF inv] fewer_waiting_trans by blast
    have l: "latch st s = i \<Longrightarrow> latch ?st s = i" "s = x \<Longrightarrow> obj (selects st) s \<noteq> None \<Longrightarrow> latch ?st s = i"
      using signal_effect(3) [OF inv, of x i s] by auto
    have "w \<notin> set (wait_list (ipc_sched (go xs ?st)) (EV_SELECT s))"
      if "s \<in> set (x # xs)" "obj (selects st) s \<noteq> None" "wait_list (ipc_sched st) (EV_SELECT s) = w # ws"
    proof (cases "s = x")
      case True
      have "distinct (w # ws)" using sched_invD(2) [OF ipc_invD(3) [OF inv], of "EV_SELECT s"] that(3) by simp
      then have "w \<notin> set (wait_list (ipc_sched ?st) (EV_SELECT s))"
        using True that signal_effect(1) [OF inv, of x i] by simp
      then show ?thesis using IH by (auto simp: fewer_waiting_def)
    next
      case False
      then show ?thesis using that IH signal_live [OF inv, of x i s] signal_effect(1) [OF inv, of x i] by simp
    qed
    then show ?case
      unfolding go using IH f l signal_live [OF inv, of x i s] by auto
  qed (simp add: go_def)
  then show "ipc_inv (go xs st)" and "fewer_waiting (ipc_sched st) (ipc_sched (go xs st))"
    and "latch st s = i \<Longrightarrow> latch (go xs st) s = i"
    and "s \<in> set xs \<Longrightarrow> obj (selects st) s \<noteq> None \<Longrightarrow> latch (go xs st) s = i"
    and "s \<in> set xs \<Longrightarrow> obj (selects st) s \<noteq> None \<Longrightarrow> wait_list (ipc_sched st) (EV_SELECT s) = w # ws
         \<Longrightarrow> w \<notin> set (wait_list (ipc_sched (go xs st)) (EV_SELECT s))"
    by blast+
qed

lemma note_contact_frame [simp]:
  "selects (ipc_endpoint_note_contact mem src dst st) = selects st"
  "ipc_sched (ipc_endpoint_note_contact mem src dst st) = ipc_sched st"
  by (auto simp: ipc_endpoint_note_contact_def note_contact_check_def note_contact_record_def Let_def split: sum.split prod.split)

text \<open>An arrival signals every registered set, whatever else the endpoint does to the lists of its own event.\<close>

lemma arrival_signals:
  assumes inv: "ipc_inv st" and e: "obj (endpoints st) i = Some e" and reg: "registered st s i"
    and st1: "ipc_inv st1" "selects st1 = selects st" "fewer_waiting (ipc_sched st) (ipc_sched st1)"
      "wait_list (ipc_sched st1) (EV_SELECT s) = wait_list (ipc_sched st) (EV_SELECT s)"
  defines "st2 \<equiv> poll_notify ipc_select_signal (poll_hub (body e)) POLL_EV_IN i st1"
  shows "latch st2 s = i" and "fewer_waiting (ipc_sched st) (ipc_sched st2)"
    and "wait_list (ipc_sched st) (EV_SELECT s) = w # ws \<Longrightarrow> w \<notin> set (wait_list (ipc_sched st2) (EV_SELECT s))"
proof -
  obtain hub where hub: "poll_hub (body e) = Some hub" "s \<in> w_sel ` set (hub POLL_EV_IN)"
    using reg e by (auto simp: registered_def)
  have "s \<in> watching (poll_hub (body e))" using hub by (auto simp: watching_def)
  then have live: "obj (selects st1) s \<noteq> None" using ipc_invD(6) [OF inv e] st1(2) by (auto simp: hub_ok_def)
  have s: "s \<in> set (map w_sel (hub POLL_EV_IN))" using hub(2) by simp
  note eff = signals_effect [OF st1(1), where xs = "map w_sel (hub POLL_EV_IN)" and i = i]
  show "latch st2 s = i" using eff(4) [OF s live] by (simp add: st2_def hub notify_fold)
  show "fewer_waiting (ipc_sched st) (ipc_sched st2)"
    using eff(2) st1(3) fewer_waiting_trans by (auto simp: st2_def hub notify_fold)
  show "w \<notin> set (wait_list (ipc_sched st2) (EV_SELECT s))" if "wait_list (ipc_sched st) (EV_SELECT s) = w # ws"
    using eff(5) [OF s live] that st1(4) by (simp add: st2_def hub notify_fold)
qed

lemma send_signals:
  assumes inv: "ipc_inv st" and reg: "registered st s i" and snd: "ipc_send_from mem sender i msg st = (IPC_OK, st')"
  shows "latch st' s = i" and "fewer_waiting (ipc_sched st) (ipc_sched st')"
    and "wait_list (ipc_sched st) (EV_SELECT s) = w # ws \<Longrightarrow> w \<notin> set (wait_list (ipc_sched st') (EV_SELECT s))"
proof -
  obtain e where e: "obj (endpoints st) i = Some e" and put: "ep_ok (ring_put i msg (body e))"
    and acc: "st' = ipc_endpoint_note_contact mem (source msg) i (ipc_endpoint_enqueue_locked i msg (body e) st)"
    using send_accepted [OF inv snd] by blast
  let ?s1 = "put_endpoint i (ring_put i msg (body e)) st"
  let ?st1 = "?s1\<lparr>ipc_sched := snd (sched_event_wake_one (EV_IPC i) 0 SCHED_PEND_OK (ipc_sched ?s1))\<rparr>"
  have "ipc_inv ?s1" using put e by (intro put_endpoint_inv [OF inv]) auto
  from wake_inv [OF this] have st1: "ipc_inv ?st1" "selects ?st1 = selects st" "fewer_waiting (ipc_sched st) (ipc_sched ?st1)"
    "wait_list (ipc_sched ?st1) (EV_SELECT s) = wait_list (ipc_sched st) (EV_SELECT s)"
    using wake_one_fewer [OF ipc_invD(3) [OF inv]] wake_one_lists [OF ipc_invD(3) [OF inv]] by simp_all
  have st': "st' = ipc_endpoint_note_contact mem (source msg) i (poll_notify ipc_select_signal (poll_hub (body e)) POLL_EV_IN i ?st1)"
    by (simp add: acc ipc_endpoint_enqueue_locked_def Let_def)
  note sig = arrival_signals [OF inv e reg st1]
  show "latch st' s = i" using sig(1) unfolding st' by (simp add: latch_def)
  show "fewer_waiting (ipc_sched st) (ipc_sched st')" using sig(2) unfolding st' by simp
  show "w \<notin> set (wait_list (ipc_sched st') (EV_SELECT s))" if "wait_list (ipc_sched st) (EV_SELECT s) = w # ws"
    using sig(3) [OF that] unfolding st' by simp
qed

lemma notify_signals:
  assumes inv: "ipc_inv st" and reg: "registered st s i" and snd: "ipc_notify_from sender i st = (IPC_OK, st')"
  shows "latch st' s = i" and "fewer_waiting (ipc_sched st) (ipc_sched st')"
    and "wait_list (ipc_sched st) (EV_SELECT s) = w # ws \<Longrightarrow> w \<notin> set (wait_list (ipc_sched st') (EV_SELECT s))"
    and "ipc_endpoint_is_ready i st'"
proof -
  obtain e where a: "ipc_endpoint_acquire_owned i IPC_ENDPOINT_TYPE_NOTIFICATION sender st = Inr e"
    using snd acquire_owned_error [of i IPC_ENDPOINT_TYPE_NOTIFICATION sender st]
    by (auto simp: ipc_notify_from_def ipc_codes split: sum.splits)
  note e = acquire_owned_some(1,2) [OF a]
  define ep where "ep = (if notify_count (body e) \<noteq> 0xFFFFFFFF then (body e)\<lparr>notify_count := notify_count (body e) + 1\<rparr> else body e)"
  have ep: "ep_ok ep" "poll_hub ep = poll_hub (body e)" "contacts ep = contacts (body e)" "notify_count ep \<noteq> 0"
    "ep_type ep = IPC_ENDPOINT_TYPE_NOTIFICATION"
    using ipc_invD(5) [OF inv e(1)] e(2) by (auto simp: ep_def ep_ok_notify)
  let ?st1 = "put_endpoint i ep st"
  have "ipc_inv ?st1" using ep e by (intro put_endpoint_inv [OF inv]) auto
  then have st1: "ipc_inv ?st1" "selects ?st1 = selects st" "fewer_waiting (ipc_sched st) (ipc_sched ?st1)"
    "wait_list (ipc_sched ?st1) (EV_SELECT s) = wait_list (ipc_sched st) (EV_SELECT s)" by simp_all
  have st': "st' = poll_notify ipc_select_signal (poll_hub (body e)) POLL_EV_IN i ?st1"
    using snd a by (simp add: ipc_notify_from_def Let_def ep_def [symmetric])
  note sig = arrival_signals [OF inv e(1) reg st1]
  show "latch st' s = i" using sig(1) unfolding st' .
  show "fewer_waiting (ipc_sched st) (ipc_sched st')" using sig(2) unfolding st' .
  show "w \<notin> set (wait_list (ipc_sched st') (EV_SELECT s))" if "wait_list (ipc_sched st) (EV_SELECT s) = w # ws"
    using sig(3) [OF that] unfolding st' .
  have "ipc_inv st'" "obj (endpoints st') i = Some (e\<lparr>body := ep\<rparr>)"
    using notify_ok [OF st1(1), of "poll_hub (body e)" POLL_EV_IN i] e(1) ipc_invD(1) [OF inv]
    unfolding st' by (simp_all add: put_simps)
  then show "ipc_endpoint_is_ready i st'" using ep(4,5) by (simp add: ipc_endpoint_is_ready_def endpoint_get_obj)
qed

lemma send_ready:
  assumes inv: "ipc_inv st" and snd: "ipc_send_from mem sender i msg st = (IPC_OK, st')"
  shows "ipc_endpoint_is_ready i st'"
proof -
  have inv': "ipc_inv st'" and "stream st' i \<noteq> []" using send_ok [OF inv snd] by simp_all
  then obtain e where e: "obj (endpoints st') i = Some e" "count (body e) \<noteq> 0"
    using stream_room(2) [OF inv', of i] by (cases "obj (endpoints st') i") (auto simp: stream_def ep_of_def)
  have "dir st' i = Some (fst (the (dir st' i)), IPC_ENDPOINT_TYPE_MESSAGE)"
    using send_dir [OF inv snd] snd
    by (auto simp: ipc_send_from_def acquire_dir [OF inv] ipc_codes split: option.splits if_splits)
  then have "ep_type (body e) = IPC_ENDPOINT_TYPE_MESSAGE" using e(1) by (simp add: dir_def)
  then show ?thesis using e by (simp add: ipc_endpoint_is_ready_def endpoint_get_obj [OF inv'])
qed

subsection \<open>Properties\<close>

lemma not_waiting_not_blocked:
  assumes inv: "sched_inv s" "sched_inv s'" and few: "fewer_waiting s s'"
    and w: "w \<in> set (wait_list s ev)" "w \<notin> set (wait_list s' ev)" and t: "threads s' w = Some t"
  shows "th_state t \<noteq> THREAD_STATE_BLOCKED"
proof
  assume b: "th_state t = THREAD_STATE_BLOCKED"
  have "\<not> parked s' w" using linked_not_parked [OF inv(1) w(1)] few by (auto simp: fewer_waiting_def)
  then have "th_reason t = THREAD_BLOCK_EVENT" using b t by (simp add: parked_def)
  then obtain ev' where "event_node t = Some ev'"
    using sched_invD(4) [OF inv(2) t] b by (auto simp: thread_ok_def)
  then have "w \<in> set (wait_list s' ev')" using sched_invD(3) [OF inv(2)] t by (auto simp: linked_def)
  then have "w \<in> set (wait_list s ev')" using few by (auto simp: fewer_waiting_def)
  then have "ev' = ev" using w(1) sched_invD(3) [OF inv(1)] by (auto simp: linked_def)
  then show False using \<open>w \<in> set (wait_list s' ev')\<close> w(2) by simp
qed

text \<open>What a waiter sees once a registered endpoint was signalled.\<close>

lemma signalled_wait:
  assumes inv: "ipc_inv st" "ipc_inv st'" and few: "fewer_waiting (ipc_sched st) (ipc_sched st')"
    and l: "latch st' s = i" and i: "i \<noteq> IPC_ENDPOINT_NONE"
    and gone: "\<forall>w ws. wait_list (ipc_sched st) (EV_SELECT s) = w # ws \<longrightarrow> w \<notin> set (wait_list (ipc_sched st') (EV_SELECT s))"
  shows "fst (select_wait_block hz now cur s ms st') = Some (IPC_OK, Some i)"
    and "wait_list (ipc_sched st) (EV_SELECT s) = w # ws \<Longrightarrow> threads (ipc_sched st') w = Some t
         \<Longrightarrow> th_state t \<noteq> THREAD_STATE_BLOCKED"
proof -
  obtain f where f: "obj (selects st') s = Some f" "ready_ep (body f) = i"
    using l i by (cases "obj (selects st') s") (auto simp: latch_def)
  then show "fst (select_wait_block hz now cur s ms st') = Some (IPC_OK, Some i)"
    using i by (simp add: select_wait_block_def select_take_def ipc_select_take_ready_def)
  show "th_state t \<noteq> THREAD_STATE_BLOCKED"
    if "wait_list (ipc_sched st) (EV_SELECT s) = w # ws" "threads (ipc_sched st') w = Some t"
    using not_waiting_not_blocked [OF ipc_invD(3) [OF inv(1)] ipc_invD(3) [OF inv(2)] few _ _ that(2), of "EV_SELECT s"] that(1) gone
    by simp
qed

lemma ready_scan:
  assumes "ipc_endpoint_is_ready i st" and "ipc_select_find s owner st = Inr f" and "i \<in> set (ep_ids (body f))"
  shows "\<exists>j. fst (select_wait_scan s owner st) = Some (IPC_OK, Some j) \<and> j \<in> set (ep_ids (body f)) \<and> ipc_endpoint_is_ready j st"
proof -
  have "fst (ipc_select_scan_ready (body f) st) \<noteq> None" using scan_none [of "body f" st] assms(1,3) by blast
  then obtain j sel where "ipc_select_scan_ready (body f) st = (Some j, sel)" by (metis not_Some_eq prod.collapse)
  then show ?thesis
    using scan_some [of "body f" st j] assms(2) by (auto simp: select_wait_scan_def select_scan_def)
qed

lemma registered_listed:
  assumes inv: "ipc_inv st" and reg: "registered st s i" and same: "same_selects st st'"
    and f: "ipc_select_find s owner st' = Inr f"
  shows "i \<in> set (ep_ids (body f))"
proof -
  obtain e where e: "obj (endpoints st) i = Some e" "s \<in> watching (poll_hub (body e))"
    using reg by (auto simp: registered_def watching_def)
  then obtain f0 where "obj (selects st) s = Some f0" "i \<in> set (ep_ids (body f0))"
    using ipc_invD(6) [OF inv e(1)] by (auto simp: hub_ok_def)
  then show ?thesis
    using same select_find_some(1) [OF f] unfolding same_selects_def by (auto dest!: spec [of _ s])
qed

lemma send_same_selects:
  assumes inv: "ipc_inv st" and snd: "ipc_send_from mem sender i msg st = (IPC_OK, st')"
  shows "same_selects st st'"
proof -
  obtain e where e: "obj (endpoints st) i = Some e" and put: "ep_ok (ring_put i msg (body e))"
    and acc: "st' = ipc_endpoint_note_contact mem (source msg) i (ipc_endpoint_enqueue_locked i msg (body e) st)"
    using send_accepted [OF inv snd] by blast
  show ?thesis using enqueue_ok [OF inv e put refl refl] by (simp add: acc same_selects_def)
qed

lemma notify_same_selects:
  assumes inv: "ipc_inv st" and snd: "ipc_notify_from sender i st = (rc, st')"
  shows "same_selects st st'"
proof (cases "ipc_endpoint_acquire_owned i IPC_ENDPOINT_TYPE_NOTIFICATION sender st")
  case (Inr e)
  note e = acquire_owned_some(1) [OF Inr]
  let ?st = "put_endpoint i (if notify_count (body e) \<noteq> 0xFFFFFFFF
      then (body e)\<lparr>notify_count := notify_count (body e) + 1\<rparr> else body e) st"
  have "ipc_inv ?st"
    using e ipc_invD(5) [OF inv e] by (intro put_endpoint_inv [OF inv]) (auto simp: ep_ok_notify)
  from notify_ok [OF this, of "poll_hub (body e)" POLL_EV_IN i] show ?thesis
    using snd Inr by (auto simp: ipc_notify_from_def Let_def same_selects_def)
next
  case (Inl rc)
  then show ?thesis using snd by (auto simp: ipc_notify_from_def)
qed

text \<open>
  C25. No wake-up is lost.  When a message or a notification arrives at an endpoint that a select set
  is registered with, a waiter finds out wherever it is: if it has yet to scan, its scan reports a
  ready endpoint of the set; if it has scanned in vain and is about to park, it does not park but
  returns with the endpoint that was signalled; and if it is the next parked thread of the set, it
  no longer blocks.
\<close>

theorem select_no_lost_wakeup:
  assumes "ipc_inv st" and "registered st s i"
    and "ipc_send_from mem sender i msg st = (IPC_OK, st') \<or> ipc_notify_from sender i st = (IPC_OK, st')"
  shows "fst (select_wait_block hz now cur s ms st') = Some (IPC_OK, Some i)
    \<and> (\<forall>owner f. ipc_select_find s owner st' = Inr f \<longrightarrow>
         (\<exists>j \<in> set (ep_ids (body f)). fst (select_wait_scan s owner st') = Some (IPC_OK, Some j) \<and> ipc_endpoint_is_ready j st'))
    \<and> (\<forall>w ws t. wait_list (ipc_sched st) (EV_SELECT s) = w # ws \<and> threads (ipc_sched st') w = Some t
         \<longrightarrow> th_state t \<noteq> THREAD_STATE_BLOCKED)"
proof -
  have "ipc_inv st' \<and> latch st' s = i \<and> fewer_waiting (ipc_sched st) (ipc_sched st') \<and> ipc_endpoint_is_ready i st'
      \<and> same_selects st st'
      \<and> (\<forall>w ws. wait_list (ipc_sched st) (EV_SELECT s) = w # ws \<longrightarrow> w \<notin> set (wait_list (ipc_sched st') (EV_SELECT s)))"
    using assms(3)
  proof
    assume snd: "ipc_send_from mem sender i msg st = (IPC_OK, st')"
    then show ?thesis
      using send_refines(1) [OF assms(1) snd] send_signals [OF assms(1,2) snd] send_ready [OF assms(1) snd]
        send_same_selects [OF assms(1) snd] by blast
  next
    assume snd: "ipc_notify_from sender i st = (IPC_OK, st')"
    have "ipc_inv st'" using notify_from_inv [OF assms(1), of sender i] snd by simp
    then show ?thesis
      using notify_signals [OF assms(1,2) snd] notify_same_selects [OF assms(1) snd] by blast
  qed
  then have f: "ipc_inv st'" "latch st' s = i" "fewer_waiting (ipc_sched st) (ipc_sched st')" "ipc_endpoint_is_ready i st'"
    "same_selects st st'" "\<forall>w ws. wait_list (ipc_sched st) (EV_SELECT s) = w # ws \<longrightarrow> w \<notin> set (wait_list (ipc_sched st') (EV_SELECT s))"
    by blast+
  have "i \<noteq> IPC_ENDPOINT_NONE"
    using assms(2) obj_header [OF ipc_invD(1) [OF assms(1)], of i] valid_id_names [of i] by (auto simp: registered_def)
  note w = signalled_wait [OF assms(1) f(1,3,2) this f(6)]
  have "\<exists>j \<in> set (ep_ids (body g)). fst (select_wait_scan s owner st') = Some (IPC_OK, Some j) \<and> ipc_endpoint_is_ready j st'"
    if "ipc_select_find s owner st' = Inr g" for owner g
    using ready_scan [OF f(4) that registered_listed [OF assms(1,2) f(5) that]] by blast
  then show ?thesis using w by blast
qed

text \<open>Set 1 of the example watches endpoint 2.\<close>

definition demo_selected :: ipc where
  "demo_selected = snd (ipc_select_add True True 1 2 7 demo_ipc)"

lemma demo_selected_facts:
  "ipc_inv demo_selected" "registered demo_selected 1 2" "dir demo_selected = dir demo_ipc" "stream demo_selected 2 = []"
proof -
  show "ipc_inv demo_selected" by (simp add: demo_selected_def select_add_inv [OF demo_ipc_inv])
  let ?hub = "(\<lambda>_. [])(POLL_EV_IN := [\<lparr>w_sel = 1, w_user_data = 0\<rparr>])"
  have hub0: "poll_hub zero_endpoint = None" by (simp add: zero_endpoint_def)
  have e: "obj (endpoints demo_ipc) 2 = Some (new_elem 2 7 zero_endpoint)" by (simp add: demo_objs)
  have d: "demo_selected = put_select 1 (zero_select\<lparr>ready_ep := IPC_ENDPOINT_NONE, ep_ids := [2]\<rparr>)
      (put_endpoint 2 (zero_endpoint\<lparr>poll_hub := Some ?hub\<rparr>) demo_ipc)"
    using hub0 by (simp add: demo_selected_def ipc_select_add_def ipc_select_find_def demo_objs new_elem_def zero_select_def
        IPC_SELECT_EPS_MAX_def endpoint_get_obj [OF demo_ipc_inv] poll_struct_alloc_def poll_struct_add_def Let_def)
  show "registered demo_selected 1 2"
    using demo_tables_ok(1) by (simp add: registered_def d put_simps e new_elem_def)
  have "dir (put_endpoint 2 (zero_endpoint\<lparr>poll_hub := Some ?hub\<rparr>) demo_ipc) = dir demo_ipc"
    by (rule dir_put [OF demo_ipc_inv e]) (simp add: new_elem_def)
  then show "dir demo_selected = dir demo_ipc" by (simp add: d dir_def fun_eq_iff)
  show "stream demo_selected 2 = []"
    using demo_tables_ok(1) by (simp add: d stream_def ep_of_def put_simps e new_elem_def ep_stream_def ep_msgs_def zero_endpoint_def)
qed

lemma demo_selected_send: "\<exists>st'. ipc_send_from True 5 2 demo_msg demo_selected = (IPC_OK, st')"
proof -
  obtain rc st' where s: "ipc_send_from True 5 2 demo_msg demo_selected = (rc, st')" by force
  have "rc = fst (channel_send 5 2 demo_msg (channels_of demo_selected))"
    using send_code [OF demo_selected_facts(1), of True 5 2 demo_msg] s by simp
  also have "\<dots> = IPC_OK"
    by (simp add: channel_send_def channels_of_def demo_selected_facts demo_channels sender_ok_def demo_msg_def
        zero_message_def WASMOS_IPC_HANGUP_def IPC_QUEUE_DEPTH_def)
  finally show ?thesis using s by simp
qed

theorem select_no_lost_wakeup_witness:
  "\<exists>st'. ipc_send_from True 5 2 demo_msg demo_selected = (IPC_OK, st')
     \<and> fst (select_wait_block 100 0 2 1 0 st') = Some (IPC_OK, Some 2)"
proof -
  obtain st' where "ipc_send_from True 5 2 demo_msg demo_selected = (IPC_OK, st')" using demo_selected_send by blast
  then show ?thesis using select_no_lost_wakeup [OF demo_selected_facts(1,2)] by blast
qed

text \<open>
  C26. Nobody starves.  Take a select set and any sequence of states in which it is scanned one after
  the other, in all of which a watched endpoint is ready while the others come and go as they like:
  within as many scans as the set has endpoints that endpoint is reported.
\<close>

theorem select_scan_fair:
  assumes "ep \<in> set (ep_ids sel)" and "length (ep_ids sel) \<le> length sts"
    and "\<forall>st \<in> set sts. ipc_endpoint_is_ready ep st"
  shows "Some ep \<in> set (take (length (ep_ids sel)) (scan_reports sel sts))"
proof -
  let ?n = "length (ep_ids sel)"
  obtain k where k: "k < ?n" "ep = ep_ids sel ! k" using assms(1) by (metis in_set_conv_nth)
  then obtain d where d: "d < ?n" "(effective_cursor sel + d) mod ?n = k"
    using cyclic_index [of ?n k "effective_cursor sel"] by (auto simp del: length_greater_0_conv)
  have "Some ep \<in> set (take (Suc d) (scan_reports sel sts))"
    using scan_reports_within [OF d(1), of sts] assms(2,3) d k by simp
  then show ?thesis using set_take_subset_set_take [of "Suc d" ?n "scan_reports sel sts"] d(1) by auto
qed

theorem select_scan_fair_witness:
  "\<exists>st. ipc_endpoint_is_ready 2 st
     \<and> Some 2 \<in> set (take 2 (scan_reports (zero_select\<lparr>ep_ids := [1, 2]\<rparr>) [st, st]))"
proof -
  obtain st where "ipc_send_from True 5 2 demo_msg demo_selected = (IPC_OK, st)" using demo_selected_send by blast
  then have "ipc_endpoint_is_ready 2 st" by (rule send_ready [OF demo_selected_facts(1)])
  then show ?thesis
    using select_scan_fair [of 2 "zero_select\<lparr>ep_ids := [1, 2]\<rparr>" "[st, st]"]
    by (intro exI [of _ st]) (simp add: numeral_2_eq_2)
qed

end
