(* ===== verification/Hashmap.thy ===== *)
theory Hashmap
  imports "HOL-Library.Word" "HOL-Library.Multiset" Prelude
begin

unbundle bit_operations_syntax

section \<open>The kernel hash map\<close>

text \<open>
  Model of \<open>src/kernel/hashmap.c\<close>: separate chaining over a bucket array of a power-of-two size,
  with 32-bit keys and counters kept at their width.  A node carries the address of its value, which
  callers keep; chains are lists from the bucket head on.  The results of \<open>kmem_alloc\<close> are
  arguments.  The search for a power of two is a loop with no bound of its own, so it is a partial
  function and \<open>None\<close> is a loop that never ends.
\<close>


definition HASHMAP_MIN_BUCKETS :: u32 where "HASHMAP_MIN_BUCKETS = 8"
definition HASHMAP_LOAD_NUM :: nat where "HASHMAP_LOAD_NUM = 3"
definition HASHMAP_LOAD_DEN :: nat where "HASHMAP_LOAD_DEN = 4"

record 'v hashmap_node =
  n_key :: u32
  n_ptr :: nat
  n_value :: 'v

record 'v hashmap =
  value_size :: u32
  bucket_count :: u32
  hm_count :: u32
  buckets :: "'v hashmap_node list list option"

subsection \<open>Operations\<close>

definition hash_index :: "u32 \<Rightarrow> u32 \<Rightarrow> u32" where
  "hash_index key n = (key * 2654435761) AND (n - 1)"

partial_function (option) round_up_loop :: "u32 \<Rightarrow> u32 \<Rightarrow> u32 option" where
  "round_up_loop v p = (if p < v then round_up_loop v (push_bit 1 p) else Some p)"

definition round_up_pow2 :: "u32 \<Rightarrow> u32 option" where
  "round_up_pow2 v = round_up_loop v HASHMAP_MIN_BUCKETS"

definition alloc_buckets :: "bool \<Rightarrow> u32 \<Rightarrow> 'v hashmap_node list list option" where
  "alloc_buckets mem n = (if mem then Some (replicate (unat n) []) else None)"

definition hashmap_init :: "bool \<Rightarrow> u32 \<Rightarrow> u32 \<Rightarrow> 'v hashmap \<Rightarrow> (int \<times> 'v hashmap) option" where
  "hashmap_init mem vsize initial_buckets m =
     (if vsize = 0 then Some (-1, m)
      else case round_up_pow2 (if initial_buckets \<noteq> 0 then initial_buckets else HASHMAP_MIN_BUCKETS) of
             None \<Rightarrow> None
           | Some n \<Rightarrow>
               (case alloc_buckets mem n of
                  None \<Rightarrow> Some (-1, m\<lparr>buckets := None\<rparr>)
                | Some bs \<Rightarrow> Some (0, m\<lparr>value_size := vsize, bucket_count := n, hm_count := 0, buckets := Some bs\<rparr>)))"

text \<open>\<open>hashmap_destroy\<close> frees every node: the addresses it hands back.\<close>

definition hashmap_destroy :: "'v hashmap \<Rightarrow> nat list \<times> 'v hashmap" where
  "hashmap_destroy m =
     (case buckets m of
        None \<Rightarrow> ([], m)
      | Some bs \<Rightarrow> (map n_ptr (concat bs), m\<lparr>buckets := None, bucket_count := 0, hm_count := 0\<rparr>))"

definition find_node :: "u32 \<Rightarrow> 'v hashmap \<Rightarrow> 'v hashmap_node list list \<Rightarrow> 'v hashmap_node option" where
  "find_node key m bs = List.find (\<lambda>n. n_key n = key) (bs ! unat (hash_index key (bucket_count m)))"

definition hashmap_get :: "'v hashmap \<Rightarrow> u32 \<Rightarrow> nat option" where
  "hashmap_get m key = (case buckets m of None \<Rightarrow> None | Some bs \<Rightarrow> map_option n_ptr (find_node key m bs))"

definition link_node :: "u32 \<Rightarrow> 'v hashmap_node \<Rightarrow> 'v hashmap_node list list \<Rightarrow> 'v hashmap_node list list" where
  "link_node n node bs =
     (let idx = unat (hash_index (n_key node) n) in bs[idx := node # bs ! idx])"

definition rehash :: "bool \<Rightarrow> 'v hashmap \<Rightarrow> int \<times> 'v hashmap" where
  "rehash mem m =
     (let new_count = push_bit 1 (bucket_count m) in
      if new_count < bucket_count m then (0, m)
      else case (buckets m, alloc_buckets mem new_count) of
             (Some bs, Some nb) \<Rightarrow>
               (0, m\<lparr>buckets := Some (fold (\<lambda>chain. fold (link_node new_count) chain) bs nb), bucket_count := new_count\<rparr>)
           | _ \<Rightarrow> (-1, m))"

definition hashmap_put :: "bool \<Rightarrow> nat option \<Rightarrow> 'v \<Rightarrow> 'v hashmap \<Rightarrow> u32 \<Rightarrow> nat option \<times> 'v hashmap" where
  "hashmap_put bucket_mem node_mem zero m key =
     (case buckets m of
        None \<Rightarrow> (None, m)
      | Some bs \<Rightarrow>
          (case find_node key m bs of
             Some n \<Rightarrow> (Some (n_ptr n), m)
           | None \<Rightarrow>
               let m1 = (if unat (bucket_count m) * HASHMAP_LOAD_NUM < unat (hm_count m + 1) * HASHMAP_LOAD_DEN
                         then snd (rehash bucket_mem m) else m)
               in case node_mem of
                    None \<Rightarrow> (None, m1)
                  | Some p \<Rightarrow>
                      (Some p,
                       m1\<lparr>buckets := map_option (link_node (bucket_count m1) \<lparr>n_key = key, n_ptr = p, n_value = zero\<rparr>) (buckets m1),
                          hm_count := hm_count m1 + 1\<rparr>)))"

fun unlink_key :: "u32 \<Rightarrow> 'v hashmap_node list \<Rightarrow> 'v hashmap_node list option" where
  "unlink_key key [] = None"
| "unlink_key key (n # ns) = (if n_key n = key then Some ns else map_option (Cons n) (unlink_key key ns))"

definition hashmap_remove :: "'v hashmap \<Rightarrow> u32 \<Rightarrow> int \<times> 'v hashmap" where
  "hashmap_remove m key =
     (case buckets m of
        None \<Rightarrow> (-1, m)
      | Some bs \<Rightarrow>
          let idx = unat (hash_index key (bucket_count m)) in
          (case unlink_key key (bs ! idx) of
             None \<Rightarrow> (-1, m)
           | Some chain \<Rightarrow> (0, m\<lparr>buckets := Some (bs[idx := chain]), hm_count := hm_count m - 1\<rparr>)))"

definition hashmap_count :: "'v hashmap \<Rightarrow> u32" where
  "hashmap_count m = hm_count m"

text \<open>An iterator: the next bucket to look at and the chain from the node last returned on.\<close>

record 'v hashmap_iter =
  it_bucket :: nat
  it_node :: "'v hashmap_node list"

function next_chain ::
  "nat \<Rightarrow> 'v hashmap_node list list \<Rightarrow> 'v hashmap_node list \<Rightarrow> nat \<Rightarrow> 'v hashmap_node list \<times> nat" where
  "next_chain n bs node bucket =
     (if node = [] \<and> bucket < n then next_chain n bs (bs ! bucket) (Suc bucket) else (node, bucket))"
  by pat_completeness auto
termination
  by (relation "measure (\<lambda>(n, bs, node, bucket). n - bucket)") auto

declare next_chain.simps [simp del]

definition hashmap_next :: "'v hashmap \<Rightarrow> 'v hashmap_iter \<Rightarrow> (u32 \<times> nat) option \<times> 'v hashmap_iter" where
  "hashmap_next m it =
     (case next_chain (unat (bucket_count m)) (the (buckets m)) (tl (it_node it)) (it_bucket it) of
        ([], _) \<Rightarrow> (None, it\<lparr>it_node := []\<rparr>)
      | (n # ns, bucket) \<Rightarrow> (Some (n_key n, n_ptr n), \<lparr>it_bucket = bucket, it_node = n # ns\<rparr>))"

definition hashmap_first :: "'v hashmap \<Rightarrow> 'v hashmap_iter \<Rightarrow> (u32 \<times> nat) option \<times> 'v hashmap_iter" where
  "hashmap_first m it =
     (case buckets m of None \<Rightarrow> (None, it) | Some _ \<Rightarrow> hashmap_next m \<lparr>it_bucket = 0, it_node = []\<rparr>)"

subsection \<open>Chains as an association\<close>

definition assoc :: "'v hashmap_node list \<Rightarrow> u32 \<Rightarrow> (nat \<times> 'v) option" where
  "assoc ns k = map_option (\<lambda>n. (n_ptr n, n_value n)) (List.find (\<lambda>n. n_key n = k) ns)"

lemma assoc_iff:
  assumes "distinct (map n_key ns)"
  shows "assoc ns k = Some pv \<longleftrightarrow> (\<exists>n \<in> set ns. n_key n = k \<and> pv = (n_ptr n, n_value n))"
  using assms by (induction ns) (auto simp: assoc_def image_iff)

lemma assoc_None: "assoc ns k = None \<longleftrightarrow> k \<notin> n_key ` set ns"
  by (auto simp: assoc_def find_None_iff)

lemma assoc_mset:
  assumes "mset ms = mset ns" and "distinct (map n_key ns)"
  shows "assoc ms = assoc ns"
proof
  fix k
  have "distinct (map n_key ms)" using assms by (metis mset_eq_imp_distinct_iff mset_map)
  then have "assoc ms k = Some pv \<longleftrightarrow> assoc ns k = Some pv" for pv
    using assms by (simp add: assoc_iff mset_eq_setD [OF assms(1)])
  then show "assoc ms k = assoc ns k" by (metis not_None_eq)
qed

lemma assoc_add:
  assumes "mset ms = add_mset n (mset ns)" and "distinct (map n_key ms)"
  shows "assoc ms = (assoc ns)(n_key n \<mapsto> (n_ptr n, n_value n))" and "assoc ns (n_key n) = None"
    and "distinct (map n_key ns)"
proof -
  have "mset (map n_key ms) = mset (n_key n # map n_key ns)" using assms(1) by simp
  then have d: "distinct (n_key n # map n_key ns)" using assms(2) by (metis mset_eq_imp_distinct_iff)
  then show "assoc ns (n_key n) = None" and dn: "distinct (map n_key ns)" by (auto simp: assoc_None)
  have "assoc ms = assoc (n # ns)" using assms(1) d by (intro assoc_mset) simp_all
  then show "assoc ms = (assoc ns)(n_key n \<mapsto> (n_ptr n, n_value n))" by (auto simp: assoc_def fun_eq_iff)
qed

lemma card_assoc:
  assumes "distinct (map n_key ns)"
  shows "card (dom (assoc ns)) = length ns"
proof -
  have "dom (assoc ns) = set (map n_key ns)" using assoc_None [of ns] by (auto simp: dom_def)
  then show ?thesis using distinct_card [OF assms] by simp
qed

lemma mset_concat_update:
  "i < length bs \<Longrightarrow> mset (concat bs) = mset (bs ! i) + (mset (concat (bs[i := c])) - mset c)"
  "i < length bs \<Longrightarrow> mset (concat (bs[i := c])) = mset c + mset (concat (take i bs @ drop (Suc i) bs))"
proof -
  show 2: "mset (concat (bs[i := c])) = mset c + mset (concat (take i bs @ drop (Suc i) bs))" if "i < length bs" for c
    using that by (simp add: upd_conv_take_nth_drop)
  show "mset (concat bs) = mset (bs ! i) + (mset (concat (bs[i := c])) - mset c)" if "i < length bs"
    using 2 [OF that, of c] 2 [OF that, of "bs ! i"] by simp
qed

lemma mset_link:
  assumes "unat (hash_index (n_key node) n) < length bs"
  shows "mset (concat (link_node n node bs)) = add_mset node (mset (concat bs))"
  using mset_concat_update(2) [OF assms, of "node # bs ! unat (hash_index (n_key node) n)"]
    mset_concat_update(2) [OF assms, of "bs ! unat (hash_index (n_key node) n)"]
  by (simp add: link_node_def Let_def)

subsection \<open>The index\<close>

lemma hash_index_mask: "hash_index key (2 ^ j) = take_bit j (key * 2654435761)"
  unfolding hash_index_def take_bit_eq_mask mask_eq_exp_minus_1 ..

lemma unat_pow2: "j < 32 \<Longrightarrow> unat (2 ^ j :: u32) = 2 ^ j"
  by transfer (simp add: take_bit_int_eq_self_iff nat_power_eq)

lemma hash_index_less: "unat (hash_index key (2 ^ j)) < 2 ^ j"
  unfolding hash_index_mask unsigned_take_bit_eq by (rule take_bit_nat_less_exp)

subsection \<open>The invariant\<close>

definition in_place :: "u32 \<Rightarrow> 'v hashmap_node list list \<Rightarrow> bool" where
  "in_place n bs \<longleftrightarrow> (\<forall>i < length bs. \<forall>x \<in> set (bs ! i). unat (hash_index (n_key x) n) = i)"

definition hashmap_ok :: "'v hashmap \<Rightarrow> bool" where
  "hashmap_ok m \<longleftrightarrow>
     (\<exists>bs j. buckets m = Some bs \<and> 3 \<le> j \<and> j < 32 \<and> bucket_count m = 2 ^ j \<and> length bs = 2 ^ j
        \<and> in_place (bucket_count m) bs \<and> distinct (map n_key (concat bs))
        \<and> hm_count m = of_nat (length (concat bs)))"

definition hashmap_abs :: "'v hashmap \<Rightarrow> u32 \<Rightarrow> (nat \<times> 'v) option" where
  "hashmap_abs m = assoc (concat (the (buckets m)))"

lemma in_place_link:
  "in_place n bs \<Longrightarrow> in_place n (link_node n x bs)"
  by (cases "unat (hash_index (n_key x) n) < length bs")
     (auto simp: in_place_def link_node_def Let_def nth_list_update split: if_splits)

lemma length_link [simp]: "length (link_node n x bs) = length bs"
  by (simp add: link_node_def Let_def)

lemma in_place_bucket:
  assumes "in_place n bs" and "unat (hash_index (n_key x) n) < length bs"
  shows "x \<in> set (concat bs) \<longleftrightarrow> x \<in> set (bs ! unat (hash_index (n_key x) n))"
proof
  assume "x \<in> set (concat bs)"
  then obtain c where "c \<in> set bs" "x \<in> set c" by auto
  then obtain i where "i < length bs" "x \<in> set (bs ! i)" by (metis in_set_conv_nth)
  then show "x \<in> set (bs ! unat (hash_index (n_key x) n))" using assms(1) by (auto simp: in_place_def)
next
  assume "x \<in> set (bs ! unat (hash_index (n_key x) n))"
  then show "x \<in> set (concat bs)" using nth_mem [OF assms(2)] by auto
qed

lemma in_place_find:
  assumes p: "in_place n bs" and d: "distinct (map n_key (concat bs))" and i: "unat (hash_index k n) < length bs"
  shows "map_option (\<lambda>x. (n_ptr x, n_value x)) (List.find (\<lambda>x. n_key x = k) (bs ! unat (hash_index k n))) = assoc (concat bs) k"
proof -
  let ?c = "bs ! unat (hash_index k n)"
  have here: "x \<in> set (concat bs) \<longleftrightarrow> x \<in> set ?c" if "n_key x = k" for x
    using in_place_bucket [OF p, of x] i that by simp
  have "\<exists>as cs. concat bs = as @ ?c @ cs"
    using i by (metis concat_append concat.simps(2) id_take_nth_drop)
  then have "distinct (map n_key ?c)" using d by auto
  then have "assoc ?c k = Some pv \<longleftrightarrow> assoc (concat bs) k = Some pv" for pv
    using here by (auto simp only: assoc_iff [OF d] assoc_iff)
  then show ?thesis by (metis assoc_def not_None_eq)
qed

lemma hashmap_okE:
  assumes "hashmap_ok m"
  obtains bs j where "buckets m = Some bs" "3 \<le> j" "j < 32" "bucket_count m = 2 ^ j" "length bs = 2 ^ j"
    "in_place (bucket_count m) bs" "distinct (map n_key (concat bs))" "hm_count m = of_nat (length (concat bs))"
    "\<And>k. unat (hash_index k (bucket_count m)) < length bs" "hashmap_abs m = assoc (concat bs)"
  using assms hash_index_less unfolding hashmap_ok_def hashmap_abs_def by (metis option.sel)

lemma find_node_abs:
  assumes "hashmap_ok m" and "buckets m = Some bs"
  shows "map_option (\<lambda>x. (n_ptr x, n_value x)) (find_node k m bs) = hashmap_abs m k"
  using assms(1)
proof (rule hashmap_okE)
  fix bs' j
  assume "buckets m = Some bs'" "in_place (bucket_count m) bs'" "distinct (map n_key (concat bs'))"
    "\<And>k. unat (hash_index k (bucket_count m)) < length bs'" "hashmap_abs m = assoc (concat bs')"
  then show ?thesis using assms(2) in_place_find [of "bucket_count m" bs' k] by (simp add: find_node_def)
qed

lemma get_abs:
  assumes "hashmap_ok m"
  shows "hashmap_get m k = map_option fst (hashmap_abs m k)"
proof -
  obtain bs where bs: "buckets m = Some bs" using assms by (rule hashmap_okE)
  have "map_option fst (hashmap_abs m k) = map_option n_ptr (find_node k m bs)"
    unfolding find_node_abs [OF assms bs, symmetric] by (simp add: option.map_comp comp_def)
  then show ?thesis using bs by (simp add: hashmap_get_def)
qed

subsection \<open>Growing\<close>

lemma fold_chains: "fold (\<lambda>chain. fold f chain) bs z = fold f (concat bs) z"
  by (induction bs arbitrary: z) simp_all

lemma link_all:
  assumes "in_place (2 ^ j) nb" "length nb = 2 ^ j"
  shows "in_place (2 ^ j) (fold (link_node (2 ^ j)) xs nb) \<and> length (fold (link_node (2 ^ j)) xs nb) = 2 ^ j
    \<and> mset (concat (fold (link_node (2 ^ j)) xs nb)) = mset xs + mset (concat nb)"
  using assms
proof (induction xs arbitrary: nb)
  case (Cons x xs)
  then show ?case
    using Cons.IH [of "link_node (2 ^ j) x nb"] in_place_link [OF Cons.prems(1), of x]
      mset_link [of x "2 ^ j" nb] hash_index_less [of "n_key x" j] by simp
qed simp

lemma double_pow2:
  assumes "j < 32"
  shows "push_bit 1 (2 ^ j :: u32) = 2 ^ Suc j" and "(2 ^ Suc j :: u32) < 2 ^ j \<longleftrightarrow> j = 31"
proof -
  show "push_bit 1 (2 ^ j :: u32) = 2 ^ Suc j" by (simp add: push_bit_eq_mult)
  show "(2 ^ Suc j :: u32) < 2 ^ j \<longleftrightarrow> j = 31"
  proof (cases "j = 31")
    case False
    then have "Suc j < 32" using assms by simp
    then have "unat (2 ^ Suc j :: u32) = 2 ^ Suc j" "unat (2 ^ j :: u32) = 2 ^ j" by (simp_all only: unat_pow2 Suc_lessD)
    then show ?thesis using False by (simp add: word_less_nat_alt del: power_Suc)
  qed simp
qed

lemma rehash_ok:
  assumes ok: "hashmap_ok m"
  shows "hashmap_ok (snd (rehash mem m)) \<and> hashmap_abs (snd (rehash mem m)) = hashmap_abs m
    \<and> hm_count (snd (rehash mem m)) = hm_count m"
  using ok
proof (rule hashmap_okE)
  fix bs j
  assume m: "buckets m = Some bs" "3 \<le> j" "j < 32" "bucket_count m = 2 ^ j" "distinct (map n_key (concat bs))"
    "hm_count m = of_nat (length (concat bs))" "hashmap_abs m = assoc (concat bs)"
  show ?thesis
  proof (cases "mem \<and> j \<noteq> 31")
    case False
    then have "snd (rehash mem m) = m"
      using double_pow2 [OF m(3)] m(1,4) by (auto simp: rehash_def Let_def alloc_buckets_def)
    then show ?thesis using ok by simp
  next
    case True
    then have j: "Suc j < 32" using m(3) by simp
    let ?nb = "replicate (2 ^ Suc j) []" and ?n = "2 ^ Suc j :: u32"
    let ?bs = "fold (link_node ?n) (concat bs) ?nb"
    have l: "in_place ?n ?bs" "length ?bs = 2 ^ Suc j" "mset (concat ?bs) = mset (concat bs)"
      using link_all [of "Suc j" ?nb "concat bs"] by (simp_all add: in_place_def del: power_Suc)
    have u: "unat ?n = 2 ^ Suc j" using j by (rule unat_pow2)
    have r: "snd (rehash mem m) = m\<lparr>buckets := Some ?bs, bucket_count := ?n\<rparr>"
      using True double_pow2 [OF m(3)] m(1,4) u
      by (simp add: rehash_def Let_def alloc_buckets_def fold_chains del: power_Suc)
    have d: "distinct (map n_key (concat ?bs))" using m(5) l(3) by (metis mset_eq_imp_distinct_iff mset_map)
    have c: "length (concat ?bs) = length (concat bs)" using l(3) by (metis size_mset)
    have "hashmap_ok (snd (rehash mem m))"
      unfolding r hashmap_ok_def using l d c m(2,6) j
      by (intro exI [of _ ?bs] exI [of _ "Suc j"]) (simp del: power_Suc)
    moreover have "hashmap_abs (snd (rehash mem m)) = hashmap_abs m"
      unfolding r using assoc_mset [OF l(3) m(5)] m(7) by (simp add: hashmap_abs_def)
    ultimately show ?thesis by (simp add: r)
  qed
qed

subsection \<open>Inserting and removing\<close>

lemma put_node_ok:
  fixes p :: nat and v :: 'v
  assumes ok: "hashmap_ok m" and new: "hashmap_abs m k = None"
  defines "x \<equiv> \<lparr>n_key = k, n_ptr = p, n_value = v\<rparr>"
  defines "m' \<equiv> m\<lparr>buckets := map_option (link_node (bucket_count m) x) (buckets m), hm_count := hm_count m + 1\<rparr>"
  shows "hashmap_ok m' \<and> hashmap_abs m' = (hashmap_abs m)(k \<mapsto> (p, v))"
  using ok
proof (rule hashmap_okE)
  fix bs j
  assume m: "buckets m = Some bs" "3 \<le> j" "j < 32" "bucket_count m = 2 ^ j" "length bs = 2 ^ j"
    "in_place (bucket_count m) bs" "distinct (map n_key (concat bs))" "hm_count m = of_nat (length (concat bs))"
    "\<And>k. unat (hash_index k (bucket_count m)) < length bs" "hashmap_abs m = assoc (concat bs)"
  let ?bs = "link_node (bucket_count m) x bs"
  have ms: "mset (concat ?bs) = add_mset x (mset (concat bs))" using mset_link m(9) by blast
  have "mset (map n_key (concat ?bs)) = mset (k # map n_key (concat bs))" using ms by (simp add: x_def)
  then have d: "distinct (map n_key (concat ?bs))"
    using m(7,10) new by (metis assoc_None distinct.simps(2) list.set_map mset_eq_imp_distinct_iff)
  have l: "length (concat ?bs) = Suc (length (concat bs))" using ms by (metis size_add_mset size_mset)
  have "hashmap_ok m'"
    using m(1-5,8) d l in_place_link [OF m(6), of x] by (auto simp: hashmap_ok_def m'_def)
  moreover have "hashmap_abs m' = (hashmap_abs m)(k \<mapsto> (p, v))"
    using assoc_add(1) [OF ms d] m(1,10) by (simp add: hashmap_abs_def m'_def x_def)
  ultimately show ?thesis by simp
qed

lemma hashmap_put_ok:
  assumes ok: "hashmap_ok m" and p: "hashmap_put bucket_mem node_mem zero m k = (r, m')"
  shows "hashmap_ok m'
    \<and> (case hashmap_abs m k of
         Some (q, v) \<Rightarrow> r = Some q \<and> m' = m
       | None \<Rightarrow> r = node_mem \<and> hashmap_abs m' = (case node_mem of None \<Rightarrow> hashmap_abs m | Some q \<Rightarrow> (hashmap_abs m)(k \<mapsto> (q, zero))))"
proof -
  obtain bs where bs: "buckets m = Some bs" using ok by (rule hashmap_okE)
  define m1 where "m1 = (if unat (bucket_count m) * HASHMAP_LOAD_NUM < unat (hm_count m + 1) * HASHMAP_LOAD_DEN
      then snd (rehash bucket_mem m) else m)"
  have m1: "hashmap_ok m1" "hashmap_abs m1 = hashmap_abs m" using ok rehash_ok [OF ok, of bucket_mem] by (auto simp: m1_def)
  show ?thesis
  proof (cases "find_node k m bs")
    case None
    then have new: "hashmap_abs m k = None" using find_node_abs [OF ok bs, of k] by simp
    show ?thesis
      using p bs None new m1 put_node_ok [of m1 k] by (cases node_mem) (auto simp: hashmap_put_def m1_def [symmetric] Let_def)
  next
    case (Some n)
    then have "hashmap_abs m k = Some (n_ptr n, n_value n)" using find_node_abs [OF ok bs, of k] by simp
    then show ?thesis using p bs Some ok by (simp add: hashmap_put_def)
  qed
qed

lemma unlink_key_some:
  "unlink_key k ns = Some ms \<Longrightarrow> \<exists>n. n_key n = k \<and> mset ns = add_mset n (mset ms)"
proof (induction ns arbitrary: ms)
  case (Cons a ns)
  show ?case
  proof (cases "n_key a = k")
    case True
    then show ?thesis using Cons.prems by auto
  next
    case False
    then obtain ms' where ms': "unlink_key k ns = Some ms'" "ms = a # ms'" using Cons.prems by auto
    then obtain n where "n_key n = k" "mset ns = add_mset n (mset ms')" using Cons.IH by blast
    then show ?thesis using ms'(2) by (auto simp: add_mset_commute intro!: exI [of _ n])
  qed
qed simp

lemma unlink_key_none: "unlink_key k ns = None \<longleftrightarrow> k \<notin> n_key ` set ns"
  by (induction ns) auto

lemma hashmap_remove_ok:
  assumes ok: "hashmap_ok m" and r: "hashmap_remove m k = (rc, m')"
  shows "hashmap_ok m'
    \<and> (case hashmap_abs m k of None \<Rightarrow> rc = -1 \<and> m' = m | Some _ \<Rightarrow> rc = 0 \<and> hashmap_abs m' = (hashmap_abs m)(k := None))"
  using ok
proof (rule hashmap_okE)
  fix bs j
  assume m: "buckets m = Some bs" "3 \<le> j" "j < 32" "bucket_count m = 2 ^ j" "length bs = 2 ^ j"
    "in_place (bucket_count m) bs" "distinct (map n_key (concat bs))" "hm_count m = of_nat (length (concat bs))"
    "\<And>k. unat (hash_index k (bucket_count m)) < length bs" "hashmap_abs m = assoc (concat bs)"
  let ?i = "unat (hash_index k (bucket_count m))"
  note lt = m(9) [of k]
  show ?thesis
  proof (cases "unlink_key k (bs ! ?i)")
    case None
    then have "List.find (\<lambda>x. n_key x = k) (bs ! ?i) = None" by (auto simp: unlink_key_none find_None_iff)
    then have "assoc (concat bs) k = None" using in_place_find [OF m(6,7) lt] by simp
    then show ?thesis using r m(1,10) None ok by (simp add: hashmap_remove_def Let_def)
  next
    case (Some c)
    then obtain n where n: "n_key n = k" "mset (bs ! ?i) = add_mset n (mset c)" using unlink_key_some by blast
    have m': "rc = 0" "m' = m\<lparr>buckets := Some (bs[?i := c]), hm_count := hm_count m - 1\<rparr>"
      using r m(1) Some by (simp_all add: hashmap_remove_def Let_def)
    have ms: "mset (concat bs) = add_mset n (mset (concat (bs[?i := c])))"
      using mset_concat_update(2) [OF lt, of c] mset_concat_update(2) [OF lt, of "bs ! ?i"] n(2) by simp
    note add = assoc_add [OF ms m(7)]
    have "set c \<subseteq> set (bs ! ?i)" using n(2) by (metis set_mset_add_mset_insert set_mset_mset subset_insertI)
    then have "in_place (bucket_count m) (bs[?i := c])"
      using m(6) lt by (auto simp: in_place_def nth_list_update)
    moreover have "length (concat bs) = Suc (length (concat (bs[?i := c])))" using ms by (metis size_add_mset size_mset)
    ultimately have "hashmap_ok m'"
      using m(1-5,8) add(3) by (auto simp: hashmap_ok_def m'(2))
    moreover have "hashmap_abs m' = (hashmap_abs m)(k := None)" "hashmap_abs m k \<noteq> None"
      using add(1,2) n(1) m(10) by (simp_all add: hashmap_abs_def m'(2) fun_upd_idem)
    ultimately show ?thesis using m'(1) by auto
  qed
qed

lemma count_abs:
  assumes "hashmap_ok m"
  shows "hashmap_count m = of_nat (card (dom (hashmap_abs m)))"
  using assms by (rule hashmap_okE) (simp add: hashmap_count_def card_assoc)

subsection \<open>The search for a power of two\<close>

lemma round_up_loop_result:
  assumes "round_up_loop v p = Some r"
  shows "\<exists>i. r = push_bit i p \<and> \<not> r < v"
proof (rule round_up_loop.raw_induct [OF _ assms])
  fix loop v p r
  assume IH: "\<And>v p r. loop v p = Some r \<Longrightarrow> \<exists>i. r = push_bit i p \<and> \<not> r < v"
    and run: "(if p < v then loop v (push_bit 1 p) else Some p) = Some r"
  show "\<exists>i. r = push_bit i p \<and> \<not> r < v"
  proof (cases "p < v")
    case True
    then obtain i where "r = push_bit i (push_bit 1 p)" "\<not> r < v" using IH run by (metis)
    then show ?thesis by (auto simp: push_bit_push_bit intro!: exI [of _ "Suc i"])
  next
    case False
    then show ?thesis using run by (auto intro!: exI [of _ 0])
  qed
qed

lemma pow2_zero: "32 \<le> i \<Longrightarrow> (2 ^ i :: u32) = 0"
  by (simp add: exp_eq_zero_iff)

lemma pow2_bound: "(2 ^ i :: u32) \<le> 2147483648"
proof (cases "i < 32")
  case True
  then have "(2::nat) ^ i \<le> 2 ^ 31" by (intro power_increasing) simp_all
  then show ?thesis using True by (simp add: word_le_nat_alt unat_pow2)
qed (simp add: pow2_zero)

text \<open>Above \<open>2 ^ 31\<close> the candidate is shifted out and stays zero: the loop never ends.\<close>

lemma round_up_diverges:
  assumes "2147483648 < v"
  shows "round_up_pow2 v = None"
proof (rule ccontr)
  assume "round_up_pow2 v \<noteq> None"
  then obtain r where "round_up_pow2 v = Some r" by blast
  then obtain i where r: "r = push_bit i 8" "\<not> r < v"
    using round_up_loop_result unfolding round_up_pow2_def HASHMAP_MIN_BUCKETS_def by blast
  have "r = 2 ^ (i + 3)" by (simp add: r(1) push_bit_eq_mult power_add)
  then have "r \<le> 2147483648" using pow2_bound by simp
  then show False using r(2) assms by (meson le_less_trans)
qed

lemma round_up_loop_returns:
  assumes "v \<le> 2147483648" "j \<le> 31"
  shows "\<exists>i. round_up_loop v (2 ^ j) = Some (2 ^ i) \<and> j \<le> i \<and> i \<le> 31 \<and> v \<le> 2 ^ i \<and> (j < i \<longrightarrow> 2 ^ (i - 1) < v)"
  using assms
proof (induction "31 - j" arbitrary: j rule: less_induct)
  case less
  have s: "push_bit 1 (2 ^ j) = (2 ^ Suc j :: u32)" by (simp add: push_bit_eq_mult)
  show ?case
  proof (cases "2 ^ j < v")
    case True
    then have "j \<noteq> 31" using less.prems(1) by auto
    then have "31 - Suc j < 31 - j" "Suc j \<le> 31" using less.prems(2) by auto
    then obtain i where i: "round_up_loop v (2 ^ Suc j) = Some (2 ^ i)" "Suc j \<le> i" "i \<le> 31" "v \<le> 2 ^ i"
      "Suc j < i \<longrightarrow> 2 ^ (i - 1) < v"
      using less.hyps [of "Suc j"] less.prems(1) by blast
    have "round_up_loop v (2 ^ j) = Some (2 ^ i)"
      using True i(1) unfolding round_up_loop.simps [of v "2 ^ j"] s by simp
    moreover have "2 ^ (i - 1) < v" using i(2,5) True by (cases "Suc j = i") auto
    ultimately show ?thesis using i by auto
  next
    case False
    then have "round_up_loop v (2 ^ j) = Some (2 ^ j)" by (subst round_up_loop.simps) simp
    then show ?thesis using False less.prems(2) by auto
  qed
qed

lemma round_up_returns:
  assumes "v \<le> 2147483648"
  shows "\<exists>j. round_up_pow2 v = Some (2 ^ j) \<and> 3 \<le> j \<and> j \<le> 31 \<and> v \<le> 2 ^ j \<and> (3 < j \<longrightarrow> 2 ^ (j - 1) < v)"
  using round_up_loop_returns [OF assms, of 3] by (simp add: round_up_pow2_def HASHMAP_MIN_BUCKETS_def)

lemma init_map_ok:
  assumes "3 \<le> j" "j < 32"
  shows "hashmap_ok (m\<lparr>value_size := vs, bucket_count := 2 ^ j, hm_count := 0, buckets := Some (replicate (2 ^ j) [])\<rparr>)"
    (is "hashmap_ok ?m")
    and "hashmap_abs (m\<lparr>value_size := vs, bucket_count := 2 ^ j, hm_count := 0, buckets := Some (replicate (2 ^ j) [])\<rparr>) = Map.empty"
proof -
  have "concat (replicate n []) = []" for n by simp
  then show "hashmap_ok ?m" using assms unfolding hashmap_ok_def
    by (intro exI [of _ "replicate (2 ^ j) []"] exI [of _ j]) (simp add: in_place_def)
  show "hashmap_abs ?m = Map.empty" by (simp add: hashmap_abs_def assoc_def fun_eq_iff)
qed

subsection \<open>Iteration\<close>

definition hm_iter_rest :: "'v hashmap \<Rightarrow> 'v hashmap_iter \<Rightarrow> 'v hashmap_node list" where
  "hm_iter_rest m it = tl (it_node it) @ concat (drop (it_bucket it) (the (buckets m)))"

lemma next_chain_rest:
  assumes "length bs = n"
  shows "case next_chain n bs node b of (node', b') \<Rightarrow>
    node' @ concat (drop b' bs) = node @ concat (drop b bs) \<and> (node' = [] \<longrightarrow> node @ concat (drop b bs) = [])"
  using assms
proof (induction n bs node b rule: next_chain.induct)
  case (1 n bs node b)
  show ?case
  proof (cases "node = [] \<and> b < n")
    case True
    have "concat (drop b bs) = bs ! b @ concat (drop (Suc b) bs)"
      using True 1(2) by (simp add: Cons_nth_drop_Suc [symmetric])
    moreover have "next_chain n bs node b = next_chain n bs (bs ! b) (Suc b)"
      using True next_chain.simps [of n bs node b] by simp
    ultimately show ?thesis using 1(1) [OF True 1(2)] True by simp
  next
    case False
    then show ?thesis using 1(2) by (auto simp: next_chain.simps [of n bs node b])
  qed
qed

lemma next_rest:
  assumes ok: "hashmap_ok m" and n: "hashmap_next m it = (r, it')"
  shows "case hm_iter_rest m it of [] \<Rightarrow> r = None | x # xs \<Rightarrow> r = Some (n_key x, n_ptr x) \<and> hm_iter_rest m it' = xs"
  using ok
proof (rule hashmap_okE)
  fix bs j
  assume m: "buckets m = Some bs" "j < 32" "bucket_count m = 2 ^ j" "length bs = 2 ^ j"
  have len: "length bs = unat (bucket_count m)" using m unat_pow2 by simp
  obtain c b where nc: "next_chain (unat (bucket_count m)) bs (tl (it_node it)) (it_bucket it) = (c, b)" by force
  have rest: "c @ concat (drop b bs) = hm_iter_rest m it" "c = [] \<Longrightarrow> hm_iter_rest m it = []"
    using next_chain_rest [OF len, of "tl (it_node it)" "it_bucket it"] nc m(1) by (auto simp: hm_iter_rest_def)
  show ?thesis
  proof (cases c)
    case Nil
    then show ?thesis using n nc m(1) rest(2) by (simp add: hashmap_next_def)
  next
    case (Cons x xs)
    have "hm_iter_rest m it = x # (xs @ concat (drop b bs))" using rest(1) Cons by simp
    then show ?thesis using n nc m(1) Cons by (auto simp: hashmap_next_def hm_iter_rest_def)
  qed
qed

text \<open>The results of \<open>k\<close> calls, the first of them \<open>hashmap_first\<close>.\<close>

fun visits :: "nat \<Rightarrow> 'v hashmap \<Rightarrow> (u32 \<times> nat) option \<times> 'v hashmap_iter \<Rightarrow> (u32 \<times> nat) option list" where
  "visits 0 m ri = []"
| "visits (Suc k) m (r, it) = r # visits k m (hashmap_next m it)"

lemma visits_rest:
  assumes ok: "hashmap_ok m"
  shows "visits (Suc (length (hm_iter_rest m it))) m (hashmap_next m it)
    = map (\<lambda>x. Some (n_key x, n_ptr x)) (hm_iter_rest m it) @ [None]"
proof (induction "hm_iter_rest m it" arbitrary: it)
  case Nil
  then show ?case using next_rest [OF ok, of it] by (cases "hashmap_next m it") auto
next
  case (Cons x xs)
  obtain r it' where n: "hashmap_next m it = (r, it')" by force
  have r: "r = Some (n_key x, n_ptr x)" "hm_iter_rest m it' = xs"
    using next_rest [OF ok n] unfolding Cons.hyps(2) [symmetric] by simp_all
  have "visits (Suc (length xs)) m (hashmap_next m it') = map (\<lambda>x. Some (n_key x, n_ptr x)) xs @ [None]"
    using Cons.hyps(1) [OF r(2) [symmetric]] unfolding r(2) .
  then show ?case unfolding Cons.hyps(2) [symmetric] n r(1) by simp
qed

subsection \<open>Properties\<close>

text \<open>
  C27. The hash map is a map.  On a well-formed table \<open>hashmap_get\<close> returns the address stored under
  the key; \<open>hashmap_put\<close> returns the entry of a present key untouched, adds a zeroed entry at the new
  node's address for an absent one, and reports a failed allocation while keeping every entry;
  \<open>hashmap_remove\<close> takes out exactly the key it was given and refuses an absent one; the count is the
  number of keys.  Whether or not an insertion grew the table, every other key keeps its address and
  its value, and the table stays well formed.
\<close>

theorem hashmap_refines_map:
  assumes "hashmap_ok m"
  shows "hashmap_get m k = map_option fst (hashmap_abs m k)
    \<and> hashmap_count m = of_nat (card (dom (hashmap_abs m)))
    \<and> (case hashmap_put bucket_mem node_mem zero m k of
         (r, m') \<Rightarrow> hashmap_ok m'
           \<and> r = (case hashmap_abs m k of Some (p, _) \<Rightarrow> Some p | None \<Rightarrow> node_mem)
           \<and> hashmap_abs m' = (case (hashmap_abs m k, node_mem) of
                (None, Some p) \<Rightarrow> (hashmap_abs m)(k \<mapsto> (p, zero)) | _ \<Rightarrow> hashmap_abs m))
    \<and> (case hashmap_remove m k of
         (rc, m') \<Rightarrow> hashmap_ok m' \<and> rc = (if hashmap_abs m k = None then -1 else 0)
           \<and> hashmap_abs m' = (hashmap_abs m)(k := None))"
proof -
  obtain r m1 where p: "hashmap_put bucket_mem node_mem zero m k = (r, m1)" by force
  obtain rc m2 where d: "hashmap_remove m k = (rc, m2)" by force
  show ?thesis
    using get_abs [OF assms, of k] count_abs [OF assms] hashmap_put_ok [OF assms p] hashmap_remove_ok [OF assms d] p d
    by (cases "hashmap_abs m k") (auto split: option.splits simp: fun_upd_idem)
qed

text \<open>The map with the eight default buckets after inserting key 7.\<close>

definition demo_hashmap :: "nat hashmap" where
  "demo_hashmap = \<lparr>value_size = 4, bucket_count = 8, hm_count = 0, buckets = Some (replicate 8 [])\<rparr>"

lemma demo_hashmap_ok: "hashmap_ok demo_hashmap" "hashmap_abs demo_hashmap = Map.empty"
  using init_map_ok [of 3, where m = demo_hashmap and vs = 4] by (simp_all add: demo_hashmap_def)

theorem hashmap_refines_map_witness:
  "case hashmap_put True (Some 4096) 0 demo_hashmap 7 of
     (r, m) \<Rightarrow> r = Some 4096 \<and> hashmap_ok m \<and> hashmap_abs m = [7 \<mapsto> (4096, 0)]"
  using hashmap_refines_map [OF demo_hashmap_ok(1), where k = 7 and bucket_mem = True and node_mem = "Some 4096" and zero = 0]
  by (auto simp: demo_hashmap_ok(2) split: prod.splits)

text \<open>
  C28. \<open>hashmap_init\<close> returns exactly for at most \<open>2 ^ 31\<close> initial buckets (or an argument it refuses).
  Then the table is empty and well formed and its size is the least power of two that is at least
  eight and at least the request.  For a larger request the doubling candidate is shifted out to zero
  and the loop of \<open>round_up_pow2\<close> never ends.
\<close>

theorem hashmap_init_returns:
  assumes "vsize \<noteq> 0"
  shows "(n \<le> 2147483648 \<longrightarrow>
      (\<exists>rc m'. hashmap_init mem vsize n m = Some (rc, m') \<and> rc = (if mem then 0 else -1)
         \<and> (mem \<longrightarrow> hashmap_ok m' \<and> hashmap_abs m' = Map.empty
              \<and> (\<exists>j. bucket_count m' = 2 ^ j \<and> 3 \<le> j \<and> j \<le> 31 \<and> n \<le> 2 ^ j \<and> (3 < j \<longrightarrow> 2 ^ (j - 1) < n)))))
    \<and> (2147483648 < n \<longrightarrow> hashmap_init mem vsize n m = None)"
proof (intro conjI impI)
  assume big: "2147483648 < n"
  then have "n \<noteq> 0" by auto
  then show "hashmap_init mem vsize n m = None" using assms round_up_diverges [OF big] by (simp add: hashmap_init_def)
next
  assume n: "n \<le> 2147483648"
  let ?v = "if n \<noteq> 0 then n else HASHMAP_MIN_BUCKETS"
  have "?v \<le> 2147483648" using n by (simp add: HASHMAP_MIN_BUCKETS_def)
  then obtain j where j: "round_up_pow2 ?v = Some (2 ^ j)" "3 \<le> j" "j \<le> 31" "?v \<le> 2 ^ j" "3 < j \<longrightarrow> 2 ^ (j - 1) < ?v"
    using round_up_returns by blast
  have j': "n \<le> 2 ^ j" "3 < j \<longrightarrow> 2 ^ (j - 1) < n"
  proof -
    show "n \<le> 2 ^ j" using j(4) by (cases "n = 0") simp_all
    have "(2 ^ (j - 1) :: u32) < 8 \<Longrightarrow> \<not> 3 < j"
    proof
      assume "(2 ^ (j - 1) :: u32) < 8" and "3 < j"
      then have "(2::nat) ^ (j - 1) < 8" using j(3) unat_pow2 [of "j - 1"] by (simp add: word_less_nat_alt)
      moreover have "(2::nat) ^ 3 \<le> 2 ^ (j - 1)" using \<open>3 < j\<close> by (intro power_increasing) simp_all
      ultimately show False by simp
    qed
    then show "3 < j \<longrightarrow> 2 ^ (j - 1) < n" using j(5) by (cases "n = 0") (auto simp: HASHMAP_MIN_BUCKETS_def)
  qed
  have "unat (2 ^ j :: u32) = 2 ^ j" using j(3) by (intro unat_pow2) simp
  then show "\<exists>rc m'. hashmap_init mem vsize n m = Some (rc, m') \<and> rc = (if mem then 0 else -1)
         \<and> (mem \<longrightarrow> hashmap_ok m' \<and> hashmap_abs m' = Map.empty
              \<and> (\<exists>j. bucket_count m' = 2 ^ j \<and> 3 \<le> j \<and> j \<le> 31 \<and> n \<le> 2 ^ j \<and> (3 < j \<longrightarrow> 2 ^ (j - 1) < n)))"
    using assms j j' init_map_ok [of j, where m = m and vs = vsize]
    by (cases mem) (auto simp: hashmap_init_def alloc_buckets_def intro!: exI [of _ j])
qed

theorem hashmap_init_returns_witness:
  "(\<exists>m'. hashmap_init True 4 100 demo_hashmap = Some (0, m') \<and> hashmap_abs m' = Map.empty)
   \<and> hashmap_init True 4 2147483649 demo_hashmap = None"
  using hashmap_init_returns [of 4 100 True demo_hashmap] hashmap_init_returns [of 4 2147483649 True demo_hashmap]
  by auto

text \<open>
  A walk with \<open>hashmap_first\<close> and \<open>hashmap_next\<close> over an unchanged map visits every key once, with
  the address of its value, and then answers NULL.
\<close>

theorem hashmap_walk_complete:
  assumes "hashmap_ok m"
  shows "\<exists>kps. visits (Suc (card (dom (hashmap_abs m)))) m (hashmap_first m it) = map Some kps @ [None]
    \<and> distinct (map fst kps) \<and> (\<forall>k p. (k, p) \<in> set kps \<longleftrightarrow> map_option fst (hashmap_abs m k) = Some p)"
  using assms
proof (rule hashmap_okE)
  fix bs j
  assume m: "buckets m = Some bs" "distinct (map n_key (concat bs))" "hashmap_abs m = assoc (concat bs)"
  let ?kps = "map (\<lambda>x. (n_key x, n_ptr x)) (concat bs)" and ?it = "\<lparr>it_bucket = 0, it_node = []\<rparr>"
  have "hm_iter_rest m ?it = concat bs" using m(1) by (simp add: hm_iter_rest_def)
  then have v: "visits (Suc (length (concat bs))) m (hashmap_first m it) = map Some ?kps @ [None]"
    using visits_rest [OF assms, of ?it] m(1) by (simp add: hashmap_first_def comp_def)
  have "map fst ?kps = map n_key (concat bs)" by (simp add: comp_def)
  then have d: "distinct (map fst ?kps)" using m(2) by (simp only:)
  have "(k, p) \<in> set ?kps \<longleftrightarrow> map_option fst (assoc (concat bs) k) = Some p" for k p
    using assoc_iff [OF m(2), of k] by (auto simp del: set_concat)
  then show ?thesis unfolding m(3) card_assoc [OF m(2)] using v d by blast
qed

theorem hashmap_walk_complete_witness:
  "visits 2 (snd (hashmap_put True (Some 4096) 0 demo_hashmap 7))
     (hashmap_first (snd (hashmap_put True (Some 4096) 0 demo_hashmap 7)) \<lparr>it_bucket = 3, it_node = []\<rparr>)
   = [Some (7, 4096), None]"
proof -
  let ?m = "snd (hashmap_put True (Some 4096) 0 demo_hashmap 7)"
  obtain r where p: "hashmap_put True (Some 4096) 0 demo_hashmap 7 = (r, ?m)" by (metis prod.collapse)
  have m: "hashmap_ok ?m" "hashmap_abs ?m = [7 \<mapsto> (4096, 0)]"
    using hashmap_put_ok [OF demo_hashmap_ok(1) p] by (simp_all add: demo_hashmap_ok(2))
  obtain kps where k: "visits (Suc 1) ?m (hashmap_first ?m \<lparr>it_bucket = 3, it_node = []\<rparr>) = map Some kps @ [None]"
    "distinct (map fst kps)" "\<forall>k p. (k, p) \<in> set kps \<longleftrightarrow> map_option fst (hashmap_abs ?m k) = Some p"
    using hashmap_walk_complete [OF m(1), of "\<lparr>it_bucket = 3, it_node = []\<rparr>"] by (auto simp: m(2))
  have s: "set kps = {(7, 4096)}" using k(3) by (auto simp: m(2) split: if_splits)
  have "distinct kps" using k(2) by (simp add: distinct_map)
  then have "length kps = 1" using s by (metis distinct_card card.empty card_insert_disjoint empty_iff finite.emptyI One_nat_def)
  then have "kps = [(7, 4096)]" using s by (cases kps) auto
  then show ?thesis using k(1) by (simp add: numeral_2_eq_2)
qed

end
