(* ===== verification/Records.thy ===== *)
theory Records
  imports Lists
begin

section \<open>Records in a kernel list, found by a key\<close>

text \<open>
  Several components keep their records in a kernel list and find one with a \<open>list_first\<close> /
  \<open>list_next\<close> loop that compares a key field.  \<open>list_lookup\<close> is that loop: the walk visits the elements
  in the order of \<open>list_view\<close>.  A list whose keys are distinct is a map from keys to records, and
  allocating, writing through a pointer and removing act on it as on a map.
\<close>

definition list_lookup :: "('e \<Rightarrow> bool) \<Rightarrow> 'e list_t \<Rightarrow> (nat \<times> 'e) option" where
  "list_lookup P l = List.find (\<lambda>pe. P (snd pe)) (list_view l)"

definition records :: "'e list_t \<Rightarrow> 'e list" where
  "records l = map snd (list_view l)"

definition keyed :: "('e \<Rightarrow> 'k) \<Rightarrow> 'e list_t \<Rightarrow> bool" where
  "keyed key l \<longleftrightarrow> list_ok l \<and> distinct (map key (records l))"

definition record_of :: "('e \<Rightarrow> 'k) \<Rightarrow> 'e list_t \<Rightarrow> 'k \<Rightarrow> 'e option" where
  "record_of key l k = List.find (\<lambda>e. key e = k) (records l)"

lemma lookup_records: "map_option snd (list_lookup P l) = List.find P (records l)"
proof -
  have "map_option snd (List.find (\<lambda>pe. P (snd pe)) xs) = List.find P (map snd xs)" for xs :: "(nat \<times> 'a) list"
    by (induction xs) auto
  then show ?thesis by (simp add: list_lookup_def records_def)
qed

lemma lookup_some:
  "list_lookup P l = Some (p, e) \<Longrightarrow> (p, e) \<in> set (list_view l) \<and> P e"
  unfolding list_lookup_def find_Some_iff by (metis nth_mem snd_conv)

lemma lookup_none: "list_lookup P l = None \<longleftrightarrow> (\<forall>e \<in> set (records l). \<not> P e)"
  by (auto simp: list_lookup_def find_None_iff records_def)

lemma record_of_iff:
  assumes "keyed key l"
  shows "record_of key l k = Some e \<longleftrightarrow> e \<in> set (records l) \<and> key e = k"
proof -
  have "List.find (\<lambda>e. key e = k) xs = Some e \<longleftrightarrow> e \<in> set xs \<and> key e = k" if "distinct (map key xs)" for xs
    using that by (induction xs) (auto simp: image_iff)
  then show ?thesis using assms by (simp add: record_of_def keyed_def)
qed

lemma record_of_None: "record_of key l k = None \<longleftrightarrow> k \<notin> key ` set (records l)"
  by (auto simp: record_of_def find_None_iff)

lemma lookup_record_of:
  "map_option snd (list_lookup (\<lambda>e. key e = k) l) = record_of key l k"
  by (simp add: lookup_records record_of_def)

subsection \<open>Writing, allocating, removing\<close>

lemma records_write_split:
  assumes "list_ok l" "(p, e) \<in> set (list_view l)"
  obtains as bs where "records l = as @ e # bs" "records (list_write p e' l) = as @ e' # bs"
  using list_store.put_split [OF assms, of e'] by (auto simp: records_def)

lemma write_ok:
  assumes k: "keyed key l" and m: "(p, e) \<in> set (list_view l)" and same: "key e' = key e"
  shows "keyed key (list_write p e' l)" and "record_of key (list_write p e' l) = (record_of key l)(key e \<mapsto> e')"
proof -
  have l: "list_ok l" using k by (simp add: keyed_def)
  obtain as bs where s: "records l = as @ e # bs" "records (list_write p e' l) = as @ e' # bs"
    using records_write_split [OF l m] by metis
  show k': "keyed key (list_write p e' l)"
    using k same list_store.put_ok [OF l, of p e'] by (simp add: keyed_def s)
  have "record_of key (list_write p e' l) j = ((record_of key l)(key e \<mapsto> e')) j" for j
  proof (cases "j = key e")
    case True
    then show ?thesis using record_of_iff [OF k', of j e'] same s by simp
  next
    case False
    have "record_of key (list_write p e' l) j = Some x \<longleftrightarrow> record_of key l j = Some x" for x
      using False same by (auto simp: record_of_iff [OF k'] record_of_iff [OF k] s)
    then show ?thesis using False by (metis fun_upd_other not_None_eq)
  qed
  then show "record_of key (list_write p e' l) = (record_of key l)(key e \<mapsto> e')" by blast
qed

text \<open>A new element is allocated zeroed, or with a leftover key, and is written before it is looked up.\<close>

lemma alloc_write_ok:
  assumes k: "keyed key l" and f: "fresh_for l mem" and a: "list_alloc mem z l = (Some p, l')"
    and new: "record_of key l (key e) = None"
  shows "keyed key (list_write p e l')" and "record_of key (list_write p e l') = (record_of key l)(key e \<mapsto> e)"
    and "set (records (list_write p e l')) = insert e (set (records l))"
proof -
  have l: "list_ok l" using k by (simp add: keyed_def)
  have l': "list_ok l'" using list_store.alloc_ok [OF l f a] .
  obtain xs ys where v: "list_view l = xs @ ys" "list_view l' = xs @ (p, z) # ys"
    using list_store.alloc_new_pointer [OF l f a] by (auto simp: inserted_def)
  have "map (\<lambda>(q, x). (q, if q = p then e else x)) zs = zs" if "p \<notin> fst ` set zs" for zs
    using that by (intro map_idI) force
  moreover have "p \<notin> fst ` set xs" "p \<notin> fst ` set ys"
    using list_store.alloc_new_pointer [OF l f a] v(1) by auto
  ultimately have "list_view (list_write p e l') = xs @ (p, e) # ys"
    using list_store.put_view [of p e l'] v(2) by simp
  then have r: "records l = map snd xs @ map snd ys" "records (list_write p e l') = map snd xs @ e # map snd ys"
    by (simp_all add: records_def v)
  show k': "keyed key (list_write p e l')"
    using k new list_store.put_ok [OF l', of p e] by (auto simp: keyed_def r record_of_None image_iff)
  show "set (records (list_write p e l')) = insert e (set (records l))" by (auto simp: r)
  have "record_of key (list_write p e l') j = ((record_of key l)(key e \<mapsto> e)) j" for j
  proof (cases "j = key e")
    case True
    then show ?thesis using record_of_iff [OF k', of j e] r by simp
  next
    case False
    have "record_of key (list_write p e l') j = Some x \<longleftrightarrow> record_of key l j = Some x" for x
      using False by (auto simp: record_of_iff [OF k'] record_of_iff [OF k] r)
    then show ?thesis using False by (metis fun_upd_other not_None_eq)
  qed
  then show "record_of key (list_write p e l') = (record_of key l)(key e \<mapsto> e)" by blast
qed

lemma alloc_fail:
  assumes "keyed key l" and "fresh_for l mem" and "list_alloc mem z l = (None, l')"
  shows "keyed key l'" and "records l' = records l"
proof -
  have "records l' = records l" using list_store.alloc_view [OF assms(3)] by (simp add: records_def)
  then show "keyed key l'" and "records l' = records l"
    using assms(1) list_store.alloc_ok [OF _ assms(2,3)] by (simp_all add: keyed_def)
qed

lemma removed_ok:
  assumes k: "keyed key l" and m: "(p, e) \<in> set (list_view l)" and r: "list_remove p l = (c, l')"
  shows "keyed key l'" and "record_of key l' = (record_of key l)(key e := None)" and "c = 0"
    and "set (records l') = set (records l) - {e}"
proof -
  have l: "list_ok l" using k by (simp add: keyed_def)
  have ins: "inserted e (records l') (records l)" and c: "c = 0"
    using list_store.remove_live [OF l m] r inserted_map [of "(p, e)" "list_view l'" "list_view l" snd] by (auto simp: records_def)
  then obtain xs ys where s: "records l' = xs @ ys" "records l = xs @ e # ys" by (auto simp: inserted_def)
  show "c = 0" by (fact c)
  show k': "keyed key l'"
    using k list_store.remove_ok [OF l r] by (simp add: keyed_def s)
  have d: "key e \<notin> key ` set (records l')" using k by (auto simp: keyed_def s)
  show "set (records l') = set (records l) - {e}" using d by (auto simp: s)
  have "record_of key l' j = ((record_of key l)(key e := None)) j" for j
  proof (cases "j = key e")
    case True
    then show ?thesis using d by (simp add: record_of_None)
  next
    case False
    have "record_of key l' j = Some x \<longleftrightarrow> record_of key l j = Some x" for x
      using False by (auto simp: record_of_iff [OF k'] record_of_iff [OF k] s)
    then show ?thesis using False by (metis fun_upd_other not_None_eq)
  qed
  then show "record_of key l' = (record_of key l)(key e := None)" by blast
qed

lemma written_live:
  assumes "list_ok l" "fresh_for l mem" "list_alloc mem z l = (Some p, l')"
  shows "(p, e) \<in> set (list_view (list_write p e l'))"
proof -
  have "(p, z) \<in> set (list_view l')"
    using list_store.alloc_new_pointer [OF assms] by (auto simp: inserted_def)
  then show ?thesis using list_store.put_view [of p e l'] by force
qed

end
