(* ===== verification/Capability.thy ===== *)
theory Capability
  imports Records
begin

unbundle bit_operations_syntax

section \<open>Capabilities\<close>

text \<open>
  Model of \<open>src/kernel/capability.c\<close>: one record per context in a kernel list, grants by name, the
  spawn profile that narrows a grant to ports, interrupt lines and DMA windows, and the checks the
  hardware calls make.  Masks are words; sizes and addresses are naturals with the wrap-around of
  their C type written out.  A profile's arrays are lists whose length is the count, \<open>None\<close> a NULL
  pointer.  Results of \<open>kmem_alloc\<close> are arguments.
\<close>

definition CAP_PAGE_SIZE :: nat where "CAP_PAGE_SIZE = 0x1000"
definition CAP_ALL_MASK :: u32 where "CAP_ALL_MASK = push_bit 7 1 - 1"
definition CAPABILITY_DMA_WINDOW_LIMIT :: nat where "CAPABILITY_DMA_WINDOW_LIMIT = 16"
definition CAPABILITY_IO_RANGE_LIMIT :: nat where "CAPABILITY_IO_RANGE_LIMIT = 4"
definition WASMOS_DMA_DIR_BIDIR :: u32 where "WASMOS_DMA_DIR_BIDIR = 3"

definition WASMOS_ERR_IO_NOT_AUTHORIZED :: int where "WASMOS_ERR_IO_NOT_AUTHORIZED = - (18 * 65536 + 1)"
definition WASMOS_ERR_IO_BAD_REGION :: int where "WASMOS_ERR_IO_BAD_REGION = - (18 * 65536 + 2)"
definition WASMOS_ERR_IO_OUT_OF_WINDOW :: int where "WASMOS_ERR_IO_OUT_OF_WINDOW = - (18 * 65536 + 3)"

lemmas io_errors = WASMOS_ERR_IO_NOT_AUTHORIZED_def WASMOS_ERR_IO_BAD_REGION_def WASMOS_ERR_IO_OUT_OF_WINDOW_def

datatype capability_kind =
    CAP_IO_PORT | CAP_IRQ_ROUTE | CAP_MMIO_MAP | CAP_DMA_BUFFER | CAP_SYSTEM_CONTROL
  | CAP_SUBSYSTEM_REGISTER | CAP_SVC_CLASS_REGISTER

record io_range =
  io_first :: nat
  io_last :: nat

record dma_window =
  win_base :: nat
  win_length :: nat

record capability_context_state =
  cc_context_id :: nat
  configured :: bool
  spawn_profile_configured :: bool
  io_port_range_valid :: bool
  io_ranges :: "io_range list"
  irq_mask :: u16
  dma_direction_flags :: u32
  dma_max_bytes :: nat
  dma_pinned_bytes :: nat
  dma_windows :: "dma_window list"
  cap_mask :: u32

type_synonym cap_table = "capability_context_state list_t"

definition zero_context :: capability_context_state where
  "zero_context =
     \<lparr>cc_context_id = 0, configured = False, spawn_profile_configured = False, io_port_range_valid = False,
      io_ranges = [], irq_mask = 0, dma_direction_flags = 0, dma_max_bytes = 0, dma_pinned_bytes = 0,
      dma_windows = [], cap_mask = 0\<rparr>"

subsection \<open>Records and grants\<close>

fun kind_to_mask :: "capability_kind \<Rightarrow> u32" where
  "kind_to_mask CAP_IO_PORT = push_bit 0 1"
| "kind_to_mask CAP_IRQ_ROUTE = push_bit 1 1"
| "kind_to_mask CAP_MMIO_MAP = push_bit 2 1"
| "kind_to_mask CAP_DMA_BUFFER = push_bit 3 1"
| "kind_to_mask CAP_SYSTEM_CONTROL = push_bit 4 1"
| "kind_to_mask CAP_SUBSYSTEM_REGISTER = push_bit 5 1"
| "kind_to_mask CAP_SVC_CLASS_REGISTER = push_bit 6 1"

definition capability_state_for_context ::
  "nat option \<Rightarrow> nat \<Rightarrow> bool \<Rightarrow> cap_table \<Rightarrow> (nat \<times> capability_context_state) option \<times> cap_table" where
  "capability_state_for_context mem context_id create_if_missing l =
     (case list_lookup (\<lambda>c. cc_context_id c = context_id) l of
        Some pc \<Rightarrow> (Some pc, l)
      | None \<Rightarrow>
          if \<not> create_if_missing then (None, l)
          else case list_alloc mem zero_context l of
                 (None, l') \<Rightarrow> (None, l')
               | (Some p, l') \<Rightarrow>
                   let c = zero_context\<lparr>cc_context_id := context_id\<rparr> in (Some (p, c), list_write p c l'))"

text \<open>\<open>ctx_size\<close> is \<open>sizeof(capability_context_state_t)\<close>.\<close>

definition capability_init :: "nat option \<Rightarrow> nat option \<Rightarrow> nat \<Rightarrow> cap_table \<Rightarrow> cap_table" where
  "capability_init mem1 mem2 ctx_size l =
     (case list_init mem1 ctx_size LIST_IMPL_ARRAY_CHUNK 16 l of
        (r, l1) \<Rightarrow>
          if r \<noteq> 0 then l1
          else case capability_state_for_context mem2 0 True l1 of
                 (None, l2) \<Rightarrow> l2
               | (Some (p, c), l2) \<Rightarrow> list_write p (c\<lparr>configured := True, cap_mask := CAP_ALL_MASK\<rparr>) l2)"

definition name_to_kind :: "string \<Rightarrow> capability_kind option" where
  "name_to_kind name =
     (if name = ''io.port'' then Some CAP_IO_PORT
      else if name = ''irq.route'' then Some CAP_IRQ_ROUTE
      else if name = ''mmio.map'' then Some CAP_MMIO_MAP
      else if name = ''dma.buffer'' then Some CAP_DMA_BUFFER
      else if name = ''system.control'' then Some CAP_SYSTEM_CONTROL
      else if name = ''subsystem.register'' then Some CAP_SUBSYSTEM_REGISTER
      else if name = ''svc.class'' then Some CAP_SVC_CLASS_REGISTER
      else None)"

definition grant_record :: "u32 \<Rightarrow> nat \<Rightarrow> capability_context_state \<Rightarrow> capability_context_state" where
  "grant_record kmask flags c =
     (let c1 = c\<lparr>configured := True, cap_mask := cap_mask c OR kmask\<rparr> in
      if kmask = kind_to_mask CAP_DMA_BUFFER \<and> length (dma_windows c1) = 0
      then c1\<lparr>dma_direction_flags := WASMOS_DMA_DIR_BIDIR, dma_max_bytes := flags * CAP_PAGE_SIZE mod 2 ^ 32,
              dma_pinned_bytes := 0, dma_windows := [\<lparr>win_base = 0, win_length = 0x80000000\<rparr>]\<rparr>
      else c1)"

definition capability_grant_name :: "nat option \<Rightarrow> nat \<Rightarrow> string \<Rightarrow> nat \<Rightarrow> cap_table \<Rightarrow> int \<times> cap_table" where
  "capability_grant_name mem context_id name flags l =
     (if length name = 0 then (-1, l)
      else case name_to_kind name of
             None \<Rightarrow> (-1, l)
           | Some kind \<Rightarrow>
               (case capability_state_for_context mem context_id True l of
                  (None, l1) \<Rightarrow> (-1, l1)
                | (Some (p, c), l1) \<Rightarrow> (0, list_write p (grant_record (kind_to_mask kind) flags c) l1)))"

text \<open>A check looks the record up and never creates one.\<close>

definition cap_ctx :: "nat \<Rightarrow> cap_table \<Rightarrow> capability_context_state option" where
  "cap_ctx context_id l = map_option snd (fst (capability_state_for_context None context_id False l))"

definition capability_has :: "nat \<Rightarrow> capability_kind \<Rightarrow> cap_table \<Rightarrow> bool" where
  "capability_has context_id kind l =
     (case cap_ctx context_id l of
        None \<Rightarrow> False
      | Some c \<Rightarrow> if kind_to_mask kind = 0 then False else cap_mask c AND kind_to_mask kind \<noteq> 0)"

definition capability_context_configured :: "nat \<Rightarrow> cap_table \<Rightarrow> bool" where
  "capability_context_configured context_id l = (case cap_ctx context_id l of None \<Rightarrow> False | Some c \<Rightarrow> configured c)"

subsection \<open>The spawn profile\<close>

record spawn_profile =
  sp_cap_flags :: u32
  sp_io_ranges :: "io_range list option"
  sp_irq_mask :: u16
  sp_dma_direction_flags :: u32
  sp_dma_max_bytes :: nat
  sp_dma_windows :: "dma_window list option"

text \<open>
  What the call does to the record: the ports first, then the interrupt mask, then DMA.  An inverted
  range stops the copy with the ranges before it in place.
\<close>

definition profile_ports :: "spawn_profile \<Rightarrow> capability_context_state \<Rightarrow> int \<times> capability_context_state" where
  "profile_ports sp c =
     (let c1 = c\<lparr>spawn_profile_configured := True, io_port_range_valid := (sp_cap_flags sp AND push_bit 0 1 \<noteq> 0),
                 io_ranges := []\<rparr>
      in case sp_io_ranges sp of
           None \<Rightarrow> (0, c1)
         | Some rs \<Rightarrow>
             if \<not> io_port_range_valid c1 then (0, c1)
             else if CAPABILITY_IO_RANGE_LIMIT < length rs then (-1, c1)
             else let good = takeWhile (\<lambda>r. \<not> io_last r < io_first r) rs
                  in (if length good < length rs then -1 else 0, c1\<lparr>io_ranges := good\<rparr>))"

definition profile_dma :: "spawn_profile \<Rightarrow> capability_context_state \<Rightarrow> int \<times> capability_context_state" where
  "profile_dma sp c =
     (if sp_cap_flags sp AND push_bit 3 1 = 0 then (0, c)
      else case sp_dma_windows sp of
             None \<Rightarrow> (-1, c)
           | Some ws \<Rightarrow>
               if length ws = 0 \<or> CAPABILITY_DMA_WINDOW_LIMIT < length ws then (-1, c)
               else (0, c\<lparr>dma_direction_flags := sp_dma_direction_flags sp, dma_max_bytes := sp_dma_max_bytes sp,
                          dma_windows := ws\<rparr>))"

definition profile_record :: "spawn_profile \<Rightarrow> capability_context_state \<Rightarrow> int \<times> capability_context_state" where
  "profile_record sp c =
     (case profile_ports sp c of
        (rc, c1) \<Rightarrow>
          if rc \<noteq> 0 then (rc, c1)
          else profile_dma sp (c1\<lparr>irq_mask := (if sp_cap_flags sp AND push_bit 2 1 \<noteq> 0 then sp_irq_mask sp else 0)\<rparr>))"

definition capability_set_spawn_profile :: "nat option \<Rightarrow> nat \<Rightarrow> spawn_profile \<Rightarrow> cap_table \<Rightarrow> int \<times> cap_table" where
  "capability_set_spawn_profile mem context_id sp l =
     (case capability_state_for_context mem context_id True l of
        (None, l1) \<Rightarrow> (-1, l1)
      | (Some (p, c), l1) \<Rightarrow> (case profile_record sp c of (rc, c') \<Rightarrow> (rc, list_write p c' l1)))"

definition capability_spawn_profile_configured :: "nat \<Rightarrow> cap_table \<Rightarrow> bool" where
  "capability_spawn_profile_configured context_id l =
     (case cap_ctx context_id l of None \<Rightarrow> False | Some c \<Rightarrow> spawn_profile_configured c)"

subsection \<open>Checks\<close>

definition capability_io_port_allowed :: "nat \<Rightarrow> nat \<Rightarrow> cap_table \<Rightarrow> bool" where
  "capability_io_port_allowed context_id port l =
     (case cap_ctx context_id l of
        None \<Rightarrow> False
      | Some c \<Rightarrow>
          if \<not> spawn_profile_configured c \<or> \<not> io_port_range_valid c then False
          else list_ex (\<lambda>r. io_first r \<le> port \<and> port \<le> io_last r) (io_ranges c))"

definition capability_io_region_port :: "nat \<Rightarrow> nat \<Rightarrow> nat \<Rightarrow> nat \<Rightarrow> cap_table \<Rightarrow> int + nat" where
  "capability_io_region_port context_id region offset access_width l =
     (case cap_ctx context_id l of
        None \<Rightarrow> Inl WASMOS_ERR_IO_NOT_AUTHORIZED
      | Some c \<Rightarrow>
          if \<not> spawn_profile_configured c \<or> \<not> io_port_range_valid c then Inl WASMOS_ERR_IO_NOT_AUTHORIZED
          else if length (io_ranges c) \<le> region then Inl WASMOS_ERR_IO_BAD_REGION
          else if access_width = 0 \<or> 4 < access_width then Inl WASMOS_ERR_IO_OUT_OF_WINDOW
          else let r = io_ranges c ! region; span = sub32 (io_last r) (io_first r) in
               if span < offset \<or> sub32 span offset < access_width - 1 then Inl WASMOS_ERR_IO_OUT_OF_WINDOW
               else Inr ((io_first r + offset) mod 2 ^ 16))"

definition capability_irq_line_allowed :: "nat \<Rightarrow> nat \<Rightarrow> cap_table \<Rightarrow> bool" where
  "capability_irq_line_allowed context_id irq_line l =
     (if 16 \<le> irq_line then False
      else case cap_ctx context_id l of
             None \<Rightarrow> False
           | Some c \<Rightarrow>
               if \<not> spawn_profile_configured c then False else irq_mask c AND push_bit irq_line 1 \<noteq> 0)"

definition capability_mmio_allowed :: "nat \<Rightarrow> cap_table \<Rightarrow> bool" where
  "capability_mmio_allowed context_id l =
     (case cap_ctx context_id l of
        None \<Rightarrow> False
      | Some c \<Rightarrow> if \<not> spawn_profile_configured c then False else cap_mask c AND push_bit 2 1 \<noteq> 0)"

definition dma_ready :: "capability_context_state \<Rightarrow> bool" where
  "dma_ready c \<longleftrightarrow> \<not> (\<not> spawn_profile_configured c \<or> cap_mask c AND push_bit 3 1 = 0)"

definition capability_dma_direction_allowed :: "nat \<Rightarrow> u32 \<Rightarrow> cap_table \<Rightarrow> bool" where
  "capability_dma_direction_allowed context_id direction_flags l =
     (if direction_flags = 0 then False
      else case cap_ctx context_id l of
             None \<Rightarrow> False
           | Some c \<Rightarrow>
               if \<not> dma_ready c then False else dma_direction_flags c AND direction_flags = direction_flags)"

definition capability_dma_range_allowed :: "nat \<Rightarrow> nat \<Rightarrow> nat \<Rightarrow> cap_table \<Rightarrow> bool" where
  "capability_dma_range_allowed context_id base len l =
     (if len = 0 then False
      else case cap_ctx context_id l of
             None \<Rightarrow> False
           | Some c \<Rightarrow>
               if \<not> dma_ready c then False
               else if length (dma_windows c) = 0 \<or> CAPABILITY_DMA_WINDOW_LIMIT < length (dma_windows c) then False
               else if add64 base len < base then False
               else list_ex (\<lambda>w. \<not> (win_length w = 0 \<or> add64 (win_base w) (win_length w) < win_base w)
                        \<and> win_base w \<le> base \<and> add64 base len \<le> add64 (win_base w) (win_length w)) (dma_windows c))"

definition capability_dma_max_bytes :: "nat \<Rightarrow> cap_table \<Rightarrow> nat" where
  "capability_dma_max_bytes context_id l =
     (case cap_ctx context_id l of None \<Rightarrow> 0 | Some c \<Rightarrow> if \<not> dma_ready c then 0 else dma_max_bytes c)"

definition capability_dma_within_budget :: "nat \<Rightarrow> nat \<Rightarrow> cap_table \<Rightarrow> bool" where
  "capability_dma_within_budget context_id bytes l =
     (case cap_ctx context_id l of
        None \<Rightarrow> False
      | Some c \<Rightarrow>
          if bytes = 0 then False
          else if \<not> dma_ready c then False
          else if dma_max_bytes c = 0 then False
          else add64 (dma_pinned_bytes c) bytes \<le> dma_max_bytes c)"

definition capability_dma_commit :: "nat \<Rightarrow> nat \<Rightarrow> cap_table \<Rightarrow> cap_table" where
  "capability_dma_commit context_id bytes l =
     (case fst (capability_state_for_context None context_id False l) of
        None \<Rightarrow> l
      | Some (p, c) \<Rightarrow> list_write p (c\<lparr>dma_pinned_bytes := add64 (dma_pinned_bytes c) bytes\<rparr>) l)"

subsection \<open>The table as a map from contexts to records\<close>

abbreviation cap_rec :: "cap_table \<Rightarrow> nat \<Rightarrow> capability_context_state option" where
  "cap_rec \<equiv> record_of cc_context_id"

definition new_context :: "nat \<Rightarrow> capability_context_state" where
  "new_context context_id = zero_context\<lparr>cc_context_id := context_id\<rparr>"

lemma cap_ctx_rec [simp]: "cap_ctx c l = cap_rec l c"
  by (simp add: cap_ctx_def capability_state_for_context_def flip: lookup_record_of split: option.splits)

lemma state_for_create_None:
  assumes "keyed cc_context_id l" "fresh_for l mem" "capability_state_for_context mem c True l = (None, l1)"
  shows "keyed cc_context_id l1 \<and> cap_rec l1 = cap_rec l"
  using assms alloc_fail [OF assms(1,2)]
  by (force simp: capability_state_for_context_def record_of_def fun_eq_iff Let_def split: option.splits prod.splits)

lemma state_for_create_Some:
  assumes k: "keyed cc_context_id l" and f: "fresh_for l mem"
    and s: "capability_state_for_context mem c True l = (Some (p, x), l1)"
  shows "keyed cc_context_id l1" and "(p, x) \<in> set (list_view l1)" and "cc_context_id x = c"
    and "cap_rec l1 = (cap_rec l)(c \<mapsto> x)" and "x = (case cap_rec l c of None \<Rightarrow> new_context c | Some y \<Rightarrow> y)"
proof -
  have "keyed cc_context_id l1 \<and> (p, x) \<in> set (list_view l1) \<and> cc_context_id x = c
    \<and> cap_rec l1 = (cap_rec l)(c \<mapsto> x) \<and> x = (case cap_rec l c of None \<Rightarrow> new_context c | Some y \<Rightarrow> y)"
  proof (cases "list_lookup (\<lambda>e. cc_context_id e = c) l")
    case (Some pe)
    then have "pe = (p, x)" "l1 = l" using s by (simp_all add: capability_state_for_context_def)
    moreover have "cap_rec l c = Some (snd pe)" using Some lookup_record_of [of cc_context_id c l] by simp
    ultimately show ?thesis using k lookup_some [of _ l p x] Some by (auto simp: fun_upd_idem)
  next
    case None
    then have n: "cap_rec l c = None" using lookup_record_of [of cc_context_id c l] by simp
    obtain l' where a: "list_alloc mem zero_context l = (Some p, l')" and x: "x = new_context c"
      and l1: "l1 = list_write p x l'"
      using s None by (auto simp: capability_state_for_context_def new_context_def Let_def split: prod.splits option.splits)
    have c: "cc_context_id x = c" by (simp add: x new_context_def)
    show ?thesis
      using alloc_write_ok [OF k f a, of x] written_live [OF _ f a, of x] k n c x l1 by (simp add: keyed_def)
  qed
  then show "keyed cc_context_id l1" and "(p, x) \<in> set (list_view l1)" and "cc_context_id x = c"
    and "cap_rec l1 = (cap_rec l)(c \<mapsto> x)" and "x = (case cap_rec l c of None \<Rightarrow> new_context c | Some y \<Rightarrow> y)"
    by blast+
qed

text \<open>Creating a record if it is missing and writing it back is an update of the map.\<close>

lemma state_for_write:
  assumes k: "keyed cc_context_id l" and f: "fresh_for l mem"
    and s: "capability_state_for_context mem c True l = (Some (p, x), l1)" and x': "cc_context_id x' = cc_context_id x"
  shows "keyed cc_context_id (list_write p x' l1)" and "cap_rec (list_write p x' l1) = (cap_rec l)(c \<mapsto> x')"
proof -
  note r = state_for_create_Some [OF k f s]
  show "keyed cc_context_id (list_write p x' l1)" using write_ok(1) [OF r(1,2) x'] .
  show "cap_rec (list_write p x' l1) = (cap_rec l)(c \<mapsto> x')" using write_ok(2) [OF r(1,2) x'] r(3,4) by simp
qed

lemma grant_record_id [simp]: "cc_context_id (grant_record km f c) = cc_context_id c"
  by (simp add: grant_record_def Let_def)

lemma profile_record_id: "profile_record sp c = (rc, c') \<Longrightarrow> cc_context_id c' = cc_context_id c"
  by (auto simp: profile_record_def profile_ports_def profile_dma_def Let_def split: if_splits option.splits prod.splits)

lemma grant_name_rec:
  assumes k: "keyed cc_context_id l" and f: "fresh_for l mem" and g: "capability_grant_name mem c name flags l = (rc, l')"
  obtains "rc = -1" "keyed cc_context_id l'" "cap_rec l' = cap_rec l"
  | kind x where "rc = 0" "name_to_kind name = Some kind" "keyed cc_context_id l'"
      "cap_rec l' = (cap_rec l)(c \<mapsto> grant_record (kind_to_mask kind) flags x)"
      "x = (case cap_rec l c of None \<Rightarrow> new_context c | Some y \<Rightarrow> y)"
proof (cases "length name = 0 \<or> name_to_kind name = None")
  case True
  then have "rc = -1" "l' = l" using g by (auto simp: capability_grant_name_def split: if_splits)
  then show ?thesis using k that(1) by blast
next
  case False
  then obtain kind where n: "name_to_kind name = Some kind" by auto
  obtain r l1 where s: "capability_state_for_context mem c True l = (r, l1)" by (cases "capability_state_for_context mem c True l")
  show ?thesis
  proof (cases r)
    case None
    then have "rc = -1" "l' = l1" using g False n s by (auto simp: capability_grant_name_def)
    then show ?thesis using that(1) state_for_create_None [OF k f] s None by blast
  next
    case (Some px)
    obtain p x where px: "px = (p, x)" by (cases px)
    then have "rc = 0" "l' = list_write p (grant_record (kind_to_mask kind) flags x) l1"
      using g False n s Some by (auto simp: capability_grant_name_def)
    then show ?thesis
      using that(2) n state_for_write [OF k f s [unfolded Some px]] state_for_create_Some(5) [OF k f s [unfolded Some px]]
      by simp
  qed
qed

lemma spawn_profile_rec:
  assumes k: "keyed cc_context_id l" and f: "fresh_for l mem" and g: "capability_set_spawn_profile mem c sp l = (rc, l')"
  obtains "rc = -1" "keyed cc_context_id l'" "cap_rec l' = cap_rec l" "capability_state_for_context mem c True l = (None, l')"
  | x x' where "profile_record sp x = (rc, x')" "keyed cc_context_id l'" "cap_rec l' = (cap_rec l)(c \<mapsto> x')"
      "x = (case cap_rec l c of None \<Rightarrow> new_context c | Some y \<Rightarrow> y)"
proof -
  obtain r l1 where s: "capability_state_for_context mem c True l = (r, l1)" by (cases "capability_state_for_context mem c True l")
  show ?thesis
  proof (cases r)
    case None
    then have "rc = -1" "l' = l1" using g s by (auto simp: capability_set_spawn_profile_def)
    then show ?thesis using that(1) state_for_create_None [OF k f] s None by blast
  next
    case (Some px)
    obtain p x where px: "px = (p, x)" by (cases px)
    then obtain x' where x': "profile_record sp x = (rc, x')" "l' = list_write p x' l1"
      using g s Some by (auto simp: capability_set_spawn_profile_def split: prod.splits)
    then show ?thesis
      using that(2) state_for_write [OF k f s [unfolded Some px] profile_record_id [OF x'(1)]]
        state_for_create_Some(5) [OF k f s [unfolded Some px]] by simp
  qed
qed

lemma commit_rec:
  assumes k: "keyed cc_context_id l"
  shows "keyed cc_context_id (capability_dma_commit c n l)
    \<and> cap_rec (capability_dma_commit c n l) = (case cap_rec l c of None \<Rightarrow> cap_rec l
           | Some x \<Rightarrow> (cap_rec l)(c \<mapsto> x\<lparr>dma_pinned_bytes := add64 (dma_pinned_bytes x) n\<rparr>))"
proof (cases "list_lookup (\<lambda>e. cc_context_id e = c) l")
  case None
  then have "cap_rec l c = None" "capability_dma_commit c n l = l"
    using lookup_record_of [of cc_context_id c l] by (simp_all add: capability_dma_commit_def capability_state_for_context_def)
  then show ?thesis using k by simp
next
  case (Some pe)
  obtain p x where pe: "pe = (p, x)" by (cases pe)
  have x: "cap_rec l c = Some x" using Some pe lookup_record_of [of cc_context_id c l] by simp
  have m: "(p, x) \<in> set (list_view l)" "cc_context_id x = c"
    using lookup_some [OF Some [unfolded pe]] by simp_all
  have "capability_dma_commit c n l = list_write p (x\<lparr>dma_pinned_bytes := add64 (dma_pinned_bytes x) n\<rparr>) l"
    using Some pe by (simp add: capability_dma_commit_def capability_state_for_context_def)
  then show ?thesis
    using write_ok [OF k m(1), of "x\<lparr>dma_pinned_bytes := add64 (dma_pinned_bytes x) n\<rparr>"] m(2) x by simp
qed

lemma init_rec:
  assumes i: "list_init mem1 sz LIST_IMPL_ARRAY_CHUNK 16 l0 = (0, l1)" and sz: "sz + 15 < 2 ^ 32" and f: "fresh_for l1 mem2"
  shows "keyed cc_context_id (capability_init mem1 mem2 sz l0)
    \<and> (cap_rec (capability_init mem1 mem2 sz l0) = Map.empty
       \<or> cap_rec (capability_init mem1 mem2 sz l0) = [0 \<mapsto> (new_context 0)\<lparr>configured := True, cap_mask := CAP_ALL_MASK\<rparr>])"
proof -
  have l1: "keyed cc_context_id l1" "cap_rec l1 = Map.empty"
    using list_init_view [OF i _ sz] by (auto simp: keyed_def records_def record_of_def fun_eq_iff)
  obtain r l2 where s: "capability_state_for_context mem2 0 True l1 = (r, l2)" by (cases "capability_state_for_context mem2 0 True l1")
  show ?thesis
  proof (cases r)
    case None
    then have "capability_init mem1 mem2 sz l0 = l2" using i s by (simp add: capability_init_def)
    then show ?thesis using state_for_create_None [OF l1(1) f] s None l1(2) by simp
  next
    case (Some px)
    obtain p x where px: "px = (p, x)" by (cases px)
    have x: "x = new_context 0" using state_for_create_Some(5) [OF l1(1) f s [unfolded Some px]] l1(2) by simp
    have "capability_init mem1 mem2 sz l0 = list_write p (x\<lparr>configured := True, cap_mask := CAP_ALL_MASK\<rparr>) l2"
      using i s Some px by (simp add: capability_init_def)
    then show ?thesis using state_for_write [OF l1(1) f s [unfolded Some px]] l1(2) x by simp
  qed
qed

subsection \<open>Capability bits\<close>

fun kind_bit :: "capability_kind \<Rightarrow> nat" where
  "kind_bit CAP_IO_PORT = 0"
| "kind_bit CAP_IRQ_ROUTE = 1"
| "kind_bit CAP_MMIO_MAP = 2"
| "kind_bit CAP_DMA_BUFFER = 3"
| "kind_bit CAP_SYSTEM_CONTROL = 4"
| "kind_bit CAP_SUBSYSTEM_REGISTER = 5"
| "kind_bit CAP_SVC_CLASS_REGISTER = 6"

lemma kind_to_mask_bit: "kind_to_mask kind = 2 ^ kind_bit kind"
  by (cases kind) simp_all

lemma kind_bit_inj [simp]: "kind_bit a = kind_bit b \<longleftrightarrow> a = b"
  by (cases a; cases b) simp_all

lemma kind_bit_less: "kind_bit kind < 7"
  by (cases kind) simp_all

lemma kind_mask_test: "w AND kind_to_mask kind \<noteq> 0 \<longleftrightarrow> bit w (kind_bit kind)"
  by (simp add: kind_to_mask_bit and_exp_eq_0_iff_not_bit)

lemma kind_mask_nonzero [simp]: "kind_to_mask kind \<noteq> 0"
  by (cases kind) simp_all

lemma bit_kind_mask: "bit (kind_to_mask a) (kind_bit b) \<longleftrightarrow> a = b"
  using kind_bit_less [of b] by (auto simp: kind_to_mask_bit bit_exp_iff)

lemma bit_all_mask: "bit CAP_ALL_MASK (kind_bit kind)"
  by (cases kind) (simp_all add: CAP_ALL_MASK_def bit_numeral_rec)

lemma has_iff:
  "capability_has c kind l \<longleftrightarrow> (\<exists>x. cap_rec l c = Some x \<and> bit (cap_mask x) (kind_bit kind))"
  by (auto simp: capability_has_def kind_mask_test split: option.splits)

lemma grant_record_mask: "cap_mask (grant_record km f x) = cap_mask x OR km"
  by (simp add: grant_record_def Let_def)

lemma grant_record_bit [simp]:
  "bit (cap_mask (grant_record (kind_to_mask a) f x)) (kind_bit b) \<longleftrightarrow> bit (cap_mask x) (kind_bit b) \<or> a = b"
  by (simp add: grant_record_mask bit_or_iff bit_kind_mask)

lemma profile_record_mask: "profile_record sp c = (rc, c') \<Longrightarrow> cap_mask c' = cap_mask c"
  by (auto simp: profile_record_def profile_ports_def profile_dma_def Let_def split: if_splits option.splits prod.splits)

subsection \<open>Histories of the table\<close>

text \<open>What a record may hold: the limits of the arrays and the widths of the C fields.\<close>

definition cap_rec_ok :: "capability_context_state \<Rightarrow> bool" where
  "cap_rec_ok x \<longleftrightarrow>
     length (io_ranges x) \<le> CAPABILITY_IO_RANGE_LIMIT
     \<and> list_all (\<lambda>r. io_first r \<le> io_last r \<and> io_last r < 2 ^ 16) (io_ranges x)
     \<and> length (dma_windows x) \<le> CAPABILITY_DMA_WINDOW_LIMIT
     \<and> list_all (\<lambda>w. win_base w < 2 ^ 64 \<and> win_length w < 2 ^ 64) (dma_windows x)
     \<and> dma_max_bytes x < 2 ^ 32 \<and> dma_pinned_bytes x < 2 ^ 64
     \<and> (io_ranges x \<noteq> [] \<longrightarrow> io_port_range_valid x \<and> spawn_profile_configured x)
     \<and> (configured x \<longleftrightarrow> (\<exists>kind. bit (cap_mask x) (kind_bit kind)))"

text \<open>A profile as the caller's C types allow it.\<close>

definition profile_typed :: "spawn_profile \<Rightarrow> bool" where
  "profile_typed sp \<longleftrightarrow>
     (case sp_io_ranges sp of None \<Rightarrow> True | Some rs \<Rightarrow> list_all (\<lambda>r. io_first r < 2 ^ 16 \<and> io_last r < 2 ^ 16) rs)
     \<and> (case sp_dma_windows sp of None \<Rightarrow> True
        | Some ws \<Rightarrow> list_all (\<lambda>w. win_base w < 2 ^ 64 \<and> win_length w < 2 ^ 64) ws)
     \<and> sp_dma_max_bytes sp < 2 ^ 32"

text \<open>
  A table reached from \<open>capability_init\<close> by grants, profiles and commits, with the set of grants that
  reported success.  The kernel context counts as granted everything once its record exists.
\<close>

inductive cap_history :: "cap_table \<Rightarrow> (nat \<times> capability_kind) set \<Rightarrow> bool" where
  cap_start: "list_init mem1 sz LIST_IMPL_ARRAY_CHUNK 16 l0 = (0, l1) \<Longrightarrow> sz + 15 < 2 ^ 32 \<Longrightarrow> fresh_for l1 mem2 \<Longrightarrow>
     cap_history (capability_init mem1 mem2 sz l0)
       (if cap_ctx 0 (capability_init mem1 mem2 sz l0) = None then {} else {0} \<times> UNIV)"
| cap_grant: "cap_history l G \<Longrightarrow> fresh_for l mem \<Longrightarrow> capability_grant_name mem c name flags l = (rc, l') \<Longrightarrow>
     cap_history l' (if rc = 0 then insert (c, the (name_to_kind name)) G else G)"
| cap_profile: "cap_history l G \<Longrightarrow> fresh_for l mem \<Longrightarrow> profile_typed sp \<Longrightarrow>
     capability_set_spawn_profile mem c sp l = (rc, l') \<Longrightarrow> cap_history l' G"
| cap_commit: "cap_history l G \<Longrightarrow> cap_history (capability_dma_commit c n l) G"

lemma new_context_ok [simp]: "cap_rec_ok (new_context c)"
  by (simp add: cap_rec_ok_def new_context_def zero_context_def)

lemma new_context_mask [simp]: "cap_mask (new_context c) = 0"
  by (simp add: new_context_def zero_context_def)

lemma kernel_record_ok: "cap_rec_ok ((new_context 0)\<lparr>configured := True, cap_mask := CAP_ALL_MASK\<rparr>)"
  using bit_all_mask by (auto simp: cap_rec_ok_def new_context_def zero_context_def)

lemma grant_record_fields [simp]:
  "configured (grant_record km f x)" "io_ranges (grant_record km f x) = io_ranges x"
  "io_port_range_valid (grant_record km f x) = io_port_range_valid x"
  "spawn_profile_configured (grant_record km f x) = spawn_profile_configured x" "irq_mask (grant_record km f x) = irq_mask x"
  by (simp_all add: grant_record_def Let_def)

lemma grant_record_dma:
  "dma_windows (grant_record km f x) = dma_windows x
     \<or> dma_windows (grant_record km f x) = [\<lparr>win_base = 0, win_length = 0x80000000\<rparr>]"
  "dma_max_bytes x < 2 ^ 32 \<Longrightarrow> dma_max_bytes (grant_record km f x) < 2 ^ 32"
  "dma_pinned_bytes x < 2 ^ 64 \<Longrightarrow> dma_pinned_bytes (grant_record km f x) < 2 ^ 64"
  by (simp_all add: grant_record_def Let_def)

lemma grant_record_ok: "cap_rec_ok x \<Longrightarrow> cap_rec_ok (grant_record (kind_to_mask a) f x)"
  using grant_record_dma [where km = "kind_to_mask a" and f = f and x = x]
  by (auto simp: cap_rec_ok_def CAPABILITY_DMA_WINDOW_LIMIT_def)

lemma profile_ports_cases:
  assumes "profile_ports sp x = (rc, x')"
  obtains good where "x' = x\<lparr>spawn_profile_configured := True, io_port_range_valid := bit (sp_cap_flags sp) 0, io_ranges := good\<rparr>"
    "good \<noteq> [] \<Longrightarrow> bit (sp_cap_flags sp) 0" "set good \<subseteq> set (case sp_io_ranges sp of None \<Rightarrow> [] | Some rs \<Rightarrow> rs)"
    "length good \<le> CAPABILITY_IO_RANGE_LIMIT" "\<forall>r \<in> set good. io_first r \<le> io_last r"
proof -
  have b: "(sp_cap_flags sp AND push_bit 0 1 \<noteq> 0) = bit (sp_cap_flags sp) 0"
    using kind_mask_test [of "sp_cap_flags sp" CAP_IO_PORT] by simp
  define good where "good = (case sp_io_ranges sp of None \<Rightarrow> []
    | Some rs \<Rightarrow> if \<not> bit (sp_cap_flags sp) 0 \<or> CAPABILITY_IO_RANGE_LIMIT < length rs then []
        else takeWhile (\<lambda>r. \<not> io_last r < io_first r) rs)"
  have "x' = x\<lparr>spawn_profile_configured := True, io_port_range_valid := bit (sp_cap_flags sp) 0, io_ranges := good\<rparr>"
    using assms unfolding profile_ports_def b Let_def good_def by (auto split: option.splits if_splits)
  moreover have "good \<noteq> [] \<Longrightarrow> bit (sp_cap_flags sp) 0"
    by (auto simp: good_def split: option.splits if_splits)
  moreover have "set good \<subseteq> set (case sp_io_ranges sp of None \<Rightarrow> [] | Some rs \<Rightarrow> rs)"
    by (auto simp: good_def dest: set_takeWhileD split: option.splits if_splits)
  moreover have "length good \<le> CAPABILITY_IO_RANGE_LIMIT"
    by (auto simp: good_def not_less intro: order_trans [OF length_takeWhile_le] split: option.splits)
  moreover have "\<forall>r \<in> set good. io_first r \<le> io_last r"
    by (auto simp: good_def dest: set_takeWhileD split: option.splits if_splits)
  ultimately show ?thesis using that by blast
qed

lemma profile_ports_ok:
  assumes x: "cap_rec_ok x" and sp: "profile_typed sp" and p: "profile_ports sp x = (rc, x')"
  shows "cap_rec_ok x'"
proof -
  obtain good where g: "x' = x\<lparr>spawn_profile_configured := True, io_port_range_valid := bit (sp_cap_flags sp) 0, io_ranges := good\<rparr>"
    "good \<noteq> [] \<Longrightarrow> bit (sp_cap_flags sp) 0" "set good \<subseteq> set (case sp_io_ranges sp of None \<Rightarrow> [] | Some rs \<Rightarrow> rs)"
    "length good \<le> CAPABILITY_IO_RANGE_LIMIT" "\<forall>r \<in> set good. io_first r \<le> io_last r"
    using profile_ports_cases [OF p] by metis
  have "io_last r < 2 ^ 16" if "r \<in> set good" for r
    using that g(3) sp by (auto simp: profile_typed_def list_all_iff split: option.splits)
  then show ?thesis using x g by (auto simp: cap_rec_ok_def list_all_iff)
qed

lemma profile_dma_ok:
  assumes "cap_rec_ok x" "profile_typed sp" "profile_dma sp x = (rc, x')"
  shows "cap_rec_ok x'"
  using assms by (auto simp: cap_rec_ok_def profile_typed_def profile_dma_def split: option.splits if_splits)

lemma profile_record_ok:
  assumes "cap_rec_ok x" "profile_typed sp" "profile_record sp x = (rc, x')"
  shows "cap_rec_ok x'"
proof -
  obtain r y where p: "profile_ports sp x = (r, y)" by (cases "profile_ports sp x")
  have y: "cap_rec_ok y" using profile_ports_ok [OF assms(1,2) p] .
  have "cap_rec_ok (y\<lparr>irq_mask := q\<rparr>)" for q using y by (simp add: cap_rec_ok_def)
  from profile_dma_ok [OF this assms(2)] show ?thesis
    using assms(3) p y by (auto simp: profile_record_def split: if_splits)
qed

text \<open>What every history keeps, for one record and for the set of grants.\<close>

definition cap_inv :: "cap_table \<Rightarrow> (nat \<times> capability_kind) set \<Rightarrow> bool" where
  "cap_inv l G \<longleftrightarrow> keyed cc_context_id l \<and> (\<forall>c x. cap_rec l c = Some x \<longrightarrow> cap_rec_ok x)
     \<and> (\<forall>c kind. (c, kind) \<in> G \<longleftrightarrow> capability_has c kind l)"

lemma cap_history_inv: "cap_history l G \<Longrightarrow> cap_inv l G"
proof (induction rule: cap_history.induct)
  case (cap_start mem1 sz l0 l1 mem2)
  then show ?case
    using init_rec [OF cap_start] kernel_record_ok bit_all_mask
    by (auto simp: cap_inv_def has_iff split: if_splits)
next
  case (cap_grant l G mem c name flags rc l')
  then have inv: "keyed cc_context_id l" "\<And>c x. cap_rec l c = Some x \<Longrightarrow> cap_rec_ok x"
    "\<And>c kind. (c, kind) \<in> G \<longleftrightarrow> capability_has c kind l" by (simp_all add: cap_inv_def)
  from inv(1) cap_grant(2,3) show ?case
  proof (cases rule: grant_name_rec)
    case 1
    then show ?thesis using inv by (auto simp: cap_inv_def has_iff)
  next
    case (2 kind x)
    have "cap_rec_ok x" using 2(5) inv(2) by (auto split: option.splits)
    then have "cap_rec_ok (grant_record (kind_to_mask kind) flags x)" by (rule grant_record_ok)
    then show ?thesis using 2 inv by (auto simp: cap_inv_def has_iff split: option.splits)
  qed
next
  case (cap_profile l G mem sp c rc l')
  then have inv: "keyed cc_context_id l" "\<And>c x. cap_rec l c = Some x \<Longrightarrow> cap_rec_ok x"
    "\<And>c kind. (c, kind) \<in> G \<longleftrightarrow> capability_has c kind l" by (simp_all add: cap_inv_def)
  from inv(1) cap_profile(2,4) show ?case
  proof (cases rule: spawn_profile_rec)
    case 1
    then show ?thesis using inv by (auto simp: cap_inv_def has_iff)
  next
    case (2 x x')
    have "cap_rec_ok x" using 2(4) inv(2) by (auto split: option.splits)
    then have "cap_rec_ok x'" using profile_record_ok cap_profile(3) 2(1) by blast
    then show ?thesis using 2 inv profile_record_mask [OF 2(1)] by (auto simp: cap_inv_def has_iff split: option.splits)
  qed
next
  case (cap_commit l G c n)
  then have inv: "keyed cc_context_id l" "\<And>c x. cap_rec l c = Some x \<Longrightarrow> cap_rec_ok x"
    "\<And>c kind. (c, kind) \<in> G \<longleftrightarrow> capability_has c kind l" by (simp_all add: cap_inv_def)
  then show ?case
    using commit_rec [OF inv(1), of c n] add64_less
    by (auto simp: cap_inv_def has_iff cap_rec_ok_def split: option.splits)
qed

subsection \<open>Checks against the profile\<close>

lemma cap_inv_rec: "cap_inv l G \<Longrightarrow> cap_rec l c = Some x \<Longrightarrow> cap_rec_ok x"
  by (simp add: cap_inv_def)

lemma ranges_valid: "cap_rec_ok x \<Longrightarrow> r \<in> set (io_ranges x) \<Longrightarrow> io_port_range_valid x \<and> spawn_profile_configured x"
  unfolding cap_rec_ok_def by (metis list.set(1) emptyE)

lemma port_allowed_iff:
  assumes "cap_inv l G"
  shows "capability_io_port_allowed c port l
    \<longleftrightarrow> (\<exists>x r. cap_rec l c = Some x \<and> r \<in> set (io_ranges x) \<and> io_first r \<le> port \<and> port \<le> io_last r)"
proof -
  have "io_port_range_valid x \<and> spawn_profile_configured x" if "cap_rec l c = Some x" "r \<in> set (io_ranges x)" for x r
    using that assms ranges_valid cap_inv_rec by blast
  then show ?thesis
    by (auto simp: capability_io_port_allowed_def list_ex_iff split: option.splits)
qed

lemma io_region_port_iff:
  assumes inv: "cap_inv l G"
  shows "capability_io_region_port c region off wd l = Inr port
    \<longleftrightarrow> (\<exists>x. cap_rec l c = Some x \<and> region < length (io_ranges x) \<and> 1 \<le> wd \<and> wd \<le> 4
          \<and> port = io_first (io_ranges x ! region) + off \<and> port + wd - 1 \<le> io_last (io_ranges x ! region))"
proof (cases "\<exists>x. cap_rec l c = Some x \<and> region < length (io_ranges x)")
  case True
  then obtain x where x: "cap_rec l c = Some x" "region < length (io_ranges x)" by blast
  let ?r = "io_ranges x ! region"
  have o: "cap_rec_ok x" using inv x(1) by (rule cap_inv_rec)
  then have "io_port_range_valid x \<and> spawn_profile_configured x" using ranges_valid x(2) nth_mem by blast
  then have ok: "io_port_range_valid x" "spawn_profile_configured x" "io_first ?r \<le> io_last ?r" "io_last ?r < 2 ^ 16"
    using x(2) o by (auto simp: cap_rec_ok_def list_all_length)
  have span: "sub32 (io_last ?r) (io_first ?r) = io_last ?r - io_first ?r" using ok by (simp add: sub32_exact)
  have off: "sub32 (io_last ?r - io_first ?r) off = io_last ?r - io_first ?r - off" if "off \<le> io_last ?r - io_first ?r"
    using that ok by (simp add: sub32_exact)
  have "(io_first ?r + off) mod 2 ^ 16 = io_first ?r + off" if "off \<le> io_last ?r - io_first ?r"
    using that ok by simp
  then show ?thesis
    using x ok span off by (auto simp: capability_io_region_port_def Let_def not_less)
next
  case False
  then show ?thesis by (auto simp: capability_io_region_port_def Let_def split: option.splits if_splits)
qed

lemma window_contains:
  assumes "win_base w < 2 ^ 64" "win_length w < 2 ^ 64" "base < 2 ^ 64" "len < 2 ^ 64" "0 < len"
  shows "\<not> add64 base len < base \<and> \<not> (win_length w = 0 \<or> add64 (win_base w) (win_length w) < win_base w)
      \<and> win_base w \<le> base \<and> add64 base len \<le> add64 (win_base w) (win_length w)
    \<longleftrightarrow> win_base w + win_length w < 2 ^ 64 \<and> win_base w \<le> base \<and> base + len \<le> win_base w + win_length w"
proof -
  have wrap: "add64 a b < a \<longleftrightarrow> 2 ^ 64 \<le> a + b" if "a < 2 ^ 64" "b < 2 ^ 64" for a b :: nat
    using that by (auto simp: add64_def mod_if)
  show ?thesis
    using assms wrap [of base len] wrap [of "win_base w" "win_length w"] by (auto simp: add64_exact not_less)
qed

lemma dma_range_iff:
  assumes inv: "cap_inv l G" and b: "base < 2 ^ 64" "len < 2 ^ 64"
  shows "capability_dma_range_allowed c base len l
    \<longleftrightarrow> 0 < len \<and> (\<exists>x w. cap_rec l c = Some x \<and> dma_ready x \<and> w \<in> set (dma_windows x)
          \<and> win_base w + win_length w < 2 ^ 64 \<and> win_base w \<le> base \<and> base + len \<le> win_base w + win_length w)"
proof (cases "0 < len \<and> (\<exists>x. cap_rec l c = Some x \<and> dma_ready x)")
  case True
  then obtain x where x: "cap_rec l c = Some x" "dma_ready x" and len: "0 < len" by blast
  have ok: "cap_rec_ok x" using inv x by (simp add: cap_inv_def)
  then have ws: "length (dma_windows x) \<le> CAPABILITY_DMA_WINDOW_LIMIT"
    "\<And>w. w \<in> set (dma_windows x) \<Longrightarrow> win_base w < 2 ^ 64 \<and> win_length w < 2 ^ 64"
    by (auto simp: cap_rec_ok_def list_all_iff)
  have "capability_dma_range_allowed c base len l \<longleftrightarrow> (\<exists>w \<in> set (dma_windows x).
      \<not> add64 base len < base \<and> \<not> (win_length w = 0 \<or> add64 (win_base w) (win_length w) < win_base w)
      \<and> win_base w \<le> base \<and> add64 base len \<le> add64 (win_base w) (win_length w))"
    using x len ws(1) by (auto simp: capability_dma_range_allowed_def list_ex_iff)
  also have "\<dots> \<longleftrightarrow> (\<exists>w \<in> set (dma_windows x). win_base w + win_length w < 2 ^ 64 \<and> win_base w \<le> base
      \<and> base + len \<le> win_base w + win_length w)"
    using window_contains [OF _ _ b len] ws(2) by (intro bex_cong) auto
  finally show ?thesis using x len by auto
next
  case False
  then show ?thesis by (auto simp: capability_dma_range_allowed_def split: option.splits)
qed

subsection \<open>Accepted and refused profiles\<close>

definition profile_wf :: "spawn_profile \<Rightarrow> bool" where
  "profile_wf sp \<longleftrightarrow>
     (bit (sp_cap_flags sp) 0 \<longrightarrow> (case sp_io_ranges sp of None \<Rightarrow> True
        | Some rs \<Rightarrow> length rs \<le> CAPABILITY_IO_RANGE_LIMIT \<and> list_all (\<lambda>r. io_first r \<le> io_last r) rs))
     \<and> (bit (sp_cap_flags sp) 3 \<longrightarrow> (case sp_dma_windows sp of None \<Rightarrow> False
        | Some ws \<Rightarrow> ws \<noteq> [] \<and> length ws \<le> CAPABILITY_DMA_WINDOW_LIMIT))"

definition declares_port :: "spawn_profile \<Rightarrow> nat \<Rightarrow> bool" where
  "declares_port sp port \<longleftrightarrow> bit (sp_cap_flags sp) 0
     \<and> (case sp_io_ranges sp of None \<Rightarrow> False | Some rs \<Rightarrow> list_ex (\<lambda>r. io_first r \<le> port \<and> port \<le> io_last r) rs)"

lemma flag_tests:
  "(w AND push_bit 0 1 \<noteq> 0) = bit (w :: u32) 0" "(w AND push_bit 2 1 \<noteq> 0) = bit w 2" "(w AND push_bit 3 1 = 0) = (\<not> bit w 3)"
  using kind_mask_test [of w CAP_IO_PORT] kind_mask_test [of w CAP_MMIO_MAP] kind_mask_test [of w CAP_DMA_BUFFER] by auto

lemma dma_ready_iff: "dma_ready x \<longleftrightarrow> spawn_profile_configured x \<and> bit (cap_mask x) 3"
  unfolding dma_ready_def flag_tests by simp

lemma takeWhile_stops: "length (takeWhile P xs) < length xs \<longleftrightarrow> \<not> list_all P xs"
  by (induction xs) auto

lemma profile_ports_code:
  assumes "profile_ports sp x = (rc, y)"
  shows "rc = (if bit (sp_cap_flags sp) 0 \<and> (case sp_io_ranges sp of None \<Rightarrow> False
      | Some rs \<Rightarrow> CAPABILITY_IO_RANGE_LIMIT < length rs \<or> \<not> list_all (\<lambda>r. io_first r \<le> io_last r) rs) then -1 else 0)"
  using assms unfolding profile_ports_def flag_tests Let_def takeWhile_stops not_less
  by (auto split: option.splits if_splits)

lemma profile_ports_accepted:
  assumes "profile_ports sp x = (0, y)"
  shows "io_ranges y = (case sp_io_ranges sp of None \<Rightarrow> [] | Some rs \<Rightarrow> if bit (sp_cap_flags sp) 0 then rs else [])"
  using assms unfolding profile_ports_def flag_tests Let_def takeWhile_stops
  by (auto simp: list_all_iff split: option.splits if_splits)

lemma profile_dma_code:
  assumes "profile_dma sp x = (rc, y)"
  shows "rc = (if bit (sp_cap_flags sp) 3 \<and> (case sp_dma_windows sp of None \<Rightarrow> True
      | Some ws \<Rightarrow> ws = [] \<or> CAPABILITY_DMA_WINDOW_LIMIT < length ws) then -1 else 0)"
    and "io_ranges y = io_ranges x" "irq_mask y = irq_mask x" "spawn_profile_configured y = spawn_profile_configured x"
  using assms unfolding profile_dma_def flag_tests by (auto split: option.splits if_splits)

lemma profile_record_effect:
  assumes p: "profile_record sp x = (rc, y)"
  shows "rc = (if profile_wf sp then 0 else -1)" "spawn_profile_configured y"
    "\<forall>r \<in> set (io_ranges y). bit (sp_cap_flags sp) 0 \<and> (\<exists>rs. sp_io_ranges sp = Some rs \<and> r \<in> set rs)"
    "rc = 0 \<Longrightarrow> io_ranges y = (case sp_io_ranges sp of None \<Rightarrow> [] | Some rs \<Rightarrow> if bit (sp_cap_flags sp) 0 then rs else [])
      \<and> irq_mask y = (if bit (sp_cap_flags sp) 2 then sp_irq_mask sp else 0)"
proof -
  obtain r z where z: "profile_ports sp x = (r, z)" by (cases "profile_ports sp x")
  obtain good where g: "z = x\<lparr>spawn_profile_configured := True, io_port_range_valid := bit (sp_cap_flags sp) 0, io_ranges := good\<rparr>"
    "good \<noteq> [] \<Longrightarrow> bit (sp_cap_flags sp) 0" "set good \<subseteq> set (case sp_io_ranges sp of None \<Rightarrow> [] | Some rs \<Rightarrow> rs)"
    using profile_ports_cases [OF z] by metis
  let ?z = "z\<lparr>irq_mask := (if bit (sp_cap_flags sp) 2 then sp_irq_mask sp else 0)\<rparr>"
  have cases: "if r = 0 then profile_dma sp ?z = (rc, y) else rc = r \<and> y = z"
    using p z unfolding profile_record_def flag_tests by (auto split: if_splits)
  note rcode = profile_ports_code [OF z]
  have dma: "r = 0 \<Longrightarrow> profile_dma sp ?z = (rc, y)" using cases by simp
  show "rc = (if profile_wf sp then 0 else -1)"
  proof (cases "r = 0")
    case True
    then show ?thesis using rcode profile_dma_code(1) [OF dma [OF True]]
      by (auto simp: profile_wf_def not_less split: option.splits if_splits)
  next
    case False
    then show ?thesis using rcode cases by (auto simp: profile_wf_def split: option.splits if_splits)
  qed
  have y: "io_ranges y = good" "spawn_profile_configured y"
    using cases profile_dma_code(2,4) [OF dma] g(1) by (cases "r = 0"; simp)+
  show "spawn_profile_configured y" by (rule y(2))
  show "\<forall>r \<in> set (io_ranges y). bit (sp_cap_flags sp) 0 \<and> (\<exists>rs. sp_io_ranges sp = Some rs \<and> r \<in> set rs)"
  proof
    fix r assume "r \<in> set (io_ranges y)"
    then have r: "r \<in> set good" using y(1) by simp
    then have "bit (sp_cap_flags sp) 0" using g(2) by force
    moreover have "\<exists>rs. sp_io_ranges sp = Some rs \<and> r \<in> set rs" using r g(3) by (cases "sp_io_ranges sp") auto
    ultimately show "bit (sp_cap_flags sp) 0 \<and> (\<exists>rs. sp_io_ranges sp = Some rs \<and> r \<in> set rs)" ..
  qed
  assume "rc = 0"
  then have r: "r = 0" using cases by (auto split: if_splits)
  then show "io_ranges y = (case sp_io_ranges sp of None \<Rightarrow> [] | Some rs \<Rightarrow> if bit (sp_cap_flags sp) 0 then rs else [])
      \<and> irq_mask y = (if bit (sp_cap_flags sp) 2 then sp_irq_mask sp else 0)"
    using profile_ports_accepted [OF z [unfolded r]] profile_dma_code(2,3) [OF dma [OF r]] by simp
qed

lemma irq_allowed_iff:
  "capability_irq_line_allowed c line l
    \<longleftrightarrow> line < 16 \<and> (\<exists>x. cap_rec l c = Some x \<and> spawn_profile_configured x \<and> bit (irq_mask x) line)"
proof -
  have "(w AND push_bit line 1 \<noteq> 0) = bit (w :: u16) line" if "line < 16" for w
    using that and_exp_eq_0_iff_not_bit [of w line] by (simp add: push_bit_eq_mult)
  then show ?thesis by (auto simp: capability_irq_line_allowed_def not_le split: option.splits)
qed

subsection \<open>A concrete history\<close>

definition demo_profile :: spawn_profile where
  "demo_profile = \<lparr>sp_cap_flags = 5, sp_io_ranges = Some [\<lparr>io_first = 96, io_last = 100\<rparr>], sp_irq_mask = 2,
     sp_dma_direction_flags = 0, sp_dma_max_bytes = 0, sp_dma_windows = None\<rparr>"

definition demo_cap0 :: cap_table where
  "demo_cap0 = capability_init (Some 4096) (Some 8192) 320 list_zeroed"

definition demo_cap1 :: cap_table where
  "demo_cap1 = snd (capability_grant_name None 7 ''io.port'' 0 demo_cap0)"

definition demo_cap2 :: cap_table where
  "demo_cap2 = snd (capability_set_spawn_profile None 7 demo_profile demo_cap1)"

lemma demo_list_init:
  "list_init (Some 4096) 320 LIST_IMPL_ARRAY_CHUNK 16 list_zeroed
     = (0, \<lparr>elem_size = 320, list_kind = LIST_IMPL_ARRAY_CHUNK, config_value = 16, list_state = Some (Array_state 16 [])\<rparr>)"
  by (simp add: list_init_def list_array_chunk_impl_init_def)

abbreviation demo_table :: "capability_context_state option list \<Rightarrow> cap_table" where
  "demo_table slots \<equiv> \<lparr>elem_size = 320, list_kind = LIST_IMPL_ARRAY_CHUNK, config_value = 16,
     list_state = Some (Array_state 16 [\<lparr>ch_addr = 8192, ch_slots = slots\<rparr>])\<rparr>"

abbreviation demo_kernel :: capability_context_state where
  "demo_kernel \<equiv> (new_context 0)\<lparr>configured := True, cap_mask := CAP_ALL_MASK\<rparr>"

lemma demo_upt: "[0..<16] = [0, 1, 2, 3, 4, 5, 6, 7, 8, 9, 10, 11, 12, 13, 14, 15 :: nat]"
  by (simp add: upt_rec)

lemma demo_replicate:
  "replicate 15 a = [a, a, a, a, a, a, a, a, a, a, a, a, a, a, a]" "replicate 14 a = [a, a, a, a, a, a, a, a, a, a, a, a, a, a]"
  by (simp_all add: eval_nat_numeral)

lemmas demo_list_eval =
  list_lookup_def list_view_def chunk_view_def list_alloc_def list_array_chunk_alloc_def list_write_def chunk_write_def
  slot_ptr_def list_array_stride_def add32_def demo_upt demo_replicate capability_state_for_context_def Let_def

lemma demo_cap0_eq: "demo_cap0 = demo_table (Some demo_kernel # replicate 15 None)"
  by (simp add: demo_cap0_def capability_init_def demo_list_init demo_list_eval new_context_def)

lemma demo_grant:
  "capability_grant_name None 7 ''io.port'' 0 demo_cap0
     = (0, demo_table (Some demo_kernel # Some (grant_record 1 0 (new_context 7)) # replicate 14 None))"
  by (simp add: demo_cap0_eq capability_grant_name_def name_to_kind_def demo_list_eval new_context_def)

lemma demo_profile_wf: "profile_wf demo_profile" "profile_typed demo_profile"
  by (simp_all add: profile_wf_def profile_typed_def demo_profile_def CAPABILITY_IO_RANGE_LIMIT_def bit_numeral_rec)

lemma demo_history0: "cap_history demo_cap0 ({0} \<times> UNIV)"
proof -
  have "fresh_for \<lparr>elem_size = 320, list_kind = LIST_IMPL_ARRAY_CHUNK, config_value = 16,
      list_state = Some (Array_state 16 [])\<rparr> (Some 8192)" by (simp add: fresh_for_def list_blocks_def)
  from cap_start [OF demo_list_init _ this]
  have "cap_history demo_cap0 (if cap_ctx 0 demo_cap0 = None then {} else {0} \<times> UNIV)" by (simp add: demo_cap0_def)
  moreover have "cap_ctx 0 demo_cap0 = Some demo_kernel"
    by (simp add: demo_cap0_eq record_of_def records_def demo_list_eval new_context_def)
  ultimately show ?thesis by simp
qed

lemma demo_history1: "cap_history demo_cap1 (insert (7, CAP_IO_PORT) ({0} \<times> UNIV))"
  using cap_grant [OF demo_history0 _ demo_grant] by (simp add: demo_cap1_def demo_grant fresh_for_def name_to_kind_def)

lemma demo_cap1_rec: "cap_rec demo_cap1 7 = Some (grant_record 1 0 (new_context 7))"
  by (simp add: demo_cap1_def demo_grant record_of_def records_def demo_list_eval new_context_def grant_record_def)

lemma demo_install: "capability_set_spawn_profile None 7 demo_profile demo_cap1 = (0, demo_cap2)"
proof -
  obtain rc where rc: "capability_set_spawn_profile None 7 demo_profile demo_cap1 = (rc, demo_cap2)"
    by (metis demo_cap2_def prod.collapse)
  have k: "keyed cc_context_id demo_cap1" using cap_history_inv [OF demo_history1] by (simp add: cap_inv_def)
  have f: "fresh_for demo_cap1 None" by (simp add: fresh_for_def)
  have "rc = 0"
    using k f rc
  proof (cases rule: spawn_profile_rec)
    case 1
    then show ?thesis
      using demo_cap1_rec lookup_record_of [of cc_context_id 7 demo_cap1]
      by (auto simp: capability_state_for_context_def split: option.splits)
  next
    case (2 x x')
    show ?thesis using profile_record_effect(1) [OF 2(1)] demo_profile_wf(1) by simp
  qed
  then show ?thesis using rc by simp
qed

lemma demo_history2: "cap_history demo_cap2 (insert (7, CAP_IO_PORT) ({0} \<times> UNIV))"
  using cap_profile [OF demo_history1 _ demo_profile_wf(2) demo_install] by (simp add: fresh_for_def)

lemma demo_cap2_rec:
  obtains x where "cap_rec demo_cap2 7 = Some x" "io_ranges x = [\<lparr>io_first = 96, io_last = 100\<rparr>]" "\<not> bit (cap_mask x) 3"
proof -
  have k: "keyed cc_context_id demo_cap1" using cap_history_inv [OF demo_history1] by (simp add: cap_inv_def)
  have f: "fresh_for demo_cap1 None" by (simp add: fresh_for_def)
  show ?thesis using k f demo_install
  proof (cases rule: spawn_profile_rec)
    case (2 x x')
    then have "io_ranges x' = [\<lparr>io_first = 96, io_last = 100\<rparr>]"
      using profile_record_effect(4) [OF 2(1)] by (simp add: demo_profile_def bit_numeral_rec)
    moreover have "cap_mask x' = 1"
      using profile_record_mask [OF 2(1)] 2(4) by (simp add: demo_cap1_rec grant_record_mask)
    ultimately show ?thesis using that 2(3) by (simp add: bit_numeral_rec)
  qed simp
qed

lemma demo_cap2_ports: "capability_io_port_allowed 7 p demo_cap2 \<longleftrightarrow> 96 \<le> p \<and> p \<le> 100"
proof -
  obtain x where "cap_rec demo_cap2 7 = Some x" "io_ranges x = [\<lparr>io_first = 96, io_last = 100\<rparr>]"
    by (rule demo_cap2_rec)
  then show ?thesis using port_allowed_iff [OF cap_history_inv [OF demo_history2], of 7 p] by simp
qed

subsection \<open>Properties\<close>

text \<open>
  C30. Authority comes from grants alone.  After any history of initialisation, grants, spawn profiles
  and DMA charges, a context holds a capability exactly if a grant of that name to that context reported
  success (the kernel's record being seeded with all of them): no other call adds or removes a bit, no
  context gains from a grant to another one, and an unknown name or a failed allocation grants nothing.
  A context counts as configured exactly if it holds something.
\<close>

theorem capability_has_exactly_granted:
  assumes "cap_history l G"
  shows "(capability_has c kind l \<longleftrightarrow> (c, kind) \<in> G)
    \<and> (capability_context_configured c l \<longleftrightarrow> (\<exists>k. (c, k) \<in> G))"
proof -
  have inv: "cap_inv l G" using assms by (rule cap_history_inv)
  then have "capability_context_configured c l \<longleftrightarrow> (\<exists>k. capability_has c k l)"
    by (auto simp: capability_context_configured_def has_iff cap_inv_def cap_rec_ok_def split: option.splits)
  then show ?thesis using inv by (simp add: cap_inv_def)
qed

theorem capability_has_exactly_granted_witness:
  "capability_has 7 CAP_IO_PORT demo_cap2 \<and> \<not> capability_has 7 CAP_SYSTEM_CONTROL demo_cap2
   \<and> \<not> capability_context_configured 8 demo_cap2"
  using capability_has_exactly_granted [OF demo_history2, of 7 CAP_IO_PORT]
    capability_has_exactly_granted [OF demo_history2, of 7 CAP_SYSTEM_CONTROL]
    capability_has_exactly_granted [OF demo_history2, of 8 CAP_IO_PORT] by simp

text \<open>
  C31. Types and limits of the records.  After any history there is at most one record per context, and
  each respects the limits of its arrays and the widths of its fields; every recorded port window runs
  upwards, and port windows exist only under a profile that declared the I/O section.
\<close>

theorem capability_records_well_typed:
  assumes "cap_history l G"
  shows "distinct (map cc_context_id (records l)) \<and> list_all cap_rec_ok (records l)"
proof -
  have "cap_inv l G" using assms by (rule cap_history_inv)
  then show ?thesis
    using record_of_iff [of cc_context_id l] by (auto simp: cap_inv_def keyed_def list_all_iff)
qed

theorem capability_records_well_typed_witness:
  "cap_rec_ok (grant_record 1 0 (new_context 7)) \<and> distinct (map cc_context_id (records demo_cap1))"
proof -
  have "grant_record 1 0 (new_context 7) \<in> set (records demo_cap1)"
    using demo_cap1_rec by (auto simp: record_of_def find_Some_iff)
  then show ?thesis using capability_records_well_typed [OF demo_history1] by (auto simp: list_all_iff)
qed

text \<open>
  C32. The resource checks have no wrap-around hole.  A region access resolves to a port exactly if its
  first and its last byte lie in the declared window of that index, and then every port it touches passes
  the single-port check.  A DMA range passes exactly if it is non-empty and lies, in unbounded arithmetic,
  inside one declared window that itself ends below \<open>2 ^ 64\<close>.
\<close>

theorem capability_checks_contain_access:
  assumes "cap_history l G" "base < 2 ^ 64" "len < 2 ^ 64"
  shows "(capability_io_region_port c region off wd l = Inr port
      \<longleftrightarrow> (\<exists>x. cap_ctx c l = Some x \<and> region < length (io_ranges x) \<and> 1 \<le> wd \<and> wd \<le> 4
          \<and> port = io_first (io_ranges x ! region) + off \<and> port + wd - 1 \<le> io_last (io_ranges x ! region)))
    \<and> (capability_io_region_port c region off wd l = Inr port
        \<longrightarrow> (\<forall>p. port \<le> p \<and> p < port + wd \<longrightarrow> p < 2 ^ 16 \<and> capability_io_port_allowed c p l))
    \<and> (capability_dma_range_allowed c base len l
      \<longleftrightarrow> 0 < len \<and> (\<exists>x w. cap_ctx c l = Some x \<and> dma_ready x \<and> w \<in> set (dma_windows x)
          \<and> win_base w + win_length w < 2 ^ 64 \<and> win_base w \<le> base \<and> base + len \<le> win_base w + win_length w))"
proof -
  have inv: "cap_inv l G" using assms(1) by (rule cap_history_inv)
  have "p < 2 ^ 16 \<and> capability_io_port_allowed c p l"
    if acc: "capability_io_region_port c region off wd l = Inr port" and p: "port \<le> p" "p < port + wd" for p
  proof -
    obtain x where x: "cap_rec l c = Some x" "region < length (io_ranges x)"
      "port = io_first (io_ranges x ! region) + off" "port + wd - 1 \<le> io_last (io_ranges x ! region)"
      using acc io_region_port_iff [OF inv] by blast
    let ?r = "io_ranges x ! region"
    have r: "?r \<in> set (io_ranges x)" using x(2) by simp
    then have "io_last ?r < 2 ^ 16" using cap_inv_rec [OF inv x(1)] by (auto simp: cap_rec_ok_def list_all_iff)
    moreover have "io_first ?r \<le> p" "p \<le> io_last ?r" using x(3,4) p by linarith+
    ultimately show ?thesis using port_allowed_iff [OF inv] x(1) r by auto
  qed
  then show ?thesis using io_region_port_iff [OF inv, of c region off wd port] dma_range_iff [OF inv assms(2,3), of c] by auto
qed

text \<open>
  C33. Installing a spawn profile.  The call succeeds exactly if a record is available and the profile is
  well formed, and otherwise answers -1.  Whatever it answers, it touches no other context and no
  capability bit, and a context that has a record is from then on confined to ports the profile declared:
  a refused profile never leaves a wider window behind.  After success the ports and interrupt lines
  allowed are exactly the declared ones.
\<close>

theorem capability_spawn_profile_confines:
  assumes "cap_history l G" "fresh_for l mem" "profile_typed sp"
    and "capability_set_spawn_profile mem c sp l = (rc, l')"
  shows "rc = (if cap_ctx c l' \<noteq> None \<and> profile_wf sp then 0 else -1)
    \<and> (\<forall>c'. c' \<noteq> c \<longrightarrow> cap_ctx c' l' = cap_ctx c' l) \<and> (\<forall>kind. capability_has c kind l' = capability_has c kind l)
    \<and> (cap_ctx c l' \<noteq> None \<longrightarrow> capability_spawn_profile_configured c l'
        \<and> (\<forall>port. capability_io_port_allowed c port l' \<longrightarrow> declares_port sp port))
    \<and> (rc = 0 \<longrightarrow> (\<forall>port. capability_io_port_allowed c port l' \<longleftrightarrow> declares_port sp port)
        \<and> (\<forall>line. capability_irq_line_allowed c line l'
              \<longleftrightarrow> line < 16 \<and> bit (sp_cap_flags sp) 2 \<and> bit (sp_irq_mask sp) line))"
proof -
  have inv: "cap_inv l G" using assms(1) by (rule cap_history_inv)
  have inv': "cap_inv l' G" using cap_history_inv [OF cap_profile [OF assms]] .
  have k: "keyed cc_context_id l" using inv by (simp add: cap_inv_def)
  have has: "\<forall>kind. capability_has c kind l' = capability_has c kind l"
    using inv inv' by (simp add: cap_inv_def)
  from k assms(2,4) show ?thesis
  proof (cases rule: spawn_profile_rec)
    case 1
    have "cap_rec l c = None"
      using 1(4) lookup_record_of [of cc_context_id c l] by (auto simp: capability_state_for_context_def split: option.splits)
    then show ?thesis using 1 has by simp
  next
    case (2 x x')
    note e = profile_record_effect [OF 2(1)]
    have c: "cap_rec l' c = Some x'" using 2(3) by simp
    have sub: "declares_port sp port" if "capability_io_port_allowed c port l'" for port
      using that e(3) c by (fastforce simp: port_allowed_iff [OF inv'] declares_port_def list_ex_iff)
    have "capability_io_port_allowed c port l' \<longleftrightarrow> declares_port sp port" if "rc = 0" for port
      using e(4) [OF that] c
      by (auto simp: port_allowed_iff [OF inv'] declares_port_def list_ex_iff split: option.splits if_splits)
    moreover have "capability_irq_line_allowed c line l' \<longleftrightarrow> line < 16 \<and> bit (sp_cap_flags sp) 2 \<and> bit (sp_irq_mask sp) line"
      if "rc = 0" for line
      using e(4) [OF that] e(2) c by (auto simp: irq_allowed_iff)
    ultimately show ?thesis
      using e(1,2) c sub has 2(3) by (simp add: capability_spawn_profile_configured_def)
  qed
qed

theorem capability_spawn_profile_confines_witness:
  "capability_io_port_allowed 7 100 demo_cap2 \<and> \<not> capability_io_port_allowed 7 101 demo_cap2
   \<and> capability_irq_line_allowed 7 1 demo_cap2"
  using capability_spawn_profile_confines [OF demo_history1 _ demo_profile_wf(2) demo_install]
  by (simp add: fresh_for_def declares_port_def demo_profile_def bit_numeral_rec)

theorem capability_checks_contain_access_witness:
  "capability_io_region_port 7 0 4 1 demo_cap2 = Inr 100 \<and> \<not> capability_dma_range_allowed 7 0 4096 demo_cap2"
proof -
  obtain x where "cap_rec demo_cap2 7 = Some x" "io_ranges x = [\<lparr>io_first = 96, io_last = 100\<rparr>]" "\<not> bit (cap_mask x) 3"
    by (rule demo_cap2_rec)
  then show ?thesis
    using capability_checks_contain_access [OF demo_history2, of 0 4096 7 0 4 1 100]
    by (auto simp: dma_ready_iff)
qed

end
