(* ===== verification/Policy.thy ===== *)
theory Policy
  imports Capability
begin

unbundle bit_operations_syntax

section \<open>Authorisation policy\<close>

text \<open>
  Model of \<open>src/kernel/policy.c\<close>: which capability and which part of the spawn profile an action needs.
  The process table is the list of its slots as \<open>process_find_by_context\<close> reads them, and a pointer to a
  slot is its index; \<open>policy_require\<close> also uses the CPU's current process and thread (\<open>process_yield\<close> of
  \<open>process.c\<close>).  The default branch of the switches is for values outside the enumeration and has no
  counterpart.
\<close>

datatype policy_action =
    POLICY_ACTION_IO_PORT | POLICY_ACTION_MMIO_MAP | POLICY_ACTION_DMA_BUFFER | POLICY_ACTION_IRQ_CONTROL
  | POLICY_ACTION_IRQ_ROUTE | POLICY_ACTION_SYSTEM_CONTROL

record process_slot =
  ps_context_id :: nat
  ps_unused :: bool
  ps_name :: "string option"
  ps_exit_status :: int

datatype process_run_result =
    PROCESS_RUN_YIELDED | PROCESS_RUN_IDLE | PROCESS_RUN_BLOCKED | PROCESS_RUN_EXITED | PROCESS_RUN_THREAD_EXITED

record machine =
  g_processes :: "process_slot list"
  current_process :: "nat option"
  current_thread :: "nat option"
  last_run_result :: process_run_result

definition IRQ_COUNT :: nat where "IRQ_COUNT = 16"

definition g_irq_route_policy :: "(string \<times> u16) list" where
  "g_irq_route_policy = [(''ata'', push_bit 14 1 OR push_bit 15 1), (''irq-route-allow'', push_bit 1 1)]"

definition process_find_by_context :: "process_slot list \<Rightarrow> nat \<Rightarrow> nat option" where
  "process_find_by_context procs context_id =
     (if context_id = 0 then None
      else List.find (\<lambda>i. ps_context_id (procs ! i) = context_id \<and> \<not> ps_unused (procs ! i)) [0..<length procs])"

fun irq_route_lookup :: "string \<Rightarrow> nat \<Rightarrow> (string \<times> u16) list \<Rightarrow> bool" where
  "irq_route_lookup name irq_line [] = False"
| "irq_route_lookup name irq_line ((app_name, m) # rest) =
     (if name \<noteq> app_name then irq_route_lookup name irq_line rest else m AND push_bit irq_line 1 \<noteq> 0)"

definition policy_irq_route_allows :: "process_slot list \<Rightarrow> nat \<Rightarrow> nat \<Rightarrow> cap_table \<Rightarrow> bool" where
  "policy_irq_route_allows procs context_id irq_line l =
     (if context_id = 0 then True
      else if IRQ_COUNT \<le> irq_line then False
      else if capability_spawn_profile_configured context_id l then capability_irq_line_allowed context_id irq_line l
      else case process_find_by_context procs context_id of
             None \<Rightarrow> False
           | Some i \<Rightarrow>
               (case ps_name (procs ! i) of None \<Rightarrow> False | Some name \<Rightarrow> irq_route_lookup name irq_line g_irq_route_policy))"

fun policy_action_name :: "policy_action \<Rightarrow> string" where
  "policy_action_name POLICY_ACTION_IO_PORT = ''io.port''"
| "policy_action_name POLICY_ACTION_MMIO_MAP = ''io.mmio''"
| "policy_action_name POLICY_ACTION_DMA_BUFFER = ''dma.buffer''"
| "policy_action_name POLICY_ACTION_IRQ_CONTROL = ''irq.control''"
| "policy_action_name POLICY_ACTION_IRQ_ROUTE = ''irq.route''"
| "policy_action_name POLICY_ACTION_SYSTEM_CONTROL = ''system.control''"

function (sequential) policy_authorize :: "process_slot list \<Rightarrow> nat \<Rightarrow> policy_action \<Rightarrow> nat \<Rightarrow> cap_table \<Rightarrow> int" where
  "policy_authorize procs context_id POLICY_ACTION_IO_PORT arg0 l =
     (if \<not> capability_has context_id CAP_IO_PORT l then -1
      else if \<not> capability_spawn_profile_configured context_id l then 0
      else if capability_io_port_allowed context_id (arg0 mod 2 ^ 16) l then 0 else -1)"
| "policy_authorize procs context_id POLICY_ACTION_MMIO_MAP arg0 l =
     (if \<not> capability_has context_id CAP_MMIO_MAP l then -1
      else if \<not> capability_spawn_profile_configured context_id l then 0
      else if capability_mmio_allowed context_id l then 0 else -1)"
| "policy_authorize procs context_id POLICY_ACTION_DMA_BUFFER arg0 l =
     (if capability_has context_id CAP_DMA_BUFFER l then 0 else -1)"
| "policy_authorize procs context_id POLICY_ACTION_IRQ_CONTROL arg0 l =
     (if capability_has context_id CAP_IRQ_ROUTE l then 0 else -1)"
| "policy_authorize procs context_id POLICY_ACTION_SYSTEM_CONTROL arg0 l =
     (if capability_has context_id CAP_SYSTEM_CONTROL l then 0 else -1)"
| "policy_authorize procs context_id POLICY_ACTION_IRQ_ROUTE arg0 l =
     (if policy_authorize procs context_id POLICY_ACTION_IRQ_CONTROL 0 l \<noteq> 0 then -1
      else if policy_irq_route_allows procs context_id arg0 l then 0 else -1)"
  by pat_completeness auto
termination by (relation "measure (\<lambda>(_, _, action, _, _). if action = POLICY_ACTION_IRQ_ROUTE then 1 else 0)") auto

definition process_set_exit_status :: "nat \<Rightarrow> int \<Rightarrow> machine \<Rightarrow> machine" where
  "process_set_exit_status proc exit_status mc =
     mc\<lparr>g_processes := (g_processes mc)[proc := (g_processes mc ! proc)\<lparr>ps_exit_status := exit_status\<rparr>]\<rparr>"

text \<open>
  Whether the running thread is switched out.  With \<open>PROCESS_RUN_EXITED\<close> it is then not dispatched again:
  the scheduler ends the process that was current.
\<close>

definition process_yield :: "process_run_result \<Rightarrow> machine \<Rightarrow> bool \<times> machine" where
  "process_yield result mc =
     (if current_process mc = None then (False, mc)
      else (current_thread mc \<noteq> None, mc\<lparr>last_run_result := result\<rparr>))"

text \<open>
  The enforcing form: its status, or nothing when it does not return, and the two variable parts of the
  message on the serial console.
\<close>

definition policy_require ::
  "nat \<Rightarrow> policy_action \<Rightarrow> nat \<Rightarrow> cap_table \<Rightarrow> machine \<Rightarrow> int option \<times> (string \<times> string) option \<times> machine" where
  "policy_require context_id action arg0 l mc =
     (if policy_authorize (g_processes mc) context_id action arg0 l = 0 then (Some 0, None, mc)
      else let proc = process_find_by_context (g_processes mc) context_id;
               who = (case proc of None \<Rightarrow> ''?''
                      | Some i \<Rightarrow> (case ps_name (g_processes mc ! i) of None \<Rightarrow> ''?'' | Some name \<Rightarrow> name));
               log = Some (policy_action_name action, who)
           in case proc of
                None \<Rightarrow> (Some (-1), log, mc)
              | Some i \<Rightarrow>
                  (case process_yield PROCESS_RUN_EXITED (process_set_exit_status i (-1) mc) of
                     (switched, mc') \<Rightarrow> (if switched then None else Some (-1), log, mc')))"

subsection \<open>What an action needs\<close>

fun action_kind :: "policy_action \<Rightarrow> capability_kind" where
  "action_kind POLICY_ACTION_IO_PORT = CAP_IO_PORT"
| "action_kind POLICY_ACTION_MMIO_MAP = CAP_MMIO_MAP"
| "action_kind POLICY_ACTION_DMA_BUFFER = CAP_DMA_BUFFER"
| "action_kind POLICY_ACTION_IRQ_CONTROL = CAP_IRQ_ROUTE"
| "action_kind POLICY_ACTION_IRQ_ROUTE = CAP_IRQ_ROUTE"
| "action_kind POLICY_ACTION_SYSTEM_CONTROL = CAP_SYSTEM_CONTROL"

definition listed_line :: "process_slot list \<Rightarrow> nat \<Rightarrow> nat \<Rightarrow> bool" where
  "listed_line procs c line \<longleftrightarrow>
     (\<exists>i. process_find_by_context procs c = Some i
        \<and> (ps_name (procs ! i) = Some ''ata'' \<and> line \<in> {14, 15} \<or> ps_name (procs ! i) = Some ''irq-route-allow'' \<and> line = 1))"

definition resource_granted :: "process_slot list \<Rightarrow> nat \<Rightarrow> policy_action \<Rightarrow> nat \<Rightarrow> cap_table \<Rightarrow> bool" where
  "resource_granted procs c action arg l =
     (case action of
        POLICY_ACTION_IO_PORT \<Rightarrow>
          \<not> capability_spawn_profile_configured c l \<or> capability_io_port_allowed c (arg mod 2 ^ 16) l
      | POLICY_ACTION_IRQ_ROUTE \<Rightarrow>
          c = 0 \<or> (if capability_spawn_profile_configured c l then capability_irq_line_allowed c arg l
                   else listed_line procs c arg)
      | _ \<Rightarrow> True)"

lemma policy_line_test: "irq_line < 16 \<Longrightarrow> (w AND push_bit irq_line 1 \<noteq> 0) = bit (w :: u16) irq_line"
  using and_exp_eq_0_iff_not_bit [of w irq_line] by (simp add: push_bit_eq_mult)

lemma route_table_lookup:
  assumes "line < 16"
  shows "irq_route_lookup name line g_irq_route_policy
    \<longleftrightarrow> name = ''ata'' \<and> line \<in> {14, 15} \<or> name = ''irq-route-allow'' \<and> line = 1"
proof -
  have "bit (push_bit 14 1 OR push_bit 15 1 :: u16) line \<longleftrightarrow> line \<in> {14, 15}" "bit (push_bit 1 1 :: u16) line \<longleftrightarrow> line = 1"
    unfolding bit_or_iff bit_push_bit_iff bit_1_iff using assms by auto
  then show ?thesis
    unfolding g_irq_route_policy_def irq_route_lookup.simps policy_line_test [OF assms] by simp
qed

lemma route_allows_iff:
  "policy_irq_route_allows procs c line l \<longleftrightarrow> c = 0 \<or> line < IRQ_COUNT
     \<and> (if capability_spawn_profile_configured c l then capability_irq_line_allowed c line l else listed_line procs c line)"
  by (auto simp: policy_irq_route_allows_def IRQ_COUNT_def listed_line_def not_le route_table_lookup split: option.splits)

lemma route_needs_line: "capability_irq_line_allowed c line l \<or> listed_line procs c line \<Longrightarrow> line < IRQ_COUNT"
  by (auto simp: irq_allowed_iff listed_line_def IRQ_COUNT_def)

lemma mmio_profile_redundant:
  "capability_has c CAP_MMIO_MAP l \<Longrightarrow> capability_spawn_profile_configured c l \<Longrightarrow> capability_mmio_allowed c l"
  by (auto simp: capability_has_def capability_spawn_profile_configured_def capability_mmio_allowed_def split: option.splits)

lemma authorize_iff:
  "policy_authorize procs c action arg l = 0
     \<longleftrightarrow> capability_has c (action_kind action) l \<and> resource_granted procs c action arg l"
  using mmio_profile_redundant [of c l] route_needs_line [of c arg l procs]
  by (cases action) (auto simp: resource_granted_def route_allows_iff)

lemma authorize_codes: "policy_authorize procs c action arg l \<in> {0, -1}"
  by (cases action) auto

lemma find_context:
  "process_find_by_context procs c = Some i \<Longrightarrow> i < length procs \<and> ps_context_id (procs ! i) = c \<and> \<not> ps_unused (procs ! i)"
  by (auto simp: process_find_by_context_def find_Some_iff split: if_splits)

text \<open>The slot is the only one in use with a non-zero context.\<close>

definition sole_slot :: "process_slot list \<Rightarrow> nat \<Rightarrow> nat \<Rightarrow> bool" where
  "sole_slot procs c i \<longleftrightarrow> c \<noteq> 0 \<and> i < length procs
     \<and> (\<forall>j < length procs. ps_context_id (procs ! j) = c \<and> \<not> ps_unused (procs ! j) \<longleftrightarrow> j = i)"

lemma find_sole: "sole_slot procs c i \<Longrightarrow> process_find_by_context procs c = Some i"
proof -
  assume s: "sole_slot procs c i"
  have "process_find_by_context procs c \<noteq> None"
    using s by (auto simp: sole_slot_def process_find_by_context_def find_None_iff)
  then obtain j where j: "process_find_by_context procs c = Some j" by blast
  then show ?thesis using find_context [OF j] s by (auto simp: sole_slot_def)
qed

subsection \<open>Properties\<close>

text \<open>
  C34. The policy is default-deny.  After any history of the capability table an action is authorised
  exactly if its capability was granted to the context and its resource test passes: for a port, the
  context has no profile or the profile declares the port; for an interrupt line, the context is the
  kernel, or its profile has the line, or without a profile its program is on the fixed list for that
  line; the other actions have none.  The enforcing form reports success for exactly the authorised
  actions and then changes nothing.  A refused call that a thread makes for the context of its own
  process does not return: the CPU's current process, the sole one of that context, leaves with
  \<open>PROCESS_RUN_EXITED\<close> and exit status -1, and no other slot changes.
\<close>

theorem policy_default_deny:
  assumes "cap_history l G"
  shows "(policy_authorize procs c action arg l = 0
      \<longleftrightarrow> (c, action_kind action) \<in> G \<and> resource_granted procs c action arg l)
    \<and> policy_authorize procs c action arg l \<in> {0, -1}
    \<and> (g_processes mc = procs \<longrightarrow> policy_require c action arg l mc = (rc, log, mc') \<longrightarrow>
         (rc = Some 0 \<longleftrightarrow> policy_authorize procs c action arg l = 0) \<and> (log = None \<longleftrightarrow> rc = Some 0)
         \<and> (rc = Some 0 \<longrightarrow> mc' = mc)
         \<and> (rc \<noteq> Some 0 \<longrightarrow> current_process mc = Some i \<longrightarrow> current_thread mc \<noteq> None \<longrightarrow> sole_slot procs c i \<longrightarrow>
              rc = None \<and> current_process mc' = Some i \<and> last_run_result mc' = PROCESS_RUN_EXITED
              \<and> ps_exit_status (g_processes mc' ! i) = -1
              \<and> (\<forall>j. j \<noteq> i \<longrightarrow> g_processes mc' ! j = procs ! j)))"
proof (intro conjI impI)
  have "capability_has c kind l \<longleftrightarrow> (c, kind) \<in> G" for kind
    using cap_history_inv [OF assms] by (simp add: cap_inv_def)
  then show "policy_authorize procs c action arg l = 0
      \<longleftrightarrow> (c, action_kind action) \<in> G \<and> resource_granted procs c action arg l"
    by (simp add: authorize_iff)
  show "policy_authorize procs c action arg l \<in> {0, -1}" by (rule authorize_codes)
  assume g: "g_processes mc = procs" and r: "policy_require c action arg l mc = (rc, log, mc')"
  show ok: "rc = Some 0 \<longleftrightarrow> policy_authorize procs c action arg l = 0"
    and "log = None \<longleftrightarrow> rc = Some 0" and "rc = Some 0 \<Longrightarrow> mc' = mc"
    using r g by (auto simp: policy_require_def Let_def split: if_splits option.splits prod.splits)
  assume d: "rc \<noteq> Some 0" and cur: "current_process mc = Some i" "current_thread mc \<noteq> None" and s: "sole_slot procs c i"
  have e: "rc = None" "mc' = (process_set_exit_status i (-1) mc)\<lparr>last_run_result := PROCESS_RUN_EXITED\<rparr>"
    using r g d ok find_sole [OF s] cur by (auto simp: policy_require_def process_yield_def process_set_exit_status_def Let_def)
  show "rc = None" by (rule e(1))
  show "current_process mc' = Some i" "last_run_result mc' = PROCESS_RUN_EXITED" "ps_exit_status (g_processes mc' ! i) = -1"
    "\<forall>j. j \<noteq> i \<longrightarrow> g_processes mc' ! j = procs ! j"
    using e(2) cur g s by (auto simp: process_set_exit_status_def sole_slot_def)
qed

definition demo_machine :: machine where
  "demo_machine = \<lparr>g_processes = [\<lparr>ps_context_id = 3, ps_unused = False, ps_name = Some ''init'', ps_exit_status = 0\<rparr>,
       \<lparr>ps_context_id = 7, ps_unused = False, ps_name = Some ''app'', ps_exit_status = 0\<rparr>],
     current_process = Some 1, current_thread = Some 9, last_run_result = PROCESS_RUN_YIELDED\<rparr>"

theorem policy_default_deny_witness:
  "\<exists>log mc'. policy_require 7 POLICY_ACTION_SYSTEM_CONTROL 0 demo_cap1 demo_machine = (None, log, mc')
   \<and> ps_exit_status (g_processes mc' ! 1) = -1 \<and> last_run_result mc' = PROCESS_RUN_EXITED
   \<and> policy_authorize [] 7 POLICY_ACTION_IO_PORT 96 demo_cap1 = 0"
proof -
  have "\<not> capability_spawn_profile_configured 7 demo_cap1"
    by (simp add: capability_spawn_profile_configured_def demo_cap1_rec new_context_def zero_context_def)
  then have io: "policy_authorize [] 7 POLICY_ACTION_IO_PORT 96 demo_cap1 = 0"
    using policy_default_deny [OF demo_history1, of "[]" 7 POLICY_ACTION_IO_PORT 96] by (simp add: resource_granted_def)
  obtain rc log mc' where r: "policy_require 7 POLICY_ACTION_SYSTEM_CONTROL 0 demo_cap1 demo_machine = (rc, log, mc')"
    by (metis surj_pair)
  have s: "sole_slot (g_processes demo_machine) 7 1" by (auto simp: sole_slot_def demo_machine_def less_Suc_eq)
  have cur: "current_process demo_machine = Some 1" "current_thread demo_machine \<noteq> None" by (simp_all add: demo_machine_def)
  note D = policy_default_deny [OF demo_history1, of "g_processes demo_machine" 7 POLICY_ACTION_SYSTEM_CONTROL 0 demo_machine rc log mc' 1]
  have "rc \<noteq> Some 0" using D r by simp
  then show ?thesis using D r cur s io by auto
qed

text \<open>
  C35. A context's first spawn profile only narrows.  Whatever its installation answers, every action
  other than routing an interrupt line that is authorised afterwards was authorised before, for every
  context.
\<close>

theorem policy_profile_only_narrows:
  assumes "cap_history l G" "fresh_for l mem" "profile_typed sp" "\<not> capability_spawn_profile_configured c l"
    and "capability_set_spawn_profile mem c sp l = (rc, l')" and "action \<noteq> POLICY_ACTION_IRQ_ROUTE"
    and "policy_authorize procs c' action arg l' = 0"
  shows "policy_authorize procs c' action arg l = 0"
proof -
  have inv: "cap_inv l G" using assms(1) by (rule cap_history_inv)
  have inv': "cap_inv l' G" using cap_history_inv [OF cap_profile [OF assms(1-3,5)]] .
  have has: "capability_has c' (action_kind action) l"
    using assms(7) inv inv' by (simp add: authorize_iff cap_inv_def)
  have k: "keyed cc_context_id l" using inv by (simp add: cap_inv_def)
  have same: "cap_rec l' c' = cap_rec l c'" if "c' \<noteq> c"
    using k assms(2,5) that by (cases rule: spawn_profile_rec) simp_all
  have "resource_granted procs c' action arg l"
  proof (cases "c' = c")
    case True
    then show ?thesis using assms(4,6) by (cases action) (simp_all add: resource_granted_def)
  next
    case False
    then show ?thesis
      using assms(6,7) same [OF False] unfolding authorize_iff
      by (cases action)
        (auto simp: resource_granted_def capability_spawn_profile_configured_def capability_io_port_allowed_def)
  qed
  then show ?thesis using has by (simp add: authorize_iff)
qed

theorem policy_profile_only_narrows_witness:
  "policy_authorize [] 7 POLICY_ACTION_IO_PORT 96 demo_cap1 = 0"
proof (rule policy_profile_only_narrows [OF demo_history1 _ demo_profile_wf(2) _ demo_install])
  show "fresh_for demo_cap1 None" by (simp add: fresh_for_def)
  show "\<not> capability_spawn_profile_configured 7 demo_cap1"
    by (simp add: capability_spawn_profile_configured_def demo_cap1_rec new_context_def zero_context_def)
  have "capability_has 7 CAP_IO_PORT demo_cap2"
    using cap_history_inv [OF demo_history2] unfolding cap_inv_def by blast
  moreover have "capability_io_port_allowed 7 96 demo_cap2" by (simp add: demo_cap2_ports)
  ultimately show "policy_authorize [] 7 POLICY_ACTION_IO_PORT 96 demo_cap2 = 0"
    by (simp add: authorize_iff resource_granted_def)
qed simp

end
