(* ===== verification/Slots.thy ===== *)
theory Slots
  imports Records
begin

section \<open>Tables of reusable slots\<close>

text \<open>
  A kernel list whose elements carry an \<open>active\<close> flag: a freed element stays in the list and is
  claimed again by the next allocation.  What such a table means is the map from the keys of its active
  slots to the slots; stale slots do not show.  The lemmas give that map after a lookup, a write, a
  deactivation and a claim.
\<close>

definition actives :: "('e \<Rightarrow> bool) \<Rightarrow> 'e list_t \<Rightarrow> 'e list" where
  "actives act l = filter act (records l)"

definition slots_ok :: "('e \<Rightarrow> bool) \<Rightarrow> ('e \<Rightarrow> nat) \<Rightarrow> 'e list_t \<Rightarrow> bool" where
  "slots_ok act key l \<longleftrightarrow> list_ok l \<and> distinct (map key (actives act l))"

definition live :: "('e \<Rightarrow> bool) \<Rightarrow> ('e \<Rightarrow> nat) \<Rightarrow> 'e list_t \<Rightarrow> nat \<Rightarrow> 'e option" where
  "live act key l k = List.find (\<lambda>e. key e = k) (actives act l)"

definition slot_alloc :: "('e \<Rightarrow> bool) \<Rightarrow> nat option \<Rightarrow> 'e \<Rightarrow> 'e list_t \<Rightarrow> nat option \<times> 'e list_t" where
  "slot_alloc act mem z l =
     (case list_lookup (\<lambda>e. \<not> act e) l of
        Some (p, _) \<Rightarrow> (Some p, l)
      | None \<Rightarrow> list_alloc mem z l)"

definition slot_at :: "'e list_t \<Rightarrow> nat \<Rightarrow> 'e option" where
  "slot_at l p = map_of (list_view l) p"

lemma option_eqI: "(\<And>x. u = Some x \<longleftrightarrow> v = Some x) \<Longrightarrow> u = v"
  by (cases u; cases v) auto

lemma slots_ok_list: "slots_ok act key l \<Longrightarrow> list_ok l"
  by (simp add: slots_ok_def)

lemma live_iff:
  assumes "slots_ok act key l"
  shows "live act key l k = Some e \<longleftrightarrow> e \<in> set (records l) \<and> act e \<and> key e = k"
proof -
  have "List.find (\<lambda>e. key e = k) xs = Some e \<longleftrightarrow> e \<in> set xs \<and> key e = k" if "distinct (map key xs)" for xs
    using that by (induction xs) (auto simp: image_iff)
  then show ?thesis using assms by (auto simp: live_def slots_ok_def actives_def)
qed

lemma live_None: "live act key l k = None \<longleftrightarrow> (\<forall>e \<in> set (records l). act e \<longrightarrow> key e \<noteq> k)"
  by (auto simp: live_def actives_def find_None_iff)

lemma live_view:
  assumes "slots_ok act key l" "(p, e) \<in> set (list_view l)" "act e"
  shows "live act key l (key e) = Some e"
  using assms by (force simp: live_iff records_def)

lemma lookup_live:
  assumes ok: "slots_ok act key l"
  shows "list_lookup (\<lambda>e. act e \<and> P e) l = Some (p, e) \<Longrightarrow>
      (p, e) \<in> set (list_view l) \<and> act e \<and> P e \<and> live act key l (key e) = Some e"
    and "list_lookup (\<lambda>e. act e \<and> P e) l = None \<Longrightarrow> live act key l k = Some e \<Longrightarrow> \<not> P e"
proof -
  show "(p, e) \<in> set (list_view l) \<and> act e \<and> P e \<and> live act key l (key e) = Some e"
    if "list_lookup (\<lambda>e. act e \<and> P e) l = Some (p, e)"
    using lookup_some [OF that] live_view [OF ok] by blast
  show "\<not> P e" if "list_lookup (\<lambda>e. act e \<and> P e) l = None" "live act key l k = Some e"
    using that lookup_none [of "\<lambda>e. act e \<and> P e" l] by (auto simp: live_iff [OF ok])
qed

subsection \<open>Writing a slot\<close>

lemma write_slot:
  assumes ok: "slots_ok act key l" and m: "(p, e) \<in> set (list_view l)"
    and new: "act e' \<Longrightarrow> act e \<and> key e' = key e \<or> live act key l (key e') = None"
  shows "slots_ok act key (list_write p e' l)"
    and "live act key (list_write p e' l) =
      (let b = (if act e then (live act key l)(key e := None) else live act key l) in if act e' then b(key e' \<mapsto> e') else b)"
proof -
  have l: "list_ok l" using ok by (rule slots_ok_list)
  obtain as bs where s: "records l = as @ e # bs" "records (list_write p e' l) = as @ e' # bs"
    using records_write_split [OF l m] by metis
  have d: "distinct (map key (filter act as @ (if act e then [e] else []) @ filter act bs))"
    using ok by (auto simp: slots_ok_def actives_def s split: if_splits)
  have n: "key e' \<notin> key ` {x \<in> set as. act x}" "key e' \<notin> key ` {x \<in> set bs. act x}" if "act e'"
    using new [OF that] d by (auto simp: live_None s split: if_splits)
  have o: "key e \<notin> key ` {x \<in> set as. act x}" "key e \<notin> key ` {x \<in> set bs. act x}" if "act e"
    using d that by simp_all
  from n show ok': "slots_ok act key (list_write p e' l)"
    using d list_store.put_ok [OF l, of p e'] by (auto simp: slots_ok_def actives_def s split: if_splits)
  have "live act key (list_write p e' l) k = Some x \<longleftrightarrow>
     (let b = (if act e then (live act key l)(key e := None) else live act key l) in if act e' then b(key e' \<mapsto> e') else b) k = Some x" for k x
  proof -
    have de: "act e \<Longrightarrow> act x \<Longrightarrow> x \<in> set as \<or> x \<in> set bs \<Longrightarrow> key x \<noteq> key e"
      using o by (metis (mono_tags, lifting) image_eqI mem_Collect_eq)
    have dn: "act e' \<Longrightarrow> act x \<Longrightarrow> x \<in> set as \<or> x \<in> set bs \<Longrightarrow> key x \<noteq> key e'"
      using n by (metis (mono_tags, lifting) image_eqI mem_Collect_eq)
    show ?thesis
      using de dn by (cases "act e"; cases "act e'") (auto simp: live_iff [OF ok'] live_iff [OF ok] s)
  qed
  then show "live act key (list_write p e' l) =
      (let b = (if act e then (live act key l)(key e := None) else live act key l) in if act e' then b(key e' \<mapsto> e') else b)"
    by (intro ext option_eqI)
qed

lemma write_active:
  assumes "slots_ok act key l" "(p, e) \<in> set (list_view l)" "act e" "act e'" "key e' = key e"
  shows "slots_ok act key (list_write p e' l)" "live act key (list_write p e' l) = (live act key l)(key e \<mapsto> e')"
  using write_slot [OF assms(1,2), of e'] assms(3-5) by simp_all

lemma write_inactive:
  assumes "slots_ok act key l" "(p, e) \<in> set (list_view l)" "act e" "\<not> act e'"
  shows "slots_ok act key (list_write p e' l)" "live act key (list_write p e' l) = (live act key l)(key e := None)"
  using write_slot [OF assms(1,2), of e'] assms(3,4) by simp_all

subsection \<open>Claiming a slot\<close>

lemma slot_alloc_None:
  assumes "slots_ok act key l" "fresh_for l mem" "slot_alloc act mem z l = (None, l')"
  shows "slots_ok act key l'" "live act key l' = live act key l"
proof -
  have a: "list_alloc mem z l = (None, l')" using assms(3) by (auto simp: slot_alloc_def split: option.splits)
  then have "records l' = records l" using list_store.alloc_view [OF a] by (simp add: records_def)
  then show "slots_ok act key l'" "live act key l' = live act key l"
    using assms(1) list_store.alloc_ok [OF _ assms(2) a] by (auto simp: slots_ok_def actives_def live_def)
qed

lemma claim_slot:
  assumes ok: "slots_ok act key l" and f: "fresh_for l mem" and a: "slot_alloc act mem z l = (Some p, l')"
    and e: "act e" "live act key l (key e) = None" and z: "\<not> act z"
  shows "slots_ok act key (list_write p e l')" "live act key (list_write p e l') = (live act key l)(key e \<mapsto> e)"
proof -
  have "slots_ok act key (list_write p e l') \<and> live act key (list_write p e l') = (live act key l)(key e \<mapsto> e)"
  proof (cases "list_lookup (\<lambda>e. \<not> act e) l")
    case (Some pe)
    then obtain x where x: "list_lookup (\<lambda>e. \<not> act e) l = Some (p, x)" "l' = l"
      using a by (auto simp: slot_alloc_def split: prod.splits)
    have m: "(p, x) \<in> set (list_view l)" "\<not> act x" using lookup_some [OF x(1)] by simp_all
    show ?thesis using write_slot [OF ok m(1), of e] e m(2) x(2) by simp
  next
    case None
    then have al: "list_alloc mem z l = (Some p, l')" using a by (simp add: slot_alloc_def)
    have l: "list_ok l" using ok by (rule slots_ok_list)
    have ins: "inserted (p, z) (list_view l) (list_view l')" using list_store.alloc_new_pointer [OF l f al] by simp
    then have r: "inserted z (records l) (records l')" unfolding records_def by (metis inserted_map snd_conv)
    then have "actives act l' = actives act l" using z by (auto simp: actives_def inserted_def)
    then have ok': "slots_ok act key l'" and lv: "live act key l' = live act key l"
      using ok list_store.alloc_ok [OF l f al] by (auto simp: slots_ok_def live_def)
    have "(p, z) \<in> set (list_view l')" using ins by (auto simp: inserted_def)
    then show ?thesis using write_slot [OF ok', of p z e] e z lv by simp
  qed
  then show "slots_ok act key (list_write p e l')" "live act key (list_write p e l') = (live act key l)(key e \<mapsto> e)"
    by simp_all
qed

end
