(* ===== verification/Xfer_buffer.thy ===== *)
theory Xfer_buffer
  imports Slots Physmem
begin

unbundle bit_operations_syntax

section \<open>Transfer buffers\<close>

text \<open>
  Model of \<open>src/kernel/xfer_buffer/xfer_buffer.c\<close>: buffer objects with one owner, borrows with rights
  and a reborrow tree, DMA windows attached to an object or to a borrow.  The state is the registry
  together with the frame allocator of \<open>Physmem\<close>, from which a TRANSFER object takes its backing.  Every
  public entry holds one lock for its whole run and is one function here.  Pointer arguments are not NULL;
  heap blocks for the lists are arguments (\<open>mi\<close> for the two list headers, \<open>mem\<close> for a slot), as is the
  recorded framebuffer.  A panic of the allocator is \<open>Inl\<close>, a recursion that does not end is \<open>None\<close>.
\<close>

subsection \<open>Data\<close>

definition XFER_TRANSFER_CAPACITY :: nat where "XFER_TRANSFER_CAPACITY = 2 * 1024 * 1024"
definition XFER_TRANSFER_MAX_SIZE :: nat where "XFER_TRANSFER_MAX_SIZE = 16 * 1024 * 1024"
definition XFER_PAGE_SIZE :: nat where "XFER_PAGE_SIZE = 4096"
definition BUFFER_KIND_TRANSFER :: nat where "BUFFER_KIND_TRANSFER = 1"
definition BUFFER_KIND_FRAMEBUFFER :: nat where "BUFFER_KIND_FRAMEBUFFER = 2"
definition BUFFER_BORROW_READ :: u32 where "BUFFER_BORROW_READ = 1"
definition BUFFER_BORROW_WRITE :: u32 where "BUFFER_BORROW_WRITE = 2"
definition WASMOS_DMA_DIR_TO_DEVICE :: u32 where "WASMOS_DMA_DIR_TO_DEVICE = 1"
definition WASMOS_DMA_DIR_FROM_DEVICE :: u32 where "WASMOS_DMA_DIR_FROM_DEVICE = 2"

lemmas buffer_kinds = BUFFER_KIND_TRANSFER_def BUFFER_KIND_FRAMEBUFFER_def

datatype xfer_error =
    XFER_INVALID_KIND | XFER_INVALID_CONTEXT | XFER_INVALID_SIZE | XFER_CAPACITY_EXCEEDED | XFER_NO_BACKING
  | XFER_INTERNAL | XFER_NOT_FOUND | XFER_NOT_OWNER | XFER_INVALID_FLAGS | XFER_SELF_BORROW | XFER_ALREADY_BORROWED
  | XFER_KIND_NOT_BORROWABLE | XFER_KIND_NOT_TRANSFERABLE | XFER_ACTIVE_BORROWS | XFER_DMA_MAPPED | XFER_SAME_OWNER
  | XFER_RIGHTS_AMPLIFICATION | XFER_NOT_REBORROWABLE | XFER_INACTIVE_BORROW | XFER_RANGE | XFER_DIRECTION
  | XFER_DMA_ACTIVE | XFER_INACTIVE_MAPPING | XFER_NO_ACCESS

record object_slot =
  o_active :: bool
  o_kind :: nat
  o_buffer_id :: nat
  o_size_bytes :: nat
  o_owner :: nat
  o_phys_base :: nat
  o_dma_active :: bool
  o_dma_offset :: nat
  o_dma_length :: nat
  o_dma_direction :: u32

record borrow_slot =
  b_active :: bool
  b_borrow_id :: nat
  b_parent :: nat
  b_buffer_id :: nat
  b_kind :: nat
  b_lender :: nat
  b_borrower :: nat
  b_flags :: u32
  b_dma_active :: bool
  b_dma_offset :: nat
  b_dma_length :: nat
  b_dma_direction :: u32

record xfer_buffer =
  xb_kind :: nat
  xb_id :: nat
  xb_size :: nat

record xfer_owner =
  ow_buffer :: xfer_buffer
  ow_context :: nat

record xfer_borrow =
  bw_buffer :: xfer_buffer
  bw_lender :: nat
  bw_borrower :: nat
  bw_flags :: u32
  bw_id :: nat

record dma_mapping =
  dm_buffer :: xfer_buffer
  dm_owner :: nat
  dm_borrow :: nat
  dm_offset :: nat
  dm_length :: nat
  dm_direction :: u32
  dm_device_addr :: nat
  dm_via_borrow :: bool
  dm_active :: bool

record framebuffer_info =
  fb_base :: nat
  fb_size :: nat

record xfer =
  g_objects :: "object_slot list_t"
  g_borrows :: "borrow_slot list_t"
  g_initialized :: bool
  g_next_buffer_id :: nat
  g_next_borrow_id :: nat
  x_frames :: pfa

type_synonym init_mem = "nat option \<times> nat option"

definition zero_object :: object_slot where
  "zero_object = \<lparr>o_active = False, o_kind = 0, o_buffer_id = 0, o_size_bytes = 0, o_owner = 0, o_phys_base = 0,
     o_dma_active = False, o_dma_offset = 0, o_dma_length = 0, o_dma_direction = 0\<rparr>"

definition zero_borrow :: borrow_slot where
  "zero_borrow = \<lparr>b_active = False, b_borrow_id = 0, b_parent = 0, b_buffer_id = 0, b_kind = 0, b_lender = 0,
     b_borrower = 0, b_flags = 0, b_dma_active = False, b_dma_offset = 0, b_dma_length = 0, b_dma_direction = 0\<rparr>"

definition xfer_boot :: "pfa \<Rightarrow> xfer" where
  "xfer_boot frames = \<lparr>g_objects = list_zeroed, g_borrows = list_zeroed, g_initialized = False,
     g_next_buffer_id = 1, g_next_borrow_id = 1, x_frames = frames\<rparr>"

subsection \<open>The registry\<close>

text \<open>Both slot types take 48 bytes.\<close>

definition OBJECT_SLOT_SIZE :: nat where "OBJECT_SLOT_SIZE = 48"
definition BORROW_SLOT_SIZE :: nat where "BORROW_SLOT_SIZE = 48"

definition registry_init_once :: "init_mem \<Rightarrow> xfer \<Rightarrow> int \<times> xfer" where
  "registry_init_once mi st =
     (if g_initialized st then (0, st)
      else case list_init (fst mi) OBJECT_SLOT_SIZE LIST_IMPL_LINKED 0 (g_objects st) of
             (r, ol) \<Rightarrow>
               if r \<noteq> 0 then (-1, st\<lparr>g_objects := ol\<rparr>)
               else case list_init (snd mi) BORROW_SLOT_SIZE LIST_IMPL_LINKED 0 (g_borrows st) of
                      (r', bl) \<Rightarrow>
                        if r' \<noteq> 0 then (-1, st\<lparr>g_objects := ol, g_borrows := bl\<rparr>)
                        else (0, st\<lparr>g_objects := ol, g_borrows := bl, g_initialized := True\<rparr>))"

definition valid_flags :: "u32 \<Rightarrow> bool" where
  "valid_flags flags \<longleftrightarrow> flags \<noteq> 0 \<and> flags AND (BUFFER_BORROW_READ OR BUFFER_BORROW_WRITE) = flags"

definition object_alloc :: "nat option \<Rightarrow> object_slot list_t \<Rightarrow> nat option \<times> object_slot list_t" where
  "object_alloc mem l = slot_alloc o_active mem zero_object l"

definition borrow_alloc :: "nat option \<Rightarrow> borrow_slot list_t \<Rightarrow> nat option \<times> borrow_slot list_t" where
  "borrow_alloc mem l = slot_alloc b_active mem zero_borrow l"

definition object_find :: "init_mem \<Rightarrow> xfer_buffer \<Rightarrow> xfer \<Rightarrow> (nat \<times> object_slot) option \<times> xfer" where
  "object_find mi buffer st =
     (if xb_id buffer = 0 then (None, st)
      else case registry_init_once mi st of
             (r, st1) \<Rightarrow>
               if r \<noteq> 0 then (None, st1)
               else (list_lookup (\<lambda>s. o_active s \<and> o_buffer_id s = xb_id buffer \<and> o_kind s = xb_kind buffer) (g_objects st1), st1))"

definition object_find_by_id :: "init_mem \<Rightarrow> nat \<Rightarrow> xfer \<Rightarrow> (nat \<times> object_slot) option \<times> xfer" where
  "object_find_by_id mi buffer_id st =
     (if buffer_id = 0 then (None, st)
      else case registry_init_once mi st of
             (r, st1) \<Rightarrow>
               if r \<noteq> 0 then (None, st1)
               else (list_lookup (\<lambda>s. o_active s \<and> o_buffer_id s = buffer_id) (g_objects st1), st1))"

definition borrow_find :: "init_mem \<Rightarrow> nat \<Rightarrow> xfer \<Rightarrow> (nat \<times> borrow_slot) option \<times> xfer" where
  "borrow_find mi borrow_id st =
     (if borrow_id = 0 then (None, st)
      else case registry_init_once mi st of
             (r, st1) \<Rightarrow>
               if r \<noteq> 0 then (None, st1)
               else (list_lookup (\<lambda>s. b_active s \<and> b_borrow_id s = borrow_id) (g_borrows st1), st1))"

definition borrow_find_for :: "init_mem \<Rightarrow> nat \<Rightarrow> nat \<Rightarrow> xfer \<Rightarrow> (nat \<times> borrow_slot) option \<times> xfer" where
  "borrow_find_for mi buffer_id borrower st =
     (case registry_init_once mi st of
        (r, st1) \<Rightarrow>
          if r \<noteq> 0 then (None, st1)
          else (list_lookup (\<lambda>s. b_active s \<and> b_buffer_id s = buffer_id \<and> b_borrower s = borrower) (g_borrows st1), st1))"

definition object_has_active_borrow :: "init_mem \<Rightarrow> nat \<Rightarrow> xfer \<Rightarrow> bool \<times> xfer" where
  "object_has_active_borrow mi buffer_id st =
     (case registry_init_once mi st of
        (r, st1) \<Rightarrow>
          if r \<noteq> 0 then (False, st1)
          else (list_lookup (\<lambda>s. b_active s \<and> b_buffer_id s = buffer_id) (g_borrows st1) \<noteq> None, st1))"

subsection \<open>Revocation\<close>

text \<open>
  The loops write the slots they walk over; the chain itself does not change, so a walk is over the
  pointers the list has when it starts.  They run only once the registry is initialised.
\<close>

definition ptrs :: "'e list_t \<Rightarrow> nat list" where
  "ptrs l = map fst (list_view l)"

definition revoked :: "borrow_slot \<Rightarrow> borrow_slot" where
  "revoked s = s\<lparr>b_active := False, b_dma_active := False\<rparr>"

definition object_revoke_all_borrows :: "nat \<Rightarrow> borrow_slot list_t \<Rightarrow> borrow_slot list_t" where
  "object_revoke_all_borrows buffer_id l =
     fold (\<lambda>p l. case slot_at l p of
                   None \<Rightarrow> l
                 | Some s \<Rightarrow> if b_active s \<and> b_buffer_id s = buffer_id then list_write p (revoked s) l else l) (ptrs l) l"

text \<open>The first loop of \<open>borrow_revoke_tree\<close> from a position on, and then the second one.\<close>

partial_function (option) revoke_scan :: "nat \<Rightarrow> nat list \<Rightarrow> borrow_slot list_t \<Rightarrow> borrow_slot list_t option" where
  "revoke_scan borrow_id ps l =
     (case ps of
        [] \<Rightarrow>
          (case list_lookup (\<lambda>s. b_active s \<and> b_borrow_id s = borrow_id) l of
             None \<Rightarrow> Some l
           | Some (p, s) \<Rightarrow> Some (list_write p (revoked s) l))
      | p # rest \<Rightarrow>
          (case slot_at l p of
             None \<Rightarrow> revoke_scan borrow_id rest l
           | Some s \<Rightarrow>
               if b_active s \<and> b_parent s = borrow_id
               then Option.bind (revoke_scan (b_borrow_id s) (ptrs l) l) (revoke_scan borrow_id rest)
               else revoke_scan borrow_id rest l))"

definition borrow_revoke_tree :: "nat \<Rightarrow> borrow_slot list_t \<Rightarrow> borrow_slot list_t option" where
  "borrow_revoke_tree borrow_id l = revoke_scan borrow_id (ptrs l) l"

subsection \<open>Sizes and backing\<close>

definition transfer_capacity :: nat where
  "transfer_capacity = XFER_TRANSFER_CAPACITY"

definition framebuffer_capacity :: "framebuffer_info option \<Rightarrow> nat" where
  "framebuffer_capacity fb =
     (case fb of None \<Rightarrow> 0 | Some i \<Rightarrow> if 0xFFFFFFFF < fb_size i then 0xFFFFFFFF else fb_size i)"

definition xfer_buffer_size :: "framebuffer_info option \<Rightarrow> nat \<Rightarrow> nat" where
  "xfer_buffer_size fb kind =
     (if kind = BUFFER_KIND_TRANSFER then transfer_capacity
      else if kind = BUFFER_KIND_FRAMEBUFFER then framebuffer_capacity fb
      else 0)"

definition object_alloc_backing :: "framebuffer_info option \<Rightarrow> nat \<Rightarrow> nat \<Rightarrow> pfa \<Rightarrow> nat \<times> pfa" where
  "object_alloc_backing fb kind size_bytes frames =
     (if kind = BUFFER_KIND_TRANSFER
      then pfa_alloc_pages ((size_bytes + XFER_PAGE_SIZE - 1) div XFER_PAGE_SIZE) frames
      else if kind = BUFFER_KIND_FRAMEBUFFER
      then (case fb of None \<Rightarrow> (0, frames) | Some i \<Rightarrow> (fb_base i, frames))
      else (0, frames))"

definition object_free_backing :: "object_slot \<Rightarrow> pfa \<Rightarrow> pfa_panic + pfa" where
  "object_free_backing s frames =
     (if o_kind s = BUFFER_KIND_TRANSFER \<and> o_phys_base s \<noteq> 0
      then pfa_free_pages (o_phys_base s) ((o_size_bytes s + XFER_PAGE_SIZE - 1) div XFER_PAGE_SIZE) frames
      else Inr frames)"

definition range_within :: "nat \<Rightarrow> nat \<Rightarrow> nat \<Rightarrow> bool" where
  "range_within bytes offset len =
     (if len = 0 \<or> bytes < offset then False else len \<le> sub32 bytes offset)"

definition dma_direction_allowed :: "u32 \<Rightarrow> u32 \<Rightarrow> bool" where
  "dma_direction_allowed flags direction_flags =
     (if direction_flags = 0 then False
      else if direction_flags AND WASMOS_DMA_DIR_TO_DEVICE \<noteq> 0 \<and> flags AND BUFFER_BORROW_READ = 0 then False
      else if direction_flags AND WASMOS_DMA_DIR_FROM_DEVICE \<noteq> 0 \<and> flags AND BUFFER_BORROW_WRITE = 0 then False
      else True)"

definition object_desc :: "object_slot \<Rightarrow> xfer_buffer" where
  "object_desc s = \<lparr>xb_kind = o_kind s, xb_id = o_buffer_id s, xb_size = o_size_bytes s\<rparr>"

definition borrow_desc :: "borrow_slot \<Rightarrow> object_slot \<Rightarrow> xfer_borrow" where
  "borrow_desc s object =
     \<lparr>bw_buffer = \<lparr>xb_kind = b_kind s, xb_id = b_buffer_id s, xb_size = o_size_bytes object\<rparr>,
      bw_lender = b_lender s, bw_borrower = b_borrower s, bw_flags = b_flags s, bw_id = b_borrow_id s\<rparr>"

subsection \<open>Objects\<close>

definition acquire_size :: "framebuffer_info option \<Rightarrow> nat \<Rightarrow> nat \<Rightarrow> xfer_error + nat" where
  "acquire_size fb kind minimum_size =
     (if kind = BUFFER_KIND_FRAMEBUFFER
      then let bytes = framebuffer_capacity fb in
           if bytes = 0 then Inl XFER_NO_BACKING
           else if bytes < minimum_size then Inl XFER_CAPACITY_EXCEEDED
           else Inr bytes
      else if XFER_TRANSFER_MAX_SIZE < minimum_size then Inl XFER_CAPACITY_EXCEEDED
      else Inr (page_down (minimum_size + (XFER_PAGE_SIZE - 1))))"

definition xfer_buffer_acquire ::
  "init_mem \<Rightarrow> nat option \<Rightarrow> framebuffer_info option \<Rightarrow> nat \<Rightarrow> nat \<Rightarrow> nat \<Rightarrow> xfer \<Rightarrow> (xfer_error + xfer_owner) \<times> xfer" where
  "xfer_buffer_acquire mi mem fb kind owner_context_id minimum_size st =
     (if kind \<noteq> BUFFER_KIND_TRANSFER \<and> kind \<noteq> BUFFER_KIND_FRAMEBUFFER then (Inl XFER_INVALID_KIND, st)
      else if owner_context_id = 0 then (Inl XFER_INVALID_CONTEXT, st)
      else if minimum_size = 0 then (Inl XFER_INVALID_SIZE, st)
      else case registry_init_once mi st of
        (r, st1) \<Rightarrow>
          if r \<noteq> 0 then (Inl XFER_INTERNAL, st1)
          else case acquire_size fb kind minimum_size of
                 Inl e \<Rightarrow> (Inl e, st1)
               | Inr bytes \<Rightarrow>
                   (case object_alloc_backing fb kind bytes (x_frames st1) of
                      (phys, frames) \<Rightarrow>
                        let st2 = st1\<lparr>x_frames := frames\<rparr> in
                        if phys = 0 \<or> phys mod XFER_PAGE_SIZE \<noteq> 0 then (Inl XFER_NO_BACKING, st2)
                        else case object_alloc mem (g_objects st2) of
                               (None, l) \<Rightarrow> (Inl XFER_INTERNAL, st2\<lparr>g_objects := l\<rparr>)
                             | (Some p, l) \<Rightarrow>
                                 let i = g_next_buffer_id st2;
                                     s = \<lparr>o_active = True, o_kind = kind, o_buffer_id = i, o_size_bytes = bytes,
                                          o_owner = owner_context_id, o_phys_base = phys, o_dma_active = False,
                                          o_dma_offset = 0, o_dma_length = 0, o_dma_direction = 0\<rparr>
                                 in (Inr \<lparr>ow_buffer = object_desc s, ow_context = owner_context_id\<rparr>,
                                     st2\<lparr>g_objects := list_write p s l, g_next_buffer_id := add32 i 1\<rparr>)))"

definition xfer_buffer_get_owned :: "init_mem \<Rightarrow> xfer_buffer \<Rightarrow> nat \<Rightarrow> xfer \<Rightarrow> (xfer_error + xfer_owner) \<times> xfer" where
  "xfer_buffer_get_owned mi buffer context_id st =
     (if context_id = 0 then (Inl XFER_INVALID_CONTEXT, st)
      else case object_find mi buffer st of
             (None, st1) \<Rightarrow> (Inl XFER_NOT_FOUND, st1)
           | (Some (p, s), st1) \<Rightarrow>
               if o_owner s \<noteq> context_id then (Inl XFER_NOT_OWNER, st1)
               else (Inr \<lparr>ow_buffer = object_desc s, ow_context = context_id\<rparr>, st1))"

definition xfer_buffer_release_owned :: "init_mem \<Rightarrow> xfer_owner \<Rightarrow> xfer \<Rightarrow> pfa_panic + ((xfer_error + unit) \<times> xfer)" where
  "xfer_buffer_release_owned mi owner st =
     (case object_find mi (ow_buffer owner) st of
        (None, st1) \<Rightarrow> Inr (Inl XFER_NOT_FOUND, st1)
      | (Some (p, s), st1) \<Rightarrow>
          if o_owner s \<noteq> ow_context owner then Inr (Inl XFER_NOT_OWNER, st1)
          else if o_dma_active s then Inr (Inl XFER_DMA_MAPPED, st1)
          else let st2 = st1\<lparr>g_borrows := object_revoke_all_borrows (o_buffer_id s) (g_borrows st1)\<rparr> in
               case object_free_backing s (x_frames st2) of
                 Inl e \<Rightarrow> Inl e
               | Inr frames \<Rightarrow>
                   Inr (Inr (), st2\<lparr>x_frames := frames, g_objects := list_write p (s\<lparr>o_active := False\<rparr>) (g_objects st2)\<rparr>))"

definition xfer_buffer_transfer_ownership :: "init_mem \<Rightarrow> xfer_owner \<Rightarrow> nat \<Rightarrow> xfer \<Rightarrow> (xfer_error + unit) \<times> xfer" where
  "xfer_buffer_transfer_ownership mi current_owner new_owner st =
     (case object_find mi (ow_buffer current_owner) st of
        (None, st1) \<Rightarrow> (Inl XFER_NOT_FOUND, st1)
      | (Some (p, s), st1) \<Rightarrow>
          if o_owner s \<noteq> ow_context current_owner then (Inl XFER_NOT_OWNER, st1)
          else if new_owner = 0 then (Inl XFER_INVALID_CONTEXT, st1)
          else if new_owner = ow_context current_owner then (Inl XFER_SAME_OWNER, st1)
          else if o_kind s \<noteq> BUFFER_KIND_TRANSFER then (Inl XFER_KIND_NOT_TRANSFERABLE, st1)
          else case object_has_active_borrow mi (o_buffer_id s) st1 of
                 (busy, st2) \<Rightarrow>
                   if busy then (Inl XFER_ACTIVE_BORROWS, st2)
                   else (Inr (), st2\<lparr>g_objects := list_write p (s\<lparr>o_owner := new_owner\<rparr>) (g_objects st2)\<rparr>))"

subsection \<open>Borrows\<close>

definition attach_borrow ::
  "nat option \<Rightarrow> object_slot \<Rightarrow> nat \<Rightarrow> nat \<Rightarrow> nat \<Rightarrow> u32 \<Rightarrow> xfer \<Rightarrow> (xfer_error + xfer_borrow) \<times> xfer" where
  "attach_borrow mem object parent lender borrower flags st =
     (case borrow_alloc mem (g_borrows st) of
        (None, l) \<Rightarrow> (Inl XFER_INTERNAL, st\<lparr>g_borrows := l\<rparr>)
      | (Some p, l) \<Rightarrow>
          let i = g_next_borrow_id st;
              s = \<lparr>b_active = True, b_borrow_id = i, b_parent = parent, b_buffer_id = o_buffer_id object,
                   b_kind = o_kind object, b_lender = lender, b_borrower = borrower, b_flags = flags,
                   b_dma_active = False, b_dma_offset = 0, b_dma_length = 0, b_dma_direction = 0\<rparr>
          in (Inr (borrow_desc s object), st\<lparr>g_borrows := list_write p s l, g_next_borrow_id := add32 i 1\<rparr>))"

definition xfer_buffer_borrow ::
  "init_mem \<Rightarrow> nat option \<Rightarrow> xfer_owner \<Rightarrow> nat \<Rightarrow> u32 \<Rightarrow> xfer \<Rightarrow> (xfer_error + xfer_borrow) \<times> xfer" where
  "xfer_buffer_borrow mi mem owner borrower flags st =
     (if borrower = 0 then (Inl XFER_INVALID_CONTEXT, st)
      else if \<not> valid_flags flags then (Inl XFER_INVALID_FLAGS, st)
      else case object_find mi (ow_buffer owner) st of
             (None, st1) \<Rightarrow> (Inl XFER_NOT_FOUND, st1)
           | (Some (p, s), st1) \<Rightarrow>
               if o_owner s \<noteq> ow_context owner then (Inl XFER_NOT_OWNER, st1)
               else if o_kind s = BUFFER_KIND_FRAMEBUFFER \<and> borrower \<noteq> o_owner s then (Inl XFER_KIND_NOT_BORROWABLE, st1)
               else if o_kind s \<noteq> BUFFER_KIND_FRAMEBUFFER \<and> borrower = o_owner s then (Inl XFER_SELF_BORROW, st1)
               else case borrow_find_for mi (o_buffer_id s) borrower st1 of
                      (Some _, st2) \<Rightarrow> (Inl XFER_ALREADY_BORROWED, st2)
                    | (None, st2) \<Rightarrow> attach_borrow mem s 0 (o_owner s) borrower flags st2)"

definition xfer_buffer_reborrow ::
  "init_mem \<Rightarrow> nat option \<Rightarrow> xfer_borrow \<Rightarrow> nat \<Rightarrow> u32 \<Rightarrow> xfer \<Rightarrow> (xfer_error + xfer_borrow) \<times> xfer" where
  "xfer_buffer_reborrow mi mem upstream borrower flags st =
     (if borrower = 0 then (Inl XFER_INVALID_CONTEXT, st)
      else if \<not> valid_flags flags then (Inl XFER_INVALID_FLAGS, st)
      else case borrow_find mi (bw_id upstream) st of
             (None, st1) \<Rightarrow> (Inl XFER_INACTIVE_BORROW, st1)
           | (Some (p, up), st1) \<Rightarrow>
               if flags AND b_flags up \<noteq> flags then (Inl XFER_RIGHTS_AMPLIFICATION, st1)
               else if b_kind up = BUFFER_KIND_FRAMEBUFFER then (Inl XFER_NOT_REBORROWABLE, st1)
               else case object_find_by_id mi (b_buffer_id up) st1 of
                      (None, st2) \<Rightarrow> (Inl XFER_NOT_FOUND, st2)
                    | (Some (_, object), st2) \<Rightarrow>
                        (case borrow_find_for mi (b_buffer_id up) borrower st2 of
                           (Some _, st3) \<Rightarrow> (Inl XFER_ALREADY_BORROWED, st3)
                         | (None, st3) \<Rightarrow>
                             attach_borrow mem object (b_borrow_id up) (b_borrower up) borrower flags st3))"

definition xfer_buffer_unborrow :: "init_mem \<Rightarrow> xfer_borrow \<Rightarrow> xfer \<Rightarrow> ((xfer_error + unit) \<times> xfer) option" where
  "xfer_buffer_unborrow mi borrow st =
     (case borrow_find mi (bw_id borrow) st of
        (None, st1) \<Rightarrow> Some (Inl XFER_INACTIVE_BORROW, st1)
      | (Some (p, s), st1) \<Rightarrow>
          if b_dma_active s then Some (Inl XFER_DMA_MAPPED, st1)
          else map_option (\<lambda>l. (Inr (), st1\<lparr>g_borrows := l\<rparr>)) (borrow_revoke_tree (b_borrow_id s) (g_borrows st1)))"

definition xfer_buffer_get_lent :: "init_mem \<Rightarrow> nat \<Rightarrow> nat \<Rightarrow> xfer \<Rightarrow> (xfer_error + xfer_borrow) \<times> xfer" where
  "xfer_buffer_get_lent mi borrow_id lender st =
     (if lender = 0 then (Inl XFER_INVALID_CONTEXT, st)
      else if borrow_id = 0 then (Inl XFER_INACTIVE_BORROW, st)
      else case borrow_find mi borrow_id st of
             (None, st1) \<Rightarrow> (Inl XFER_INACTIVE_BORROW, st1)
           | (Some (p, s), st1) \<Rightarrow>
               if b_lender s \<noteq> lender then (Inl XFER_NO_ACCESS, st1)
               else case object_find_by_id mi (b_buffer_id s) st1 of
                      (None, st2) \<Rightarrow> (Inl XFER_NOT_FOUND, st2)
                    | (Some (_, object), st2) \<Rightarrow> (Inr (borrow_desc s object), st2))"

text \<open>The mapping a borrow reports: its DMA window if it has one, else all zero.\<close>

definition borrow_mapping :: "borrow_slot \<Rightarrow> object_slot \<Rightarrow> dma_mapping" where
  "borrow_mapping s object =
     (if b_dma_active s
      then \<lparr>dm_buffer = object_desc object, dm_owner = 0, dm_borrow = b_borrow_id s, dm_offset = b_dma_offset s,
            dm_length = b_dma_length s, dm_direction = b_dma_direction s,
            dm_device_addr = add64 (o_phys_base object) (b_dma_offset s), dm_via_borrow = True, dm_active = True\<rparr>
      else \<lparr>dm_buffer = \<lparr>xb_kind = 0, xb_id = 0, xb_size = 0\<rparr>, dm_owner = 0, dm_borrow = 0, dm_offset = 0, dm_length = 0,
            dm_direction = 0, dm_device_addr = 0, dm_via_borrow = False, dm_active = False\<rparr>)"

definition xfer_buffer_get_borrowed ::
  "init_mem \<Rightarrow> nat \<Rightarrow> nat \<Rightarrow> xfer \<Rightarrow> (xfer_error + (xfer_borrow \<times> dma_mapping)) \<times> xfer" where
  "xfer_buffer_get_borrowed mi borrow_id context_id st =
     (if context_id = 0 then (Inl XFER_INVALID_CONTEXT, st)
      else if borrow_id = 0 then (Inl XFER_INACTIVE_BORROW, st)
      else case borrow_find mi borrow_id st of
             (None, st1) \<Rightarrow> (Inl XFER_INACTIVE_BORROW, st1)
           | (Some (p, s), st1) \<Rightarrow>
               if b_borrower s \<noteq> context_id then (Inl XFER_NO_ACCESS, st1)
               else case object_find_by_id mi (b_buffer_id s) st1 of
                      (None, st2) \<Rightarrow> (Inl XFER_NOT_FOUND, st2)
                    | (Some (_, object), st2) \<Rightarrow> (Inr (borrow_desc s object, borrow_mapping s object), st2))"

subsection \<open>Queries\<close>

definition xfer_buffer_object_phys :: "init_mem \<Rightarrow> xfer_buffer \<Rightarrow> xfer \<Rightarrow> nat \<times> xfer" where
  "xfer_buffer_object_phys mi buffer st =
     (case object_find mi buffer st of (None, st1) \<Rightarrow> (0, st1) | (Some (p, s), st1) \<Rightarrow> (o_phys_base s, st1))"

definition xfer_buffer_describe :: "init_mem \<Rightarrow> nat \<Rightarrow> nat \<Rightarrow> nat \<Rightarrow> xfer \<Rightarrow> (xfer_error + xfer_buffer) \<times> xfer" where
  "xfer_buffer_describe mi buffer_id kind context_id st =
     (if context_id = 0 then (Inl XFER_INVALID_CONTEXT, st)
      else if buffer_id = 0 then (Inl XFER_NOT_FOUND, st)
      else case object_find mi \<lparr>xb_kind = kind, xb_id = buffer_id, xb_size = 0\<rparr> st of
             (None, st1) \<Rightarrow> (Inl XFER_NOT_FOUND, st1)
           | (Some (p, s), st1) \<Rightarrow>
               if o_owner s = context_id then (Inr (object_desc s), st1)
               else case borrow_find_for mi (o_buffer_id s) context_id st1 of
                      (None, st2) \<Rightarrow> (Inl XFER_NO_ACCESS, st2)
                    | (Some _, st2) \<Rightarrow> (Inr (object_desc s), st2))"

definition xfer_buffer_can_access :: "init_mem \<Rightarrow> xfer_buffer \<Rightarrow> nat \<Rightarrow> u32 \<Rightarrow> xfer \<Rightarrow> bool \<times> xfer" where
  "xfer_buffer_can_access mi buffer accessor requested_flags st =
     (case object_find mi buffer st of
        (None, st1) \<Rightarrow> (False, st1)
      | (Some (p, s), st1) \<Rightarrow>
          if accessor = 0 \<or> \<not> valid_flags requested_flags then (False, st1)
          else if o_owner s = accessor then (True, st1)
          else case borrow_find_for mi (o_buffer_id s) accessor st1 of
                 (None, st2) \<Rightarrow> (False, st2)
               | (Some (_, b), st2) \<Rightarrow> (b_flags b AND requested_flags = requested_flags, st2))"

definition xfer_buffer_same_object :: "init_mem \<Rightarrow> xfer_buffer \<Rightarrow> nat \<Rightarrow> nat \<Rightarrow> xfer \<Rightarrow> bool \<times> xfer" where
  "xfer_buffer_same_object mi buffer accessor owner_context_id st =
     (case object_find mi buffer st of
        (None, st1) \<Rightarrow> (False, st1)
      | (Some (p, s), st1) \<Rightarrow>
          if accessor = 0 \<or> owner_context_id = 0 then (False, st1)
          else if o_owner s \<noteq> owner_context_id then (False, st1)
          else if accessor = o_owner s then (True, st1)
          else case borrow_find_for mi (o_buffer_id s) accessor st1 of (r, st2) \<Rightarrow> (r \<noteq> None, st2))"

subsection \<open>DMA windows\<close>

definition xfer_buffer_dma_map_owned ::
  "init_mem \<Rightarrow> xfer_owner \<Rightarrow> nat \<Rightarrow> nat \<Rightarrow> u32 \<Rightarrow> xfer \<Rightarrow> (xfer_error + dma_mapping) \<times> xfer" where
  "xfer_buffer_dma_map_owned mi owner offset len direction_flags st =
     (case object_find mi (ow_buffer owner) st of
        (None, st1) \<Rightarrow> (Inl XFER_NOT_FOUND, st1)
      | (Some (p, s), st1) \<Rightarrow>
          if o_owner s \<noteq> ow_context owner then (Inl XFER_NOT_OWNER, st1)
          else if \<not> range_within (o_size_bytes s) offset len then (Inl XFER_RANGE, st1)
          else if direction_flags = 0 then (Inl XFER_DIRECTION, st1)
          else if o_dma_active s then (Inl XFER_DMA_ACTIVE, st1)
          else let s' = s\<lparr>o_dma_active := True, o_dma_offset := offset, o_dma_length := len, o_dma_direction := direction_flags\<rparr>
               in (Inr \<lparr>dm_buffer = object_desc s, dm_owner = o_owner s, dm_borrow = 0, dm_offset = offset, dm_length = len,
                        dm_direction = direction_flags, dm_device_addr = add64 (o_phys_base s) offset,
                        dm_via_borrow = False, dm_active = True\<rparr>,
                   st1\<lparr>g_objects := list_write p s' (g_objects st1)\<rparr>))"

definition xfer_buffer_dma_map_borrow ::
  "init_mem \<Rightarrow> xfer_borrow \<Rightarrow> nat \<Rightarrow> nat \<Rightarrow> u32 \<Rightarrow> xfer \<Rightarrow> (xfer_error + dma_mapping) \<times> xfer" where
  "xfer_buffer_dma_map_borrow mi borrow offset len direction_flags st =
     (case borrow_find mi (bw_id borrow) st of
        (None, st1) \<Rightarrow> (Inl XFER_INACTIVE_BORROW, st1)
      | (Some (p, s), st1) \<Rightarrow>
          (case object_find_by_id mi (b_buffer_id s) st1 of
             (None, st2) \<Rightarrow> (Inl XFER_NOT_FOUND, st2)
           | (Some (_, object), st2) \<Rightarrow>
               if \<not> range_within (o_size_bytes object) offset len then (Inl XFER_RANGE, st2)
               else if \<not> dma_direction_allowed (b_flags s) direction_flags then (Inl XFER_DIRECTION, st2)
               else if b_dma_active s then (Inl XFER_DMA_ACTIVE, st2)
               else let s' = s\<lparr>b_dma_active := True, b_dma_offset := offset, b_dma_length := len, b_dma_direction := direction_flags\<rparr>
                    in (Inr \<lparr>dm_buffer = object_desc object, dm_owner = 0, dm_borrow = b_borrow_id s, dm_offset = offset,
                             dm_length = len, dm_direction = direction_flags,
                             dm_device_addr = add64 (o_phys_base object) offset, dm_via_borrow = True, dm_active = True\<rparr>,
                        st2\<lparr>g_borrows := list_write p s' (g_borrows st2)\<rparr>)))"

definition xfer_buffer_dma_sync :: "dma_mapping \<Rightarrow> nat \<Rightarrow> nat \<Rightarrow> xfer_error + unit" where
  "xfer_buffer_dma_sync mapping offset len =
     (if \<not> dm_active mapping then Inl XFER_INACTIVE_MAPPING
      else if \<not> range_within (dm_length mapping) offset len then Inl XFER_RANGE
      else Inr ())"

definition xfer_buffer_dma_unmap :: "init_mem \<Rightarrow> dma_mapping \<Rightarrow> xfer \<Rightarrow> (xfer_error + dma_mapping) \<times> xfer" where
  "xfer_buffer_dma_unmap mi mapping st =
     (if \<not> dm_active mapping then (Inl XFER_INACTIVE_MAPPING, st)
      else let st' =
             (if dm_via_borrow mapping
              then (case borrow_find mi (dm_borrow mapping) st of
                      (None, st1) \<Rightarrow> st1
                    | (Some (p, s), st1) \<Rightarrow> st1\<lparr>g_borrows := list_write p (s\<lparr>b_dma_active := False\<rparr>) (g_borrows st1)\<rparr>)
              else (case object_find_by_id mi (xb_id (dm_buffer mapping)) st of
                      (None, st1) \<Rightarrow> st1
                    | (Some (p, s), st1) \<Rightarrow> st1\<lparr>g_objects := list_write p (s\<lparr>o_dma_active := False\<rparr>) (g_objects st1)\<rparr>))
           in (Inr (mapping\<lparr>dm_active := False\<rparr>), st'))"

subsection \<open>A context that goes away\<close>

text \<open>The loops over the borrows that satisfy a test, revoking each with its tree.\<close>

fun revoke_where :: "(borrow_slot \<Rightarrow> bool) \<Rightarrow> nat list \<Rightarrow> borrow_slot list_t \<Rightarrow> borrow_slot list_t option" where
  "revoke_where test [] l = Some l"
| "revoke_where test (p # ps) l =
     (case slot_at l p of
        None \<Rightarrow> revoke_where test ps l
      | Some s \<Rightarrow>
          if b_active s \<and> test s then Option.bind (borrow_revoke_tree (b_borrow_id s) l) (revoke_where test ps)
          else revoke_where test ps l)"

fun drop_objects :: "nat \<Rightarrow> nat list \<Rightarrow> xfer \<Rightarrow> (pfa_panic + xfer) option" where
  "drop_objects context_id [] st = Some (Inr st)"
| "drop_objects context_id (p # ps) st =
     (case slot_at (g_objects st) p of
        None \<Rightarrow> drop_objects context_id ps st
      | Some s \<Rightarrow>
          if o_active s \<and> o_owner s = context_id
          then Option.bind (revoke_where (\<lambda>b. b_buffer_id b = o_buffer_id s) (ptrs (g_borrows st)) (g_borrows st))
                 (\<lambda>bl. case object_free_backing s (x_frames st) of
                         Inl e \<Rightarrow> Some (Inl e)
                       | Inr frames \<Rightarrow>
                           drop_objects context_id ps
                             (st\<lparr>g_borrows := bl, x_frames := frames,
                                 g_objects := list_write p (s\<lparr>o_active := False\<rparr>) (g_objects st)\<rparr>))
          else drop_objects context_id ps st)"

definition xfer_buffer_drop_context :: "init_mem \<Rightarrow> nat \<Rightarrow> xfer \<Rightarrow> (pfa_panic + xfer) option" where
  "xfer_buffer_drop_context mi context_id st =
     (if context_id = 0 then Some (Inr st)
      else case registry_init_once mi st of
             (r, st1) \<Rightarrow>
               if r \<noteq> 0 then Some (Inr st1)
               else Option.bind
                      (revoke_where (\<lambda>b. b_lender b = context_id \<or> b_borrower b = context_id) (ptrs (g_borrows st1)) (g_borrows st1))
                      (\<lambda>bl. drop_objects context_id (ptrs (g_objects st1)) (st1\<lparr>g_borrows := bl\<rparr>)))"

end
