(* ===== verification/Xfer_revoke.thy ===== *)
theory Xfer_revoke
  imports Xfer_buffer
begin

section \<open>Revoking a borrow with its tree\<close>

text \<open>
  \<open>borrow_revoke_tree\<close> recurses through a table it is changing.  With parents older than their
  reborrows the recursion ends, and it deactivates the borrow and its descendants and nothing else.
\<close>

definition child :: "borrow_slot list_t \<Rightarrow> nat \<Rightarrow> nat \<Rightarrow> bool" where
  "child l x y \<longleftrightarrow> (\<exists>p s. (p, s) \<in> set (list_view l) \<and> b_active s \<and> b_parent s = x \<and> b_borrow_id s = y)"

definition desc :: "borrow_slot list_t \<Rightarrow> nat \<Rightarrow> nat set" where
  "desc l x = {y. (child l)\<^sup>*\<^sup>* x y}"

definition kill1 :: "nat set \<Rightarrow> borrow_slot \<Rightarrow> borrow_slot" where
  "kill1 K s = (if b_active s \<and> b_borrow_id s \<in> K then revoked s else s)"

definition killed :: "nat set \<Rightarrow> borrow_slot list_t \<Rightarrow> borrow_slot list_t \<Rightarrow> bool" where
  "killed K l l' \<longleftrightarrow> list_ok l' \<and> list_view l' = map (\<lambda>(p, s). (p, kill1 K s)) (list_view l)"

abbreviation borrows_ok :: "borrow_slot list_t \<Rightarrow> bool" where
  "borrows_ok \<equiv> slots_ok b_active b_borrow_id"

abbreviation borrow_at :: "borrow_slot list_t \<Rightarrow> nat \<Rightarrow> borrow_slot option" where
  "borrow_at \<equiv> live b_active b_borrow_id"

definition tree_ok :: "borrow_slot list_t \<Rightarrow> bool" where
  "tree_ok l \<longleftrightarrow> borrows_ok l \<and> (\<forall>i s. borrow_at l i = Some s \<longrightarrow> b_parent s < i)"

lemma revoked_fields [simp]:
  "\<not> b_active (revoked s)" "b_borrow_id (revoked s) = b_borrow_id s" "b_parent (revoked s) = b_parent s"
  by (simp_all add: revoked_def)

lemma kill1_kill1: "kill1 B (kill1 A s) = kill1 (A \<union> B) s"
  by (auto simp: kill1_def)

lemma kill1_active [simp]: "b_active (kill1 K s) \<longleftrightarrow> b_active s \<and> b_borrow_id s \<notin> K"
  by (auto simp: kill1_def)

lemma kill1_keep: "b_active s \<Longrightarrow> b_borrow_id s \<notin> K \<Longrightarrow> kill1 K s = s"
  by (simp add: kill1_def)

lemma killed_empty: "list_ok l \<Longrightarrow> killed {} l l"
  by (simp add: killed_def kill1_def case_prod_unfold)

lemma killed_trans: "killed A l l1 \<Longrightarrow> killed B l1 l2 \<Longrightarrow> killed (A \<union> B) l l2"
  by (auto simp: killed_def kill1_kill1)

lemma killed_ptrs: "killed K l l' \<Longrightarrow> ptrs l' = ptrs l"
  by (auto simp: killed_def ptrs_def)

lemma killed_slot_at: "killed K l l' \<Longrightarrow> slot_at l' p = map_option (kill1 K) (slot_at l p)"
  by (simp add: killed_def slot_at_def map_of_map)

lemma slot_at_view: "list_ok l \<Longrightarrow> slot_at l p = Some s \<longleftrightarrow> (p, s) \<in> set (list_view l)"
  using list_store.view_distinct [of l] by (auto simp: slot_at_def dest: map_of_SomeD)

lemma killed_actives:
  assumes "killed K l l'"
  shows "actives b_active l' = filter (\<lambda>s. b_borrow_id s \<notin> K) (actives b_active l)"
proof -
  have "filter b_active (map (kill1 K) xs) = filter (\<lambda>s. b_borrow_id s \<notin> K) (filter b_active xs)" for xs
    by (induction xs) (auto simp: kill1_keep)
  moreover have "records l' = map (kill1 K) (records l)"
    using assms by (auto simp: killed_def records_def)
  ultimately show ?thesis by (simp add: actives_def)
qed

lemma killed_ok:
  assumes "borrows_ok l" "killed K l l'"
  shows "borrows_ok l'" "borrow_at l' = borrow_at l |` (- K)"
proof -
  have "distinct (map b_borrow_id (filter Q (actives b_active l)))" for Q
    using assms(1) by (simp add: slots_ok_def distinct_map_filter)
  then show ok: "borrows_ok l'"
    using assms(2) killed_actives [OF assms(2)] by (simp add: slots_ok_def killed_def)
  have "set (actives b_active l') = {s \<in> set (actives b_active l). b_borrow_id s \<notin> K}"
    by (simp add: killed_actives [OF assms(2)])
  then have "borrow_at l' k = Some x \<longleftrightarrow> (borrow_at l |` (- K)) k = Some x" for k x
    by (auto simp: live_iff [OF ok] live_iff [OF assms(1)] restrict_map_def actives_def)
  then show "borrow_at l' = borrow_at l |` (- K)" by (intro ext option_eqI)
qed

lemma killed_tree_ok: "tree_ok l \<Longrightarrow> killed K l l' \<Longrightarrow> tree_ok l'"
  using killed_ok [of l K l'] by (auto simp: tree_ok_def restrict_map_def split: if_splits)

lemma child_at: "borrows_ok l \<Longrightarrow> child l x y \<longleftrightarrow> (\<exists>s. borrow_at l y = Some s \<and> b_parent s = x)"
  by (force simp: child_def live_iff records_def)

lemma killed_child: "borrows_ok l \<Longrightarrow> killed K l l' \<Longrightarrow> child l' x y \<longleftrightarrow> child l x y \<and> y \<notin> K"
  using killed_ok [of l K l'] by (auto simp: child_at restrict_map_def split: if_splits)

lemma desc_refl [simp]: "x \<in> desc l x"
  by (simp add: desc_def)

lemma desc_closed: "y \<in> desc l x \<Longrightarrow> child l y z \<Longrightarrow> z \<in> desc l x"
  unfolding desc_def by (auto intro: rtranclp.rtrancl_into_rtrancl)

lemma desc_sub: "y \<in> desc l x \<Longrightarrow> desc l y \<subseteq> desc l x"
  by (auto simp: desc_def)

lemma desc_unfold: "desc l x = insert x (\<Union>y \<in> {y. child l x y}. desc l y)"
  unfolding desc_def by (auto intro: converse_rtranclp_into_rtranclp elim: converse_rtranclpE)

lemma desc_killed:
  assumes ok: "borrows_ok l" and k: "killed (desc l c) l l'"
  shows "desc l' d \<union> desc l c = desc l d \<union> desc l c"
proof -
  note ch = killed_child [OF ok k]
  have "y \<in> desc l d" if "(child l')\<^sup>*\<^sup>* d y" for y
    using that unfolding desc_def by (induction) (auto simp: ch intro: rtranclp.rtrancl_into_rtrancl)
  moreover have "y \<in> desc l' d \<union> desc l c" if "(child l)\<^sup>*\<^sup>* d y" for y
    using that
  proof (induction)
    case (step y z)
    then show ?case using desc_closed [of y l c z] desc_closed [of y l' d z] ch by blast
  qed simp
  ultimately show ?thesis by (auto simp: desc_def)
qed

text \<open>The children of a borrow that a rest of the walk has still to see.\<close>

definition kids :: "nat \<Rightarrow> nat list \<Rightarrow> borrow_slot list_t \<Rightarrow> nat set" where
  "kids b ps l = {i. \<exists>p \<in> set ps. \<exists>s. slot_at l p = Some s \<and> b_active s \<and> b_parent s = b \<and> b_borrow_id s = i}"

lemma kids_all: "list_ok l \<Longrightarrow> kids b (ptrs l) l = {y. child l b y}"
  by (force simp: kids_def child_def ptrs_def slot_at_view)

lemma kids_killed: "killed K l l' \<Longrightarrow> kids b ps l' = kids b ps l - K"
proof -
  assume k: "killed K l l'"
  have "(\<exists>t. slot_at l' p = Some t \<and> b_active t \<and> b_parent t = b \<and> b_borrow_id t = i)
    \<longleftrightarrow> (\<exists>s. slot_at l p = Some s \<and> b_active s \<and> b_parent s = b \<and> b_borrow_id s = i) \<and> i \<notin> K" for p i
    by (cases "slot_at l p") (auto simp: killed_slot_at [OF k] kill1_def)
  then show ?thesis unfolding kids_def by auto
qed

lemma kids_Cons:
  "kids b (p # ps) l = (case slot_at l p of
      Some s \<Rightarrow> if b_active s \<and> b_parent s = b then insert (b_borrow_id s) (kids b ps l) else kids b ps l
    | None \<Rightarrow> kids b ps l)"
  by (auto simp: kids_def split: option.splits)

lemma kill_at:
  assumes ok: "borrows_ok l" and m: "(p, s) \<in> set (list_view l)" "b_active s" "b_borrow_id s = b"
  shows "killed {b} l (list_write p (revoked s) l)"
proof -
  have l: "list_ok l" using ok by (rule slots_ok_list)
  obtain as bs where v: "list_view l = as @ (p, s) # bs" "list_view (list_write p (revoked s) l) = as @ (p, revoked s) # bs"
    using list_store.put_split [OF l m(1)] by metis
  have "b \<notin> b_borrow_id ` set (filter b_active (map snd (as @ bs)))"
    using ok m(2,3) by (auto simp: slots_ok_def actives_def records_def v)
  then have k: "\<forall>(q, x) \<in> set as \<union> set bs. kill1 {b} x = x"
    by (force simp: kill1_def)
  have "map (\<lambda>(p, s). (p, kill1 {b} s)) as = as" "map (\<lambda>(p, s). (p, kill1 {b} s)) bs = bs"
    using k by (auto intro!: map_idI)
  then show ?thesis using list_store.put_ok [OF l] m v by (simp add: killed_def kill1_def)
qed

lemma kill_one:
  assumes ok: "borrows_ok l" and f: "list_lookup (\<lambda>s. b_active s \<and> b_borrow_id s = b) l = Some (p, s)"
  shows "killed {b} l (list_write p (revoked s) l)"
  using kill_at [OF ok] lookup_some [OF f] by simp

lemma kill_none:
  assumes ok: "borrows_ok l" and f: "list_lookup (\<lambda>s. b_active s \<and> b_borrow_id s = b) l = None"
  shows "killed {b} l l"
proof -
  have "\<forall>(q, x) \<in> set (list_view l). kill1 {b} x = x"
    using f by (auto simp: lookup_none records_def kill1_def)
  then have "map (\<lambda>(p, s). (p, kill1 {b} s)) (list_view l) = list_view l"
    by (auto intro!: map_idI)
  then show ?thesis using slots_ok_list [OF ok] by (simp add: killed_def)
qed

lemma revoke_scan_ok:
  assumes "tree_ok l" "\<forall>i s. borrow_at l i = Some s \<longrightarrow> i < N"
  shows "\<exists>l'. revoke_scan b ps l = Some l' \<and> killed (insert b (\<Union>c \<in> kids b ps l. desc l c)) l l'"
  using assms
proof (induction "N - b" arbitrary: b ps l rule: less_induct)
  case less
  note outer = less(1)
  show ?case using less(2,3)
  proof (induction ps arbitrary: l)
    case Nil
    have ok: "borrows_ok l" using Nil(1) by (simp add: tree_ok_def)
    have k: "kids b [] l = {}" by (simp add: kids_def)
    show ?case
    proof (cases "list_lookup (\<lambda>s. b_active s \<and> b_borrow_id s = b) l")
      case None
      then show ?thesis using kill_none [OF ok None] k by (subst revoke_scan.simps) simp
    next
      case (Some ps)
      obtain p s where ps: "ps = (p, s)" by (cases ps)
      then show ?thesis using kill_one [OF ok Some [unfolded ps]] Some k by (subst revoke_scan.simps) simp
    qed
  next
    case (Cons p ps)
    have ok: "borrows_ok l" and l: "list_ok l" using Cons(2) by (auto simp: tree_ok_def slots_ok_list)
    show ?case
    proof (cases "\<exists>s. slot_at l p = Some s \<and> b_active s \<and> b_parent s = b")
      case True
      then obtain s where s: "slot_at l p = Some s" "b_active s" "b_parent s = b" by blast
      let ?c = "b_borrow_id s"
      have c: "borrow_at l ?c = Some s" using s(1,2) live_view [OF ok] slot_at_view [OF l] by blast
      have "b < ?c" using c s(3) Cons(2) by (auto simp: tree_ok_def)
      moreover have "?c < N" using c Cons(3) by blast
      ultimately have "N - ?c < N - b" by simp
      then obtain l1 where l1: "revoke_scan ?c (ptrs l) l = Some l1" "killed (desc l ?c) l l1"
        using outer [of ?c l "ptrs l"] Cons(2,3) kids_all [OF l] desc_unfold [of l ?c] by auto
      have t1: "tree_ok l1" "\<forall>i s. borrow_at l1 i = Some s \<longrightarrow> i < N"
        using killed_tree_ok [OF Cons(2) l1(2)] killed_ok(2) [OF ok l1(2)] Cons(3) by (auto simp: restrict_map_def split: if_splits)
      obtain l2 where l2: "revoke_scan b ps l1 = Some l2" "killed (insert b (\<Union>c \<in> kids b ps l1. desc l1 c)) l1 l2"
        using Cons(1) [OF t1] by blast
      have "revoke_scan b (p # ps) l = Some l2"
        by (subst revoke_scan.simps) (simp add: s l1(1) l2(1))
      moreover have "desc l ?c \<union> insert b (\<Union>d \<in> kids b ps l1. desc l1 d) = insert b (\<Union>d \<in> kids b (p # ps) l. desc l d)"
        using desc_killed [OF ok l1(2)] desc_sub [of _ l ?c] s by (fastforce simp: kids_killed [OF l1(2)] kids_Cons)
      ultimately show ?thesis using killed_trans [OF l1(2) l2(2)] by auto
    next
      case False
      have "revoke_scan b (p # ps) l = revoke_scan b ps l"
        using False by (subst revoke_scan.simps) (auto split: option.splits)
      moreover have "kids b (p # ps) l = kids b ps l"
        using False by (auto simp: kids_Cons split: option.splits)
      ultimately show ?thesis using Cons(1) [OF Cons(2,3)] by simp
    qed
  qed
qed

lemma revoke_tree_ok:
  assumes "tree_ok l"
  shows "\<exists>l'. borrow_revoke_tree b l = Some l' \<and> killed (desc l b) l l'"
proof -
  have ok: "borrows_ok l" using assms by (simp add: tree_ok_def)
  have "finite (dom (borrow_at l))"
    by (rule finite_subset [of _ "b_borrow_id ` set (records l)"]) (auto simp: live_iff [OF ok])
  then obtain N where "\<forall>i \<in> dom (borrow_at l). i < N" using finite_nat_set_iff_bounded by blast
  then show ?thesis
    using revoke_scan_ok [OF assms, of N b "ptrs l"] kids_all [OF slots_ok_list [OF ok], of b] desc_unfold [of l b]
    by (auto simp: borrow_revoke_tree_def dom_def)
qed

text \<open>Which set of borrows the loops of \<open>drop_context\<close> revoke.\<close>

definition rooted :: "(borrow_slot \<Rightarrow> bool) \<Rightarrow> nat list \<Rightarrow> borrow_slot list_t \<Rightarrow> nat set" where
  "rooted test ps l = {i. \<exists>p \<in> set ps. \<exists>s. slot_at l p = Some s \<and> b_active s \<and> test s \<and> b_borrow_id s = i}"

lemma rooted_killed: "killed K l l' \<Longrightarrow> rooted test ps l' = rooted test ps l - K"
proof -
  assume k: "killed K l l'"
  have "(\<exists>t. slot_at l' p = Some t \<and> b_active t \<and> test t \<and> b_borrow_id t = i)
    \<longleftrightarrow> (\<exists>s. slot_at l p = Some s \<and> b_active s \<and> test s \<and> b_borrow_id s = i) \<and> i \<notin> K" for p i
    by (cases "slot_at l p") (auto simp: killed_slot_at [OF k] kill1_def)
  then show ?thesis unfolding rooted_def by auto
qed

lemma rooted_all:
  assumes "borrows_ok l"
  shows "rooted test (ptrs l) l = {i. \<exists>s. borrow_at l i = Some s \<and> test s}"
  using slots_ok_list [OF assms] by (force simp: rooted_def ptrs_def slot_at_view live_iff [OF assms] records_def)

lemma revoke_where_ok:
  assumes "tree_ok l"
  shows "\<exists>l'. revoke_where test ps l = Some l' \<and> killed (\<Union>i \<in> rooted test ps l. desc l i) l l'"
  using assms
proof (induction ps arbitrary: l)
  case Nil
  then show ?case by (auto simp: rooted_def tree_ok_def intro: killed_empty slots_ok_list)
next
  case (Cons p ps)
  have ok: "borrows_ok l" using Cons(2) by (simp add: tree_ok_def)
  show ?case
  proof (cases "\<exists>s. slot_at l p = Some s \<and> b_active s \<and> test s")
    case True
    then obtain s where s: "slot_at l p = Some s" "b_active s" "test s" by blast
    let ?c = "b_borrow_id s"
    obtain l1 where l1: "borrow_revoke_tree ?c l = Some l1" "killed (desc l ?c) l l1"
      using revoke_tree_ok [OF Cons(2)] by blast
    obtain l2 where l2: "revoke_where test ps l1 = Some l2" "killed (\<Union>i \<in> rooted test ps l1. desc l1 i) l1 l2"
      using Cons(1) [OF killed_tree_ok [OF Cons(2) l1(2)]] by blast
    have r: "rooted test (p # ps) l = insert ?c (rooted test ps l)" using s by (auto simp: rooted_def)
    have "desc l ?c \<union> (\<Union>i \<in> rooted test ps l1. desc l1 i) = (\<Union>i \<in> rooted test (p # ps) l. desc l i)"
      using desc_killed [OF ok l1(2)] desc_sub [of _ l ?c] unfolding r rooted_killed [OF l1(2)] by fastforce
    then show ?thesis using s l1(1) l2(1) killed_trans [OF l1(2) l2(2)] by auto
  next
    case False
    then have "rooted test (p # ps) l = rooted test ps l" by (auto simp: rooted_def)
    moreover have "revoke_where test (p # ps) l = revoke_where test ps l"
      using False by (auto split: option.splits)
    ultimately show ?thesis using Cons(1) [OF Cons(2)] by simp
  qed
qed

lemma revoke_all_ok:
  assumes "borrows_ok l"
  shows "killed {i. \<exists>s. borrow_at l i = Some s \<and> b_buffer_id s = bid} l (object_revoke_all_borrows bid l)"
proof -
  let ?step = "\<lambda>p l. case slot_at l p of None \<Rightarrow> l
    | Some s \<Rightarrow> if b_active s \<and> b_buffer_id s = bid then list_write p (revoked s) l else l"
  have "killed (rooted (\<lambda>s. b_buffer_id s = bid) ps l) l (fold ?step ps l)" if "borrows_ok l" for ps l
    using that
  proof (induction ps arbitrary: l)
    case Nil
    then show ?case by (auto simp: rooted_def intro: killed_empty slots_ok_list)
  next
    case (Cons p ps)
    have l: "list_ok l" using Cons(2) by (rule slots_ok_list)
    show ?case
    proof (cases "\<exists>s. slot_at l p = Some s \<and> b_active s \<and> b_buffer_id s = bid")
      case True
      then obtain s where s: "slot_at l p = Some s" "b_active s" "b_buffer_id s = bid" by blast
      let ?c = "b_borrow_id s"
      have m: "(p, s) \<in> set (list_view l)" using s(1) slot_at_view [OF l] by blast
      have k: "killed {?c} l (list_write p (revoked s) l)" by (rule kill_at [OF Cons(2) m s(2) refl])
      have r: "rooted (\<lambda>s. b_buffer_id s = bid) (p # ps) l = insert ?c (rooted (\<lambda>s. b_buffer_id s = bid) ps l)"
        using s by (auto simp: rooted_def)
      show ?thesis
        using killed_trans [OF k Cons(1) [OF killed_ok(1) [OF Cons(2) k]]] s
        by (simp add: rooted_killed [OF k] r insert_Diff_if)
    next
      case False
      then have "rooted (\<lambda>s. b_buffer_id s = bid) (p # ps) l = rooted (\<lambda>s. b_buffer_id s = bid) ps l" by (auto simp: rooted_def)
      moreover have "?step p l = l" using False by (auto split: option.splits)
      ultimately show ?thesis using Cons(1) [OF Cons(2)] by simp
    qed
  qed
  from this [OF assms, of "ptrs l"] show ?thesis
    by (simp add: rooted_all [OF assms] object_revoke_all_borrows_def)
qed

end
