(* ===== verification/Xfer_inv.thy ===== *)
theory Xfer_inv
  imports Xfer_revoke
begin

unbundle bit_operations_syntax

section \<open>The invariant of the transfer-buffer registry\<close>

text \<open>
  The registry means two maps, from buffer ids to objects and from borrow ids to borrows.  The
  invariant is about them and the frame allocator: every borrow is of a live object, a reborrow hangs
  under a live borrow of the same object whose rights it does not exceed, a context borrows an object
  at most once, and the frames of TRANSFER objects are allocated and disjoint.
\<close>

abbreviation objects_ok :: "object_slot list_t \<Rightarrow> bool" where
  "objects_ok \<equiv> slots_ok o_active o_buffer_id"

abbreviation object_at :: "object_slot list_t \<Rightarrow> nat \<Rightarrow> object_slot option" where
  "object_at \<equiv> live o_active o_buffer_id"

abbreviation Objs :: "xfer \<Rightarrow> nat \<Rightarrow> object_slot option" where
  "Objs st \<equiv> object_at (g_objects st)"

abbreviation Bors :: "xfer \<Rightarrow> nat \<Rightarrow> borrow_slot option" where
  "Bors st \<equiv> borrow_at (g_borrows st)"

definition store_ok :: "xfer \<Rightarrow> bool" where
  "store_ok st \<longleftrightarrow> (if g_initialized st then objects_ok (g_objects st) \<and> borrows_ok (g_borrows st)
     else list_view (g_objects st) = [] \<and> list_view (g_borrows st) = [])"

text \<open>States that differ at most in the list headers being set up.\<close>

definition same :: "xfer \<Rightarrow> xfer \<Rightarrow> bool" where
  "same st st' \<longleftrightarrow> store_ok st' \<and> Objs st' = Objs st \<and> Bors st' = Bors st \<and> x_frames st' = x_frames st
     \<and> g_next_buffer_id st' = g_next_buffer_id st \<and> g_next_borrow_id st' = g_next_borrow_id st
     \<and> (g_initialized st \<longrightarrow> st' = st)"

lemma same_refl: "store_ok st \<Longrightarrow> same st st"
  by (simp add: same_def)

lemma same_trans: "same st st1 \<Longrightarrow> same st1 st2 \<Longrightarrow> same st st2"
  by (auto simp: same_def)

lemma empty_live: "list_view l = [] \<Longrightarrow> live act key l = Map.empty"
  by (simp add: live_def actives_def records_def fun_eq_iff)

lemma empty_ok: "list_ok l \<Longrightarrow> list_view l = [] \<Longrightarrow> slots_ok act key l"
  by (simp add: slots_ok_def actives_def records_def)

lemma linked_init:
  assumes "list_init m es LIST_IMPL_LINKED 0 l = (r, l')" "es = 48"
  shows "list_view l' = []" "r = 0 \<Longrightarrow> list_ok l'"
  using assms list_init_view [OF assms(1)]
  by (auto simp: list_init_def list_linked_impl_init_def Let_def list_view_def split: option.splits)

lemma init_same:
  assumes "store_ok st" "registry_init_once mi st = (r, st1)"
  shows "same st st1" "r = 0 \<Longrightarrow> g_initialized st1"
proof -
  obtain r1 ol where o: "list_init (fst mi) OBJECT_SLOT_SIZE LIST_IMPL_LINKED 0 (g_objects st) = (r1, ol)"
    by (cases "list_init (fst mi) OBJECT_SLOT_SIZE LIST_IMPL_LINKED 0 (g_objects st)")
  obtain r2 bl where b: "list_init (snd mi) BORROW_SLOT_SIZE LIST_IMPL_LINKED 0 (g_borrows st) = (r2, bl)"
    by (cases "list_init (snd mi) BORROW_SLOT_SIZE LIST_IMPL_LINKED 0 (g_borrows st)")
  note io = linked_init [OF o] and ib = linked_init [OF b]
  show "same st st1" "r = 0 \<Longrightarrow> g_initialized st1"
    using assms o b io ib
    by (auto simp: registry_init_once_def same_def store_ok_def empty_live empty_ok OBJECT_SLOT_SIZE_def
        BORROW_SLOT_SIZE_def split: if_splits)
qed

lemma init_fails_empty:
  assumes "store_ok st" "registry_init_once mi st = (r, st1)" "r \<noteq> 0"
  shows "Objs st = Map.empty" "Bors st = Map.empty"
  using assms by (auto simp: registry_init_once_def store_ok_def empty_live split: if_splits)

text \<open>The lookups find what the maps say and leave the meaning of the registry alone.\<close>

lemma object_lookup:
  assumes st: "store_ok st" and i: "registry_init_once mi st = (c, st1)"
    and r: "r = (if c \<noteq> 0 then None else list_lookup (\<lambda>s. o_active s \<and> P s) (g_objects st1))"
  shows "same st st1"
    and "r = Some (p, s) \<Longrightarrow> g_initialized st1 \<and> (p, s) \<in> set (list_view (g_objects st1)) \<and> o_active s \<and> P s
          \<and> Objs st (o_buffer_id s) = Some s"
    and "r = None \<Longrightarrow> Objs st k = Some s \<Longrightarrow> \<not> P s"
proof -
  note sm = init_same [OF st i]
  show "same st st1" by (rule sm(1))
  have ok: "objects_ok (g_objects st1)" if "c = 0" using sm that by (simp add: same_def store_ok_def)
  have O: "Objs st1 = Objs st" using sm(1) by (simp add: same_def)
  show "g_initialized st1 \<and> (p, s) \<in> set (list_view (g_objects st1)) \<and> o_active s \<and> P s \<and> Objs st (o_buffer_id s) = Some s"
    if "r = Some (p, s)"
    using that r lookup_live(1) [OF ok] sm(2) O by (auto split: if_splits)
  show "\<not> P s" if "r = None" "Objs st k = Some s"
  proof (cases "c = 0")
    case True
    then show ?thesis using that r lookup_live(2) [OF ok [OF True], of P k s] O by simp
  next
    case False
    then show ?thesis using that(2) init_fails_empty(1) [OF st i] by simp
  qed
qed

lemma borrow_lookup:
  assumes st: "store_ok st" and i: "registry_init_once mi st = (c, st1)"
    and r: "r = (if c \<noteq> 0 then None else list_lookup (\<lambda>s. b_active s \<and> P s) (g_borrows st1))"
  shows "same st st1"
    and "r = Some (p, s) \<Longrightarrow> g_initialized st1 \<and> (p, s) \<in> set (list_view (g_borrows st1)) \<and> b_active s \<and> P s
          \<and> Bors st (b_borrow_id s) = Some s"
    and "r = None \<Longrightarrow> Bors st k = Some s \<Longrightarrow> \<not> P s"
proof -
  note sm = init_same [OF st i]
  show "same st st1" by (rule sm(1))
  have ok: "borrows_ok (g_borrows st1)" if "c = 0" using sm that by (simp add: same_def store_ok_def)
  have B: "Bors st1 = Bors st" using sm(1) by (simp add: same_def)
  show "g_initialized st1 \<and> (p, s) \<in> set (list_view (g_borrows st1)) \<and> b_active s \<and> P s \<and> Bors st (b_borrow_id s) = Some s"
    if "r = Some (p, s)"
    using that r lookup_live(1) [OF ok] sm(2) B by (auto split: if_splits)
  show "\<not> P s" if "r = None" "Bors st k = Some s"
  proof (cases "c = 0")
    case True
    then show ?thesis using that r lookup_live(2) [OF ok [OF True], of P k s] B by simp
  next
    case False
    then show ?thesis using that(2) init_fails_empty(2) [OF st i] by simp
  qed
qed

text \<open>Keys of live slots are the ids the maps use.\<close>

lemma object_key: "store_ok st \<Longrightarrow> Objs st k = Some s \<Longrightarrow> o_buffer_id s = k \<and> o_active s"
  by (auto simp: store_ok_def live_iff empty_live split: if_splits)

lemma borrow_key: "store_ok st \<Longrightarrow> Bors st k = Some s \<Longrightarrow> b_borrow_id s = k \<and> b_active s"
  by (auto simp: store_ok_def live_iff empty_live split: if_splits)

lemma object_find_ok:
  assumes st: "store_ok st" and f: "object_find mi b st = (r, st1)"
  shows "same st st1"
    and "r = Some (p, s) \<Longrightarrow> g_initialized st1 \<and> (p, s) \<in> set (list_view (g_objects st1)) \<and> o_active s
          \<and> o_buffer_id s = xb_id b \<and> o_kind s = xb_kind b \<and> Objs st (xb_id b) = Some s \<and> xb_id b \<noteq> 0"
    and "r = None \<Longrightarrow> xb_id b \<noteq> 0 \<Longrightarrow> Objs st (xb_id b) = Some s \<Longrightarrow> o_kind s \<noteq> xb_kind b"
proof -
  obtain c st' where i: "registry_init_once mi st = (c, st')" by (cases "registry_init_once mi st")
  note ol = object_lookup [where P = "\<lambda>s. o_buffer_id s = xb_id b \<and> o_kind s = xb_kind b", OF st i refl]
  show "same st st1" using f i ol(1) st by (auto simp: object_find_def same_refl split: if_splits)
  show "g_initialized st1 \<and> (p, s) \<in> set (list_view (g_objects st1)) \<and> o_active s
          \<and> o_buffer_id s = xb_id b \<and> o_kind s = xb_kind b \<and> Objs st (xb_id b) = Some s \<and> xb_id b \<noteq> 0" if "r = Some (p, s)"
    using that f i ol(2) [of p s] by (auto simp: object_find_def split: if_splits)
  show "o_kind s \<noteq> xb_kind b" if "r = None" "xb_id b \<noteq> 0" "Objs st (xb_id b) = Some s"
    using that f i ol(3) [of "xb_id b" s] object_key [OF st that(3)] by (auto simp: object_find_def split: if_splits)
qed

lemma object_find_by_id_ok:
  assumes st: "store_ok st" and f: "object_find_by_id mi k st = (r, st1)"
  shows "same st st1"
    and "r = Some (p, s) \<Longrightarrow> g_initialized st1 \<and> (p, s) \<in> set (list_view (g_objects st1)) \<and> o_active s
          \<and> o_buffer_id s = k \<and> Objs st k = Some s"
    and "r = None \<Longrightarrow> k \<noteq> 0 \<Longrightarrow> Objs st k = None"
proof -
  obtain c st' where i: "registry_init_once mi st = (c, st')" by (cases "registry_init_once mi st")
  note ol = object_lookup [where P = "\<lambda>s. o_buffer_id s = k", OF st i refl]
  show "same st st1" using f i ol(1) st by (auto simp: object_find_by_id_def same_refl split: if_splits)
  show "g_initialized st1 \<and> (p, s) \<in> set (list_view (g_objects st1)) \<and> o_active s
          \<and> o_buffer_id s = k \<and> Objs st k = Some s" if "r = Some (p, s)"
    using that f i ol(2) [of p s] by (auto simp: object_find_by_id_def split: if_splits)
  show "Objs st k = None" if "r = None" "k \<noteq> 0"
    using that f i ol(3) [of k] object_key [OF st, of k] by (cases "Objs st k") (auto simp: object_find_by_id_def split: if_splits)
qed

lemma borrow_find_ok:
  assumes st: "store_ok st" and f: "borrow_find mi k st = (r, st1)"
  shows "same st st1"
    and "r = Some (p, s) \<Longrightarrow> g_initialized st1 \<and> (p, s) \<in> set (list_view (g_borrows st1)) \<and> b_active s
          \<and> b_borrow_id s = k \<and> Bors st k = Some s"
    and "r = None \<Longrightarrow> k \<noteq> 0 \<Longrightarrow> Bors st k = None"
proof -
  obtain c st' where i: "registry_init_once mi st = (c, st')" by (cases "registry_init_once mi st")
  note ol = borrow_lookup [where P = "\<lambda>s. b_borrow_id s = k", OF st i refl]
  show "same st st1" using f i ol(1) st by (auto simp: borrow_find_def same_refl split: if_splits)
  show "g_initialized st1 \<and> (p, s) \<in> set (list_view (g_borrows st1)) \<and> b_active s
          \<and> b_borrow_id s = k \<and> Bors st k = Some s" if "r = Some (p, s)"
    using that f i ol(2) [of p s] by (auto simp: borrow_find_def split: if_splits)
  show "Bors st k = None" if "r = None" "k \<noteq> 0"
    using that f i ol(3) [of k] borrow_key [OF st, of k] by (cases "Bors st k") (auto simp: borrow_find_def split: if_splits)
qed

lemma borrow_find_for_ok:
  assumes st: "store_ok st" and f: "borrow_find_for mi k c st = (r, st1)"
  shows "same st st1"
    and "r = Some (p, s) \<Longrightarrow> g_initialized st1 \<and> b_buffer_id s = k \<and> b_borrower s = c \<and> Bors st (b_borrow_id s) = Some s"
    and "r = None \<Longrightarrow> Bors st i = Some s \<Longrightarrow> \<not> (b_buffer_id s = k \<and> b_borrower s = c)"
proof -
  obtain e st' where i: "registry_init_once mi st = (e, st')" by (cases "registry_init_once mi st")
  note ol = borrow_lookup [where P = "\<lambda>s. b_buffer_id s = k \<and> b_borrower s = c", OF st i refl]
  show "same st st1" using f i ol(1) by (auto simp: borrow_find_for_def split: if_splits)
  show "g_initialized st1 \<and> b_buffer_id s = k \<and> b_borrower s = c \<and> Bors st (b_borrow_id s) = Some s" if "r = Some (p, s)"
    using that f i ol(2) [of p s] by (auto simp: borrow_find_for_def split: if_splits)
  show "\<not> (b_buffer_id s = k \<and> b_borrower s = c)" if "r = None" "Bors st i = Some s" for i
    using that f i ol(3) [of _ s] by (auto simp: borrow_find_for_def split: if_splits)
qed

lemma has_active_borrow_ok:
  assumes st: "store_ok st" and f: "object_has_active_borrow mi k st = (r, st1)"
  shows "same st st1" and "\<not> r \<Longrightarrow> Bors st i = Some s \<Longrightarrow> b_buffer_id s \<noteq> k"
proof -
  obtain e st' where i: "registry_init_once mi st = (e, st')" by (cases "registry_init_once mi st")
  note ol = borrow_lookup [where P = "\<lambda>s. b_buffer_id s = k", OF st i refl]
  show "same st st1" using f i ol(1) by (auto simp: object_has_active_borrow_def split: if_splits)
  show "b_buffer_id s \<noteq> k" if r: "\<not> r" and "Bors st i = Some s" for i
  proof -
    have "(if e \<noteq> 0 then None else list_lookup (\<lambda>s. b_active s \<and> b_buffer_id s = k) (g_borrows st')) = None"
      using f i r by (auto simp: object_has_active_borrow_def simp del: not_None_eq split_paired_Ex split_paired_All)
    from ol(3) [OF this that(2)] show ?thesis .
  qed
qed

subsection \<open>The invariant on the maps\<close>

definition pages :: "object_slot \<Rightarrow> nat" where
  "pages ob = (o_size_bytes ob + XFER_PAGE_SIZE - 1) div XFER_PAGE_SIZE"

definition span :: "object_slot \<Rightarrow> nat set" where
  "span ob = (if o_kind ob = BUFFER_KIND_TRANSFER then extent (o_phys_base ob) (pages ob) else {})"

definition object_good :: "object_slot \<Rightarrow> bool" where
  "object_good ob \<longleftrightarrow> o_owner ob \<noteq> 0 \<and> (o_kind ob = BUFFER_KIND_TRANSFER \<or> o_kind ob = BUFFER_KIND_FRAMEBUFFER)
     \<and> 0 < o_size_bytes ob \<and> o_size_bytes ob < 2 ^ 32
     \<and> (o_kind ob = BUFFER_KIND_TRANSFER \<longrightarrow> o_size_bytes ob mod 4096 = 0 \<and> extent_ok (o_phys_base ob) (pages ob))
     \<and> (o_dma_active ob \<longrightarrow> 0 < o_dma_length ob \<and> o_dma_offset ob + o_dma_length ob \<le> o_size_bytes ob)"

definition frames_good :: "(nat \<Rightarrow> object_slot option) \<Rightarrow> pfa \<Rightarrow> bool" where
  "frames_good M pf \<longleftrightarrow> pfa_inv pf
     \<and> (\<forall>i ob. M i = Some ob \<longrightarrow> (\<forall>f \<in> span ob. 0 < g_refcount pf f \<and> f < g_tracked_pages pf))
     \<and> (\<forall>i j ob q. M i = Some ob \<longrightarrow> M j = Some q \<longrightarrow> i \<noteq> j \<longrightarrow> span ob \<inter> span q = {})"

definition borrow_good ::
  "(nat \<Rightarrow> object_slot option) \<Rightarrow> (nat \<Rightarrow> borrow_slot option) \<Rightarrow> nat \<Rightarrow> borrow_slot \<Rightarrow> bool" where
  "borrow_good M B i s \<longleftrightarrow> valid_flags (b_flags s) \<and> b_borrower s \<noteq> 0
     \<and> (\<exists>ob. M (b_buffer_id s) = Some ob \<and> o_kind ob = b_kind s
          \<and> (b_dma_active s \<longrightarrow> 0 < b_dma_length s \<and> b_dma_offset s + b_dma_length s \<le> o_size_bytes ob
               \<and> dma_direction_allowed (b_flags s) (b_dma_direction s))
          \<and> (if b_parent s = 0 then b_lender s = o_owner ob \<and> (b_borrower s = o_owner ob \<longleftrightarrow> o_kind ob = BUFFER_KIND_FRAMEBUFFER)
             else o_kind ob \<noteq> BUFFER_KIND_FRAMEBUFFER))
     \<and> (b_parent s \<noteq> 0 \<longrightarrow> b_parent s < i \<and> (\<exists>t. B (b_parent s) = Some t \<and> b_buffer_id t = b_buffer_id s
          \<and> b_lender s = b_borrower t \<and> b_flags s AND b_flags t = b_flags s))"

definition graph_ok :: "(nat \<Rightarrow> object_slot option) \<Rightarrow> (nat \<Rightarrow> borrow_slot option) \<Rightarrow> bool" where
  "graph_ok M B \<longleftrightarrow> (\<forall>i s. B i = Some s \<longrightarrow> borrow_good M B i s)
     \<and> (\<forall>i j s t. B i = Some s \<longrightarrow> B j = Some t \<longrightarrow> b_buffer_id s = b_buffer_id t \<longrightarrow> b_borrower s = b_borrower t \<longrightarrow> i = j)"

definition maps_ok ::
  "(nat \<Rightarrow> object_slot option) \<Rightarrow> (nat \<Rightarrow> borrow_slot option) \<Rightarrow> nat \<Rightarrow> nat \<Rightarrow> pfa \<Rightarrow> bool" where
  "maps_ok M B n w pf \<longleftrightarrow> 0 < n \<and> 0 < w \<and> (\<forall>i ob. M i = Some ob \<longrightarrow> object_good ob \<and> 0 < i \<and> i < n)
     \<and> (\<forall>i s. B i = Some s \<longrightarrow> 0 < i \<and> i < w) \<and> graph_ok M B \<and> frames_good M pf"

definition xinv :: "xfer \<Rightarrow> bool" where
  "xinv st \<longleftrightarrow> store_ok st \<and> maps_ok (Objs st) (Bors st) (g_next_buffer_id st) (g_next_borrow_id st) (x_frames st)"

lemma same_inv: "xinv st \<Longrightarrow> same st st' \<Longrightarrow> xinv st'"
  by (simp add: xinv_def same_def)

lemma maps_fresh: "maps_ok M B n w pf \<Longrightarrow> M n = None \<and> B w = None"
  unfolding maps_ok_def by (meson less_irrefl not_None_eq)

lemma graph_borrowD:
  assumes "graph_ok M B" "B i = Some s"
  obtains ob where "M (b_buffer_id s) = Some ob" "o_kind ob = b_kind s"
proof -
  have "borrow_good M B i s" using assms by (simp add: graph_ok_def)
  then show ?thesis using that by (auto simp: borrow_good_def)
qed

text \<open>Borrows read only the kind, the size and the owner of their object.\<close>

lemma borrow_good_object:
  assumes "borrow_good M B i s" "M k = Some ob" "o_kind ob' = o_kind ob" "o_size_bytes ob' = o_size_bytes ob"
    "o_owner ob' = o_owner ob \<or> b_buffer_id s \<noteq> k"
  shows "borrow_good (M(k \<mapsto> ob')) B i s"
  using assms by (auto simp: borrow_good_def)

lemma frames_goodD:
  assumes "frames_good M pf"
  shows "pfa_inv pf" "M i = Some ob \<Longrightarrow> f \<in> span ob \<Longrightarrow> 0 < g_refcount pf f \<and> f < g_tracked_pages pf"
    "M i = Some ob \<Longrightarrow> M j = Some q \<Longrightarrow> i \<noteq> j \<Longrightarrow> span ob \<inter> span q = {}"
    "M i = Some ob \<Longrightarrow> f \<in> span ob \<Longrightarrow> f \<notin> free_frames pf"
proof -
  show p: "pfa_inv pf" and d: "M i = Some ob \<Longrightarrow> M j = Some q \<Longrightarrow> i \<noteq> j \<Longrightarrow> span ob \<inter> span q = {}"
    using assms by (auto simp: frames_good_def)
  show r: "0 < g_refcount pf f \<and> f < g_tracked_pages pf" if "M i = Some ob" "f \<in> span ob" for i ob f
    using assms that by (auto simp: frames_good_def)
  show "f \<notin> free_frames pf" if "M i = Some ob" "f \<in> span ob"
    using r [OF that] not_free_if_referenced [OF p] by blast
qed

lemma frames_goodI:
  assumes "pfa_inv pf" "\<And>i ob f. M i = Some ob \<Longrightarrow> f \<in> span ob \<Longrightarrow> 0 < g_refcount pf f \<and> f < g_tracked_pages pf"
    "\<And>i j ob q. M i = Some ob \<Longrightarrow> M j = Some q \<Longrightarrow> i < j \<Longrightarrow> span ob \<inter> span q = {}"
  shows "frames_good M pf"
  using assms(1,2) assms(3) Int_commute unfolding frames_good_def by (metis nat_neq_iff)

lemma maps_add_object:
  assumes ok: "maps_ok M B n w pf" and good: "object_good ob" and inv: "pfa_inv pf'"
    and sp: "span ob \<subseteq> free_frames pf" "\<forall>f \<in> span ob. 0 < g_refcount pf' f \<and> f < g_tracked_pages pf'"
    and other: "\<forall>f. f \<notin> span ob \<longrightarrow> g_refcount pf' f = g_refcount pf f" "g_tracked_pages pf' = g_tracked_pages pf"
  shows "maps_ok (M(n \<mapsto> ob)) B (Suc n) w pf'"
proof -
  have n: "M n = None" using maps_fresh [OF ok] by simp
  have fg: "frames_good M pf" using ok by (simp add: maps_ok_def)
  have disj: "span ob \<inter> span q = {}" if "M i = Some q" for i q
    using frames_goodD(4) [OF fg that] sp(1) by blast
  have "frames_good (M(n \<mapsto> ob)) pf'"
  proof (rule frames_goodI)
    show "pfa_inv pf'" by (rule inv)
    show "0 < g_refcount pf' f \<and> f < g_tracked_pages pf'" if "(M(n \<mapsto> ob)) i = Some q" "f \<in> span q" for i q f
    proof (cases "i = n")
      case True
      then show ?thesis using that sp(2) by simp
    next
      case False
      then have q: "M i = Some q" using that by simp
      then have "f \<notin> span ob" using disj [OF q] that(2) by blast
      then show ?thesis using frames_goodD(2) [OF fg q that(2)] other by simp
    qed
    show "span q \<inter> span r = {}" if "(M(n \<mapsto> ob)) i = Some q" "(M(n \<mapsto> ob)) j = Some r" "i < j" for i j q r
      using that disj [of j r] disj [of i q] frames_goodD(3) [OF fg, of i q j r] by (auto split: if_splits)
  qed
  moreover have "graph_ok (M(n \<mapsto> ob)) B"
  proof -
    have "borrow_good (M(n \<mapsto> ob)) B i s" if "borrow_good M B i s" for i s
      using that n by (auto simp: borrow_good_def)
    then show ?thesis using ok unfolding maps_ok_def graph_ok_def by blast
  qed
  ultimately show ?thesis using ok good by (auto simp: maps_ok_def less_Suc_eq)
qed

lemma maps_set_object:
  assumes ok: "maps_ok M B n w pf" and i: "M i = Some ob" and good: "object_good ob'"
    and same: "o_kind ob' = o_kind ob" "o_size_bytes ob' = o_size_bytes ob" "o_phys_base ob' = o_phys_base ob"
    and ow: "o_owner ob' = o_owner ob \<or> (\<forall>j s. B j = Some s \<longrightarrow> b_buffer_id s \<noteq> i)"
  shows "maps_ok (M(i \<mapsto> ob')) B n w pf"
proof -
  have sp: "span ob' = span ob" by (simp add: span_def pages_def same)
  have fg: "frames_good M pf" using ok by (simp add: maps_ok_def)
  have orig: "\<exists>r. M k = Some r \<and> span q = span r" if "(M(i \<mapsto> ob')) k = Some q" for k q
    using that i sp by (auto split: if_splits)
  have "frames_good (M(i \<mapsto> ob')) pf"
    by (rule frames_goodI) (use frames_goodD [OF fg] orig in \<open>metis nat_neq_iff\<close>)+
  moreover have "graph_ok (M(i \<mapsto> ob')) B"
    using ok ow borrow_good_object [where M = M and B = B and k = i, OF _ i same(1,2)] unfolding maps_ok_def graph_ok_def by blast
  ultimately show ?thesis using ok i good by (auto simp: maps_ok_def)
qed

lemma maps_add_borrow:
  assumes ok: "maps_ok M B n w pf" and s: "borrow_good M B w s"
    and un: "\<forall>i t. B i = Some t \<longrightarrow> \<not> (b_buffer_id t = b_buffer_id s \<and> b_borrower t = b_borrower s)"
  shows "maps_ok M (B(w \<mapsto> s)) n (Suc w) pf"
proof -
  have w: "B w = None" using maps_fresh [OF ok] by simp
  have up: "borrow_good M (B(w \<mapsto> s)) i t" if "borrow_good M B i t" for i t
    using that w unfolding borrow_good_def by (metis fun_upd_other option.distinct(1))
  have "graph_ok M (B(w \<mapsto> s))"
    using ok s un up unfolding maps_ok_def graph_ok_def by (auto split: if_splits) metis+
  then show ?thesis using ok by (auto simp: maps_ok_def less_Suc_eq)
qed

lemma maps_set_borrow:
  assumes ok: "maps_ok M B n w pf" and i: "B i = Some s" and s': "borrow_good M B i s'"
    and same: "b_buffer_id s' = b_buffer_id s" "b_borrower s' = b_borrower s" "b_flags s' = b_flags s"
  shows "maps_ok M (B(i \<mapsto> s')) n w pf"
proof -
  have up: "borrow_good M (B(i \<mapsto> s')) j t" if "borrow_good M B j t" for j t
    using that i same unfolding borrow_good_def by (cases "b_parent t = i") auto
  have "graph_ok M (B(i \<mapsto> s'))"
    using ok i s' same up unfolding maps_ok_def graph_ok_def by (auto split: if_splits)
  then show ?thesis using ok i by (auto simp: maps_ok_def)
qed

lemma maps_cut:
  assumes ok: "maps_ok M B n w pf" and closed: "\<And>i s. B i = Some s \<Longrightarrow> b_parent s \<in> K \<Longrightarrow> b_parent s \<noteq> 0 \<Longrightarrow> i \<in> K"
  shows "maps_ok M (B |` (- K)) n w pf"
proof -
  have "borrow_good M (B |` (- K)) i s" if "B i = Some s" "i \<notin> K" for i s
    using that ok closed [OF that(1)] unfolding maps_ok_def graph_ok_def borrow_good_def
    by (metis (no_types, lifting) ComplI restrict_map_def)
  then have "graph_ok M (B |` (- K))"
    using ok unfolding maps_ok_def graph_ok_def by (auto simp: restrict_map_def split: if_splits)
  then show ?thesis using ok by (auto simp: maps_ok_def restrict_map_def split: if_splits)
qed

lemma maps_drop_object:
  assumes ok: "maps_ok M B n w pf" and i: "M i = Some ob" and nb: "\<forall>j s. B j = Some s \<longrightarrow> b_buffer_id s \<noteq> i"
    and pf: "pfa_inv pf'" "g_tracked_pages pf' = g_tracked_pages pf" "\<forall>f. f \<notin> span ob \<longrightarrow> g_refcount pf' f = g_refcount pf f"
  shows "maps_ok (M(i := None)) B n w pf'"
proof -
  have fg: "frames_good M pf" using ok by (simp add: maps_ok_def)
  have "frames_good (M(i := None)) pf'"
  proof (rule frames_goodI)
    show "pfa_inv pf'" by (rule pf(1))
    show "0 < g_refcount pf' f \<and> f < g_tracked_pages pf'" if q: "(M(i := None)) k = Some q" "f \<in> span q" for k q f
    proof -
      have k: "k \<noteq> i" "M k = Some q" using q by (auto split: if_splits)
      then have "f \<notin> span ob" using frames_goodD(3) [OF fg k(2) i k(1)] q(2) by blast
      then show ?thesis using frames_goodD(2) [OF fg k(2) q(2)] pf by simp
    qed
    show "span q \<inter> span r = {}" if "(M(i := None)) k = Some q" "(M(i := None)) j = Some r" "k < j" for k j q r
      using that frames_goodD(3) [OF fg, of k q j r] by (auto split: if_splits)
  qed
  moreover have "graph_ok (M(i := None)) B"
  proof -
    have "borrow_good (M(i := None)) B j s" if "borrow_good M B j s" "b_buffer_id s \<noteq> i" for j s
      using that by (auto simp: borrow_good_def)
    then show ?thesis using ok nb unfolding maps_ok_def graph_ok_def by blast
  qed
  ultimately show ?thesis using ok by (auto simp: maps_ok_def)
qed

end
