(* ===== verification/Xfer_ops.thy ===== *)
theory Xfer_ops
  imports Xfer_inv
begin

unbundle bit_operations_syntax

section \<open>The operations keep the invariant\<close>

text \<open>One lemma per entry point of \<open>xfer_buffer.c\<close>; what it does to the two maps is on the way.\<close>

lemma xinv_store: "xinv st \<Longrightarrow> store_ok st"
  by (simp add: xinv_def)

lemma xinv_maps: "xinv st \<Longrightarrow> maps_ok (Objs st) (Bors st) (g_next_buffer_id st) (g_next_borrow_id st) (x_frames st)"
  by (simp add: xinv_def)

lemma same_maps: "same st st' \<Longrightarrow> Objs st' = Objs st \<and> Bors st' = Bors st \<and> x_frames st' = x_frames st"
  by (simp add: same_def)

lemma put_object:
  assumes "store_ok st" "g_initialized st" "(p, s) \<in> set (list_view (g_objects st))" "o_active s"
    "o_active s'" "o_buffer_id s' = o_buffer_id s"
  shows "store_ok (st\<lparr>g_objects := list_write p s' (g_objects st)\<rparr>)"
    and "object_at (list_write p s' (g_objects st)) = (Objs st)(o_buffer_id s \<mapsto> s')"
  using write_active [of o_active o_buffer_id "g_objects st" p s s'] assms by (simp_all add: store_ok_def)

lemma drop_slot:
  assumes "store_ok st" "g_initialized st" "(p, s) \<in> set (list_view (g_objects st))" "o_active s"
  shows "store_ok (st\<lparr>g_objects := list_write p (s\<lparr>o_active := False\<rparr>) (g_objects st)\<rparr>)"
    and "object_at (list_write p (s\<lparr>o_active := False\<rparr>) (g_objects st)) = (Objs st)(o_buffer_id s := None)"
  using write_inactive [of o_active o_buffer_id "g_objects st" p s "s\<lparr>o_active := False\<rparr>"] assms by (simp_all add: store_ok_def)

lemma put_borrow:
  assumes "store_ok st" "g_initialized st" "(p, s) \<in> set (list_view (g_borrows st))" "b_active s"
    "b_active s'" "b_borrow_id s' = b_borrow_id s"
  shows "store_ok (st\<lparr>g_borrows := list_write p s' (g_borrows st)\<rparr>)"
    and "borrow_at (list_write p s' (g_borrows st)) = (Bors st)(b_borrow_id s \<mapsto> s')"
  using write_active [of b_active b_borrow_id "g_borrows st" p s s'] assms by (simp_all add: store_ok_def)

lemma kill_borrows:
  assumes "store_ok st" "g_initialized st" "killed K (g_borrows st) l"
  shows "store_ok (st\<lparr>g_borrows := l\<rparr>)" and "borrow_at l = Bors st |` (- K)"
  using killed_ok [of "g_borrows st" K l] assms by (simp_all add: store_ok_def)

lemma range_within_iff: "n < 2 ^ 32 \<Longrightarrow> range_within n off len \<longleftrightarrow> 0 < len \<and> off + len \<le> n"
  by (auto simp: range_within_def sub32_exact)

lemma maps_frames:
  assumes ok: "maps_ok M B n w pf" and pf: "pfa_inv pf'" "g_tracked_pages pf' = g_tracked_pages pf"
    "\<And>i ob f. M i = Some ob \<Longrightarrow> f \<in> span ob \<Longrightarrow> 0 < g_refcount pf' f"
  shows "maps_ok M B n w pf'"
proof -
  have fg: "frames_good M pf" using ok by (simp add: maps_ok_def)
  have "frames_good M pf'"
    by (rule frames_goodI) (use frames_goodD [OF fg] pf in \<open>auto\<close>)
  then show ?thesis using ok by (simp add: maps_ok_def)
qed

subsection \<open>Acquire and release\<close>

lemma pages_positive: "0 < o_size_bytes ob \<Longrightarrow> 0 < pages ob"
  by (simp add: pages_def XFER_PAGE_SIZE_def div_greater_zero_iff)

lemma backing_transfer:
  assumes inv: "pfa_inv pf" and a: "object_alloc_backing fb BUFFER_KIND_TRANSFER sz pf = (phys, pf')"
  shows "phys = 0 \<and> pf' = pf \<or> alloc_post ((sz + XFER_PAGE_SIZE - 1) div XFER_PAGE_SIZE) phys pf pf'"
  using pfa_alloc_pages_nolock_ok [OF inv] a by (auto simp: object_alloc_backing_def pfa_alloc_pages_def split: if_splits)

lemma acquire_size_ok:
  assumes "acquire_size fb kind minimum = Inr sz" "0 < minimum" "kind = BUFFER_KIND_TRANSFER \<or> kind = BUFFER_KIND_FRAMEBUFFER"
  shows "0 < sz" "sz < 2 ^ 32" "minimum \<le> sz" "kind = BUFFER_KIND_TRANSFER \<Longrightarrow> sz mod 4096 = 0"
proof -
  have *: "minimum \<le> page_down (minimum + 4095)" "page_down (minimum + 4095) \<le> minimum + 4095" "page_down (minimum + 4095) mod 4096 = 0"
    using mod_less_divisor [of 4096 "minimum + 4095"] by (auto simp: page_down_def minus_mod_eq_mult_div)
  have "0 < sz \<and> sz < 2 ^ 32 \<and> minimum \<le> sz \<and> (kind = BUFFER_KIND_TRANSFER \<longrightarrow> sz mod 4096 = 0)"
    using assms * by (auto simp: acquire_size_def Let_def XFER_PAGE_SIZE_def XFER_TRANSFER_MAX_SIZE_def buffer_kinds
        framebuffer_capacity_def split: if_splits option.splits)
  then show "0 < sz" "sz < 2 ^ 32" "minimum \<le> sz" "kind = BUFFER_KIND_TRANSFER \<Longrightarrow> sz mod 4096 = 0" by auto
qed

text \<open>What taking the backing does to the allocator, for either kind of object.\<close>

lemma backing_frames:
  assumes ok: "maps_ok M B n w pf" and a: "object_alloc_backing fb kind sz pf = (phys, pf')"
    and kind: "kind = BUFFER_KIND_TRANSFER \<or> kind = BUFFER_KIND_FRAMEBUFFER"
  shows "maps_ok M B n w pf'"
    and "phys \<noteq> 0 \<Longrightarrow> kind = BUFFER_KIND_TRANSFER \<Longrightarrow> alloc_post ((sz + XFER_PAGE_SIZE - 1) div XFER_PAGE_SIZE) phys pf pf'"
    and "kind = BUFFER_KIND_FRAMEBUFFER \<Longrightarrow> pf' = pf"
proof -
  have inv: "pfa_inv pf" using ok by (simp add: maps_ok_def frames_good_def)
  show T: "alloc_post ((sz + XFER_PAGE_SIZE - 1) div XFER_PAGE_SIZE) phys pf pf'" if "phys \<noteq> 0" "kind = BUFFER_KIND_TRANSFER"
    using backing_transfer [OF inv] a that by blast
  show F: "pf' = pf" if "kind = BUFFER_KIND_FRAMEBUFFER"
    using a that by (auto simp: object_alloc_backing_def buffer_kinds split: option.splits)
  show "maps_ok M B n w pf'"
  proof (cases "pf' = pf")
    case False
    then have "alloc_post ((sz + XFER_PAGE_SIZE - 1) div XFER_PAGE_SIZE) phys pf pf'"
      using F kind backing_transfer [OF inv] a by blast
    then have p: "pfa_inv pf'" "g_tracked_pages pf' = g_tracked_pages pf" "\<And>f. 0 < g_refcount pf f \<Longrightarrow> 0 < g_refcount pf' f"
      by (auto simp: alloc_post_def)
    have "frames_good M pf" using ok by (simp add: maps_ok_def)
    then show ?thesis using maps_frames [OF ok p(1,2)] p(3) frames_goodD(2) by blast
  qed (use ok in simp)
qed

lemma acquired_maps:
  assumes ok: "maps_ok M B n w pf" and b: "object_alloc_backing fb kind sz pf = (phys, pf')"
    and kind: "kind = BUFFER_KIND_TRANSFER \<or> kind = BUFFER_KIND_FRAMEBUFFER" and c: "c \<noteq> 0" and phys: "phys \<noteq> 0"
    and sz: "0 < sz" "sz < 2 ^ 32" "minimum \<le> sz" "kind = BUFFER_KIND_TRANSFER \<Longrightarrow> sz mod 4096 = 0"
  shows "maps_ok (M(n \<mapsto> \<lparr>o_active = True, o_kind = kind, o_buffer_id = n, o_size_bytes = sz, o_owner = c, o_phys_base = phys,
        o_dma_active = False, o_dma_offset = 0, o_dma_length = 0, o_dma_direction = 0\<rparr>)) B (Suc n) w pf'"
    (is "maps_ok (M(n \<mapsto> ?s)) B (Suc n) w pf'")
proof -
  note bf = backing_frames [OF ok b kind]
  have pg: "pages ?s = (sz + XFER_PAGE_SIZE - 1) div XFER_PAGE_SIZE" by (simp add: pages_def)
  have post: "alloc_post (pages ?s) phys pf pf'" if "kind = BUFFER_KIND_TRANSFER"
    using bf(2) [OF phys that] by (simp add: pg)
  have inv: "pfa_inv pf" "pfa_inv pf'" using ok bf(1) by (simp_all add: maps_ok_def frames_good_def)
  have tr: "f < g_tracked_pages pf" if "f \<in> free_frames pf" for f
    using inv(1) that by (simp add: pfa_inv_def free_frames_def)
  have good: "object_good ?s" using kind c sz post by (auto simp: object_good_def alloc_post_def)
  have sp: "span ?s = (if kind = BUFFER_KIND_TRANSFER then extent phys (pages ?s) else {})" by (simp add: span_def)
  show ?thesis
  proof (rule maps_add_object [OF ok good inv(2)])
    show "span ?s \<subseteq> free_frames pf" using post sp by (auto simp: alloc_post_def)
    show "\<forall>f\<in>span ?s. 0 < g_refcount pf' f \<and> f < g_tracked_pages pf'"
      using post sp by (auto simp: alloc_post_def intro!: tr)
    show "\<forall>f. f \<notin> span ?s \<longrightarrow> g_refcount pf' f = g_refcount pf f" "g_tracked_pages pf' = g_tracked_pages pf"
      using post sp bf(3) kind by (auto simp: alloc_post_def)
  qed
qed

lemma acquire_inv:
  assumes inv: "xinv st" and fr: "fresh_for (g_objects (snd (registry_init_once mi st))) mem"
    and ids: "Suc (g_next_buffer_id st) < 2 ^ 32" and run: "xfer_buffer_acquire mi mem fb kind c minimum st = (r, st')"
  shows "xinv st'"
proof -
  obtain e st1 where i: "registry_init_once mi st = (e, st1)" by (cases "registry_init_once mi st")
  have sm: "same st st1" using init_same(1) [OF xinv_store [OF inv] i] .
  have inv1: "xinv st1" by (rule same_inv [OF inv sm])
  show ?thesis
  proof (cases "(kind = BUFFER_KIND_TRANSFER \<or> kind = BUFFER_KIND_FRAMEBUFFER) \<and> c \<noteq> 0 \<and> 0 < minimum \<and> e = 0
      \<and> (\<exists>sz. acquire_size fb kind minimum = Inr sz)")
    case False
    then have "st' = st \<or> st' = st1"
      using run i by (auto simp: xfer_buffer_acquire_def split: if_splits sum.splits)
    then show ?thesis using inv inv1 by blast
  next
    case True
    then obtain sz where k: "kind = BUFFER_KIND_TRANSFER \<or> kind = BUFFER_KIND_FRAMEBUFFER" "c \<noteq> 0" "0 < minimum" "e = 0"
      and sz: "acquire_size fb kind minimum = Inr sz" by blast
    obtain phys pf where b: "object_alloc_backing fb kind sz (x_frames st1) = (phys, pf)"
      by (cases "object_alloc_backing fb kind sz (x_frames st1)")
    note bf = backing_frames [OF xinv_maps [OF inv1] b k(1)]
    define st2 where "st2 = st1\<lparr>x_frames := pf\<rparr>"
    have inv2: "xinv st2" using bf(1) inv1 by (simp add: xinv_def store_ok_def st2_def)
    have init: "g_initialized st1" using init_same(2) [OF xinv_store [OF inv] i k(4)] .
    have ok: "objects_ok (g_objects st1)" using xinv_store [OF inv1] init by (simp add: store_ok_def)
    have f: "fresh_for (g_objects st1) mem" using fr i by simp
    obtain q l where q: "object_alloc mem (g_objects st1) = (q, l)" by (cases "object_alloc mem (g_objects st1)")
    consider (none) "st' = st2" | (full) "q = None" "st' = st2\<lparr>g_objects := l\<rparr>"
      | (made) p where "phys \<noteq> 0" "q = Some p"
      "st' = st2\<lparr>g_objects := list_write p \<lparr>o_active = True, o_kind = kind, o_buffer_id = g_next_buffer_id st2, o_size_bytes = sz,
           o_owner = c, o_phys_base = phys, o_dma_active = False, o_dma_offset = 0, o_dma_length = 0, o_dma_direction = 0\<rparr> l,
           g_next_buffer_id := add32 (g_next_buffer_id st2) 1\<rparr>"
      using run i k sz b q by (auto simp: xfer_buffer_acquire_def Let_def st2_def buffer_kinds split: if_splits option.splits)
    then show ?thesis
    proof cases
      case none
      then show ?thesis using inv2 by simp
    next
      case full
      have "objects_ok l \<and> object_at l = Objs st1"
        using slot_alloc_None [OF ok f] q full(1) unfolding object_alloc_def by blast
      then show ?thesis using inv2 full(2) init by (simp add: xinv_def store_ok_def st2_def)
    next
      case made
      let ?n = "g_next_buffer_id st1"
      let ?s = "\<lparr>o_active = True, o_kind = kind, o_buffer_id = ?n, o_size_bytes = sz, o_owner = c, o_phys_base = phys,
        o_dma_active = False, o_dma_offset = 0, o_dma_length = 0, o_dma_direction = 0 :: u32\<rparr>"
      have new: "Objs st1 ?n = None" using maps_fresh [OF xinv_maps [OF inv1]] by simp
      have "\<not> o_active zero_object" by (simp add: zero_object_def)
      then have cl: "objects_ok (list_write p ?s l)" "object_at (list_write p ?s l) = (Objs st1)(?n \<mapsto> ?s)"
        using claim_slot [OF ok f, of zero_object p l ?s] q made(2) new by (simp_all add: object_alloc_def)
      have m: "maps_ok ((Objs st1)(?n \<mapsto> ?s)) (Bors st1) (Suc ?n) (g_next_borrow_id st1) pf"
        using acquired_maps [OF xinv_maps [OF inv1] b k(1,2) made(1) acquire_size_ok [OF sz k(3,1)]] .
      have "add32 ?n 1 = Suc ?n" using ids sm by (simp add: same_def add32_exact)
      then show ?thesis using m cl made(3) inv2 init by (simp add: xinv_def store_ok_def st2_def)
    qed
  qed
qed

lemma free_backing_ok:
  assumes ok: "maps_ok M B n w pf" and i: "M i = Some s"
  shows "\<exists>pf'. object_free_backing s pf = Inr pf' \<and> pfa_inv pf' \<and> g_tracked_pages pf' = g_tracked_pages pf
    \<and> (\<forall>f. g_refcount pf' f = (if f \<in> span s then g_refcount pf f - 1 else g_refcount pf f))"
proof (cases "o_kind s = BUFFER_KIND_TRANSFER")
  case False
  then show ?thesis using ok by (auto simp: object_free_backing_def span_def maps_ok_def frames_good_def)
next
  case True
  have fg: "frames_good M pf" using ok by (simp add: maps_ok_def)
  have g: "object_good s" using ok i by (simp add: maps_ok_def)
  have e: "extent_ok (o_phys_base s) (pages s)" using g True by (simp add: object_good_def)
  have n: "0 < pages s" using g pages_positive by (simp add: object_good_def)
  have sp: "span s = extent (o_phys_base s) (pages s)" using True by (simp add: span_def)
  have "frame_of (o_phys_base s) + (pages s - 1) \<in> span s" using n sp by (simp add: extent_def)
  then have "frame_of (o_phys_base s) + (pages s - 1) < g_tracked_pages pf" using frames_goodD(2) [OF fg i] by blast
  then have t: "frame_of (o_phys_base s) + pages s \<le> g_tracked_pages pf" using n by simp
  obtain pf' where "pfa_free_pages (o_phys_base s) (pages s) pf = Inr pf'" "free_post (o_phys_base s) 0 (pages s) 0 pf pf'"
    using pfa_free_pages_ok [OF frames_goodD(1) [OF fg] e t] frames_goodD(2) [OF fg i] sp by blast
  moreover have "o_phys_base s \<noteq> 0" using e by (simp add: extent_ok_def)
  ultimately show ?thesis
    using True sp by (auto simp: object_free_backing_def free_post_def extent_def pages_def)
qed

lemma borrow_tree_ok:
  assumes "xinv st" "g_initialized st"
  shows "tree_ok (g_borrows st)"
proof -
  have ok: "borrows_ok (g_borrows st)" using assms by (simp add: xinv_def store_ok_def)
  have m: "maps_ok (Objs st) (Bors st) (g_next_buffer_id st) (g_next_borrow_id st) (x_frames st)" using assms by (rule_tac xinv_maps)
  have "b_parent s < i" if "Bors st i = Some s" for i s
  proof -
    have "borrow_good (Objs st) (Bors st) i s" "0 < i" using m that by (auto simp: maps_ok_def graph_ok_def)
    then show ?thesis by (cases "b_parent s = 0") (auto simp: borrow_good_def)
  qed
  then show ?thesis using ok by (simp add: tree_ok_def)
qed

lemma owned_release_ok:
  assumes inv: "xinv st"
  obtains r st' where "xfer_buffer_release_owned mi ow st = Inr (r, st')" "xinv st'"
proof -
  obtain q st1 where f: "object_find mi (ow_buffer ow) st = (q, st1)" by (cases "object_find mi (ow_buffer ow) st")
  note fo = object_find_ok [OF xinv_store [OF inv] f]
  have inv1: "xinv st1" by (rule same_inv [OF inv fo(1)])
  show ?thesis
  proof (cases "\<exists>p s. q = Some (p, s) \<and> o_owner s = ow_context ow \<and> \<not> o_dma_active s")
    case False
    then have "\<exists>r. xfer_buffer_release_owned mi ow st = Inr (r, st1)"
      using f by (auto simp: xfer_buffer_release_owned_def split: option.splits)
    then show ?thesis using that inv1 by blast
  next
    case True
    then obtain p s where q: "q = Some (p, s)" "o_owner s = ow_context ow" "\<not> o_dma_active s" by blast
    note s = fo(2) [OF q(1)]
    let ?k = "xb_id (ow_buffer ow)"
    let ?K = "{i. \<exists>t. Bors st1 i = Some t \<and> b_buffer_id t = ?k}"
    define l where "l = object_revoke_all_borrows (o_buffer_id s) (g_borrows st1)"
    have O1: "Objs st1 ?k = Some s" using s same_maps [OF fo(1)] by simp
    have m: "maps_ok (Objs st1) (Bors st1) (g_next_buffer_id st1) (g_next_borrow_id st1) (x_frames st1)" by (rule xinv_maps [OF inv1])
    have bo: "borrows_ok (g_borrows st1)" using inv1 s by (simp add: xinv_def store_ok_def)
    have k: "killed ?K (g_borrows st1) l" using revoke_all_ok [OF bo, of ?k] s by (simp add: l_def)
    note kb = kill_borrows [OF xinv_store [OF inv1] _ k]
    have closed: "i \<in> ?K" if t: "Bors st1 i = Some t" "b_parent t \<in> ?K" "b_parent t \<noteq> 0" for i t
    proof -
      have "borrow_good (Objs st1) (Bors st1) i t" using m t(1) by (simp add: maps_ok_def graph_ok_def)
      then show ?thesis using t by (auto simp: borrow_good_def)
    qed
    have m2: "maps_ok (Objs st1) (Bors st1 |` (- ?K)) (g_next_buffer_id st1) (g_next_borrow_id st1) (x_frames st1)"
      by (rule maps_cut [OF m]) (rule closed)
    obtain pf where pf: "object_free_backing s (x_frames st1) = Inr pf" "pfa_inv pf" "g_tracked_pages pf = g_tracked_pages (x_frames st1)"
      "\<forall>f. g_refcount pf f = (if f \<in> span s then g_refcount (x_frames st1) f - 1 else g_refcount (x_frames st1) f)"
      using free_backing_ok [OF m O1] by blast
    have m3: "maps_ok ((Objs st1)(?k := None)) (Bors st1 |` (- ?K)) (g_next_buffer_id st1) (g_next_borrow_id st1) pf"
      by (rule maps_drop_object [OF m2 O1 _ pf(2,3)]) (use pf(4) in \<open>auto simp: restrict_map_def split: if_splits\<close>)
    let ?st' = "st1\<lparr>g_borrows := l, x_frames := pf, g_objects := list_write p (s\<lparr>o_active := False\<rparr>) (g_objects st1)\<rparr>"
    have "xfer_buffer_release_owned mi ow st = Inr (Inr (), ?st')"
      using f q pf(1) by (simp add: xfer_buffer_release_owned_def Let_def l_def)
    moreover have "xinv ?st'"
      using m3 kb drop_slot [OF xinv_store [OF inv1]] s by (simp add: xinv_def store_ok_def)
    ultimately show ?thesis using that by blast
  qed
qed

lemma transfer_inv:
  assumes inv: "xinv st" and run: "xfer_buffer_transfer_ownership mi ow c st = (r, st')"
  shows "xinv st'"
proof -
  obtain q st1 where f: "object_find mi (ow_buffer ow) st = (q, st1)" by (cases "object_find mi (ow_buffer ow) st")
  note fo = object_find_ok [OF xinv_store [OF inv] f]
  have inv1: "xinv st1" by (rule same_inv [OF inv fo(1)])
  show ?thesis
  proof (cases "\<exists>p s st2. q = Some (p, s) \<and> c \<noteq> 0 \<and> o_kind s = BUFFER_KIND_TRANSFER
      \<and> object_has_active_borrow mi (o_buffer_id s) st1 = (False, st2)
      \<and> st' = st2\<lparr>g_objects := list_write p (s\<lparr>o_owner := c\<rparr>) (g_objects st2)\<rparr>")
    case True
    then obtain p s st2 where q: "q = Some (p, s)" "c \<noteq> 0" "o_kind s = BUFFER_KIND_TRANSFER"
      "object_has_active_borrow mi (o_buffer_id s) st1 = (False, st2)"
      "st' = st2\<lparr>g_objects := list_write p (s\<lparr>o_owner := c\<rparr>) (g_objects st2)\<rparr>" by blast
    note s = fo(2) [OF q(1)]
    note hb = has_active_borrow_ok [OF xinv_store [OF inv1] q(4)]
    have eq: "st2 = st1" using hb(1) s by (simp add: same_def)
    have O1: "Objs st1 (o_buffer_id s) = Some s" using s same_maps [OF fo(1)] by simp
    have m: "maps_ok (Objs st1) (Bors st1) (g_next_buffer_id st1) (g_next_borrow_id st1) (x_frames st1)" by (rule xinv_maps [OF inv1])
    have "object_good s" using m O1 by (simp add: maps_ok_def)
    then have "object_good (s\<lparr>o_owner := c\<rparr>)" using q(2) by (simp add: object_good_def pages_def)
    then have "maps_ok ((Objs st1)(o_buffer_id s \<mapsto> s\<lparr>o_owner := c\<rparr>)) (Bors st1) (g_next_buffer_id st1) (g_next_borrow_id st1) (x_frames st1)"
      using maps_set_object [OF m O1] hb(2) by simp
    then show ?thesis
      using q(5) eq put_object [OF xinv_store [OF inv1], of p s "s\<lparr>o_owner := c\<rparr>"] s by (simp add: xinv_def store_ok_def)
  next
    case False
    have "xinv st2" if "object_has_active_borrow mi k st1 = (b, st2)" for k b st2
      using same_inv [OF inv1 has_active_borrow_ok(1) [OF xinv_store [OF inv1] that]] .
    then show ?thesis
      using False run f inv1 by (auto simp: xfer_buffer_transfer_ownership_def split: if_splits option.splits prod.splits)
  qed
qed

subsection \<open>Borrow, reborrow, unborrow\<close>

lemma object_find_init: "object_find mi b st = (Some q, st1) \<Longrightarrow> registry_init_once mi st = (0, st1)"
  by (auto simp: object_find_def split: if_splits prod.splits)

lemma borrow_find_init: "borrow_find mi k st = (Some q, st1) \<Longrightarrow> registry_init_once mi st = (0, st1)"
  by (auto simp: borrow_find_def split: if_splits prod.splits)

lemma same_initialized: "same st st1 \<Longrightarrow> g_initialized st \<Longrightarrow> st1 = st"
  by (simp add: same_def)

lemma attach_inv:
  assumes inv: "xinv st" and init: "g_initialized st" and f: "fresh_for (g_borrows st) mem"
    and ids: "Suc (g_next_borrow_id st) < 2 ^ 32"
    and ob: "Objs st (o_buffer_id ob) = Some ob" and fl: "valid_flags flags" "c \<noteq> 0"
    and par: "if parent = 0 then lender = o_owner ob \<and> (c = o_owner ob \<longleftrightarrow> o_kind ob = BUFFER_KIND_FRAMEBUFFER)
      else o_kind ob \<noteq> BUFFER_KIND_FRAMEBUFFER \<and> (\<exists>t. Bors st parent = Some t \<and> b_buffer_id t = o_buffer_id ob
             \<and> lender = b_borrower t \<and> flags AND b_flags t = flags)"
    and un: "\<And>i t. Bors st i = Some t \<Longrightarrow> \<not> (b_buffer_id t = o_buffer_id ob \<and> b_borrower t = c)"
    and run: "attach_borrow mem ob parent lender c flags st = (r, st')"
  shows "xinv st'"
proof -
  have ok: "borrows_ok (g_borrows st)" using inv init by (simp add: xinv_def store_ok_def)
  have m: "maps_ok (Objs st) (Bors st) (g_next_buffer_id st) (g_next_borrow_id st) (x_frames st)" by (rule xinv_maps [OF inv])
  obtain q l where q: "borrow_alloc mem (g_borrows st) = (q, l)" by (cases "borrow_alloc mem (g_borrows st)")
  let ?w = "g_next_borrow_id st"
  let ?s = "\<lparr>b_active = True, b_borrow_id = ?w, b_parent = parent, b_buffer_id = o_buffer_id ob, b_kind = o_kind ob,
     b_lender = lender, b_borrower = c, b_flags = flags, b_dma_active = False, b_dma_offset = 0, b_dma_length = 0, b_dma_direction = 0\<rparr>"
  show ?thesis
  proof (cases q)
    case None
    then have "borrows_ok l \<and> borrow_at l = Bors st"
      using slot_alloc_None [OF ok f] q unfolding borrow_alloc_def by blast
    then show ?thesis using run q None inv init by (auto simp: attach_borrow_def xinv_def store_ok_def)
  next
    case (Some p)
    have new: "Bors st ?w = None" using maps_fresh [OF m] by simp
    have "\<not> b_active zero_borrow" by (simp add: zero_borrow_def)
    then have cl: "borrows_ok (list_write p ?s l)" "borrow_at (list_write p ?s l) = (Bors st)(?w \<mapsto> ?s)"
      using claim_slot [OF ok f, of zero_borrow p l ?s] q Some new by (simp_all add: borrow_alloc_def)
    have "parent < ?w" if "parent \<noteq> 0" using par that m by (auto simp: maps_ok_def)
    then have good: "borrow_good (Objs st) (Bors st) ?w ?s" using ob fl par by (auto simp: borrow_good_def split: if_splits)
    have un': "\<forall>i t. Bors st i = Some t \<longrightarrow> \<not> (b_buffer_id t = b_buffer_id ?s \<and> b_borrower t = b_borrower ?s)"
      using un by simp
    have "maps_ok (Objs st) ((Bors st)(?w \<mapsto> ?s)) (g_next_buffer_id st) (Suc ?w) (x_frames st)"
      by (rule maps_add_borrow [OF m good un'])
    moreover have "add32 ?w 1 = Suc ?w" using ids by (simp add: add32_exact)
    moreover have "st' = st\<lparr>g_borrows := list_write p ?s l, g_next_borrow_id := add32 ?w 1\<rparr>"
      using run q Some by (simp add: attach_borrow_def Let_def)
    ultimately show ?thesis using cl inv init by (simp add: xinv_def store_ok_def)
  qed
qed

lemma borrow_inv:
  assumes inv: "xinv st" and fr: "fresh_for (g_borrows (snd (registry_init_once mi st))) mem"
    and ids: "Suc (g_next_borrow_id st) < 2 ^ 32" and run: "xfer_buffer_borrow mi mem ow c flags st = (r, st')"
  shows "xinv st'"
proof -
  obtain q st1 where f: "object_find mi (ow_buffer ow) st = (q, st1)" by (cases "object_find mi (ow_buffer ow) st")
  note fo = object_find_ok [OF xinv_store [OF inv] f]
  have inv1: "xinv st1" by (rule same_inv [OF inv fo(1)])
  have fnd: "xinv st2" if "borrow_find_for mi k d st1 = (b, st2)" for k d b st2
    using same_inv [OF inv1 borrow_find_for_ok(1) [OF xinv_store [OF inv1] that]] .
  show ?thesis
  proof (cases "\<exists>p s st2. q = Some (p, s) \<and> c \<noteq> 0 \<and> valid_flags flags \<and> (c = o_owner s \<longleftrightarrow> o_kind s = BUFFER_KIND_FRAMEBUFFER)
      \<and> borrow_find_for mi (o_buffer_id s) c st1 = (None, st2) \<and> attach_borrow mem s 0 (o_owner s) c flags st2 = (r, st')")
    case True
    then obtain p s st2 where q: "q = Some (p, s)" "c \<noteq> 0" "valid_flags flags" "c = o_owner s \<longleftrightarrow> o_kind s = BUFFER_KIND_FRAMEBUFFER"
      "borrow_find_for mi (o_buffer_id s) c st1 = (None, st2)" "attach_borrow mem s 0 (o_owner s) c flags st2 = (r, st')" by blast
    note s = fo(2) [OF q(1)]
    note bf = borrow_find_for_ok [OF xinv_store [OF inv1] q(5)]
    have eq: "st2 = st1" using same_initialized [OF bf(1)] s by simp
    have "fresh_for (g_borrows st1) mem" using fr object_find_init [OF f [unfolded q(1)]] by simp
    moreover have "Suc (g_next_borrow_id st1) < 2 ^ 32" using ids fo(1) by (simp add: same_def)
    moreover have "Objs st1 (o_buffer_id s) = Some s" using s same_maps [OF fo(1)] by simp
    ultimately show ?thesis
      using attach_inv [OF inv1 _ _ _ _ q(3,2) _ _ q(6) [unfolded eq]] bf(3) s q(4) by auto
  next
    case False
    have "st' = st \<or> st' = st1 \<or> (\<exists>k d b. borrow_find_for mi k d st1 = (b, st'))"
      using False run f by (auto simp: xfer_buffer_borrow_def split: if_splits option.splits prod.splits)
    then show ?thesis using inv inv1 fnd by blast
  qed
qed

lemma reborrow_inv:
  assumes inv: "xinv st" and fr: "fresh_for (g_borrows (snd (registry_init_once mi st))) mem"
    and ids: "Suc (g_next_borrow_id st) < 2 ^ 32" and run: "xfer_buffer_reborrow mi mem up c flags st = (r, st')"
  shows "xinv st'"
proof -
  obtain q st1 where f: "borrow_find mi (bw_id up) st = (q, st1)" by (cases "borrow_find mi (bw_id up) st")
  note fo = borrow_find_ok [OF xinv_store [OF inv] f]
  have inv1: "xinv st1" by (rule same_inv [OF inv fo(1)])
  show ?thesis
  proof (cases "\<exists>p t o1 ob st2 st3. q = Some (p, t) \<and> c \<noteq> 0 \<and> valid_flags flags \<and> flags AND b_flags t = flags
      \<and> b_kind t \<noteq> BUFFER_KIND_FRAMEBUFFER \<and> object_find_by_id mi (b_buffer_id t) st1 = (Some (o1, ob), st2)
      \<and> borrow_find_for mi (b_buffer_id t) c st2 = (None, st3)
      \<and> attach_borrow mem ob (b_borrow_id t) (b_borrower t) c flags st3 = (r, st')")
    case True
    then obtain p t o1 ob st2 st3 where q: "q = Some (p, t)" "c \<noteq> 0" "valid_flags flags" "flags AND b_flags t = flags"
      "b_kind t \<noteq> BUFFER_KIND_FRAMEBUFFER" "object_find_by_id mi (b_buffer_id t) st1 = (Some (o1, ob), st2)"
      "borrow_find_for mi (b_buffer_id t) c st2 = (None, st3)"
      "attach_borrow mem ob (b_borrow_id t) (b_borrower t) c flags st3 = (r, st')" by blast
    note t = fo(2) [OF q(1)]
    note oi = object_find_by_id_ok [OF xinv_store [OF inv1] q(6)]
    have e2: "st2 = st1" using same_initialized [OF oi(1)] t by simp
    note bf = borrow_find_for_ok [OF xinv_store [OF inv1] q(7) [unfolded e2]]
    have e3: "st3 = st1" using same_initialized [OF bf(1)] t by simp
    have ob: "Objs st1 (o_buffer_id ob) = Some ob" "o_buffer_id ob = b_buffer_id t" using oi(2) by auto
    have B1: "Bors st1 (b_borrow_id t) = Some t" using t same_maps [OF fo(1)] by simp
    have m: "maps_ok (Objs st1) (Bors st1) (g_next_buffer_id st1) (g_next_borrow_id st1) (x_frames st1)" by (rule xinv_maps [OF inv1])
    have "0 < b_borrow_id t" using m B1 by (auto simp: maps_ok_def)
    moreover have "o_kind ob \<noteq> BUFFER_KIND_FRAMEBUFFER"
      using graph_borrowD [of "Objs st1" "Bors st1" "b_borrow_id t" t] m B1 ob q(5) by (auto simp: maps_ok_def)
    moreover have "fresh_for (g_borrows st1) mem" using fr borrow_find_init [OF f [unfolded q(1)]] by simp
    moreover have "Suc (g_next_borrow_id st1) < 2 ^ 32" using ids fo(1) by (simp add: same_def)
    ultimately show ?thesis
      using attach_inv [OF inv1 _ _ _ ob(1) q(3,2) _ _ q(8) [unfolded e3]] bf(3) t B1 ob(2) q(4) by auto
  next
    case False
    have "xinv st2" if "object_find_by_id mi k st1 = (b, st2)" for k b st2
      using same_inv [OF inv1 object_find_by_id_ok(1) [OF xinv_store [OF inv1] that]] .
    moreover have "xinv st3" if "xinv st2" "borrow_find_for mi k d st2 = (b, st3)" for k d b st2 st3
      using same_inv [OF that(1) borrow_find_for_ok(1) [OF xinv_store [OF that(1)] that(2)]] .
    moreover have "st' = st \<or> st' = st1 \<or> (\<exists>k b. object_find_by_id mi k st1 = (b, st'))
      \<or> (\<exists>k b st2 k' d b'. object_find_by_id mi k st1 = (b, st2) \<and> borrow_find_for mi k' d st2 = (b', st'))"
      using False run f by (auto simp: xfer_buffer_reborrow_def split: if_splits option.splits prod.splits)
    ultimately show ?thesis using inv inv1 by blast
  qed
qed

lemma desc_step: "borrows_ok l \<Longrightarrow> borrow_at l i = Some s \<Longrightarrow> b_parent s \<in> desc l x \<Longrightarrow> i \<in> desc l x"
  using desc_closed child_at by blast

lemma cut_inv:
  assumes inv: "xinv st" and init: "g_initialized st" and k: "killed (\<Union>i \<in> R. desc (g_borrows st) i) (g_borrows st) l"
  shows "xinv (st\<lparr>g_borrows := l\<rparr>)"
proof -
  let ?K = "\<Union>i \<in> R. desc (g_borrows st) i"
  have ok: "borrows_ok (g_borrows st)" using inv init by (simp add: xinv_def store_ok_def)
  have "maps_ok (Objs st) (Bors st |` (- ?K)) (g_next_buffer_id st) (g_next_borrow_id st) (x_frames st)"
    by (rule maps_cut [OF xinv_maps [OF inv]]) (use desc_step [OF ok] in blast)
  then show ?thesis using kill_borrows [OF xinv_store [OF inv] init k] by (simp add: xinv_def)
qed

lemma unborrow_ok:
  assumes inv: "xinv st"
  obtains r st' where "xfer_buffer_unborrow mi bw st = Some (r, st')" "xinv st'"
proof -
  obtain q st1 where f: "borrow_find mi (bw_id bw) st = (q, st1)" by (cases "borrow_find mi (bw_id bw) st")
  note fo = borrow_find_ok [OF xinv_store [OF inv] f]
  have inv1: "xinv st1" by (rule same_inv [OF inv fo(1)])
  show ?thesis
  proof (cases "\<exists>p s. q = Some (p, s) \<and> \<not> b_dma_active s")
    case True
    then obtain p s where q: "q = Some (p, s)" "\<not> b_dma_active s" by blast
    have init: "g_initialized st1" using fo(2) [OF q(1)] by simp
    obtain l where l: "borrow_revoke_tree (b_borrow_id s) (g_borrows st1) = Some l"
      "killed (desc (g_borrows st1) (b_borrow_id s)) (g_borrows st1) l"
      using revoke_tree_ok [OF borrow_tree_ok [OF inv1 init]] by blast
    have "xinv (st1\<lparr>g_borrows := l\<rparr>)" using cut_inv [OF inv1 init, of "{b_borrow_id s}" l] l(2) by simp
    then show ?thesis using that f q l(1) by (simp add: xfer_buffer_unborrow_def)
  next
    case False
    then have "\<exists>r. xfer_buffer_unborrow mi bw st = Some (r, st1)"
      using f by (auto simp: xfer_buffer_unborrow_def split: option.splits)
    then show ?thesis using that inv1 by blast
  qed
qed

subsection \<open>DMA windows\<close>

lemma set_object_inv:
  assumes inv: "xinv st" and init: "g_initialized st" and p: "(p, s) \<in> set (list_view (g_objects st))" "o_active s"
    and s: "Objs st (o_buffer_id s) = Some s" and s': "object_good s'" "o_active s'" "o_buffer_id s' = o_buffer_id s"
    "o_kind s' = o_kind s" "o_size_bytes s' = o_size_bytes s" "o_phys_base s' = o_phys_base s" "o_owner s' = o_owner s"
  shows "xinv (st\<lparr>g_objects := list_write p s' (g_objects st)\<rparr>)"
proof -
  have "maps_ok ((Objs st)(o_buffer_id s \<mapsto> s')) (Bors st) (g_next_buffer_id st) (g_next_borrow_id st) (x_frames st)"
    using maps_set_object [OF xinv_maps [OF inv] s s'(1)] s' by simp
  then show ?thesis using put_object [OF xinv_store [OF inv] init p s'(2,3)] by (simp add: xinv_def)
qed

lemma set_borrow_inv:
  assumes inv: "xinv st" and init: "g_initialized st" and p: "(p, s) \<in> set (list_view (g_borrows st))" "b_active s"
    and s: "Bors st (b_borrow_id s) = Some s" and s': "borrow_good (Objs st) (Bors st) (b_borrow_id s) s'" "b_active s'"
    "b_borrow_id s' = b_borrow_id s" "b_buffer_id s' = b_buffer_id s" "b_borrower s' = b_borrower s" "b_flags s' = b_flags s"
  shows "xinv (st\<lparr>g_borrows := list_write p s' (g_borrows st)\<rparr>)"
proof -
  have "maps_ok (Objs st) ((Bors st)(b_borrow_id s \<mapsto> s')) (g_next_buffer_id st) (g_next_borrow_id st) (x_frames st)"
    using maps_set_borrow [OF xinv_maps [OF inv] s s'(1,4-6)] .
  then show ?thesis using put_borrow [OF xinv_store [OF inv] init p s'(2,3)] by (simp add: xinv_def)
qed

lemma xinv_object: "xinv st \<Longrightarrow> Objs st i = Some s \<Longrightarrow> object_good s"
  by (simp add: xinv_def maps_ok_def)

lemma xinv_borrow: "xinv st \<Longrightarrow> Bors st i = Some s \<Longrightarrow> borrow_good (Objs st) (Bors st) i s"
  by (simp add: xinv_def maps_ok_def graph_ok_def)

lemma map_owned_inv:
  assumes inv: "xinv st" and run: "xfer_buffer_dma_map_owned mi ow off len dir st = (r, st')"
  shows "xinv st'"
proof -
  obtain q st1 where f: "object_find mi (ow_buffer ow) st = (q, st1)" by (cases "object_find mi (ow_buffer ow) st")
  note fo = object_find_ok [OF xinv_store [OF inv] f]
  have inv1: "xinv st1" by (rule same_inv [OF inv fo(1)])
  show ?thesis
  proof (cases "\<exists>p s. q = Some (p, s) \<and> range_within (o_size_bytes s) off len \<and> st' = st1\<lparr>g_objects := list_write p
      (s\<lparr>o_dma_active := True, o_dma_offset := off, o_dma_length := len, o_dma_direction := dir\<rparr>) (g_objects st1)\<rparr>")
    case True
    then obtain p s where q: "q = Some (p, s)" "range_within (o_size_bytes s) off len" "st' = st1\<lparr>g_objects := list_write p
      (s\<lparr>o_dma_active := True, o_dma_offset := off, o_dma_length := len, o_dma_direction := dir\<rparr>) (g_objects st1)\<rparr>" by blast
    note s = fo(2) [OF q(1)]
    have O1: "Objs st1 (o_buffer_id s) = Some s" using s same_maps [OF fo(1)] by simp
    then have "object_good (s\<lparr>o_dma_active := True, o_dma_offset := off, o_dma_length := len, o_dma_direction := dir\<rparr>)"
      using xinv_object [OF inv1] q(2) by (auto simp: object_good_def range_within_iff pages_def)
    then show ?thesis using set_object_inv [OF inv1 _ _ _ O1] s q(3) by simp
  next
    case False
    then have "st' = st1"
      using run f by (auto simp: xfer_buffer_dma_map_owned_def Let_def split: if_splits option.splits)
    then show ?thesis using inv1 by simp
  qed
qed

lemma map_borrow_inv:
  assumes inv: "xinv st" and run: "xfer_buffer_dma_map_borrow mi bw off len dir st = (r, st')"
  shows "xinv st'"
proof -
  obtain q st1 where f: "borrow_find mi (bw_id bw) st = (q, st1)" by (cases "borrow_find mi (bw_id bw) st")
  note fo = borrow_find_ok [OF xinv_store [OF inv] f]
  have inv1: "xinv st1" by (rule same_inv [OF inv fo(1)])
  have fnd: "xinv st2" if "object_find_by_id mi k st1 = (b, st2)" for k b st2
    using same_inv [OF inv1 object_find_by_id_ok(1) [OF xinv_store [OF inv1] that]] .
  show ?thesis
  proof (cases "\<exists>p s o1 ob st2. q = Some (p, s) \<and> object_find_by_id mi (b_buffer_id s) st1 = (Some (o1, ob), st2)
      \<and> range_within (o_size_bytes ob) off len \<and> dma_direction_allowed (b_flags s) dir \<and> st' = st2\<lparr>g_borrows := list_write p
      (s\<lparr>b_dma_active := True, b_dma_offset := off, b_dma_length := len, b_dma_direction := dir\<rparr>) (g_borrows st2)\<rparr>")
    case True
    then obtain p s o1 ob st2 where q: "q = Some (p, s)" "object_find_by_id mi (b_buffer_id s) st1 = (Some (o1, ob), st2)"
      "range_within (o_size_bytes ob) off len" "dma_direction_allowed (b_flags s) dir" "st' = st2\<lparr>g_borrows := list_write p
      (s\<lparr>b_dma_active := True, b_dma_offset := off, b_dma_length := len, b_dma_direction := dir\<rparr>) (g_borrows st2)\<rparr>" by blast
    note s = fo(2) [OF q(1)]
    note oi = object_find_by_id_ok [OF xinv_store [OF inv1] q(2)]
    have e: "st2 = st1" using same_initialized [OF oi(1)] s by simp
    have B1: "Bors st1 (b_borrow_id s) = Some s" using s same_maps [OF fo(1)] by simp
    have ob: "Objs st1 (b_buffer_id s) = Some ob" using oi(2) by simp
    have "0 < len" "off + len \<le> o_size_bytes ob"
      using xinv_object [OF inv1 ob] q(3) by (auto simp: object_good_def range_within_iff)
    then have "borrow_good (Objs st1) (Bors st1) (b_borrow_id s)
        (s\<lparr>b_dma_active := True, b_dma_offset := off, b_dma_length := len, b_dma_direction := dir\<rparr>)"
      using xinv_borrow [OF inv1 B1] ob q(4) by (auto simp: borrow_good_def)
    then show ?thesis using set_borrow_inv [OF inv1 _ _ _ B1] s q(5) e by simp
  next
    case False
    then have "st' = st1 \<or> (\<exists>k b. object_find_by_id mi k st1 = (b, st'))"
      using run f by (auto simp: xfer_buffer_dma_map_borrow_def Let_def split: if_splits option.splits prod.splits)
    then show ?thesis using inv1 fnd by blast
  qed
qed

lemma unmap_inv:
  assumes inv: "xinv st" and run: "xfer_buffer_dma_unmap mi dm st = (r, st')"
  shows "xinv st'"
proof (cases "dm_active dm")
  case False
  then show ?thesis using run inv by (simp add: xfer_buffer_dma_unmap_def)
next
  case act: True
  show ?thesis
  proof (cases "dm_via_borrow dm")
    case True
    obtain q st1 where f: "borrow_find mi (dm_borrow dm) st = (q, st1)" by (cases "borrow_find mi (dm_borrow dm) st")
    note fo = borrow_find_ok [OF xinv_store [OF inv] f]
    have inv1: "xinv st1" by (rule same_inv [OF inv fo(1)])
    show ?thesis
    proof (cases q)
      case None
      then show ?thesis using run act True f inv1 by (auto simp: xfer_buffer_dma_unmap_def)
    next
      case (Some ps)
      obtain p s where ps: "ps = (p, s)" by (cases ps)
      note s = fo(2) [OF Some [unfolded ps]]
      have B1: "Bors st1 (b_borrow_id s) = Some s" using s same_maps [OF fo(1)] by simp
      have "borrow_good (Objs st1) (Bors st1) (b_borrow_id s) (s\<lparr>b_dma_active := False\<rparr>)"
        using xinv_borrow [OF inv1 B1] by (auto simp: borrow_good_def)
      then show ?thesis
        using set_borrow_inv [OF inv1 _ _ _ B1] s run act True f Some ps by (auto simp: xfer_buffer_dma_unmap_def)
    qed
  next
    case False
    let ?k = "xb_id (dm_buffer dm)"
    obtain q st1 where f: "object_find_by_id mi ?k st = (q, st1)" by (cases "object_find_by_id mi ?k st")
    note fo = object_find_by_id_ok [OF xinv_store [OF inv] f]
    have inv1: "xinv st1" by (rule same_inv [OF inv fo(1)])
    show ?thesis
    proof (cases q)
      case None
      then show ?thesis using run act False f inv1 by (auto simp: xfer_buffer_dma_unmap_def)
    next
      case (Some ps)
      obtain p s where ps: "ps = (p, s)" by (cases ps)
      note s = fo(2) [OF Some [unfolded ps]]
      have O1: "Objs st1 (o_buffer_id s) = Some s" using s same_maps [OF fo(1)] by simp
      have "object_good (s\<lparr>o_dma_active := False\<rparr>)" using xinv_object [OF inv1 O1] by (simp add: object_good_def pages_def)
      then show ?thesis
        using set_object_inv [OF inv1 _ _ _ O1] s run act False f Some ps by (auto simp: xfer_buffer_dma_unmap_def)
    qed
  qed
qed

end
