(* ===== verification/Xfer_safety.thy ===== *)
theory Xfer_safety
  imports Xfer_ops
begin

unbundle bit_operations_syntax

section \<open>Histories of the registry and what they guarantee\<close>

text \<open>
  A context that goes away leaves nothing behind; every call of the interface keeps the invariant; the
  properties follow for every history of calls, with other users of the frame allocator in between.
\<close>

subsection \<open>Dropping a context\<close>

definition owned_slots :: "nat \<Rightarrow> nat list \<Rightarrow> object_slot list_t \<Rightarrow> nat set" where
  "owned_slots c ps l = {i. \<exists>p \<in> set ps. \<exists>s. slot_at l p = Some s \<and> o_active s \<and> o_owner s = c \<and> o_buffer_id s = i}"

lemma slot_at_write: "slot_at (list_write p e l) q = (if q = p then map_option (\<lambda>_. e) (slot_at l p) else slot_at l q)"
proof -
  have "map_of (map (\<lambda>(r, x). (r, if r = p then e else x)) xs) q
    = (if q = p then map_option (\<lambda>_. e) (map_of xs p) else map_of xs q)" for xs
    by (induction xs) auto
  then show ?thesis by (simp add: slot_at_def list_store.put_view)
qed

lemma restrict_map_le: "m |` A \<subseteq>\<^sub>m m"
  by (auto simp: map_le_def restrict_map_def dom_def)

lemma drop_objects_ok:
  assumes "xinv st" "g_initialized st"
  shows "\<exists>st'. drop_objects c ps st = Some (Inr st') \<and> xinv st'
    \<and> Objs st' = Objs st |` (- owned_slots c ps (g_objects st)) \<and> Bors st' \<subseteq>\<^sub>m Bors st"
  using assms
proof (induction ps arbitrary: st)
  case Nil
  then show ?case by (simp add: owned_slots_def)
next
  case (Cons p ps)
  have ok: "objects_ok (g_objects st)" and bo: "borrows_ok (g_borrows st)" and lo: "list_ok (g_objects st)"
    using Cons(2,3) by (auto simp: xinv_def store_ok_def slots_ok_list)
  show ?case
  proof (cases "\<exists>s. slot_at (g_objects st) p = Some s \<and> o_active s \<and> o_owner s = c")
    case False
    then have "drop_objects c (p # ps) st = drop_objects c ps st" by (auto split: option.splits)
    moreover have "owned_slots c (p # ps) (g_objects st) = owned_slots c ps (g_objects st)" using False by (auto simp: owned_slots_def)
    ultimately show ?thesis using Cons(1) [OF Cons(2,3)] by simp
  next
    case True
    then obtain s where s: "slot_at (g_objects st) p = Some s" "o_active s" "o_owner s = c" by blast
    let ?k = "o_buffer_id s"
    have m: "(p, s) \<in> set (list_view (g_objects st))" using s(1) slot_at_view [OF lo] by blast
    have O: "Objs st ?k = Some s" using live_view [OF ok m s(2)] .
    obtain bl where bl: "revoke_where (\<lambda>b. b_buffer_id b = ?k) (ptrs (g_borrows st)) (g_borrows st) = Some bl"
      "killed (\<Union>i \<in> rooted (\<lambda>b. b_buffer_id b = ?k) (ptrs (g_borrows st)) (g_borrows st). desc (g_borrows st) i) (g_borrows st) bl"
      (is "killed ?K _ _")
      using revoke_where_ok [OF borrow_tree_ok [OF Cons(2,3)]] by blast
    define st2 where "st2 = st\<lparr>g_borrows := bl\<rparr>"
    have inv2: "xinv st2" unfolding st2_def by (rule cut_inv [OF Cons(2,3) bl(2)])
    have B2: "Bors st2 = Bors st |` (- ?K)" using kill_borrows(2) [OF xinv_store [OF Cons(2)] Cons(3) bl(2)] by (simp add: st2_def)
    have nb: "\<forall>j t. Bors st2 j = Some t \<longrightarrow> b_buffer_id t \<noteq> ?k"
      unfolding B2 rooted_all [OF bo] by (auto simp: restrict_map_def split: if_splits)
    have m2: "maps_ok (Objs st2) (Bors st2) (g_next_buffer_id st2) (g_next_borrow_id st2) (x_frames st2)" by (rule xinv_maps [OF inv2])
    have O2: "Objs st2 ?k = Some s" using O by (simp add: st2_def)
    obtain pf where pf: "object_free_backing s (x_frames st2) = Inr pf" "pfa_inv pf" "g_tracked_pages pf = g_tracked_pages (x_frames st2)"
      "\<forall>f. g_refcount pf f = (if f \<in> span s then g_refcount (x_frames st2) f - 1 else g_refcount (x_frames st2) f)"
      using free_backing_ok [OF m2 O2] by blast
    define st3 where "st3 = st\<lparr>g_borrows := bl, x_frames := pf, g_objects := list_write p (s\<lparr>o_active := False\<rparr>) (g_objects st)\<rparr>"
    have "maps_ok ((Objs st2)(?k := None)) (Bors st2) (g_next_buffer_id st2) (g_next_borrow_id st2) pf"
      by (rule maps_drop_object [OF m2 O2 nb pf(2,3)]) (use pf(4) in simp)
    then have inv3: "xinv st3"
      using drop_slot [OF xinv_store [OF inv2], of p s] Cons(3) m s(2) by (simp add: xinv_def store_ok_def st2_def st3_def)
    have O3: "Objs st3 = (Objs st)(?k := None)"
      using drop_slot(2) [OF xinv_store [OF inv2], of p s] Cons(3) m s(2) by (simp add: st2_def st3_def)
    have at3: "slot_at (g_objects st3) q = Some t \<and> o_active t \<and> X
        \<longleftrightarrow> q \<noteq> p \<and> slot_at (g_objects st) q = Some t \<and> o_active t \<and> X" for q t X
      using s by (auto simp: st3_def slot_at_write)
    have "i \<in> owned_slots c ps (g_objects st3) \<union> {?k} \<longleftrightarrow> i \<in> owned_slots c (p # ps) (g_objects st)" for i
    proof (cases "i = ?k")
      case True
      then show ?thesis using s by (auto simp: owned_slots_def)
    next
      case False
      then show ?thesis using s unfolding owned_slots_def at3 by auto (metis option.inject)
    qed
    then have own: "owned_slots c ps (g_objects st3) \<union> {?k} = owned_slots c (p # ps) (g_objects st)" by blast
    obtain st' where st': "drop_objects c ps st3 = Some (Inr st')" "xinv st'"
      "Objs st' = Objs st3 |` (- owned_slots c ps (g_objects st3))" "Bors st' \<subseteq>\<^sub>m Bors st3"
      using Cons(1) [OF inv3] Cons(3) by (auto simp: st3_def)
    have "drop_objects c (p # ps) st = Some (Inr st')"
      using s bl(1) pf(1) st'(1) by (simp add: st2_def st3_def)
    moreover have "Objs st' = Objs st |` (- owned_slots c (p # ps) (g_objects st))"
      unfolding own [symmetric] st'(3) O3 by (auto simp: restrict_map_def fun_eq_iff)
    moreover have "Bors st3 = Bors st2" "Bors st2 \<subseteq>\<^sub>m Bors st"
      by (simp add: st2_def st3_def) (simp add: B2 restrict_map_le)
    then have "Bors st' \<subseteq>\<^sub>m Bors st" using st'(4) map_le_trans by metis
    ultimately show ?thesis using st'(2) by blast
  qed
qed

lemma drop_context_ok:
  assumes inv: "xinv st" and c: "c \<noteq> 0"
  shows "\<exists>st'. xfer_buffer_drop_context mi c st = Some (Inr st') \<and> xinv st'
    \<and> (\<forall>i ob. Objs st' i = Some ob \<longrightarrow> o_owner ob \<noteq> c \<and> Objs st i = Some ob)
    \<and> (\<forall>i ob. Objs st i = Some ob \<longrightarrow> o_owner ob \<noteq> c \<longrightarrow> Objs st' i = Some ob)
    \<and> (\<forall>i s. Bors st' i = Some s \<longrightarrow> b_lender s \<noteq> c \<and> b_borrower s \<noteq> c \<and> Bors st i = Some s)"
proof -
  obtain e st1 where i: "registry_init_once mi st = (e, st1)" by (cases "registry_init_once mi st")
  have sm: "same st st1" using init_same(1) [OF xinv_store [OF inv] i] .
  have inv1: "xinv st1" by (rule same_inv [OF inv sm])
  show ?thesis
  proof (cases "e = 0")
    case False
    have "Objs st = Map.empty" "Bors st = Map.empty" using init_fails_empty [OF xinv_store [OF inv] i False] .
    then show ?thesis using False i c inv1 same_maps [OF sm] by (simp add: xfer_buffer_drop_context_def)
  next
    case True
    have init: "g_initialized st1" using init_same(2) [OF xinv_store [OF inv] i True] .
    have bo: "borrows_ok (g_borrows st1)" and ok: "objects_ok (g_objects st1)" using inv1 init by (auto simp: xinv_def store_ok_def)
    let ?test = "\<lambda>b. b_lender b = c \<or> b_borrower b = c"
    obtain bl where bl: "revoke_where ?test (ptrs (g_borrows st1)) (g_borrows st1) = Some bl"
      "killed (\<Union>i \<in> rooted ?test (ptrs (g_borrows st1)) (g_borrows st1). desc (g_borrows st1) i) (g_borrows st1) bl"
      (is "killed ?K _ _")
      using revoke_where_ok [OF borrow_tree_ok [OF inv1 init]] by blast
    have inv2: "xinv (st1\<lparr>g_borrows := bl\<rparr>)" by (rule cut_inv [OF inv1 init bl(2)])
    have B2: "borrow_at bl = Bors st1 |` (- ?K)" using kill_borrows(2) [OF xinv_store [OF inv1] init bl(2)] .
    have nb: "\<not> ?test t" "Bors st1 j = Some t" if "borrow_at bl j = Some t" for j t
      using that unfolding B2 rooted_all [OF bo] by (auto simp: restrict_map_def split: if_splits)
    obtain st' where st': "drop_objects c (ptrs (g_objects st1)) (st1\<lparr>g_borrows := bl\<rparr>) = Some (Inr st')" "xinv st'"
      "Objs st' = Objs st1 |` (- owned_slots c (ptrs (g_objects st1)) (g_objects st1))" "Bors st' \<subseteq>\<^sub>m borrow_at bl"
      using drop_objects_ok [OF inv2, of c "ptrs (g_objects st1)"] init by auto
    have own: "owned_slots c (ptrs (g_objects st1)) (g_objects st1) = {i. \<exists>s. Objs st1 i = Some s \<and> o_owner s = c}"
      using slots_ok_list [OF ok] by (force simp: owned_slots_def ptrs_def slot_at_view live_iff [OF ok] records_def)
    have "xfer_buffer_drop_context mi c st = Some (Inr st')"
      using c i True bl(1) st'(1) by (simp add: xfer_buffer_drop_context_def)
    moreover have "borrow_at bl i = Some s" if "Bors st' i = Some s" for i s
      using st'(4) that by (metis domI map_le_def)
    ultimately show ?thesis
      using st'(2,3) nb own same_maps [OF sm] by (auto simp: restrict_map_def split: if_splits)
  qed
qed

subsection \<open>Calls and histories\<close>

datatype xfer_call =
    Acquire init_mem "nat option" "framebuffer_info option" nat nat nat
  | Get_owned init_mem xfer_buffer nat
  | Release init_mem xfer_owner
  | Transfer init_mem xfer_owner nat
  | Borrow init_mem "nat option" xfer_owner nat u32
  | Reborrow init_mem "nat option" xfer_borrow nat u32
  | Unborrow init_mem xfer_borrow
  | Get_lent init_mem nat nat
  | Get_borrowed init_mem nat nat
  | Object_phys init_mem xfer_buffer
  | Describe init_mem nat nat nat
  | Can_access init_mem xfer_buffer nat u32
  | Same_object init_mem xfer_buffer nat nat
  | Map_owned init_mem xfer_owner nat nat u32
  | Map_borrow init_mem xfer_borrow nat nat u32
  | Unmap init_mem dma_mapping
  | Drop_context init_mem nat

fun xfer_exec :: "xfer_call \<Rightarrow> xfer \<Rightarrow> (pfa_panic + xfer) option" where
  "xfer_exec (Acquire mi mem fb kind c n) st = Some (Inr (snd (xfer_buffer_acquire mi mem fb kind c n st)))"
| "xfer_exec (Get_owned mi b c) st = Some (Inr (snd (xfer_buffer_get_owned mi b c st)))"
| "xfer_exec (Release mi ow) st = Some (map_sum id snd (xfer_buffer_release_owned mi ow st))"
| "xfer_exec (Transfer mi ow c) st = Some (Inr (snd (xfer_buffer_transfer_ownership mi ow c st)))"
| "xfer_exec (Borrow mi mem ow c f) st = Some (Inr (snd (xfer_buffer_borrow mi mem ow c f st)))"
| "xfer_exec (Reborrow mi mem up c f) st = Some (Inr (snd (xfer_buffer_reborrow mi mem up c f st)))"
| "xfer_exec (Unborrow mi bw) st = map_option (Inr \<circ> snd) (xfer_buffer_unborrow mi bw st)"
| "xfer_exec (Get_lent mi i c) st = Some (Inr (snd (xfer_buffer_get_lent mi i c st)))"
| "xfer_exec (Get_borrowed mi i c) st = Some (Inr (snd (xfer_buffer_get_borrowed mi i c st)))"
| "xfer_exec (Object_phys mi b) st = Some (Inr (snd (xfer_buffer_object_phys mi b st)))"
| "xfer_exec (Describe mi i kind c) st = Some (Inr (snd (xfer_buffer_describe mi i kind c st)))"
| "xfer_exec (Can_access mi b c f) st = Some (Inr (snd (xfer_buffer_can_access mi b c f st)))"
| "xfer_exec (Same_object mi b c d) st = Some (Inr (snd (xfer_buffer_same_object mi b c d st)))"
| "xfer_exec (Map_owned mi ow off len dir) st = Some (Inr (snd (xfer_buffer_dma_map_owned mi ow off len dir st)))"
| "xfer_exec (Map_borrow mi bw off len dir) st = Some (Inr (snd (xfer_buffer_dma_map_borrow mi bw off len dir st)))"
| "xfer_exec (Unmap mi dm) st = Some (Inr (snd (xfer_buffer_dma_unmap mi dm st)))"
| "xfer_exec (Drop_context mi c) st = xfer_buffer_drop_context mi c st"

text \<open>
  What a call relies on: a heap block for a new slot overlaps no block of the list, and the 32-bit
  id counters have not run out.
\<close>

fun call_ok :: "xfer_call \<Rightarrow> xfer \<Rightarrow> bool" where
  "call_ok (Acquire mi mem fb kind c n) st \<longleftrightarrow>
     fresh_for (g_objects (snd (registry_init_once mi st))) mem \<and> Suc (g_next_buffer_id st) < 2 ^ 32"
| "call_ok (Borrow mi mem ow c f) st \<longleftrightarrow>
     fresh_for (g_borrows (snd (registry_init_once mi st))) mem \<and> Suc (g_next_borrow_id st) < 2 ^ 32"
| "call_ok (Reborrow mi mem up c f) st \<longleftrightarrow>
     fresh_for (g_borrows (snd (registry_init_once mi st))) mem \<and> Suc (g_next_borrow_id st) < 2 ^ 32"
| "call_ok call st \<longleftrightarrow> True"

text \<open>Other users of the frame allocator may do anything that keeps the buffers' frames referenced.\<close>

inductive xfer_reach :: "xfer \<Rightarrow> bool" where
  xfer_start: "pfa_inv frames \<Longrightarrow> xfer_reach (xfer_boot frames)"
| xfer_call: "xfer_reach st \<Longrightarrow> call_ok call st \<Longrightarrow> xfer_exec call st = Some (Inr st') \<Longrightarrow> xfer_reach st'"
| xfer_other: "xfer_reach st \<Longrightarrow> pfa_inv frames \<Longrightarrow> g_tracked_pages frames = g_tracked_pages (x_frames st) \<Longrightarrow>
     (\<And>i ob f. Objs st i = Some ob \<Longrightarrow> f \<in> span ob \<Longrightarrow> 0 < g_refcount frames f) \<Longrightarrow> xfer_reach (st\<lparr>x_frames := frames\<rparr>)"

lemma boot_inv: "pfa_inv frames \<Longrightarrow> xinv (xfer_boot frames)"
  by (simp add: xinv_def xfer_boot_def store_ok_def list_view_def list_zeroed_def empty_live maps_ok_def graph_ok_def frames_good_def)

lemma read_calls:
  assumes "store_ok st"
  shows "same st (snd (xfer_buffer_get_owned mi b c st))" "same st (snd (xfer_buffer_get_lent mi i c st))"
    "same st (snd (xfer_buffer_get_borrowed mi i c st))" "same st (snd (xfer_buffer_object_phys mi b st))"
    "same st (snd (xfer_buffer_describe mi i kind c st))" "same st (snd (xfer_buffer_can_access mi b c f st))"
    "same st (snd (xfer_buffer_same_object mi b c d st))"
proof -
  have o: "same st st1" "store_ok st1" if "object_find mi b st = (q, st1)" for q st1 b
    using object_find_ok(1) [OF assms that] by (auto simp: same_def)
  have b: "same st st1" "store_ok st1" if "borrow_find mi k st = (q, st1)" for q st1 k
    using borrow_find_ok(1) [OF assms that] by (auto simp: same_def)
  have i: "same st st2" if "same st st1" "object_find_by_id mi k st1 = (q, st2)" for q st1 st2 k
    using object_find_by_id_ok(1) [OF _ that(2)] that(1) same_trans by (auto simp: same_def)
  have f: "same st st2" if "same st st1" "borrow_find_for mi k c st1 = (q, st2)" for q st1 st2 k c
    using borrow_find_for_ok(1) [OF _ that(2)] that(1) same_trans by (auto simp: same_def)
  note r = same_refl [OF assms]
  show "same st (snd (xfer_buffer_get_owned mi b c st))"
    using r o(1) by (auto simp: xfer_buffer_get_owned_def split: option.splits prod.splits)
  show "same st (snd (xfer_buffer_get_lent mi i c st))" for i
    using r b(1) by (auto simp: xfer_buffer_get_lent_def intro: i [OF b(1)] split: option.splits prod.splits)
  show "same st (snd (xfer_buffer_get_borrowed mi i c st))" for i
    using r b(1) by (auto simp: xfer_buffer_get_borrowed_def intro: i [OF b(1)] split: option.splits prod.splits)
  show "same st (snd (xfer_buffer_object_phys mi b st))"
    using r o(1) by (auto simp: xfer_buffer_object_phys_def split: option.splits prod.splits)
  show "same st (snd (xfer_buffer_describe mi i kind c st))" for i
    using r o(1) by (auto simp: xfer_buffer_describe_def intro: f [OF o(1)] split: option.splits prod.splits)
  show "same st (snd (xfer_buffer_can_access mi b c f st))" for f
    using r o(1) by (auto simp: xfer_buffer_can_access_def intro: f [OF o(1)] split: option.splits prod.splits)
  show "same st (snd (xfer_buffer_same_object mi b c d st))"
    using r o(1) by (auto simp: xfer_buffer_same_object_def intro: f [OF o(1)] split: option.splits prod.splits)
qed

lemma exec_ok:
  assumes inv: "xinv st" and ok: "call_ok call st"
  shows "\<exists>st'. xfer_exec call st = Some (Inr st') \<and> xinv st'"
proof (cases call)
  case (Acquire mi mem fb kind c n)
  then show ?thesis using acquire_inv [OF inv] ok by (metis call_ok.simps(1) prod.collapse xfer_exec.simps(1))
next
  case (Release mi ow)
  obtain r st' where "xfer_buffer_release_owned mi ow st = Inr (r, st')" "xinv st'" using owned_release_ok [OF inv] by blast
  then show ?thesis using Release by simp
next
  case (Transfer mi ow c)
  then show ?thesis using transfer_inv [OF inv] by (metis prod.collapse xfer_exec.simps(4))
next
  case (Borrow mi mem ow c f)
  then show ?thesis using borrow_inv [OF inv] ok by (metis call_ok.simps(2) prod.collapse xfer_exec.simps(5))
next
  case (Reborrow mi mem up c f)
  then show ?thesis using reborrow_inv [OF inv] ok by (metis call_ok.simps(3) prod.collapse xfer_exec.simps(6))
next
  case (Unborrow mi bw)
  obtain r st' where "xfer_buffer_unborrow mi bw st = Some (r, st')" "xinv st'" using unborrow_ok [OF inv] by blast
  then show ?thesis using Unborrow by simp
next
  case (Map_owned mi ow off len dir)
  then show ?thesis using map_owned_inv [OF inv] by (metis prod.collapse xfer_exec.simps(14))
next
  case (Map_borrow mi bw off len dir)
  then show ?thesis using map_borrow_inv [OF inv] by (metis prod.collapse xfer_exec.simps(15))
next
  case (Unmap mi dm)
  then show ?thesis using unmap_inv [OF inv] by (metis prod.collapse xfer_exec.simps(16))
next
  case (Drop_context mi c)
  show ?thesis
  proof (cases "c = 0")
    case True
    then show ?thesis using Drop_context inv by (simp add: xfer_buffer_drop_context_def)
  next
    case False
    then show ?thesis using Drop_context drop_context_ok [OF inv, of c mi] by (simp only: xfer_exec.simps neq0_conv) blast
  qed
qed (use same_inv [OF inv] read_calls [OF xinv_store [OF inv]] in auto)

lemma reach_inv: "xfer_reach st \<Longrightarrow> xinv st"
proof (induction rule: xfer_reach.induct)
  case (xfer_start frames)
  then show ?case by (rule boot_inv)
next
  case (xfer_call st call st')
  then show ?case using exec_ok by fastforce
next
  case (xfer_other st frames)
  then show ?case
    using maps_frames [OF xinv_maps xfer_other(2,3,4)] by (simp add: xinv_def store_ok_def)
qed

end
