(* ===== verification/Xfer_props.thy ===== *)
theory Xfer_props
  imports Xfer_safety
begin

text \<open>
  What the transfer buffers promise over every history of calls
  (\<open>src/kernel/xfer_buffer/xfer_buffer.c\<close>): the backing frames of live buffers are isolated and no
  call panics, borrows form a forest that only narrows rights, revocation is exact, access is
  decided by delegation, and a device sees no byte outside the buffer it was given.
\<close>

subsection \<open>Access by delegation\<close>

inductive authorised :: "xfer \<Rightarrow> nat \<Rightarrow> nat \<Rightarrow> u32 \<Rightarrow> bool" for st k where
  by_owner: "Objs st k = Some ob \<Longrightarrow> authorised st k (o_owner ob) f"
| by_borrow: "authorised st k (b_lender s) f \<Longrightarrow> Bors st i = Some s \<Longrightarrow> b_buffer_id s = k \<Longrightarrow>
    b_flags s AND f = f \<Longrightarrow> authorised st k (b_borrower s) f"

lemma and_subset_trans: "a AND b = a \<Longrightarrow> a AND f = f \<Longrightarrow> b AND f = f" for a b f :: u32
  by (metis and.assoc and.commute)

lemma borrow_authorised:
  assumes inv: "xinv st"
  shows "Bors st i = Some s \<Longrightarrow> b_flags s AND f = f \<Longrightarrow> authorised st (b_buffer_id s) (b_borrower s) f"
proof (induction i arbitrary: s rule: less_induct)
  case (less i)
  note g = xinv_borrow [OF inv less.prems(1), unfolded borrow_good_def]
  have "authorised st (b_buffer_id s) (b_lender s) f"
  proof (cases "b_parent s = 0")
    case True
    then obtain ob where "Objs st (b_buffer_id s) = Some ob" "b_lender s = o_owner ob" using g by auto
    then show ?thesis using by_owner by metis
  next
    case False
    then obtain t where t: "b_parent s < i" "Bors st (b_parent s) = Some t" "b_buffer_id t = b_buffer_id s"
      "b_lender s = b_borrower t" "b_flags s AND b_flags t = b_flags s" using g by blast
    show ?thesis
      using less.IH [OF t(1,2) and_subset_trans [OF t(5) less.prems(2)]] t(3,4) by simp
  qed
  then show ?case using less.prems by (blast intro: by_borrow)
qed

lemma authorised_direct:
  "authorised st k c f \<Longrightarrow> (\<exists>ob. Objs st k = Some ob \<and> o_owner ob = c)
     \<or> (\<exists>i s. Bors st i = Some s \<and> b_buffer_id s = k \<and> b_borrower s = c \<and> b_flags s AND f = f)"
  by (cases rule: authorised.cases) auto

lemma borrow_unique:
  "xinv st \<Longrightarrow> Bors st i = Some s \<Longrightarrow> Bors st j = Some t \<Longrightarrow> b_buffer_id s = b_buffer_id t \<Longrightarrow>
    b_borrower s = b_borrower t \<Longrightarrow> i = j"
  unfolding xinv_def maps_ok_def graph_ok_def by blast

lemma access_of_borrow:
  assumes inv: "xinv st" and find: "borrow_find_for mi k c st = (q, st')"
  shows "(\<exists>p s. q = Some (p, s) \<and> b_flags s AND f = f)
    \<longleftrightarrow> (\<exists>i s. Bors st i = Some s \<and> b_buffer_id s = k \<and> b_borrower s = c \<and> b_flags s AND f = f)"
proof (cases q)
  case None
  then show ?thesis using borrow_find_for_ok(3) [OF xinv_store [OF inv] find] by auto
next
  case (Some r)
  obtain p s where q: "q = Some (p, s)" using Some by (cases r) simp
  have s: "b_buffer_id s = k" "b_borrower s = c" "Bors st (b_borrow_id s) = Some s"
    using borrow_find_for_ok(2) [OF xinv_store [OF inv] find q] by auto
  have "t = s" if "Bors st i = Some t" "b_buffer_id t = k" "b_borrower t = c" for i t
    using borrow_unique [OF inv that(1) s(3)] that s by auto
  then show ?thesis using q s by blast
qed

lemma can_access_iff:
  assumes inv: "xinv st"
  shows "fst (xfer_buffer_can_access mi b c f st) \<longleftrightarrow> xb_id b \<noteq> 0 \<and> (\<exists>ob. Objs st (xb_id b) = Some ob \<and> o_kind ob = xb_kind b)
    \<and> c \<noteq> 0 \<and> valid_flags f \<and> authorised st (xb_id b) c f"
proof -
  obtain q st1 where fd: "object_find mi b st = (q, st1)" by (cases "object_find mi b st")
  note fo = object_find_ok [OF xinv_store [OF inv] fd]
  show ?thesis
  proof (cases q)
    case None
    then show ?thesis using fo(3) fd by (auto simp: xfer_buffer_can_access_def)
  next
    case (Some r)
    then obtain p s where q: "q = Some (p, s)" by (cases r) simp
    note s = fo(2) [OF q]
    obtain r st2 where bf: "borrow_find_for mi (xb_id b) c st1 = (r, st2)" by (cases "borrow_find_for mi (xb_id b) c st1")
    note iff = access_of_borrow [OF same_inv [OF inv fo(1)] bf, of f, unfolded conjunct1 [OF conjunct2 [OF same_maps [OF fo(1)]]]]
    have run: "fst (xfer_buffer_can_access mi b c f st) \<longleftrightarrow> c \<noteq> 0 \<and> valid_flags f \<and>
        (o_owner s = c \<or> (\<exists>p s. r = Some (p, s) \<and> b_flags s AND f = f))"
      using fd q s bf by (auto simp: xfer_buffer_can_access_def split: option.splits)
    have "authorised st (xb_id b) c f" if "Bors st i = Some t" "b_buffer_id t = xb_id b" "b_borrower t = c" "b_flags t AND f = f" for i t
      using borrow_authorised [OF inv that(1,4)] that by simp
    then have "authorised st (xb_id b) c f \<longleftrightarrow> o_owner s = c \<or> (\<exists>p s. r = Some (p, s) \<and> b_flags s AND f = f)"
      unfolding iff using authorised_direct [of st "xb_id b" c f] by_owner [of st "xb_id b" s f] s by auto
    then show ?thesis using run s by blast
  qed
qed

subsection \<open>Unborrowing\<close>

text \<open>A borrow and everything reborrowed from it, on the map of live borrows.\<close>

inductive below :: "(nat \<Rightarrow> borrow_slot option) \<Rightarrow> nat \<Rightarrow> nat \<Rightarrow> bool" for B x where
  below_self: "below B x x"
| below_step: "below B x y \<Longrightarrow> B z = Some s \<Longrightarrow> b_parent s = y \<Longrightarrow> below B x z"

lemma below_desc: "borrows_ok l \<Longrightarrow> below (borrow_at l) x y \<longleftrightarrow> y \<in> desc l x"
proof -
  assume ok: "borrows_ok l"
  have "y \<in> desc l x" if "below (borrow_at l) x y"
    using that by (induction rule: below.induct) (use desc_step [OF ok] in auto)
  moreover have "below (borrow_at l) x y" if "(child l)\<^sup>*\<^sup>* x y"
    using that by (induction rule: rtranclp_induct) (auto simp: child_at [OF ok] intro: below.intros)
  ultimately show ?thesis by (auto simp: desc_def)
qed

lemma unborrow_exact:
  assumes inv: "xinv st" and s: "Bors st (bw_id bw) = Some s" "\<not> b_dma_active s"
  shows "\<exists>st'. xfer_buffer_unborrow mi bw st = Some (Inr (), st') \<and> Objs st' = Objs st
    \<and> Bors st' = Bors st |` {i. \<not> below (Bors st) (bw_id bw) i}"
proof -
  obtain q st1 where f: "borrow_find mi (bw_id bw) st = (q, st1)" by (cases "borrow_find mi (bw_id bw) st")
  note fo = borrow_find_ok [OF xinv_store [OF inv] f]
  note m = same_maps [OF fo(1)]
  have "bw_id bw \<noteq> 0" using s(1) xinv_maps [OF inv] by (auto simp: maps_ok_def)
  then obtain p t where q: "q = Some (p, t)" using fo(3) s(1) by (cases q) auto
  have t: "t = s" "b_borrow_id t = bw_id bw" "g_initialized st1" using fo(2) [OF q] s(1) by auto
  have inv1: "xinv st1" by (rule same_inv [OF inv fo(1)])
  obtain l where l: "borrow_revoke_tree (bw_id bw) (g_borrows st1) = Some l"
      "killed (desc (g_borrows st1) (bw_id bw)) (g_borrows st1) l"
    using revoke_tree_ok [OF borrow_tree_ok [OF inv1 t(3)]] by blast
  have ok: "borrows_ok (g_borrows st1)" using xinv_store [OF inv1] t(3) by (simp add: store_ok_def)
  have "- desc (g_borrows st1) (bw_id bw) = {i. \<not> below (Bors st) (bw_id bw) i}"
    using below_desc [OF ok] m by auto
  then have "Bors (st1\<lparr>g_borrows := l\<rparr>) = Bors st |` {i. \<not> below (Bors st) (bw_id bw) i}"
    using kill_borrows [OF xinv_store [OF inv1] t(3) l(2)] m by simp
  then show ?thesis using f q t s(2) l(1) m by (simp add: xfer_buffer_unborrow_def)
qed

subsection \<open>DMA windows\<close>

text \<open>
  A mapping for the requested window of a buffer: it names the buffer, the window and the direction, the
  window is a non-empty part of the buffer, and the device sees it at the buffer's address plus the
  offset.  The address of a transfer buffer comes from the frame allocator and cannot wrap; that of
  the framebuffer is what the firmware reported, so there the end of the region is a premise.
\<close>

definition inside :: "object_slot \<Rightarrow> nat \<Rightarrow> nat \<Rightarrow> u32 \<Rightarrow> dma_mapping \<Rightarrow> bool" where
  "inside ob off len dir dm \<longleftrightarrow> dm_buffer dm = object_desc ob \<and> dm_offset dm = off \<and> dm_length dm = len
     \<and> dm_direction dm = dir \<and> dir \<noteq> 0 \<and> dm_active dm \<and> 0 < len \<and> off + len \<le> o_size_bytes ob
     \<and> (o_kind ob = BUFFER_KIND_TRANSFER \<or> o_phys_base ob + o_size_bytes ob \<le> 2 ^ 64 \<longrightarrow>
          dm_device_addr dm = o_phys_base ob + off
          \<and> {dm_device_addr dm..<dm_device_addr dm + len} \<subseteq> {o_phys_base ob..<o_phys_base ob + o_size_bytes ob})
     \<and> (o_kind ob = BUFFER_KIND_TRANSFER \<longrightarrow>
          (\<forall>a. dm_device_addr dm \<le> a \<longrightarrow> a < dm_device_addr dm + len \<longrightarrow> frame_of a \<in> span ob))"

lemma insideI:
  assumes good: "object_good ob" and w: "range_within (o_size_bytes ob) off len"
    and dm: "dm_buffer dm = object_desc ob" "dm_offset dm = off" "dm_length dm = len" "dm_direction dm = dir" "dir \<noteq> 0" "dm_active dm"
      "dm_device_addr dm = add64 (o_phys_base ob) off"
  shows "inside ob off len dir dm"
proof -
  have r: "0 < len" "off + len \<le> o_size_bytes ob" using good w by (auto simp: object_good_def range_within_iff)
  have t: "o_phys_base ob mod 4096 = 0 \<and> o_phys_base ob + o_size_bytes ob \<le> 2 ^ 52 \<and> o_size_bytes ob = pages ob * 4096"
    if "o_kind ob = BUFFER_KIND_TRANSFER"
    using good that by (auto simp: object_good_def extent_ok_def pages_def XFER_PAGE_SIZE_def)
  have addr: "dm_device_addr dm = o_phys_base ob + off"
    if "o_kind ob = BUFFER_KIND_TRANSFER \<or> o_phys_base ob + o_size_bytes ob \<le> 2 ^ 64"
    using that t r dm(7) by (auto simp: add64_exact)
  have "frame_of a \<in> span ob" if k: "o_kind ob = BUFFER_KIND_TRANSFER" and
    a: "dm_device_addr dm \<le> a" "a < dm_device_addr dm + len" for a
  proof -
    have "o_phys_base ob \<le> a" "a < o_phys_base ob + pages ob * 4096" using a r t [OF k] addr k by auto
    then show ?thesis using k t [OF k] by (auto simp: span_def extent_def frame_of_def)
  qed
  then show ?thesis using r dm(1-6) addr unfolding inside_def by auto
qed

lemma map_owned_inside:
  assumes inv: "xinv st" and run: "xfer_buffer_dma_map_owned mi ow off len dir st = (Inr dm, st')"
  obtains ob where "Objs st (xb_id (ow_buffer ow)) = Some ob" "o_owner ob = ow_context ow" "dm_owner dm = o_owner ob"
    "\<not> dm_via_borrow dm" "inside ob off len dir dm"
proof -
  obtain q st1 where f: "object_find mi (ow_buffer ow) st = (q, st1)" by (cases "object_find mi (ow_buffer ow) st")
  note fo = object_find_ok [OF xinv_store [OF inv] f]
  obtain p s where q: "q = Some (p, s)" "o_owner s = ow_context ow" "range_within (o_size_bytes s) off len"
      "dm_buffer dm = object_desc s" "dm_offset dm = off" "dm_length dm = len" "dm_direction dm = dir" "dir \<noteq> 0" "dm_active dm"
      "dm_device_addr dm = add64 (o_phys_base s) off" "dm_owner dm = o_owner s" "\<not> dm_via_borrow dm"
    using run f by (auto simp: xfer_buffer_dma_map_owned_def Let_def split: if_splits option.splits)
  have s: "Objs st (xb_id (ow_buffer ow)) = Some s" using fo(2) [OF q(1)] by simp
  show ?thesis using that [OF s q(2,11,12) insideI [OF xinv_object [OF inv s] q(3-10)]] .
qed

lemma map_borrow_inside:
  assumes inv: "xinv st" and run: "xfer_buffer_dma_map_borrow mi bw off len dir st = (Inr dm, st')"
  obtains s ob where "Bors st (bw_id bw) = Some s" "Objs st (b_buffer_id s) = Some ob"
    "dma_direction_allowed (b_flags s) dir" "dm_borrow dm = b_borrow_id s" "dm_via_borrow dm" "inside ob off len dir dm"
proof -
  obtain q st1 where f: "borrow_find mi (bw_id bw) st = (q, st1)" by (cases "borrow_find mi (bw_id bw) st")
  note fo = borrow_find_ok [OF xinv_store [OF inv] f]
  obtain p s o1 ob st2 where q: "q = Some (p, s)" "object_find_by_id mi (b_buffer_id s) st1 = (Some (o1, ob), st2)"
      "dma_direction_allowed (b_flags s) dir" "range_within (o_size_bytes ob) off len"
      "dm_buffer dm = object_desc ob" "dm_offset dm = off" "dm_length dm = len" "dm_direction dm = dir" "dm_active dm"
      "dm_device_addr dm = add64 (o_phys_base ob) off" "dm_borrow dm = b_borrow_id s" "dm_via_borrow dm"
    using run f by (auto simp: xfer_buffer_dma_map_borrow_def Let_def split: if_splits option.splits prod.splits)
  have s: "Bors st (bw_id bw) = Some s" using fo(2) [OF q(1)] by auto
  have ob: "Objs st (b_buffer_id s) = Some ob"
    using object_find_by_id_ok(2) [OF xinv_store [OF same_inv [OF inv fo(1)]] q(2) refl] same_maps [OF fo(1)] by simp
  have "dir \<noteq> 0" using q(3) by (auto simp: dma_direction_allowed_def)
  note ins = insideI [OF xinv_object [OF inv ob] q(4,5,6,7,8) this q(9,10)]
  show ?thesis using that [OF s ob q(3,11,12) ins] .
qed

subsection \<open>An example history\<close>

text \<open>Context 5 acquires two pages, lends them to context 6, which lends them on to context 7 for reading.\<close>

definition demo_owner :: xfer_owner where
  "demo_owner = \<lparr>ow_buffer = \<lparr>xb_kind = BUFFER_KIND_TRANSFER, xb_id = 1, xb_size = 8192\<rparr>, ow_context = 5\<rparr>"

definition demo_lent :: xfer_borrow where
  "demo_lent = \<lparr>bw_buffer = ow_buffer demo_owner, bw_lender = 5, bw_borrower = 6, bw_flags = 3, bw_id = 1\<rparr>"

definition demo_x1 :: xfer where
  "demo_x1 = snd (xfer_buffer_acquire (Some 4096, Some 8192) (Some 12288) None BUFFER_KIND_TRANSFER 5 5000 (xfer_boot demo_pfa))"

definition demo_x2 :: xfer where
  "demo_x2 = snd (xfer_buffer_borrow (None, None) (Some 16384) demo_owner 6 3 demo_x1)"

definition demo_x3 :: xfer where
  "demo_x3 = snd (xfer_buffer_reborrow (None, None) (Some 20480) demo_lent 7 1 demo_x2)"

definition demo_linked :: "'e linked_node list \<Rightarrow> 'e list_t" where
  "demo_linked ns = \<lparr>elem_size = 48, list_kind = LIST_IMPL_LINKED, config_value = 0, list_state = Some (Linked_state ns)\<rparr>"

definition demo_object :: object_slot where
  "demo_object = \<lparr>o_active = True, o_kind = BUFFER_KIND_TRANSFER, o_buffer_id = 1, o_size_bytes = 8192, o_owner = 5,
     o_phys_base = 65536, o_dma_active = False, o_dma_offset = 0, o_dma_length = 0, o_dma_direction = 0\<rparr>"

definition demo_borrow :: "nat \<Rightarrow> nat \<Rightarrow> nat \<Rightarrow> nat \<Rightarrow> u32 \<Rightarrow> borrow_slot" where
  "demo_borrow i parent lender borrower flags = \<lparr>b_active = True, b_borrow_id = i, b_parent = parent, b_buffer_id = 1,
     b_kind = BUFFER_KIND_TRANSFER, b_lender = lender, b_borrower = borrower, b_flags = flags,
     b_dma_active = False, b_dma_offset = 0, b_dma_length = 0, b_dma_direction = 0\<rparr>"

lemmas demo_kinds = BUFFER_KIND_TRANSFER_def BUFFER_KIND_FRAMEBUFFER_def XFER_PAGE_SIZE_def XFER_TRANSFER_MAX_SIZE_def

lemma demo_acquire:
  "xfer_buffer_acquire (Some 4096, Some 8192) (Some 12288) None BUFFER_KIND_TRANSFER 5 5000 (xfer_boot demo_pfa)
   = (Inr demo_owner, \<lparr>g_objects = demo_linked [\<lparr>nd_addr = 12288, nd_payload = demo_object\<rparr>], g_borrows = demo_linked [],
      g_initialized = True, g_next_buffer_id = 2, g_next_borrow_id = 1, x_frames = snd (pfa_alloc_pages 2 demo_pfa)\<rparr>)"
proof -
  have a: "pfa_alloc_pages 2 demo_pfa = (65536, snd (pfa_alloc_pages 2 demo_pfa))" by (simp add: pfa_eval)
  have b: "object_alloc_backing None BUFFER_KIND_TRANSFER 8192 demo_pfa = (65536, snd (pfa_alloc_pages 2 demo_pfa))"
    using a by (simp add: object_alloc_backing_def XFER_PAGE_SIZE_def)
  have c: "acquire_size None BUFFER_KIND_TRANSFER 5000 = Inr 8192"
    by (simp add: acquire_size_def demo_kinds page_down_def)
  show ?thesis
    by (simp add: xfer_buffer_acquire_def xfer_boot_def registry_init_once_def OBJECT_SLOT_SIZE_def BORROW_SLOT_SIZE_def
        list_init_def list_linked_impl_init_def b c object_alloc_def slot_alloc_def list_lookup_def list_view_def
        list_alloc_def list_linked_alloc_def list_write_def node_ptr_def demo_owner_def demo_linked_def demo_object_def
        object_desc_def XFER_PAGE_SIZE_def add32_def Let_def)
qed

lemma demo_x1_eq:
  "demo_x1 = \<lparr>g_objects = demo_linked [\<lparr>nd_addr = 12288, nd_payload = demo_object\<rparr>], g_borrows = demo_linked [],
      g_initialized = True, g_next_buffer_id = 2, g_next_borrow_id = 1, x_frames = snd (pfa_alloc_pages 2 demo_pfa)\<rparr>"
  by (simp add: demo_x1_def demo_acquire)

lemmas demo_xfer_eval = demo_linked_def registry_init_once_def list_lookup_def list_view_def node_view_def
  demo_object_def demo_borrow_def demo_owner_def demo_lent_def object_find_def object_find_by_id_def borrow_find_def borrow_find_for_def
  attach_borrow_def borrow_alloc_def slot_alloc_def list_alloc_def list_linked_alloc_def list_write_def node_ptr_def
  borrow_desc_def object_desc_def add32_def Let_def

lemma demo_flags: "valid_flags 1" "valid_flags 2" "valid_flags 3" "(1 :: u32) AND 3 = 1" "(3 :: u32) AND 1 = 1" "(1 :: u32) AND 2 = 0"
  by (simp_all add: valid_flags_def BUFFER_BORROW_READ_def BUFFER_BORROW_WRITE_def)

lemma demo_x2_eq:
  "demo_x2 = demo_x1\<lparr>g_borrows := demo_linked [\<lparr>nd_addr = 16384, nd_payload = demo_borrow 1 0 5 6 3\<rparr>], g_next_borrow_id := 2\<rparr>"
  by (simp add: demo_x2_def demo_x1_eq xfer_buffer_borrow_def demo_xfer_eval demo_flags demo_kinds)

lemma demo_x3_eq:
  "demo_x3 = demo_x1\<lparr>g_borrows := demo_linked [\<lparr>nd_addr = 20480, nd_payload = demo_borrow 2 1 6 7 1\<rparr>,
      \<lparr>nd_addr = 16384, nd_payload = demo_borrow 1 0 5 6 3\<rparr>], g_next_borrow_id := 3\<rparr>"
  by (simp add: demo_x3_def demo_x2_eq demo_x1_eq xfer_buffer_reborrow_def demo_xfer_eval demo_flags demo_kinds)

lemma demo_reach: "xfer_reach demo_x1" "xfer_reach demo_x3"
proof -
  let ?b = "xfer_boot demo_pfa"
  have "call_ok (Acquire (Some 4096, Some 8192) (Some 12288) None BUFFER_KIND_TRANSFER 5 5000) ?b"
    by (simp add: xfer_boot_def registry_init_once_def list_init_def list_linked_impl_init_def OBJECT_SLOT_SIZE_def
        BORROW_SLOT_SIZE_def fresh_for_def list_blocks_def)
  from xfer_call [OF xfer_start [OF demo_pfa_inv] this] show r1: "xfer_reach demo_x1" by (simp add: demo_x1_def)
  have "call_ok (Borrow (None, None) (Some 16384) demo_owner 6 3) demo_x1"
    by (simp add: demo_x1_eq registry_init_once_def fresh_for_def list_blocks_def demo_linked_def)
  from xfer_call [OF r1 this] have r2: "xfer_reach demo_x2" by (simp add: demo_x2_def)
  have "call_ok (Reborrow (None, None) (Some 20480) demo_lent 7 1) demo_x2"
    by (simp add: demo_x2_eq demo_x1_eq registry_init_once_def fresh_for_def list_blocks_def demo_linked_def node_block_def)
  from xfer_call [OF r2 this] show "xfer_reach demo_x3" by (simp add: demo_x3_def)
qed

lemma demo_maps:
  "Objs demo_x3 1 = Some demo_object" "Bors demo_x3 1 = Some (demo_borrow 1 0 5 6 3)" "Bors demo_x3 2 = Some (demo_borrow 2 1 6 7 1)"
  by (simp_all add: demo_x3_eq demo_x1_eq live_def actives_def records_def demo_xfer_eval)

lemma demo_span: "span demo_object = {16, 17}"
  by (auto simp: span_def extent_def frame_of_def pages_def demo_object_def XFER_PAGE_SIZE_def)

subsection \<open>The promises\<close>

text \<open>
  C36. Backing memory is isolated and freeing is safe: over every history of calls of the transfer
  buffer interface, interleaved with any other use of the frame allocator that keeps the buffers'
  frames referenced, the frames of a live buffer are referenced and not on the allocator's free
  list, no two live buffers share a frame, and every further call, release and context teardown
  included, returns without the allocator panicking.
\<close>

theorem xfer_backing_isolated:
  assumes "xfer_reach st"
  shows "(\<forall>i ob f. Objs st i = Some ob \<and> f \<in> span ob \<longrightarrow> 0 < g_refcount (x_frames st) f \<and> f \<notin> free_frames (x_frames st))
    \<and> (\<forall>i j ob q. Objs st i = Some ob \<and> Objs st j = Some q \<and> i \<noteq> j \<longrightarrow> span ob \<inter> span q = {})
    \<and> (\<forall>call. call_ok call st \<longrightarrow> (\<exists>st'. xfer_exec call st = Some (Inr st')))"
proof -
  note inv = reach_inv [OF assms]
  have "frames_good (Objs st) (x_frames st)" using xinv_maps [OF inv] by (simp add: maps_ok_def)
  note fd = frames_goodD [OF this]
  show ?thesis using fd(2-4) exec_ok [OF inv] by meson
qed

theorem xfer_backing_isolated_witness:
  "16 \<notin> free_frames (x_frames demo_x3) \<and> (\<exists>st'. xfer_exec (Release (None, None) demo_owner) demo_x3 = Some (Inr st'))"
proof -
  have "call_ok (Release (None, None) demo_owner) demo_x3" by simp
  moreover have "16 \<in> span demo_object" by (simp add: demo_span)
  ultimately show ?thesis using xfer_backing_isolated [OF demo_reach(2)] demo_maps(1) by blast
qed

text \<open>
  C37. Delegation only narrows: over every history, a live borrow names a live buffer of its kind,
  carries valid flags, and either comes from the buffer's owner or is a reborrow of a live, older
  borrow of the same buffer, lent by that borrow's holder, with no flag the older one lacks.  A
  context holds at most one borrow of a buffer, and a framebuffer is borrowed by its owner only.
\<close>

theorem xfer_borrows_narrow:
  assumes reach: "xfer_reach st" and s: "Bors st i = Some s"
  shows "\<exists>ob. Objs st (b_buffer_id s) = Some ob \<and> o_kind ob = b_kind s \<and> valid_flags (b_flags s)
    \<and> (b_parent s = 0 \<longrightarrow> b_lender s = o_owner ob)
    \<and> (b_parent s \<noteq> 0 \<longrightarrow> b_parent s < i \<and> (\<exists>t. Bors st (b_parent s) = Some t \<and> b_buffer_id t = b_buffer_id s
         \<and> b_lender s = b_borrower t \<and> b_flags s AND b_flags t = b_flags s))
    \<and> (o_kind ob = BUFFER_KIND_FRAMEBUFFER \<longrightarrow> b_borrower s = o_owner ob)
    \<and> (\<forall>j t. Bors st j = Some t \<and> b_buffer_id t = b_buffer_id s \<and> b_borrower t = b_borrower s \<longrightarrow> j = i)"
  using xinv_borrow [OF reach_inv [OF reach] s] borrow_unique [OF reach_inv [OF reach] _ s]
  by (auto simp: borrow_good_def split: if_splits)

theorem xfer_borrows_narrow_witness:
  "Bors demo_x3 2 = Some (demo_borrow 2 1 6 7 1) \<and> (\<exists>t. Bors demo_x3 1 = Some t \<and> 1 AND b_flags t = 1)"
proof -
  have "b_parent (demo_borrow 2 1 6 7 1) = 1" "b_flags (demo_borrow 2 1 6 7 1) = 1" by (simp_all add: demo_borrow_def)
  then show ?thesis using xfer_borrows_narrow [OF demo_reach(2) demo_maps(3)] demo_maps(3) by auto
qed

text \<open>
  C38. Revocation returns and is exact: unborrowing a borrow with no DMA in flight returns and
  removes exactly that borrow and everything reborrowed from it, and tearing a context down returns
  without a panic and leaves no buffer owned by it and no borrow lent or held by it, while every
  buffer of another context survives.
\<close>

theorem xfer_revocation_exact:
  assumes "xfer_reach st"
  shows "(\<forall>bw s. Bors st (bw_id bw) = Some s \<and> \<not> b_dma_active s \<longrightarrow>
      (\<exists>st'. xfer_buffer_unborrow mi bw st = Some (Inr (), st') \<and> Objs st' = Objs st
         \<and> Bors st' = Bors st |` {i. \<not> below (Bors st) (bw_id bw) i}))
    \<and> (\<forall>c. c \<noteq> 0 \<longrightarrow> (\<exists>st'. xfer_buffer_drop_context mi c st = Some (Inr st')
         \<and> (\<forall>i ob. Objs st' i = Some ob \<longleftrightarrow> Objs st i = Some ob \<and> o_owner ob \<noteq> c)
         \<and> (\<forall>i s. Bors st' i = Some s \<longrightarrow> b_lender s \<noteq> c \<and> b_borrower s \<noteq> c \<and> Bors st i = Some s)))"
  using unborrow_exact [OF reach_inv [OF assms]] drop_context_ok [OF reach_inv [OF assms]] by meson

theorem xfer_revocation_exact_witness:
  "(\<exists>st'. xfer_buffer_unborrow (None, None) demo_lent demo_x3 = Some (Inr (), st') \<and> Bors st' 1 = None \<and> Bors st' 2 = None)
   \<and> (\<exists>st'. xfer_buffer_drop_context (None, None) 5 demo_x3 = Some (Inr st') \<and> Objs st' 1 = None)"
proof -
  have p: "b_parent (demo_borrow 2 1 6 7 1) = 1" "\<not> b_dma_active (demo_borrow 1 0 5 6 3)" "bw_id demo_lent = 1" "o_owner demo_object = 5"
    by (simp_all add: demo_borrow_def demo_lent_def demo_object_def)
  have "below (Bors demo_x3) 1 2" by (rule below_step [where B = "Bors demo_x3", OF below_self demo_maps(3) p(1)])
  moreover have "below (Bors demo_x3) 1 1" by (rule below_self)
  moreover note r = xfer_revocation_exact [OF demo_reach(2), of "(None, None)"]
  moreover obtain st1 where "xfer_buffer_unborrow (None, None) demo_lent demo_x3 = Some (Inr (), st1)"
      "Bors st1 = Bors demo_x3 |` {i. \<not> below (Bors demo_x3) 1 i}"
    using conjunct1 [OF r, rule_format, of demo_lent "demo_borrow 1 0 5 6 3"] demo_maps(2) p(2,3) by auto
  moreover obtain st2 where st2: "xfer_buffer_drop_context (None, None) 5 demo_x3 = Some (Inr st2)"
      "\<forall>i ob. Objs st2 i = Some ob \<longleftrightarrow> Objs demo_x3 i = Some ob \<and> o_owner ob \<noteq> 5"
    using conjunct2 [OF r, rule_format, of 5] by auto
  moreover have "Objs st2 1 = None" using st2(2) demo_maps(1) p(4) by (cases "Objs st2 1") auto
  ultimately show ?thesis by auto
qed

text \<open>
  C39. Access is delegation: over every history, the check the hosts use before touching a buffer
  answers yes exactly for a valid request on a live buffer by a context that owns it or holds a
  chain of borrows from the owner, each of which carries the requested flags.
\<close>

theorem xfer_can_access_iff_authorised:
  assumes "xfer_reach st"
  shows "fst (xfer_buffer_can_access mi b c f st) \<longleftrightarrow> xb_id b \<noteq> 0 \<and> (\<exists>ob. Objs st (xb_id b) = Some ob \<and> o_kind ob = xb_kind b)
    \<and> c \<noteq> 0 \<and> valid_flags f \<and> authorised st (xb_id b) c f"
  using can_access_iff [OF reach_inv [OF assms]] .

theorem xfer_can_access_iff_authorised_witness:
  "fst (xfer_buffer_can_access (None, None) (ow_buffer demo_owner) 7 1 demo_x3)"
proof -
  have "authorised demo_x3 1 5 1" using by_owner [OF demo_maps(1), of 1] by (simp add: demo_object_def)
  then have "authorised demo_x3 1 6 1"
    using by_borrow [OF _ demo_maps(2), of 1 1] by (simp add: demo_borrow_def demo_flags)
  then have "authorised demo_x3 1 7 1"
    using by_borrow [OF _ demo_maps(3), of 1 1] by (simp add: demo_borrow_def demo_flags)
  then show ?thesis
    using xfer_can_access_iff_authorised [OF demo_reach(2), of "(None, None)" "ow_buffer demo_owner" 7 1] demo_maps(1) demo_flags(1)
    by (simp add: demo_owner_def demo_object_def)
qed

text \<open>
  C40. Devices stay inside the buffer: over every history, a mapping handed out for a buffer's owner
  or for a borrow names that buffer, the requested window and direction, the window is a non-empty
  part of the buffer, and the device address is the buffer's physical address plus the offset.  For a
  transfer buffer every byte of it lies in a frame of the buffer, with no address wrap-around; for the
  framebuffer every byte lies in the region the firmware reported, if that region does not wrap.  An
  owner's mapping needs the owner, and a borrower's direction is one its flags permit.
\<close>

theorem xfer_dma_inside_buffer:
  assumes "xfer_reach st"
  shows "(\<forall>ow off len dir dm st'. xfer_buffer_dma_map_owned mi ow off len dir st = (Inr dm, st') \<longrightarrow>
      (\<exists>ob. Objs st (xb_id (ow_buffer ow)) = Some ob \<and> o_owner ob = ow_context ow \<and> dm_owner dm = o_owner ob
         \<and> \<not> dm_via_borrow dm \<and> inside ob off len dir dm))
    \<and> (\<forall>bw off len dir dm st'. xfer_buffer_dma_map_borrow mi bw off len dir st = (Inr dm, st') \<longrightarrow>
      (\<exists>s ob. Bors st (bw_id bw) = Some s \<and> Objs st (b_buffer_id s) = Some ob \<and> dm_borrow dm = b_borrow_id s
         \<and> dm_via_borrow dm \<and> dma_direction_allowed (b_flags s) (dm_direction dm) \<and> inside ob off len dir dm))"
proof (intro conjI allI impI)
  fix ow off len dir dm st'
  assume "xfer_buffer_dma_map_owned mi ow off len dir st = (Inr dm, st')"
  from map_owned_inside [OF reach_inv [OF assms] this]
  show "\<exists>ob. Objs st (xb_id (ow_buffer ow)) = Some ob \<and> o_owner ob = ow_context ow \<and> dm_owner dm = o_owner ob
         \<and> \<not> dm_via_borrow dm \<and> inside ob off len dir dm" by blast
next
  fix bw off len dir dm st'
  assume "xfer_buffer_dma_map_borrow mi bw off len dir st = (Inr dm, st')"
  from map_borrow_inside [OF reach_inv [OF assms] this]
  show "\<exists>s ob. Bors st (bw_id bw) = Some s \<and> Objs st (b_buffer_id s) = Some ob \<and> dm_borrow dm = b_borrow_id s
         \<and> dm_via_borrow dm \<and> dma_direction_allowed (b_flags s) (dm_direction dm) \<and> inside ob off len dir dm"
    unfolding inside_def by metis
qed

theorem xfer_dma_inside_buffer_witness:
  "\<exists>dm st'. xfer_buffer_dma_map_borrow (None, None) demo_lent 4096 4096 1 demo_x3 = (Inr dm, st')
     \<and> dm_device_addr dm = 69632 \<and> inside demo_object 4096 4096 1 dm"
proof -
  have "\<exists>dm st'. xfer_buffer_dma_map_borrow (None, None) demo_lent 4096 4096 1 demo_x3 = (Inr dm, st') \<and> dm_device_addr dm = 69632"
    by (simp add: demo_x3_eq demo_x1_eq xfer_buffer_dma_map_borrow_def demo_xfer_eval range_within_def sub32_def add64_def
        dma_direction_allowed_def WASMOS_DMA_DIR_TO_DEVICE_def WASMOS_DMA_DIR_FROM_DEVICE_def BUFFER_BORROW_READ_def BUFFER_BORROW_WRITE_def)
  then obtain dm st' where dm: "xfer_buffer_dma_map_borrow (None, None) demo_lent 4096 4096 1 demo_x3 = (Inr dm, st')"
    "dm_device_addr dm = 69632" by blast
  have "bw_id demo_lent = 1" "b_buffer_id (demo_borrow 1 0 5 6 3) = 1" by (simp_all add: demo_lent_def demo_borrow_def)
  then have "inside demo_object 4096 4096 1 dm"
    using xfer_dma_inside_buffer [OF demo_reach(2), of "(None, None)"] dm(1) demo_maps by fastforce
  then show ?thesis using dm by blast
qed

end
