(* ===== verification/Kheap.thy ===== *)
theory Kheap
  imports Physmem
begin

unbundle bit_operations_syntax

text \<open>
  Model of \<open>src/kernel/slab.c\<close> and \<open>src/kernel/kmem.c\<close>: the kernel heap.  Requests of up to 124 bytes
  come from three classes of fixed-size chunks whose free lists are threaded through the free chunks
  themselves, larger ones are whole pages with a header, and a bump arena serves what neither can.

  Memory is the 64-bit little-endian word at each address.  The heap only ever reads and writes words
  at the start of a chunk or in the header of a page block; a chunk's header is the low half of the
  word that is the link while the chunk is free.
\<close>

subsection \<open>Constants and state\<close>

definition KERNEL_HIGHER_HALF_BASE :: nat where "KERNEL_HIGHER_HALF_BASE = 0xFFFFFFFF80000000"
definition KERNEL_HIGHER_HALF_WINDOW_BYTES :: nat where "KERNEL_HIGHER_HALF_WINDOW_BYTES = 512 * 1024 * 1024"
definition SLAB_GROW_FRAME_BYTES :: nat where "SLAB_GROW_FRAME_BYTES = 4096"
definition SLAB_CLASS_COUNT :: nat where "SLAB_CLASS_COUNT = 3"
definition SLAB_MAGIC :: nat where "SLAB_MAGIC = 0x51AB"
definition KMEM_PAGE_MAGIC :: nat where "KMEM_PAGE_MAGIC = 0x4B4D454D"
definition KMEM_PAGE_BYTES :: nat where "KMEM_PAGE_BYTES = 4096"
definition KMEM_EARLY_ARENA_BYTES :: nat where "KMEM_EARLY_ARENA_BYTES = 256 * 1024"

text \<open>\<open>sizeof(slab_header_t)\<close> and \<open>sizeof(kmem_page_header_t)\<close>.\<close>

definition SLAB_HEADER_SIZE :: nat where "SLAB_HEADER_SIZE = 4"
definition PAGE_HEADER_SIZE :: nat where "PAGE_HEADER_SIZE = 24"

record slab_class =
  chunk_size :: nat
  chunk_count :: nat
  slab_buffer :: nat
  free_list :: nat

record kheap =
  k_mem :: "nat \<Rightarrow> nat"
  g_classes :: "slab_class list"
  k_frames :: pfa
  g_kmem_early_arena :: nat
  g_kmem_early_arena_off :: nat
  g_kmem_early_count :: nat
  g_kmem_early_max_req :: nat

text \<open>Where the linker put the static buffers.\<close>

record heap_layout =
  g_slab_buf_32 :: nat
  g_slab_buf_64 :: nat
  g_slab_buf_128 :: nat
  early_arena :: nat

definition static_classes :: "heap_layout \<Rightarrow> slab_class list" where
  "static_classes lay =
     [\<lparr>chunk_size = 32, chunk_count = 128, slab_buffer = g_slab_buf_32 lay, free_list = 0\<rparr>,
      \<lparr>chunk_size = 64, chunk_count = 128, slab_buffer = g_slab_buf_64 lay, free_list = 0\<rparr>,
      \<lparr>chunk_size = 128, chunk_count = 96, slab_buffer = g_slab_buf_128 lay, free_list = 0\<rparr>]"

definition kheap_boot :: "heap_layout \<Rightarrow> (nat \<Rightarrow> nat) \<Rightarrow> pfa \<Rightarrow> kheap" where
  "kheap_boot lay m frames = \<lparr>k_mem = m, g_classes = static_classes lay, k_frames = frames,
     g_kmem_early_arena = early_arena lay, g_kmem_early_arena_off = 0, g_kmem_early_count = 0, g_kmem_early_max_req = 0\<rparr>"

definition higher_half :: "nat \<Rightarrow> nat" where
  "higher_half phys = phys OR KERNEL_HIGHER_HALF_BASE"

subsection \<open>The slab\<close>

text \<open>Linking a chunk at the head of a free list.\<close>

definition slab_push :: "nat \<Rightarrow> nat \<Rightarrow> kheap \<Rightarrow> kheap" where
  "slab_push c chunk st =
     st\<lparr>k_mem := (k_mem st)(chunk := free_list (g_classes st ! c)),
        g_classes := (g_classes st)[c := (g_classes st ! c)\<lparr>free_list := chunk\<rparr>]\<rparr>"

definition slab_push_all :: "nat \<Rightarrow> nat \<Rightarrow> nat \<Rightarrow> kheap \<Rightarrow> kheap" where
  "slab_push_all c start n st = fold (\<lambda>i st. slab_push c (start + chunk_size (g_classes st ! c) * i) st) [0..<n] st"

definition slab_init :: "kheap \<Rightarrow> kheap" where
  "slab_init st =
     fold (\<lambda>c st. slab_push_all c (slab_buffer (g_classes st ! c)) (chunk_count (g_classes st ! c))
                    (st\<lparr>g_classes := (g_classes st)[c := (g_classes st ! c)\<lparr>free_list := 0\<rparr>]\<rparr>))
       [0..<SLAB_CLASS_COUNT] st"

definition find_class :: "nat \<Rightarrow> kheap \<Rightarrow> nat option" where
  "find_class total_size st = List.find (\<lambda>c. total_size \<le> chunk_size (g_classes st ! c)) [0..<SLAB_CLASS_COUNT]"

definition slab_class_grow :: "nat \<Rightarrow> kheap \<Rightarrow> int \<times> kheap" where
  "slab_class_grow c st =
     (case pfa_alloc_pages_below 1 KERNEL_HIGHER_HALF_WINDOW_BYTES (k_frames st) of
        (phys, frames) \<Rightarrow>
          let st1 = st\<lparr>k_frames := frames\<rparr> in
          if phys = 0 then (-1, st1)
          else let n = SLAB_GROW_FRAME_BYTES div chunk_size (g_classes st1 ! c)
               in (if 0 < n then 0 else -1, slab_push_all c (higher_half phys) n st1))"

text \<open>The header fields occupy the low four bytes of the chunk's first word.\<close>

definition write_slab_header :: "nat \<Rightarrow> nat \<Rightarrow> nat \<Rightarrow> (nat \<Rightarrow> nat) \<Rightarrow> nat \<Rightarrow> nat" where
  "write_slab_header hdr magic class_index m = m(hdr := m hdr div 2 ^ 32 * 2 ^ 32 + class_index * 2 ^ 16 + magic)"

definition kalloc_small :: "nat \<Rightarrow> kheap \<Rightarrow> nat \<times> kheap" where
  "kalloc_small sz st =
     (case find_class (add64 sz SLAB_HEADER_SIZE) st of
        None \<Rightarrow> (0, st)
      | Some c \<Rightarrow>
          (case (if free_list (g_classes st ! c) \<noteq> 0 then (free_list (g_classes st ! c), st)
                 else case slab_class_grow c st of
                        (r, st1) \<Rightarrow> (if r = 0 then free_list (g_classes st1 ! c) else 0, st1)) of
             (node, st1) \<Rightarrow>
               if node = 0 then (0, st1)
               else (node + SLAB_HEADER_SIZE,
                     st1\<lparr>g_classes := (g_classes st1)[c := (g_classes st1 ! c)\<lparr>free_list := k_mem st1 node\<rparr>],
                         k_mem := write_slab_header node SLAB_MAGIC c (k_mem st1)\<rparr>)))"

definition kfree_small :: "nat \<Rightarrow> kheap \<Rightarrow> kheap" where
  "kfree_small ptr st =
     (if ptr = 0 then st
      else let hdr = ptr - SLAB_HEADER_SIZE; c = k_mem st hdr div 2 ^ 16 mod 2 ^ 8 in
           if k_mem st hdr mod 2 ^ 16 \<noteq> SLAB_MAGIC \<or> SLAB_CLASS_COUNT \<le> c then st
           else slab_push c hdr st)"

subsection \<open>The arena, page blocks and the entry points\<close>

definition kmem_early_alloc :: "nat \<Rightarrow> kheap \<Rightarrow> nat \<times> kheap" where
  "kmem_early_alloc sz st =
     (if sz = 0 then (0, st)
      else
        let base = g_kmem_early_arena st;
            cursor = add64 base (g_kmem_early_arena_off st);
            aligned = add64 cursor 7 - add64 cursor 7 mod 8;
            fin = add64 aligned sz
        in if fin < aligned \<or> base + KMEM_EARLY_ARENA_BYTES < fin then (0, st)
           else (aligned, st\<lparr>g_kmem_early_arena_off := (fin - base) mod 2 ^ 32\<rparr>))"

definition write_page_header :: "nat \<Rightarrow> nat \<Rightarrow> nat \<Rightarrow> (nat \<Rightarrow> nat) \<Rightarrow> nat \<Rightarrow> nat" where
  "write_page_header hdr n phys m =
     m(hdr := KMEM_PAGE_MAGIC + n mod 2 ^ 32 * 2 ^ 32, hdr + 8 := phys, hdr + 16 := hdr)"

definition kmem_alloc :: "nat \<Rightarrow> kheap \<Rightarrow> nat \<times> kheap" where
  "kmem_alloc sz st =
     (if sz = 0 then (0, st)
      else case kalloc_small sz st of
        (ptr, st1) \<Rightarrow>
          if ptr \<noteq> 0 then (ptr, st1)
          else
            let need = add64 PAGE_HEADER_SIZE sz; n = add64 need (KMEM_PAGE_BYTES - 1) div KMEM_PAGE_BYTES
            in case pfa_alloc_pages_below n KERNEL_HIGHER_HALF_WINDOW_BYTES (k_frames st1) of
                 (phys, frames) \<Rightarrow>
                   let st2 = st1\<lparr>k_frames := frames\<rparr> in
                   if phys \<noteq> 0
                   then (higher_half phys + PAGE_HEADER_SIZE,
                         st2\<lparr>k_mem := write_page_header (higher_half phys) n phys (k_mem st2)\<rparr>)
                   else kmem_early_alloc sz
                          (st2\<lparr>g_kmem_early_count := add32 (g_kmem_early_count st2) 1,
                               g_kmem_early_max_req := max (g_kmem_early_max_req st2) (sz mod 2 ^ 32)\<rparr>))"

definition page_header_valid :: "nat \<Rightarrow> (nat \<Rightarrow> nat) \<Rightarrow> bool" where
  "page_header_valid hdr m \<longleftrightarrow>
     m hdr mod 2 ^ 32 = KMEM_PAGE_MAGIC \<and> 0 < m hdr div 2 ^ 32 mod 2 ^ 32 \<and> m (hdr + 16) = hdr"

definition kmem_free :: "nat \<Rightarrow> kheap \<Rightarrow> pfa_panic + kheap" where
  "kmem_free ptr st =
     (if ptr = 0 then Inr st
      else if g_kmem_early_arena st \<le> ptr \<and> ptr < g_kmem_early_arena st + KMEM_EARLY_ARENA_BYTES then Inr st
      else
        let hdr = ptr - PAGE_HEADER_SIZE in
        if ptr mod KMEM_PAGE_BYTES = PAGE_HEADER_SIZE \<and> page_header_valid hdr (k_mem st)
        then let phys = k_mem st (hdr + 8); n = k_mem st hdr div 2 ^ 32 mod 2 ^ 32;
                 st1 = st\<lparr>k_mem := (k_mem st)(hdr := n * 2 ^ 32, hdr + 16 := 0)\<rparr>
             in (case pfa_free_pages phys n (k_frames st1) of
                   Inl e \<Rightarrow> Inl e
                 | Inr frames \<Rightarrow> Inr (st1\<lparr>k_frames := frames\<rparr>))
        else Inr (kfree_small ptr st))"

definition kmem_early_arena_used :: "kheap \<Rightarrow> nat" where
  "kmem_early_arena_used st = g_kmem_early_arena_off st"

definition kmem_early_arena_count :: "kheap \<Rightarrow> nat" where
  "kmem_early_arena_count st = g_kmem_early_count st"

definition kmem_early_arena_max_request :: "kheap \<Rightarrow> nat" where
  "kmem_early_arena_max_request st = g_kmem_early_max_req st"

definition kmem_early_arena_bytes :: nat where
  "kmem_early_arena_bytes = KMEM_EARLY_ARENA_BYTES"

end
