(* ===== verification/Kheap_inv.thy ===== *)
theory Kheap_inv
  imports Kheap
begin

text \<open>
  The invariant of the kernel heap.  Ghost state says which chunks a class has (\<open>K\<close>), the sequence its
  free list spells (\<open>F\<close>), the frames its chunks were carved from (\<open>G\<close>) and the page count of each page
  block (\<open>N\<close>).
\<close>

subsection \<open>Addresses\<close>

lemmas heap_consts = KERNEL_HIGHER_HALF_BASE_def KERNEL_HIGHER_HALF_WINDOW_BYTES_def SLAB_GROW_FRAME_BYTES_def
  SLAB_CLASS_COUNT_def SLAB_MAGIC_def KMEM_PAGE_MAGIC_def KMEM_PAGE_BYTES_def KMEM_EARLY_ARENA_BYTES_def
  SLAB_HEADER_SIZE_def PAGE_HEADER_SIZE_def

definition va :: "nat \<Rightarrow> nat" where
  "va f = KERNEL_HIGHER_HALF_BASE + f * 4096"

definition frame_bytes :: "nat \<Rightarrow> nat set" where
  "frame_bytes f = {va f..<va f + 4096}"

definition space :: "nat set \<Rightarrow> nat set" where
  "space G = (\<Union>f \<in> G. frame_bytes f)"

definition slab_static :: "heap_layout \<Rightarrow> nat set" where
  "slab_static lay = {g_slab_buf_32 lay..<g_slab_buf_32 lay + 4096} \<union> {g_slab_buf_64 lay..<g_slab_buf_64 lay + 8192}
     \<union> {g_slab_buf_128 lay..<g_slab_buf_128 lay + 12288}"

definition arena_bytes :: "heap_layout \<Rightarrow> nat set" where
  "arena_bytes lay = {early_arena lay..<early_arena lay + KMEM_EARLY_ARENA_BYTES}"

text \<open>The frames the kernel image occupies with these buffers.\<close>

definition image_frames :: "heap_layout \<Rightarrow> nat set" where
  "image_frames lay = {f. frame_bytes f \<inter> (slab_static lay \<union> arena_bytes lay) \<noteq> {}}"

definition layout_ok :: "heap_layout \<Rightarrow> bool" where
  "layout_ok lay \<longleftrightarrow>
     (\<forall>b \<in> {g_slab_buf_32 lay, g_slab_buf_64 lay, g_slab_buf_128 lay}. b mod 8 = 0 \<and> 0 < b)
     \<and> 0 < early_arena lay \<and> early_arena lay + KMEM_EARLY_ARENA_BYTES + 8 < 2 ^ 64
     \<and> {g_slab_buf_32 lay..<g_slab_buf_32 lay + 4096} \<inter> {g_slab_buf_64 lay..<g_slab_buf_64 lay + 8192} = {}
     \<and> {g_slab_buf_32 lay..<g_slab_buf_32 lay + 4096} \<inter> {g_slab_buf_128 lay..<g_slab_buf_128 lay + 12288} = {}
     \<and> {g_slab_buf_64 lay..<g_slab_buf_64 lay + 8192} \<inter> {g_slab_buf_128 lay..<g_slab_buf_128 lay + 12288} = {}
     \<and> slab_static lay \<inter> arena_bytes lay = {}"

lemma low_high_apart: "take_bit n x AND push_bit n y = (0 :: nat)"
  by (rule bit_eqI) (auto simp: bit_and_iff bit_take_bit_iff bit_push_bit_iff)

lemma higher_half_add:
  assumes "phys < 2 ^ 31"
  shows "higher_half phys = KERNEL_HIGHER_HALF_BASE + phys"
proof -
  have h: "KERNEL_HIGHER_HALF_BASE = push_bit 31 (2 ^ 33 - 1)" by (simp add: heap_consts push_bit_eq_mult)
  have "take_bit 31 phys = phys" using assms by (simp add: take_bit_nat_eq_self_iff)
  then have "phys AND KERNEL_HIGHER_HALF_BASE = 0" using low_high_apart [of 31 phys "2 ^ 33 - 1"] by (simp only: h)
  then show ?thesis by (simp add: higher_half_def disjunctive_add_eq_or [symmetric])
qed

lemma va_frame: "a mod 4096 = 0 \<Longrightarrow> a < 2 ^ 31 \<Longrightarrow> higher_half a = va (frame_of a)"
  by (auto simp: higher_half_add va_def frame_of_def)

lemma frame_bytes_disjoint: "f \<noteq> g \<Longrightarrow> frame_bytes f \<inter> frame_bytes g = {}"
  by (cases f g rule: linorder_cases) (auto simp: frame_bytes_def va_def)

lemma space_disjoint: "G \<inter> H = {} \<Longrightarrow> space G \<inter> space H = {}"
proof -
  assume d: "G \<inter> H = {}"
  have False if "x \<in> frame_bytes f" "f \<in> G" "x \<in> frame_bytes g" "g \<in> H" for x f g
    using frame_bytes_disjoint [of f g] that d by (cases "f = g") auto
  then show ?thesis by (auto simp: space_def)
qed

lemma space_static: "G \<inter> image_frames lay = {} \<Longrightarrow> space G \<inter> (slab_static lay \<union> arena_bytes lay) = {}"
  by (auto simp: space_def image_frames_def)

lemma space_mono: "G \<subseteq> H \<Longrightarrow> space G \<subseteq> space H"
  by (auto simp: space_def)

lemma space_run: "space {f..<f + k} = {va f..<va f + k * 4096}"
proof -
  have "x \<in> space {f..<f + k}" if "va f \<le> x" "x < va f + k * 4096" for x
  proof -
    let ?g = "f + (x - va f) div 4096"
    have "?g \<in> {f..<f + k}" using that by (auto simp: less_mult_imp_div_less)
    moreover have "x \<in> frame_bytes ?g"
      using that div_mult_mod_eq [of "x - va f" 4096] mod_less_divisor [of 4096 "x - va f"]
      by (auto simp: frame_bytes_def va_def algebra_simps)
    ultimately show ?thesis by (auto simp: space_def)
  qed
  moreover have "va f \<le> x \<and> x < va f + k * 4096" if "x \<in> frame_bytes g" "f \<le> g" "g < f + k" for x g
  proof -
    have "g * 4096 + 4096 \<le> (f + k) * 4096" using that(3) by simp
    then show ?thesis using that by (auto simp: frame_bytes_def va_def algebra_simps)
  qed
  ultimately show ?thesis by (auto simp: space_def)
qed

subsection \<open>Free lists in memory\<close>

definition class_bytes :: "nat \<Rightarrow> nat" where
  "class_bytes c = [32, 64, 128] ! c"

definition chunk :: "nat \<Rightarrow> nat \<Rightarrow> nat set" where
  "chunk c a = {a..<a + class_bytes c}"

fun chain :: "(nat \<Rightarrow> nat) \<Rightarrow> nat \<Rightarrow> nat list \<Rightarrow> bool" where
  "chain m x [] \<longleftrightarrow> x = 0"
| "chain m x (a # as) \<longleftrightarrow> x = a \<and> a \<noteq> 0 \<and> chain m (m a) as"

lemma chain_cong: "(\<And>a. a \<in> set as \<Longrightarrow> m' a = m a) \<Longrightarrow> chain m' x as \<longleftrightarrow> chain m x as"
  by (induction as arbitrary: x) auto

lemma chain_upd [simp]: "a \<notin> set as \<Longrightarrow> chain (m(a := v)) x as \<longleftrightarrow> chain m x as"
  by (rule chain_cong) auto

lemma chain_nonempty: "chain m x as \<Longrightarrow> x \<noteq> 0 \<Longrightarrow> \<exists>as'. as = x # as' \<and> chain m (m x) as'"
  by (cases as) auto

lemma class_bytes_cases: "c < 3 \<Longrightarrow> class_bytes c = 32 \<or> class_bytes c = 64 \<or> class_bytes c = 128"
  by (auto simp: class_bytes_def less_Suc_eq numeral_3_eq_3)

lemma class_bytes_pos: "c < 3 \<Longrightarrow> 32 \<le> class_bytes c"
  using class_bytes_cases by fastforce

lemma chunk_self: "c < 3 \<Longrightarrow> i < 32 \<Longrightarrow> a + i \<in> chunk c a"
  using class_bytes_pos [of c] by (simp add: chunk_def)

definition chunks_apart :: "(nat \<Rightarrow> nat set) \<Rightarrow> bool" where
  "chunks_apart K \<longleftrightarrow> (\<forall>c < 3. \<forall>d < 3. \<forall>a \<in> K c. \<forall>b \<in> K d. (c, a) \<noteq> (d, b) \<longrightarrow> chunk c a \<inter> chunk d b = {})"

definition chunks_in :: "(nat \<Rightarrow> nat set) \<Rightarrow> nat set \<Rightarrow> bool" where
  "chunks_in K S \<longleftrightarrow> (\<forall>c < 3. \<forall>a \<in> K c. a mod 8 = 0 \<and> 0 < a \<and> chunk c a \<subseteq> S)"

definition lists_ok :: "(nat \<Rightarrow> nat set) \<Rightarrow> (nat \<Rightarrow> nat list) \<Rightarrow> (nat \<Rightarrow> nat) \<Rightarrow> slab_class list \<Rightarrow> bool" where
  "lists_ok K F m cl \<longleftrightarrow> length cl = 3 \<and> (\<forall>c < 3. chunk_size (cl ! c) = class_bytes c
     \<and> chain m (free_list (cl ! c)) (F c) \<and> distinct (F c) \<and> set (F c) \<subseteq> K c)"

lemma chunk_class_unique:
  assumes "chunks_apart K" "c < 3" "d < 3" "a \<in> K c" "a \<in> K d"
  shows "c = d"
  using assms chunk_self [of c 0 a] chunk_self [of d 0 a] unfolding chunks_apart_def by force

lemma lists_okD:
  assumes "lists_ok K F m cl" "c < 3"
  shows "length cl = 3" "chunk_size (cl ! c) = class_bytes c" "chain m (free_list (cl ! c)) (F c)" "distinct (F c)" "set (F c) \<subseteq> K c"
  using assms by (auto simp: lists_ok_def)

lemma lists_push:
  assumes ap: "chunks_apart K" and ok: "lists_ok K F m cl" and c: "c < 3" and a: "a \<in> K c" "a \<notin> set (F c)" "0 < a"
  shows "lists_ok K (F(c := a # F c)) (m(a := free_list (cl ! c))) (cl[c := (cl ! c)\<lparr>free_list := a\<rparr>])"
proof -
  have "a \<notin> set (F d)" if "d < 3" for d
    using chunk_class_unique [OF ap c that a(1)] a(2) lists_okD(5) [OF ok that] by blast
  then show ?thesis using ok c a by (auto simp: lists_ok_def nth_list_update)
qed

lemma lists_pop:
  assumes ap: "chunks_apart K" and ok: "lists_ok K F m cl" and c: "c < 3" and a: "F c = a # as"
  shows "lists_ok K (F(c := as)) (m(a := v)) (cl[c := (cl ! c)\<lparr>free_list := m a\<rparr>])"
proof -
  note C = lists_okD [OF ok c]
  have "a \<notin> set (F d)" if "d < 3" "d \<noteq> c" for d
    using chunk_class_unique [OF ap c that(1), of a] that(2) a C(5) lists_okD(5) [OF ok that(1)] by auto
  moreover have "a \<notin> set as" using C(4) a by simp
  ultimately show ?thesis using ok c a C by (auto simp: lists_ok_def nth_list_update)
qed

subsection \<open>Carving a region into chunks\<close>

definition carved_at :: "nat \<Rightarrow> nat \<Rightarrow> nat \<Rightarrow> nat list" where
  "carved_at c start n = map (\<lambda>i. start + class_bytes c * i) [0..<n]"

text \<open>What pushing chunks leaves alone.\<close>

definition slab_frame :: "nat set \<Rightarrow> kheap \<Rightarrow> kheap \<Rightarrow> bool" where
  "slab_frame A st st' \<longleftrightarrow> st' = st\<lparr>k_mem := k_mem st', g_classes := g_classes st'\<rparr>
     \<and> (\<forall>x. x \<notin> A \<longrightarrow> k_mem st' x = k_mem st x)
     \<and> map (free_list_update (\<lambda>_. 0)) (g_classes st') = map (free_list_update (\<lambda>_. 0)) (g_classes st)"

lemma slab_frame_refl: "slab_frame {} st st"
  by (simp add: slab_frame_def)

lemma slab_frame_trans: "slab_frame A st st1 \<Longrightarrow> slab_frame B st1 st2 \<Longrightarrow> slab_frame (A \<union> B) st st2"
  unfolding slab_frame_def by (auto intro: kheap.equality) (metis (no_types, lifting) kheap.surjective kheap.update_convs(1,2))

lemma push_frame: "slab_frame {a} st (slab_push c a st)"
proof -
  have "map (free_list_update (\<lambda>_. 0)) (cl[c := (cl ! c)\<lparr>free_list := a\<rparr>]) = map (free_list_update (\<lambda>_. 0)) cl" for cl
    by (cases "c < length cl") (simp_all add: map_update list_update_same_conv list_update_beyond not_less)
  then show ?thesis by (auto simp: slab_frame_def slab_push_def)
qed

lemma frame_class:
  assumes "slab_frame A st st'" "c < length (g_classes st)"
  shows "chunk_size (g_classes st' ! c) = chunk_size (g_classes st ! c)" "chunk_count (g_classes st' ! c) = chunk_count (g_classes st ! c)"
    "slab_buffer (g_classes st' ! c) = slab_buffer (g_classes st ! c)" "length (g_classes st') = length (g_classes st)"
proof -
  have m: "map (free_list_update (\<lambda>_. 0)) (g_classes st') = map (free_list_update (\<lambda>_. 0)) (g_classes st)"
    using assms(1) by (simp add: slab_frame_def)
  show l: "length (g_classes st') = length (g_classes st)" using arg_cong [OF m, of length] by simp
  have "(g_classes st' ! c)\<lparr>free_list := 0\<rparr> = (g_classes st ! c)\<lparr>free_list := 0\<rparr>"
    using arg_cong [OF m, of "\<lambda>xs. xs ! c"] assms(2) l by simp
  from arg_cong [OF this, of chunk_size] arg_cong [OF this, of chunk_count] arg_cong [OF this, of slab_buffer]
  show "chunk_size (g_classes st' ! c) = chunk_size (g_classes st ! c)" "chunk_count (g_classes st' ! c) = chunk_count (g_classes st ! c)"
    "slab_buffer (g_classes st' ! c) = slab_buffer (g_classes st ! c)" by simp_all
qed

lemma push_list:
  assumes ap: "chunks_apart K" and c: "c < 3"
  shows "lists_ok K F (k_mem st) (g_classes st) \<Longrightarrow> set as \<subseteq> K c \<Longrightarrow> distinct as \<Longrightarrow> set as \<inter> set (F c) = {} \<Longrightarrow> 0 \<notin> set as \<Longrightarrow>
    lists_ok K (F(c := rev as @ F c)) (k_mem (fold (slab_push c) as st)) (g_classes (fold (slab_push c) as st))
    \<and> slab_frame (set as) st (fold (slab_push c) as st)"
proof (induction as arbitrary: st F)
  case Nil
  then show ?case by (simp add: slab_frame_refl)
next
  case (Cons a as)
  have p: "lists_ok K (F(c := a # F c)) (k_mem (slab_push c a st)) (g_classes (slab_push c a st))"
    using lists_push [OF ap Cons.prems(1) c, of a] Cons.prems by (simp add: slab_push_def)
  have e: "(F(c := a # F c))(c := rev as @ (F(c := a # F c)) c) = F(c := rev as @ a # F c)" by simp
  have "set as \<inter> set ((F(c := a # F c)) c) = {}" using Cons.prems by auto
  with Cons.IH [OF p, unfolded e] Cons.prems(2,3,5)
  have "lists_ok K (F(c := rev as @ a # F c)) (k_mem (fold (slab_push c) as (slab_push c a st))) (g_classes (fold (slab_push c) as (slab_push c a st)))"
    "slab_frame (set as) (slab_push c a st) (fold (slab_push c) as (slab_push c a st))" by (simp_all add: fun_upd_def)
  then show ?case using slab_frame_trans [OF push_frame [of a st c]] by (simp add: fun_upd_def)
qed

lemma push_all_list:
  assumes "c < length (g_classes st)" "chunk_size (g_classes st ! c) = class_bytes c"
  shows "slab_push_all c start n st = fold (slab_push c) (carved_at c start n) st"
proof -
  have "fold (\<lambda>i st. slab_push c (start + chunk_size (g_classes st ! c) * i) st) is st
      = fold (slab_push c) (map (\<lambda>i. start + class_bytes c * i) is) st" for "is"
    using assms
  proof (induction "is" arbitrary: st)
    case (Cons i "is")
    have "chunk_size (g_classes (slab_push c a st) ! c) = class_bytes c" "c < length (g_classes (slab_push c a st))" for a
      using frame_class [OF push_frame [of a st c] Cons.prems(1)] Cons.prems by simp_all
    then show ?case using Cons by simp
  qed simp
  then show ?thesis by (simp add: slab_push_all_def carved_at_def)
qed

lemma carved_at_set: "a \<in> set (carved_at c start n) \<Longrightarrow> c < 3 \<Longrightarrow> chunk c a \<subseteq> {start..<start + class_bytes c * n} \<and> start \<le> a \<and> a mod 8 = start mod 8"
proof -
  assume a: "a \<in> set (carved_at c start n)" and c: "c < 3"
  then obtain i where i: "i < n" "a = start + class_bytes c * i" by (auto simp: carved_at_def)
  have "class_bytes c * i + class_bytes c \<le> class_bytes c * n"
    using mult_le_mono2 [of "Suc i" n "class_bytes c"] i(1) by simp
  moreover have "class_bytes c * i = 8 * (class_bytes c div 8 * i)" using class_bytes_cases [OF c] by auto
  then have "(start + class_bytes c * i) mod 8 = start mod 8" by (metis mod_mult_self2)
  ultimately show ?thesis using i by (auto simp: chunk_def)
qed

lemma carved_at_distinct: "c < 3 \<Longrightarrow> distinct (carved_at c start n)"
  using class_bytes_pos [of c] by (auto simp: carved_at_def distinct_map inj_on_def)

lemma carved_at_apart:
  assumes "a \<in> set (carved_at c start n)" "b \<in> set (carved_at c start n)" "a \<noteq> b" "c < 3"
  shows "chunk c a \<inter> chunk c b = {}"
proof -
  have "chunk c (start + class_bytes c * i) \<inter> chunk c (start + class_bytes c * j) = {}" if "i < j" for i j
    using mult_le_mono2 [of "Suc i" j "class_bytes c"] that by (auto simp: chunk_def)
  then show ?thesis using assms by (auto simp: carved_at_def) (metis Int_commute disjoint_iff nat_neq_iff)
qed

definition slab_ok :: "(nat \<Rightarrow> nat set) \<Rightarrow> (nat \<Rightarrow> nat list) \<Rightarrow> nat set \<Rightarrow> kheap \<Rightarrow> bool" where
  "slab_ok K F S st \<longleftrightarrow> chunks_apart K \<and> chunks_in K S \<and> lists_ok K F (k_mem st) (g_classes st)"

lemma carve_ok:
  assumes ok: "slab_ok K F S st" and c: "c < 3" and start: "start mod 8 = 0" "0 < start"
    and R: "R = {start..<start + class_bytes c * n}" "R \<inter> S = {}"
  shows "slab_ok (K(c := K c \<union> set (carved_at c start n))) (F(c := rev (carved_at c start n) @ F c)) (S \<union> R) (slab_push_all c start n st)"
    and "slab_frame R st (slab_push_all c start n st)"
proof -
  let ?A = "carved_at c start n" and ?K = "K(c := K c \<union> set (carved_at c start n))"
  have s: "chunks_apart K" "chunks_in K S" "lists_ok K F (k_mem st) (g_classes st)" using ok by (simp_all add: slab_ok_def)
  have A: "chunk c a \<subseteq> R" "0 < a" "a mod 8 = 0" if "a \<in> set ?A" for a
    using carved_at_set [OF that c] start R(1) by auto
  have old: "chunk d b \<subseteq> S" if "d < 3" "b \<in> K d" for d b using s(2) that by (simp add: chunks_in_def)
  have new: "chunk d b \<inter> chunk c a = {}" if "d < 3" "b \<in> K d" "a \<in> set ?A" for d b a
    using old [OF that(1,2)] A(1) [OF that(3)] R(2) by blast
  have ap: "chunks_apart ?K"
    unfolding chunks_apart_def
  proof (intro allI impI ballI)
    fix e d a b assume h: "e < 3" "d < 3" "a \<in> ?K e" "b \<in> ?K d" "(e, a) \<noteq> (d, b)"
    consider "a \<in> K e" "b \<in> K d" | "e = c" "a \<in> set ?A" "b \<in> K d" | "d = c" "b \<in> set ?A" "a \<in> K e"
      | "e = c" "d = c" "a \<in> set ?A" "b \<in> set ?A" using h(3,4) by (cases "e = c"; cases "d = c") auto
    then show "chunk e a \<inter> chunk d b = {}"
    proof cases
      case 1 then show ?thesis using s(1) h by (simp add: chunks_apart_def)
    next
      case 2 then show ?thesis using new [OF h(2), of b a] by blast
    next
      case 3 then show ?thesis using new [OF h(1), of a b] by blast
    next
      case 4 then show ?thesis using carved_at_apart [of a c start n b] h c by simp
    qed
  qed
  have kc: "b \<in> K d \<or> d = c \<and> b \<in> set ?A" if "b \<in> ?K d" for b d using that by (cases "d = c") auto
  have cin: "chunks_in ?K (S \<union> R)"
    unfolding chunks_in_def
  proof (intro allI impI ballI)
    fix d b assume d: "d < 3" and b: "b \<in> ?K d"
    from kc [OF b] show "b mod 8 = 0 \<and> 0 < b \<and> chunk d b \<subseteq> S \<union> R"
      using s(2) d A [of b] unfolding chunks_in_def by blast
  qed
  have l: "lists_ok ?K F (k_mem st) (g_classes st)" using s(3) by (auto simp: lists_ok_def)
  have "a \<notin> set (F c)" if "a \<in> set ?A" for a
    using new [OF c, of a a] that lists_okD(5) [OF s(3) c] chunk_self [OF c, of 0 a] by auto
  then have fresh: "set ?A \<inter> set (F c) = {}" by blast
  have z: "0 \<notin> set ?A" using A(2) by blast
  have len: "c < length (g_classes st)" "chunk_size (g_classes st ! c) = class_bytes c" using lists_okD [OF s(3) c] c by simp_all
  note pl = push_list [OF ap c l _ carved_at_distinct [OF c] fresh z, folded push_all_list [OF len]]
  show "slab_ok ?K (F(c := rev ?A @ F c)) (S \<union> R) (slab_push_all c start n st)" using pl ap cin by (simp add: slab_ok_def)
  have "a \<in> R" if "a \<in> set ?A" for a using A(1) [OF that] chunk_self [OF c, of 0 a] by auto
  then show "slab_frame R st (slab_push_all c start n st)" using pl by (auto simp: slab_frame_def)
qed

lemma slab_ok_mono: "slab_ok K F S st \<Longrightarrow> S \<subseteq> T \<Longrightarrow> slab_ok K F T st"
  by (auto simp: slab_ok_def chunks_in_def)

lemma slab_ok_cong:
  assumes "slab_ok K F S st" "\<And>c a. c < 3 \<Longrightarrow> a \<in> set (F c) \<Longrightarrow> k_mem st' a = k_mem st a" "g_classes st' = g_classes st"
  shows "slab_ok K F S st'"
proof -
  have "chain (k_mem st') x (F c) \<longleftrightarrow> chain (k_mem st) x (F c)" if "c < 3" for c x using chain_cong assms(2) [OF that] by blast
  then show ?thesis using assms(1,3) by (simp add: slab_ok_def lists_ok_def)
qed

lemma clear_ok:
  assumes ok: "slab_ok K F S st" and c: "c < 3" and f: "F c = []"
  shows "slab_ok K F S (st\<lparr>g_classes := (g_classes st)[c := (g_classes st ! c)\<lparr>free_list := 0\<rparr>]\<rparr>)"
  using ok c f by (auto simp: slab_ok_def lists_ok_def nth_list_update)

text \<open>The three classes after \<open>slab_init\<close> hold the static buffers.\<close>

lemma init_step:
  assumes ok: "slab_ok K F S st" and c: "c < 3" and f: "F c = []" and b: "slab_buffer (g_classes st ! c) mod 8 = 0" "0 < slab_buffer (g_classes st ! c)"
    and R: "R = {slab_buffer (g_classes st ! c)..<slab_buffer (g_classes st ! c) + class_bytes c * chunk_count (g_classes st ! c)}" "R \<inter> S = {}"
  obtains K' F' st' where "slab_push_all c (slab_buffer (g_classes st ! c)) (chunk_count (g_classes st ! c))
      (st\<lparr>g_classes := (g_classes st)[c := (g_classes st ! c)\<lparr>free_list := 0\<rparr>]\<rparr>) = st'"
    "slab_ok K' F' (S \<union> R) st'" "slab_frame R st st'" "\<And>d. d \<noteq> c \<Longrightarrow> F' d = F d"
proof -
  let ?st = "st\<lparr>g_classes := (g_classes st)[c := (g_classes st ! c)\<lparr>free_list := 0\<rparr>]\<rparr>"
  let ?b = "slab_buffer (g_classes st ! c)" and ?n = "chunk_count (g_classes st ! c)"
  note cv = carve_ok [OF clear_ok [OF ok c f] c b R]
  have "slab_frame {} st ?st"
    by (cases "c < length (g_classes st)")
      (simp_all add: slab_frame_def map_update list_update_same_conv list_update_beyond not_less)
  then have "slab_frame R st (slab_push_all c ?b ?n ?st)" using slab_frame_trans cv(2) by fastforce
  then show ?thesis using that [OF refl cv(1)] by simp
qed

lemma slab_init_ok:
  assumes "layout_ok lay"
  shows "\<exists>K F. slab_ok K F (slab_static lay) (slab_init (kheap_boot lay m frames))
    \<and> slab_frame (slab_static lay) (kheap_boot lay m frames) (slab_init (kheap_boot lay m frames))"
proof -
  let ?st = "kheap_boot lay m frames"
  let ?init = "\<lambda>c st. slab_push_all c (slab_buffer (g_classes st ! c)) (chunk_count (g_classes st ! c))
      (st\<lparr>g_classes := (g_classes st)[c := (g_classes st ! c)\<lparr>free_list := 0\<rparr>]\<rparr>)"
  let ?R0 = "{g_slab_buf_32 lay..<g_slab_buf_32 lay + 4096}" and ?R1 = "{g_slab_buf_64 lay..<g_slab_buf_64 lay + 8192}"
  let ?R2 = "{g_slab_buf_128 lay..<g_slab_buf_128 lay + 12288}"
  note L = assms [unfolded layout_ok_def]
  have cl: "length (g_classes ?st) = 3" by (simp add: kheap_boot_def static_classes_def)
  have st0: "slab_ok (\<lambda>_. {}) (\<lambda>_. []) {} ?st"
    by (auto simp: slab_ok_def chunks_apart_def chunks_in_def lists_ok_def kheap_boot_def static_classes_def class_bytes_def
        less_Suc_eq numeral_3_eq_3)
  obtain K1 F1 st1 where 1: "?init 0 ?st = st1" "slab_ok K1 F1 ({} \<union> ?R0) st1" "slab_frame ?R0 ?st st1" "\<And>d. d \<noteq> 0 \<Longrightarrow> F1 d = []"
    by (rule init_step [OF st0, of 0 ?R0]) (use L in \<open>auto simp: kheap_boot_def static_classes_def class_bytes_def\<close>)
  note c1 = frame_class [OF 1(3), unfolded cl]
  have b1: "slab_buffer (g_classes st1 ! 1) = g_slab_buf_64 lay" "chunk_count (g_classes st1 ! 1) = 128"
    using c1(2,3) [of 1] by (simp_all add: kheap_boot_def static_classes_def)
  obtain K2 F2 st2 where 2: "?init 1 st1 = st2" "slab_ok K2 F2 ({} \<union> ?R0 \<union> ?R1) st2" "slab_frame ?R1 st1 st2" "\<And>d. d \<noteq> 1 \<Longrightarrow> F2 d = F1 d"
    by (rule init_step [OF 1(2), of 1 ?R1]) (use L b1 1(4) in \<open>auto simp: class_bytes_def\<close>)
  note f2 = slab_frame_trans [OF 1(3) 2(3)]
  have b2: "slab_buffer (g_classes st2 ! 2) = g_slab_buf_128 lay" "chunk_count (g_classes st2 ! 2) = 96"
    using frame_class(2,3) [OF f2, of 2] cl by (simp_all add: kheap_boot_def static_classes_def)
  obtain K3 F3 st3 where 3: "?init 2 st2 = st3" "slab_ok K3 F3 ({} \<union> ?R0 \<union> ?R1 \<union> ?R2) st3" "slab_frame ?R2 st2 st3" "\<And>d. d \<noteq> 2 \<Longrightarrow> F3 d = F2 d"
    by (rule init_step [OF 2(2), of 2 ?R2]) (use L b2 1(4) 2(4) in \<open>auto simp: class_bytes_def\<close>)
  have "slab_init ?st = st3"
    using 1(1) 2(1) 3(1) by (simp add: slab_init_def SLAB_CLASS_COUNT_def numeral_3_eq_3 upt_rec numeral_2_eq_2)
  then show ?thesis using 3(2) slab_frame_trans [OF f2 3(3)] by (auto simp: slab_static_def)
qed

end
