(* ===== verification/Kheap_ops.thy ===== *)
theory Kheap_ops
  imports Kheap_inv
begin

text \<open>
  Every call of the kernel heap keeps its invariant: the blocks handed out and not yet given back, by
  address and size, and the frames the heap holds a reference to.
\<close>

subsection \<open>Live blocks\<close>

definition slab_block :: "(nat \<Rightarrow> nat set) \<Rightarrow> (nat \<Rightarrow> nat list) \<Rightarrow> (nat \<Rightarrow> nat) \<Rightarrow> nat \<Rightarrow> nat \<Rightarrow> bool" where
  "slab_block K F m p n \<longleftrightarrow> (\<exists>c < 3. 4 \<le> p \<and> p - 4 \<in> K c \<and> p - 4 \<notin> set (F c) \<and> n + 4 \<le> class_bytes c
     \<and> m (p - 4) mod 2 ^ 32 = c * 2 ^ 16 + SLAB_MAGIC)"

definition page_first :: "nat \<Rightarrow> nat" where
  "page_first p = (p - 24 - KERNEL_HIGHER_HALF_BASE) div 4096"

definition page_frames :: "nat \<Rightarrow> nat \<Rightarrow> nat set" where
  "page_frames k p = {page_first p..<page_first p + k}"

definition page_block :: "nat \<Rightarrow> (nat \<Rightarrow> nat) \<Rightarrow> nat \<Rightarrow> nat \<Rightarrow> bool" where
  "page_block k m p n \<longleftrightarrow> (\<exists>f. p = va f + 24 \<and> 0 < f \<and> 0 < k \<and> f + k \<le> 2 ^ 17 \<and> 24 + n \<le> k * 4096
     \<and> m (va f) = KMEM_PAGE_MAGIC + k * 2 ^ 32 \<and> m (va f + 8) = f * 4096 \<and> m (va f + 16) = va f)"

definition block_ok ::
  "heap_layout \<Rightarrow> (nat \<Rightarrow> nat set) \<Rightarrow> (nat \<Rightarrow> nat list) \<Rightarrow> (nat \<Rightarrow> nat) \<Rightarrow> kheap \<Rightarrow> nat \<Rightarrow> nat \<Rightarrow> bool" where
  "block_ok lay K F N st p n \<longleftrightarrow> 0 < n \<and> 0 < p \<and>
     (if p \<in> arena_bytes lay then p + n \<le> early_arena lay + g_kmem_early_arena_off st
      else if p mod 4096 = 24 then page_block (N p) (k_mem st) p n
      else slab_block K F (k_mem st) p n)"

definition paged :: "heap_layout \<Rightarrow> (nat \<Rightarrow> nat option) \<Rightarrow> nat set" where
  "paged lay live = {p \<in> dom live. p \<notin> arena_bytes lay \<and> p mod 4096 = 24}"

definition block_frames :: "heap_layout \<Rightarrow> (nat \<Rightarrow> nat option) \<Rightarrow> (nat \<Rightarrow> nat) \<Rightarrow> nat set" where
  "block_frames lay live N = (\<Union>p \<in> paged lay live. page_frames (N p) p)"

definition blocks_ok ::
  "heap_layout \<Rightarrow> (nat \<Rightarrow> nat option) \<Rightarrow> (nat \<Rightarrow> nat set) \<Rightarrow> (nat \<Rightarrow> nat list) \<Rightarrow> (nat \<Rightarrow> nat) \<Rightarrow> kheap \<Rightarrow> bool" where
  "blocks_ok lay live K F N st \<longleftrightarrow> (\<forall>p n. live p = Some n \<longrightarrow> block_ok lay K F N st p n)
     \<and> (\<forall>p \<in> paged lay live. \<forall>q \<in> paged lay live. p \<noteq> q \<longrightarrow> page_frames (N p) p \<inter> page_frames (N q) q = {})
     \<and> (\<forall>p q n k. live p = Some n \<longrightarrow> live q = Some k \<longrightarrow> p \<noteq> q \<longrightarrow> p \<in> arena_bytes lay \<longrightarrow> q \<in> arena_bytes lay \<longrightarrow>
          {p..<p + n} \<inter> {q..<q + k} = {})"

definition held_ok :: "heap_layout \<Rightarrow> nat set \<Rightarrow> pfa \<Rightarrow> bool" where
  "held_ok lay held pf \<longleftrightarrow> pfa_inv pf \<and> (\<forall>f \<in> held. 0 < g_refcount pf f \<and> f < g_tracked_pages pf)
     \<and> image_frames lay \<inter> held = {} \<and> image_frames lay \<inter> free_frames pf = {}"

definition heap_inv ::
  "heap_layout \<Rightarrow> (nat \<Rightarrow> nat option) \<Rightarrow> nat set \<Rightarrow> (nat \<Rightarrow> nat set) \<Rightarrow> (nat \<Rightarrow> nat list) \<Rightarrow> nat set \<Rightarrow> (nat \<Rightarrow> nat) \<Rightarrow> kheap \<Rightarrow> bool" where
  "heap_inv lay live held K F G N st \<longleftrightarrow> slab_ok K F (slab_static lay \<union> space G) st \<and> blocks_ok lay live K F N st
     \<and> G \<inter> block_frames lay live N = {} \<and> held = G \<union> block_frames lay live N \<and> held_ok lay held (k_frames st)
     \<and> g_kmem_early_arena st = early_arena lay \<and> g_kmem_early_arena_off st \<le> KMEM_EARLY_ARENA_BYTES"

lemma chunks_inD: "chunks_in K S \<Longrightarrow> c < 3 \<Longrightarrow> a \<in> K c \<Longrightarrow> a mod 8 = 0 \<and> 0 < a \<and> chunk c a \<subseteq> S"
  by (simp add: chunks_in_def)

lemma heap_invD:
  assumes "heap_inv lay live held K F G N st"
  shows "chunks_apart K" "chunks_in K (slab_static lay \<union> space G)" "lists_ok K F (k_mem st) (g_classes st)"
    "slab_ok K F (slab_static lay \<union> space G) st" "blocks_ok lay live K F N st" "G \<inter> block_frames lay live N = {}"
    "held = G \<union> block_frames lay live N" "held_ok lay held (k_frames st)" "g_kmem_early_arena st = early_arena lay"
    "g_kmem_early_arena_off st \<le> KMEM_EARLY_ARENA_BYTES"
  using assms unfolding heap_inv_def slab_ok_def by blast+

lemma live_block: "heap_inv lay live held K F G N st \<Longrightarrow> live p = Some n \<Longrightarrow> block_ok lay K F N st p n"
  by (simp add: heap_inv_def blocks_ok_def)

lemma va_props: "va f mod 4096 = 0" "page_first (va f + 24) = f" "0 < va f"
  by (simp_all add: va_def page_first_def KERNEL_HIGHER_HALF_BASE_def)

lemma va_24: "(va f + 24) mod 4096 = 24"
  using va_props(1) [of f] by (simp add: mod_add_eq [symmetric])

lemma page_space: "p = va f + 24 \<Longrightarrow> space (page_frames k p) = {va f..<va f + k * 4096}"
  using space_run va_props(2) by (simp add: page_frames_def)

lemma slab_space_arena:
  assumes "layout_ok lay" "image_frames lay \<inter> G = {}"
  shows "(slab_static lay \<union> space G) \<inter> arena_bytes lay = {}"
  using assms space_static [of G lay] by (auto simp: layout_ok_def)

lemma page_slab_space:
  assumes "image_frames lay \<inter> H = {}" "G \<inter> H = {}"
  shows "(slab_static lay \<union> space G) \<inter> space H = {}"
  using assms space_static [of H lay] space_disjoint [of G H] by blast

text \<open>An address returned for a chunk is no page block's and not in the arena.\<close>

lemma slab_address:
  assumes "chunks_in K S" "S \<inter> arena_bytes lay = {}" "c < 3" "a \<in> K c"
  shows "a + 4 \<notin> arena_bytes lay" "(a + 4) mod 4096 \<noteq> 24" "(a + 4) mod 8 = 4"
proof -
  have a: "a mod 8 = 0" "chunk c a \<subseteq> S" using assms by (auto simp: chunks_in_def)
  show "a + 4 \<notin> arena_bytes lay" using chunk_self [OF assms(3), of 4 a] a(2) assms(2) by auto
  show e: "(a + 4) mod 8 = 4" using a(1) by presburger
  show "(a + 4) mod 4096 \<noteq> 24"
  proof
    assume "(a + 4) mod 4096 = 24"
    then have "(a + 4) mod 4096 mod 8 = 24 mod (8 :: nat)" by simp
    then show False using e by (simp add: mod_mod_cancel)
  qed
qed

text \<open>Where a live block lies.\<close>

lemma block_place:
  assumes inv: "heap_inv lay live held K F G N st" and p: "live p = Some n"
  shows "p \<in> arena_bytes lay \<Longrightarrow> {p..<p + n} \<subseteq> arena_bytes lay"
    and "p \<in> paged lay live \<Longrightarrow> {p..<p + n} \<subseteq> space (page_frames (N p) p)"
    and "p \<notin> arena_bytes lay \<Longrightarrow> p \<notin> paged lay live \<Longrightarrow>
      \<exists>c < 3. p - 4 \<in> K c \<and> p - 4 \<notin> set (F c) \<and> 4 \<le> p \<and> {p..<p + n} \<subseteq> chunk c (p - 4) \<and> chunk c (p - 4) \<subseteq> slab_static lay \<union> space G"
proof -
  have b: "block_ok lay K F N st p n" using heap_invD(5) [OF inv] p by (simp add: blocks_ok_def)
  show "{p..<p + n} \<subseteq> arena_bytes lay" if "p \<in> arena_bytes lay"
    using b that heap_invD(10) [OF inv] by (auto simp: block_ok_def arena_bytes_def)
  show "{p..<p + n} \<subseteq> space (page_frames (N p) p)" if "p \<in> paged lay live"
  proof -
    have "page_block (N p) (k_mem st) p n" using b that by (simp add: block_ok_def paged_def)
    then obtain f where "p = va f + 24" "24 + n \<le> N p * 4096" by (auto simp: page_block_def)
    then show ?thesis using page_space [of p f "N p"] by auto
  qed
  show "\<exists>c < 3. p - 4 \<in> K c \<and> p - 4 \<notin> set (F c) \<and> 4 \<le> p \<and> {p..<p + n} \<subseteq> chunk c (p - 4) \<and> chunk c (p - 4) \<subseteq> slab_static lay \<union> space G"
    if "p \<notin> arena_bytes lay" "p \<notin> paged lay live"
  proof -
    have "slab_block K F (k_mem st) p n" using b that p by (auto simp: block_ok_def paged_def split: if_splits)
    then obtain c where c: "c < 3" "4 \<le> p" "p - 4 \<in> K c" "p - 4 \<notin> set (F c)" "n + 4 \<le> class_bytes c" by (auto simp: slab_block_def)
    moreover have "{p..<p + n} \<subseteq> chunk c (p - 4)" using c by (auto simp: chunk_def)
    ultimately show ?thesis using heap_invD(2) [OF inv] unfolding chunks_in_def by blast
  qed
qed

text \<open>The arena, the slab and the page blocks occupy different addresses.\<close>

lemma zones_apart:
  assumes lay: "layout_ok lay" and inv: "heap_inv lay live held K F G N st"
  shows "(slab_static lay \<union> space G) \<inter> arena_bytes lay = {}" "space (block_frames lay live N) \<inter> arena_bytes lay = {}"
    "(slab_static lay \<union> space G) \<inter> space (block_frames lay live N) = {}"
proof -
  have i: "image_frames lay \<inter> G = {}" "image_frames lay \<inter> block_frames lay live N = {}"
    using heap_invD(7,8) [OF inv] by (auto simp: held_ok_def)
  show "(slab_static lay \<union> space G) \<inter> arena_bytes lay = {}" by (rule slab_space_arena [OF lay i(1)])
  show "space (block_frames lay live N) \<inter> arena_bytes lay = {}" using space_static i(2) by blast
  show "(slab_static lay \<union> space G) \<inter> space (block_frames lay live N) = {}"
    by (rule page_slab_space [OF i(2) heap_invD(6) [OF inv]])
qed

lemma page_in_blocks: "p \<in> paged lay live \<Longrightarrow> space (page_frames (N p) p) \<subseteq> space (block_frames lay live N)"
  by (rule space_mono) (auto simp: block_frames_def)

definition zone :: "heap_layout \<Rightarrow> (nat \<Rightarrow> nat option) \<Rightarrow> nat set \<Rightarrow> (nat \<Rightarrow> nat) \<Rightarrow> nat \<Rightarrow> nat set" where
  "zone lay live G N p = (if p \<in> arena_bytes lay then arena_bytes lay
     else if p \<in> paged lay live then space (block_frames lay live N) else slab_static lay \<union> space G)"

text \<open>The memory behind a block: its header, its payload and what the allocator rounded up to.\<close>

definition foot :: "heap_layout \<Rightarrow> (nat \<Rightarrow> nat option) \<Rightarrow> (nat \<Rightarrow> nat set) \<Rightarrow> (nat \<Rightarrow> nat) \<Rightarrow> nat \<Rightarrow> nat set" where
  "foot lay live K N p = (if p \<in> arena_bytes lay then {p..<p + the (live p)}
     else if p \<in> paged lay live then space (page_frames (N p) p) else (\<Union>c \<in> {c. c < 3 \<and> p - 4 \<in> K c}. chunk c (p - 4)))"

lemma block_foot:
  assumes "heap_inv lay live held K F G N st" "live p = Some n"
  shows "{p..<p + n} \<subseteq> foot lay live K N p"
proof -
  note bp = block_place [OF assms]
  consider "p \<in> arena_bytes lay" | "p \<notin> arena_bytes lay" "p \<in> paged lay live" | "p \<notin> arena_bytes lay" "p \<notin> paged lay live" by blast
  then show ?thesis
  proof cases
    case 3
    then obtain c where "c < 3" "p - 4 \<in> K c" "{p..<p + n} \<subseteq> chunk c (p - 4)" using bp(3) by blast
    then show ?thesis using 3 by (auto simp: foot_def)
  qed (use bp(1,2) assms(2) in \<open>simp_all add: foot_def\<close>)
qed

lemma foot_zone:
  assumes "heap_inv lay live held K F G N st" "live p = Some n"
  shows "foot lay live K N p \<subseteq> zone lay live G N p"
proof -
  note bp = block_place [OF assms]
  consider "p \<in> arena_bytes lay" | "p \<notin> arena_bytes lay" "p \<in> paged lay live" | "p \<notin> arena_bytes lay" "p \<notin> paged lay live" by blast
  then show ?thesis
  proof cases
    case 1
    then show ?thesis using bp(1) assms(2) by (simp add: foot_def zone_def)
  next
    case 2
    then show ?thesis using page_in_blocks [of p lay live N] by (simp add: foot_def zone_def)
  next
    case 3
    then show ?thesis using chunks_inD [OF heap_invD(2) [OF assms(1)]] by (auto simp: foot_def zone_def)
  qed
qed

lemma feet_apart:
  assumes lay: "layout_ok lay" and inv: "heap_inv lay live held K F G N st"
    and p: "live p = Some n" and q: "live q = Some k" and ne: "p \<noteq> q"
  shows "foot lay live K N p \<inter> foot lay live K N q = {}"
proof -
  have blk: "blocks_ok lay live K F N st" by (rule heap_invD(5) [OF inv])
  have apart: ?thesis if "zone lay live G N p \<inter> zone lay live G N q = {}"
    using foot_zone [OF inv p] foot_zone [OF inv q] that by blast
  consider "p \<in> arena_bytes lay" "q \<in> arena_bytes lay" | "p \<in> paged lay live" "q \<in> paged lay live"
    | "p \<notin> arena_bytes lay" "p \<notin> paged lay live" "q \<notin> arena_bytes lay" "q \<notin> paged lay live"
    | "zone lay live G N p \<inter> zone lay live G N q = {}"
    using zones_apart [OF lay inv]
    by (cases "p \<in> arena_bytes lay"; cases "q \<in> arena_bytes lay"; cases "p \<in> paged lay live"; cases "q \<in> paged lay live")
      (simp_all add: zone_def Int_commute)
  then show ?thesis
  proof cases
    case 1
    then show ?thesis using blk p q ne by (simp add: blocks_ok_def foot_def)
  next
    case 2
    then have "p \<notin> arena_bytes lay" "q \<notin> arena_bytes lay" by (simp_all add: paged_def)
    moreover have "space (page_frames (N p) p) \<inter> space (page_frames (N q) q) = {}"
      using blk 2 ne by (intro space_disjoint) (simp add: blocks_ok_def)
    ultimately show ?thesis using 2 by (simp add: foot_def)
  next
    case 3
    have "4 \<le> p" "4 \<le> q" using block_place(3) [OF inv p 3(1,2)] block_place(3) [OF inv q 3(3,4)] by auto
    then have "p - 4 \<noteq> q - 4" using ne by auto
    then have "chunk c (p - 4) \<inter> chunk d (q - 4) = {}" if "c < 3" "d < 3" "p - 4 \<in> K c" "q - 4 \<in> K d" for c d
      using heap_invD(1) [OF inv] that by (auto simp: chunks_apart_def)
    then show ?thesis using 3 by (auto simp: foot_def)
  qed (rule apart)
qed

lemma live_apart:
  assumes "layout_ok lay" "heap_inv lay live held K F G N st" "live p = Some n" "live q = Some k" "p \<noteq> q"
  shows "{p..<p + n} \<inter> {q..<q + k} = {}"
  using feet_apart [OF assms] block_foot [OF assms(2,3)] block_foot [OF assms(2,4)] by blast

text \<open>A free chunk is behind no block.\<close>

lemma free_chunk_apart:
  assumes lay: "layout_ok lay" and inv: "heap_inv lay live held K F G N st" and q: "live q = Some k" and a: "c < 3" "a \<in> set (F c)"
  shows "chunk c a \<inter> foot lay live K N q = {}"
proof -
  note D = heap_invD [OF inv]
  have aK: "a \<in> K c" using lists_okD(5) [OF D(3) a(1)] a(2) by blast
  show ?thesis
  proof (cases "q \<in> arena_bytes lay \<or> q \<in> paged lay live")
    case True
    then have "(slab_static lay \<union> space G) \<inter> zone lay live G N q = {}" using zones_apart [OF lay inv] by (auto simp: zone_def)
    then show ?thesis using foot_zone [OF inv q] chunks_inD [OF D(2) a(1) aK] by blast
  next
    case False
    then obtain e where e: "e < 3" "q - 4 \<in> K e" "q - 4 \<notin> set (F e)" using block_place(3) [OF inv q] by blast
    have "chunk c a \<inter> chunk d (q - 4) = {}" if "d < 3" "q - 4 \<in> K d" for d
    proof -
      have "d = e" using chunk_class_unique [OF D(1) that(1) e(1) that(2) e(2)] .
      then have "(c, a) \<noteq> (d, q - 4)" using e(3) a(2) by auto
      then show ?thesis using D(1) a(1) aK that by (simp add: chunks_apart_def)
    qed
    then show ?thesis using False by (auto simp: foot_def)
  qed
qed

subsection \<open>Changes outside the blocks\<close>

text \<open>A block stays what it was when the words it rests on do.\<close>

lemma slab_block_cong:
  "slab_block K F m p n \<Longrightarrow> (\<And>c. c < 3 \<Longrightarrow> p - 4 \<in> K c \<Longrightarrow> p - 4 \<notin> set (F c) \<Longrightarrow> p - 4 \<in> K' c \<and> p - 4 \<notin> set (F' c)) \<Longrightarrow>
    m' (p - 4) mod 2 ^ 32 = m (p - 4) mod 2 ^ 32 \<Longrightarrow> slab_block K' F' m' p n"
  unfolding slab_block_def by auto

lemma page_block_cong:
  "page_block k m p n \<Longrightarrow> (\<And>f x. p = va f + 24 \<Longrightarrow> va f \<le> x \<Longrightarrow> x + 8 \<le> va f + 24 \<Longrightarrow> m' x = m x) \<Longrightarrow> page_block k m' p n"
  unfolding page_block_def by auto

lemma blocks_cong:
  assumes inv: "heap_inv lay live held K F G N st"
    and off: "g_kmem_early_arena_off st \<le> g_kmem_early_arena_off st'"
    and slab: "\<And>c p n. c < 3 \<Longrightarrow> live p = Some n \<Longrightarrow> p - 4 \<in> K c \<Longrightarrow> p - 4 \<notin> set (F c) \<Longrightarrow> p \<notin> arena_bytes lay \<Longrightarrow>
      p - 4 \<in> K' c \<and> p - 4 \<notin> set (F' c) \<and> k_mem st' (p - 4) mod 2 ^ 32 = k_mem st (p - 4) mod 2 ^ 32"
    and page: "\<And>f x. va f + 24 \<in> paged lay live \<Longrightarrow> va f \<le> x \<Longrightarrow> x + 8 \<le> va f + 24 \<Longrightarrow> k_mem st' x = k_mem st x"
  shows "blocks_ok lay live K' F' N st'"
proof -
  have blk: "blocks_ok lay live K F N st" by (rule heap_invD(5) [OF inv])
  have "block_ok lay K' F' N st' p n" if p: "live p = Some n" for p n
  proof -
    have b: "block_ok lay K F N st p n" using blk p by (simp add: blocks_ok_def)
    show ?thesis
    proof (cases "p \<in> arena_bytes lay \<or> p mod 4096 = 24")
      case True
      then show ?thesis using b off page p page_block_cong [of "N p" "k_mem st" p n "k_mem st'"]
        by (auto simp: block_ok_def paged_def split: if_splits)
    next
      case False
      then have s: "slab_block K F (k_mem st) p n" "0 < n" "0 < p" using b by (auto simp: block_ok_def)
      then obtain c where "c < 3" "p - 4 \<in> K c" "p - 4 \<notin> set (F c)" by (auto simp: slab_block_def)
      then have "k_mem st' (p - 4) mod 2 ^ 32 = k_mem st (p - 4) mod 2 ^ 32" using slab p False by blast
      then have "slab_block K' F' (k_mem st') p n"
        by (rule slab_block_cong [OF s(1), rotated]) (use slab p False in blast)
      then show ?thesis using False s by (simp add: block_ok_def)
    qed
  qed
  then show ?thesis using blk unfolding blocks_ok_def by blast
qed

subsection \<open>Allocating from the slab\<close>

lemma blocks_add:
  assumes "blocks_ok lay live K F N st" "block_ok lay K F N st p n" "live p = None"
    and "p \<in> paged lay (live(p \<mapsto> n)) \<Longrightarrow> page_frames (N p) p \<inter> block_frames lay live N = {}"
    and "\<And>q k. p \<in> arena_bytes lay \<Longrightarrow> live q = Some k \<Longrightarrow> q \<in> arena_bytes lay \<Longrightarrow> {p..<p + n} \<inter> {q..<q + k} = {}"
  shows "blocks_ok lay (live(p \<mapsto> n)) K F N st"
proof -
  have pg: "q \<in> paged lay (live(p \<mapsto> n)) \<longleftrightarrow> q \<in> paged lay live \<or> q = p \<and> p \<in> paged lay (live(p \<mapsto> n))" for q
    using assms(3) by (auto simp: paged_def)
  have fr: "page_frames (N q) q \<inter> page_frames (N p) p = {}" if "q \<in> paged lay live" "p \<in> paged lay (live(p \<mapsto> n))" for q
    using assms(4) [OF that(2)] that(1) by (auto simp: block_frames_def)
  have "page_frames (N q) q \<inter> page_frames (N r) r = {}"
    if "q \<in> paged lay (live(p \<mapsto> n))" "r \<in> paged lay (live(p \<mapsto> n))" "q \<noteq> r" for q r
    using iffD1 [OF pg that(1)] iffD1 [OF pg that(2)] that(3) fr [of q] fr [of r] assms(1) unfolding blocks_ok_def by blast
  moreover have "{q..<q + i} \<inter> {r..<r + j} = {}"
    if "(live(p \<mapsto> n)) q = Some i" "(live(p \<mapsto> n)) r = Some j" "q \<noteq> r" "q \<in> arena_bytes lay" "r \<in> arena_bytes lay" for q r i j
  proof (cases "q = p \<or> r = p")
    case True
    then show ?thesis using that assms(5) [of r j] assms(5) [of q i] by (auto simp: Int_commute)
  next
    case False
    then show ?thesis using that assms(1) by (simp add: blocks_ok_def)
  qed
  moreover have "block_ok lay K F N st q i" if "(live(p \<mapsto> n)) q = Some i" for q i
    using that assms(1,2) by (cases "q = p") (auto simp: blocks_ok_def)
  ultimately show ?thesis unfolding blocks_ok_def by blast
qed

lemma slab_header_low:
  "c < 3 \<Longrightarrow> write_slab_header a SLAB_MAGIC c m a mod 2 ^ 32 = c * 2 ^ 16 + SLAB_MAGIC"
  by (auto simp: write_slab_header_def SLAB_MAGIC_def less_Suc_eq numeral_3_eq_3)

lemma slab_header_else: "x \<noteq> a \<Longrightarrow> write_slab_header a v c m x = m x"
  by (simp add: write_slab_header_def)

lemma page_header_zone:
  assumes inv: "heap_inv lay live held K F G N st" and p: "va f + 24 \<in> paged lay live" and x: "va f \<le> x" "x + 8 \<le> va f + 24"
  shows "x \<in> space (block_frames lay live N)"
proof -
  obtain n where n: "live (va f + 24) = Some n" using p by (auto simp: paged_def)
  have "block_ok lay K F N st (va f + 24) n" using heap_invD(5) [OF inv] n by (simp add: blocks_ok_def)
  then have "24 \<le> N (va f + 24) * 4096" using p by (auto simp: block_ok_def paged_def page_block_def)
  then have "x \<in> space (page_frames (N (va f + 24)) (va f + 24))" using x page_space [of "va f + 24" f] by simp
  then show ?thesis using page_in_blocks [OF p] by blast
qed

lemma pop_inv:
  assumes lay: "layout_ok lay" and inv: "heap_inv lay live held K F G N st" and c: "c < 3" and a: "F c = a # as"
    and n: "0 < n" "n + 4 \<le> class_bytes c"
    and st': "st' = st\<lparr>g_classes := (g_classes st)[c := (g_classes st ! c)\<lparr>free_list := k_mem st a\<rparr>],
      k_mem := write_slab_header a SLAB_MAGIC c (k_mem st)\<rparr>"
  shows "heap_inv lay (live(a + 4 \<mapsto> n)) held K (F(c := as)) G N st'" "live (a + 4) = None" "(a + 4) mod 8 = 4"
proof -
  note D = heap_invD [OF inv]
  note z = zones_apart [OF lay inv]
  have aK: "a \<in> K c" using lists_okD(5) [OF D(3) c] a by auto
  note ad = slab_address [OF D(2) z(1) c aK]
  have aS: "a \<in> slab_static lay \<union> space G" using D(2) aK c chunk_self [OF c, of 0 a] by (auto simp: chunks_in_def)
  have nf: "p - 4 \<noteq> a" if "p - 4 \<in> K d" "p - 4 \<notin> set (F d)" "d < 3" for p d
  proof
    assume e: "p - 4 = a"
    then have "c = d" using chunk_class_unique [OF D(1) c that(3) aK] that(1) by simp
    then show False using that(2) a e by simp
  qed
  show fresh: "live (a + 4) = None"
  proof (rule ccontr)
    assume "live (a + 4) \<noteq> None"
    then obtain k where k: "live (a + 4) = Some k" by blast
    have "a + 4 \<notin> paged lay live" using ad(2) by (simp add: paged_def)
    then obtain d where "d < 3" "a + 4 - 4 \<in> K d" "a + 4 - 4 \<notin> set (F d)" using block_place(3) [OF inv k ad(1)] by blast
    then show False using nf [of "a + 4" d] by simp
  qed
  show "(a + 4) mod 8 = 4" by (rule ad(3))
  have pg: "paged lay (live(a + 4 \<mapsto> n)) = paged lay live" using ad(2) fresh by (auto simp: paged_def)
  then have fr: "block_frames lay (live(a + 4 \<mapsto> n)) N = block_frames lay live N" by (simp add: block_frames_def)
  have m: "k_mem st' x = k_mem st x" if "x \<noteq> a" for x using that by (simp add: st' slab_header_else)
  have "slab_ok K (F(c := as)) (slab_static lay \<union> space G) st'"
    using lists_pop [OF D(1,3) c a] D(1,2) by (simp add: slab_ok_def st' write_slab_header_def)
  moreover have "blocks_ok lay live K (F(c := as)) N st'"
  proof (rule blocks_cong [OF inv])
    show "g_kmem_early_arena_off st \<le> g_kmem_early_arena_off st'" by (simp add: st')
    show "k_mem st' x = k_mem st x" if "va f + 24 \<in> paged lay live" "va f \<le> x" "x + 8 \<le> va f + 24" for f x
      using page_header_zone [OF inv that] z(3) aS m [of x] by blast
    show "p - 4 \<in> K d \<and> p - 4 \<notin> set ((F(c := as)) d) \<and> k_mem st' (p - 4) mod 2 ^ 32 = k_mem st (p - 4) mod 2 ^ 32"
      if "d < 3" "p - 4 \<in> K d" "p - 4 \<notin> set (F d)" for d p
      using m [OF nf [OF that(2,3,1)]] that a by (cases "d = c") auto
  qed
  then have "blocks_ok lay (live(a + 4 \<mapsto> n)) K (F(c := as)) N st'"
  proof (rule blocks_add)
    have "slab_block K (F(c := as)) (k_mem st') (a + 4) n"
      using c aK n lists_okD(4) [OF D(3) c] a slab_header_low [OF c, of a "k_mem st"] by (auto simp: slab_block_def st')
    then show "block_ok lay K (F(c := as)) N st' (a + 4) n" using ad n by (simp add: block_ok_def)
  qed (use fresh ad in \<open>auto simp: paged_def\<close>)
  ultimately show "heap_inv lay (live(a + 4 \<mapsto> n)) held K (F(c := as)) G N st'"
    using D(6-10) unfolding heap_inv_def fr by (simp add: st')
qed

subsection \<open>Taking frames\<close>

definition raised :: "pfa \<Rightarrow> pfa \<Rightarrow> nat set" where
  "raised pf pf' = {f. g_refcount pf f < g_refcount pf' f}"

lemma raised_alloc:
  assumes "pfa_inv pf" "alloc_post n a pf pf'"
  shows "raised pf pf' = extent a n"
proof -
  have "g_refcount pf f = 0" if "f \<in> extent a n" for f
    using assms that not_free_if_referenced [OF assms(1), of f] unfolding alloc_post_def by blast
  then show ?thesis using assms(2) by (auto simp: raised_def alloc_post_def split: if_splits)
qed

lemma frames_taken:
  assumes held: "held_ok lay held pf" and post: "alloc_post n a pf pf'"
  shows "held_ok lay (held \<union> extent a n) pf'" "held \<inter> extent a n = {}" "image_frames lay \<inter> extent a n = {}"
proof -
  have inv: "pfa_inv pf" and im: "image_frames lay \<inter> free_frames pf = {}" using held by (simp_all add: held_ok_def)
  have fr: "extent a n \<subseteq> free_frames pf" using post by (simp add: alloc_post_def)
  show d: "held \<inter> extent a n = {}" using fr held not_free_if_referenced [OF inv] by (auto simp: held_ok_def)
  show i: "image_frames lay \<inter> extent a n = {}" using fr im by blast
  have "f < g_tracked_pages pf" if "f \<in> extent a n" for f
    using inv fr that by (auto simp: pfa_inv_def free_frames_def)
  then show "held_ok lay (held \<union> extent a n) pf'" using held post i d im by (auto simp: held_ok_def alloc_post_def)
qed

lemma taken_below:
  assumes "alloc_post n a pf pf'" "a + n * 4096 \<le> KERNEL_HIGHER_HALF_WINDOW_BYTES" "0 < n"
  shows "higher_half a = va (frame_of a)" "a = frame_of a * 4096" "extent a n = {frame_of a..<frame_of a + n}"
    "0 < frame_of a" "frame_of a + n \<le> 2 ^ 17"
proof -
  have e: "a mod 4096 = 0" "0 < a" using assms(1) by (auto simp: alloc_post_def extent_ok_def)
  show a: "a = frame_of a * 4096" using e(1) by (auto simp: frame_of_def)
  show "higher_half a = va (frame_of a)"
    by (rule va_frame) (use e assms(2,3) in \<open>auto simp: KERNEL_HIGHER_HALF_WINDOW_BYTES_def\<close>)
  show "extent a n = {frame_of a..<frame_of a + n}" by (simp add: extent_def)
  show "0 < frame_of a" using a e(2) by (cases "frame_of a") auto
  show "frame_of a + n \<le> 2 ^ 17" using a assms(2) by (simp add: KERNEL_HIGHER_HALF_WINDOW_BYTES_def)
qed

text \<open>Carving a region that no block uses leaves the blocks alone.\<close>

lemma carved_blocks:
  assumes inv: "heap_inv lay live held K F G N st" and c: "c < 3"
    and R: "R = {start..<start + class_bytes c * n}" "R \<inter> (slab_static lay \<union> space G) = {}" "R \<inter> space (block_frames lay live N) = {}"
    and m: "\<And>x. x \<notin> R \<Longrightarrow> k_mem st' x = k_mem st x" and off: "g_kmem_early_arena_off st' = g_kmem_early_arena_off st"
  shows "blocks_ok lay live (K(c := K c \<union> set (carved_at c start n))) (F(c := rev (carved_at c start n) @ F c)) N st'"
proof (rule blocks_cong [OF inv])
  show "k_mem st' x = k_mem st x" if "va g + 24 \<in> paged lay live" "va g \<le> x" "x + 8 \<le> va g + 24" for g x
    using page_header_zone [OF inv that] R(3) m [of x] by blast
  show "p - 4 \<in> (K(c := K c \<union> set (carved_at c start n))) d \<and> p - 4 \<notin> set ((F(c := rev (carved_at c start n) @ F c)) d)
      \<and> k_mem st' (p - 4) mod 2 ^ 32 = k_mem st (p - 4) mod 2 ^ 32" if "d < 3" "p - 4 \<in> K d" "p - 4 \<notin> set (F d)" for d p
  proof -
    have "chunk d (p - 4) \<subseteq> slab_static lay \<union> space G" using heap_invD(2) [OF inv] that by (simp add: chunks_in_def)
    then have out: "p - 4 \<notin> R" using R(2) chunk_self [OF that(1), of 0 "p - 4"] by auto
    have "x \<in> R" if "x \<in> set (carved_at c start n)" for x
      using carved_at_set [OF that c] chunk_self [OF c, of 0 x] R(1) by auto
    then have "p - 4 \<notin> set (carved_at c start n)" using out by blast
    then show ?thesis using that m [OF out] by (cases "d = c") auto
  qed
qed (simp add: off)

lemma grow_inv:
  assumes lay: "layout_ok lay" and inv: "heap_inv lay live held K F G N st" and c: "c < 3"
    and run: "slab_class_grow c st = (r, st1)"
  shows "r = -1 \<and> st1 = st \<or> r = 0 \<and> (\<exists>K' F' G'. heap_inv lay live (held \<union> raised (k_frames st) (k_frames st1)) K' F' G' N st1 \<and> F' c \<noteq> [])"
proof -
  note D = heap_invD [OF inv]
  obtain a pf where al: "pfa_alloc_pages_below 1 KERNEL_HIGHER_HALF_WINDOW_BYTES (k_frames st) = (a, pf)"
    by (cases "pfa_alloc_pages_below 1 KERNEL_HIGHER_HALF_WINDOW_BYTES (k_frames st)")
  have pinv: "pfa_inv (k_frames st)" using D(8) by (simp add: held_ok_def)
  show ?thesis
  proof (cases "a = 0 \<and> pf = k_frames st")
    case True
    then show ?thesis using run al by (simp add: slab_class_grow_def)
  next
    case False
    then have post: "alloc_post 1 a (k_frames st) pf" and lim: "a + 1 * 4096 \<le> KERNEL_HIGHER_HALF_WINDOW_BYTES"
      using pfa_alloc_pages_below_ok [OF pinv al] by auto
    let ?f = "frame_of a" and ?n = "4096 div class_bytes c" and ?S = "slab_static lay \<union> space G"
    note tb = taken_below [OF post lim]
    have a0: "a \<noteq> 0" using post by (auto simp: alloc_post_def extent_ok_def)
    have ex: "extent a 1 = {?f}" using tb(3) by auto
    have cn: "class_bytes c * ?n = 4096" "0 < ?n" using class_bytes_cases [OF c] by auto
    have st1: "r = 0" "st1 = slab_push_all c (va ?f) ?n (st\<lparr>k_frames := pf\<rparr>)"
      using run al a0 tb(1) cn lists_okD(2) [OF D(3) c] by (auto simp: slab_class_grow_def SLAB_GROW_FRAME_BYTES_def Let_def)
    note ft = frames_taken [OF D(8) post, unfolded ex]
    have R: "frame_bytes ?f = {va ?f..<va ?f + class_bytes c * ?n}" by (simp add: frame_bytes_def cn)
    have fH: "?f \<notin> G" "?f \<notin> block_frames lay live N" "?f \<notin> image_frames lay" using ft(2,3) D(7) by auto
    have dis: "frame_bytes ?f \<inter> ?S = {}"
      using page_slab_space [of lay "{?f}" G] fH by (auto simp: space_def)
    have ok0: "slab_ok K F ?S (st\<lparr>k_frames := pf\<rparr>)" using D(4) by (simp add: slab_ok_def)
    have vs: "va ?f mod 8 = 0" using va_props(1) [of ?f] by (simp add: va_def KERNEL_HIGHER_HALF_BASE_def)
    note cv = carve_ok [OF ok0 c vs va_props(3) R dis, folded st1(2)]
    let ?K = "K(c := K c \<union> set (carved_at c (va ?f) ?n))" and ?F = "F(c := rev (carved_at c (va ?f) ?n) @ F c)"
    have sp: "slab_static lay \<union> space (insert ?f G) = ?S \<union> frame_bytes ?f" by (auto simp: space_def)
    have m: "k_mem st1 x = k_mem st x" if "x \<notin> frame_bytes ?f" for x using cv(2) that by (simp add: slab_frame_def)
    have stf: "k_frames st1 = pf" "g_kmem_early_arena st1 = g_kmem_early_arena st"
      "g_kmem_early_arena_off st1 = g_kmem_early_arena_off st" using cv(2) unfolding slab_frame_def by (metis kheap.select_convs kheap.surjective kheap.update_convs)+
    have "frame_bytes ?f \<inter> space (block_frames lay live N) = {}"
      using space_disjoint [of "{?f}" "block_frames lay live N"] fH(2) by (simp add: space_def)
    then have blk: "blocks_ok lay live ?K ?F N st1" using carved_blocks [OF inv c R dis _ m] stf(3) by simp
    have "?F c \<noteq> []" using cn(2) by (simp add: carved_at_def)
    moreover have "heap_inv lay live (held \<union> raised (k_frames st) (k_frames st1)) ?K ?F (insert ?f G) N st1"
      unfolding heap_inv_def sp stf raised_alloc [OF pinv post] ex
      using cv(1) blk D(6,7,9,10) fH(2) ft(1) by auto
    ultimately show ?thesis using st1(1) by blast
  qed
qed

lemma find_class_some:
  assumes "lists_ok K F m (g_classes st)" "find_class t st = Some c"
  shows "c < 3" "t \<le> class_bytes c"
proof -
  have "c \<in> set [0..<3] \<and> t \<le> chunk_size (g_classes st ! c)"
    using assms(2) unfolding find_class_def SLAB_CLASS_COUNT_def find_Some_iff by (metis nth_mem)
  then show "c < 3" "t \<le> class_bytes c" using lists_okD(2) [OF assms(1)] by auto
qed

lemma raised_same [simp]: "raised pf pf = {}"
  by (simp add: raised_def)

lemma kalloc_small_inv:
  assumes lay: "layout_ok lay" and inv: "heap_inv lay live held K F G N st" and n: "0 < n" "n + 4 < 2 ^ 64"
    and run: "kalloc_small n st = (p, st')"
  shows "p = 0 \<and> st' = st \<or> live p = None \<and> p mod 8 = 4
    \<and> (\<exists>K' F' G'. heap_inv lay (live(p \<mapsto> n)) (held \<union> raised (k_frames st) (k_frames st')) K' F' G' N st')"
proof (cases "find_class (add64 n SLAB_HEADER_SIZE) st")
  case None
  then show ?thesis using run by (simp add: kalloc_small_def)
next
  case (Some c)
  have "add64 n SLAB_HEADER_SIZE = n + 4" using n by (simp add: SLAB_HEADER_SIZE_def add64_exact)
  then have c: "c < 3" "n + 4 \<le> class_bytes c" using find_class_some [OF heap_invD(3) [OF inv] Some] by simp_all
  have take: ?thesis
    if i: "heap_inv lay live (held \<union> raised (k_frames st) (k_frames st1)) K1 F1 G1 N st1" and h: "free_list (g_classes st1 ! c) = a" "a \<noteq> 0"
      and r: "p = a + 4" "st' = st1\<lparr>g_classes := (g_classes st1)[c := (g_classes st1 ! c)\<lparr>free_list := k_mem st1 a\<rparr>],
                         k_mem := write_slab_header a SLAB_MAGIC c (k_mem st1)\<rparr>" for st1 K1 F1 G1 a
  proof -
    obtain as where a: "F1 c = a # as"
      using chain_nonempty [OF lists_okD(3) [OF heap_invD(3) [OF i] c(1)]] h by blast
    have "k_frames st' = k_frames st1" by (simp add: r)
    then show ?thesis using pop_inv [OF lay i c(1) a n(1) c(2) r(2)] r(1) by auto
  qed
  show ?thesis
  proof (cases "free_list (g_classes st ! c) = 0")
    case False
    note r = run [unfolded kalloc_small_def Some, simplified, simplified False, simplified]
    have "heap_inv lay live (held \<union> raised (k_frames st) (k_frames st)) K F G N st" using inv by simp
    from take [OF this refl] False r show ?thesis by (auto simp: SLAB_HEADER_SIZE_def) blast
  next
    case True
    obtain r st1 where g: "slab_class_grow c st = (r, st1)" by (cases "slab_class_grow c st")
    note run1 = run [unfolded kalloc_small_def Some, simplified, simplified True g, simplified]
    from grow_inv [OF lay inv c(1) g] show ?thesis
    proof (elim disjE conjE exE)
      assume "r = -1" "st1 = st"
      then show ?thesis using run1 by simp
    next
      fix K1 F1 G1 assume r0: "r = 0" and i: "heap_inv lay live (held \<union> raised (k_frames st) (k_frames st1)) K1 F1 G1 N st1" and ne: "F1 c \<noteq> []"
      have "free_list (g_classes st1 ! c) \<noteq> 0"
        using lists_okD(3) [OF heap_invD(3) [OF i] c(1)] ne by (cases "F1 c") auto
      from take [OF i refl] this run1 r0 show ?thesis by (auto simp: SLAB_HEADER_SIZE_def) blast
    qed
  qed
qed

subsection \<open>Page blocks and the arena\<close>

lemma page_header_words:
  assumes "k < 2 ^ 32"
  shows "write_page_header h k a m h = KMEM_PAGE_MAGIC + k * 2 ^ 32" "write_page_header h k a m (h + 8) = a"
    "write_page_header h k a m (h + 16) = h" "x \<notin> {h..<h + 24} \<Longrightarrow> write_page_header h k a m x = m x"
  using assms by (auto simp: write_page_header_def)

lemma page_count_le: "0 < n \<Longrightarrow> n + 4119 < 2 ^ 64 \<Longrightarrow>
    24 + n \<le> add64 (add64 PAGE_HEADER_SIZE n) (KMEM_PAGE_BYTES - 1) div KMEM_PAGE_BYTES * 4096
    \<and> 0 < add64 (add64 PAGE_HEADER_SIZE n) (KMEM_PAGE_BYTES - 1) div KMEM_PAGE_BYTES"
  by (simp add: add64_exact PAGE_HEADER_SIZE_def KMEM_PAGE_BYTES_def) linarith

text \<open>Writes outside the slab and the page blocks are nobody's business.\<close>

lemma elsewhere:
  assumes inv: "heap_inv lay live held K F G N st" and cl: "g_classes st' = g_classes st"
    and off: "g_kmem_early_arena_off st \<le> g_kmem_early_arena_off st'"
    and m: "\<And>x. x \<in> slab_static lay \<union> space G \<or> x \<in> space (block_frames lay live N) \<Longrightarrow> k_mem st' x = k_mem st x"
  shows "slab_ok K F (slab_static lay \<union> space G) st'" "blocks_ok lay live K F N st'"
proof -
  note D = heap_invD [OF inv]
  have inS: "x \<in> slab_static lay \<union> space G" if "c < 3" "x \<in> K c" for c x
    using D(2) that chunk_self [OF that(1), of 0 x] by (auto simp: chunks_in_def)
  show "slab_ok K F (slab_static lay \<union> space G) st'"
  proof (rule slab_ok_cong [OF D(4) _ cl])
    show "k_mem st' x = k_mem st x" if "c < 3" "x \<in> set (F c)" for c x
      using m inS [OF that(1)] lists_okD(5) [OF D(3) that(1)] that(2) by blast
  qed
  show "blocks_ok lay live K F N st'"
  proof (rule blocks_cong [OF inv off])
    show "k_mem st' x = k_mem st x" if "va g + 24 \<in> paged lay live" "va g \<le> x" "x + 8 \<le> va g + 24" for g x
      using m page_header_zone [OF inv that] by blast
    show "q - 4 \<in> K c \<and> q - 4 \<notin> set (F c) \<and> k_mem st' (q - 4) mod 2 ^ 32 = k_mem st (q - 4) mod 2 ^ 32"
      if "c < 3" "q - 4 \<in> K c" "q - 4 \<notin> set (F c)" for c q
      using that m [OF disjI1 [OF inS [OF that(1,2)]]] by simp
  qed
qed

text \<open>Where a run of frames taken for a page block lies.\<close>

lemma page_place:
  assumes lay: "layout_ok lay" and inv: "heap_inv lay live held K F G N st" and n: "0 < n" "24 + n \<le> k * 4096" "0 < k"
    and post: "alloc_post k a (k_frames st) pf" and lim: "a + k * 4096 \<le> KERNEL_HIGHER_HALF_WINDOW_BYTES" and p: "p = higher_half a + 24"
  shows "p = va (frame_of a) + 24" "page_frames k p = extent a k" "{va (frame_of a)..<va (frame_of a) + 24} \<subseteq> space (extent a k)"
    "G \<inter> extent a k = {}" "block_frames lay live N \<inter> extent a k = {}" "(slab_static lay \<union> space G) \<inter> space (extent a k) = {}"
    "space (block_frames lay live N) \<inter> space (extent a k) = {}" "p \<notin> arena_bytes lay" "p mod 4096 = 24" "live p = None"
proof -
  note D = heap_invD [OF inv]
  let ?f = "frame_of a" and ?E = "extent a k"
  note tb = taken_below [OF post lim n(3)]
  note ft = frames_taken [OF D(8) post]
  show p': "p = va ?f + 24" using p tb(1) by simp
  show "page_frames k p = ?E" using tb(3) va_props(2) by (simp add: page_frames_def p')
  have sE: "space ?E = {va ?f..<va ?f + k * 4096}" using tb(3) space_run by simp
  have pE: "p \<in> space ?E" using n sE p' by auto
  show "{va ?f..<va ?f + 24} \<subseteq> space ?E" using n sE by auto
  show E: "G \<inter> ?E = {}" "block_frames lay live N \<inter> ?E = {}" using ft(2) D(7) by blast+
  show "(slab_static lay \<union> space G) \<inter> space ?E = {}" by (rule page_slab_space [OF ft(3) E(1)])
  show zE: "space (block_frames lay live N) \<inter> space ?E = {}" by (rule space_disjoint [OF E(2)])
  show pa: "p \<notin> arena_bytes lay" using pE space_static [of ?E lay] ft(3) by (auto simp: Int_commute)
  show pm: "p mod 4096 = 24" using va_24 p' by simp
  show "live p = None"
  proof (rule ccontr)
    assume "live p \<noteq> None"
    then obtain i where i: "live p = Some i" by blast
    then have "p \<in> paged lay live" using pa pm by (auto simp: paged_def)
    moreover have "p \<in> {p..<p + i}" using D(5) i by (auto simp: blocks_ok_def block_ok_def)
    ultimately have "p \<in> space (block_frames lay live N)" using block_place(2) [OF inv i] page_in_blocks [of p lay live N] by blast
    then show False using pE zE by blast
  qed
qed

text \<open>The page count of an address that is no live block does not matter.\<close>

lemma blocks_count_fresh:
  assumes b: "blocks_ok lay live K F N st" and fresh: "live p = None"
  shows "blocks_ok lay live K F (N(p := k)) st" "block_frames lay live (N(p := k)) = block_frames lay live N"
proof -
  have nN: "page_frames ((N(p := k)) q) q = page_frames (N q) q" if "q \<in> paged lay live" for q using that fresh by (auto simp: paged_def)
  have "block_ok lay K F (N(p := k)) st q i \<longleftrightarrow> block_ok lay K F N st q i" if "live q = Some i" for q i
    using that fresh by (auto simp: block_ok_def)
  then show "blocks_ok lay live K F (N(p := k)) st" using b nN unfolding blocks_ok_def by auto
  show "block_frames lay live (N(p := k)) = block_frames lay live N" using nN by (simp add: block_frames_def)
qed

lemma page_inv:
  assumes lay: "layout_ok lay" and inv: "heap_inv lay live held K F G N st" and n: "0 < n" "24 + n \<le> k * 4096" "0 < k"
    and al: "pfa_alloc_pages_below k KERNEL_HIGHER_HALF_WINDOW_BYTES (k_frames st) = (a, pf)" "a \<noteq> 0"
    and st': "st' = st\<lparr>k_frames := pf, k_mem := write_page_header (higher_half a) k a (k_mem st)\<rparr>" and p: "p = higher_half a + 24"
  shows "live p = None" "p mod 8 = 0"
    "heap_inv lay (live(p \<mapsto> n)) (held \<union> raised (k_frames st) (k_frames st')) K F G (N(p := k)) st'"
proof -
  note D = heap_invD [OF inv]
  have pinv: "pfa_inv (k_frames st)" using D(8) by (simp add: held_ok_def)
  have post: "alloc_post k a (k_frames st) pf" and lim: "a + k * 4096 \<le> KERNEL_HIGHER_HALF_WINDOW_BYTES"
    using pfa_alloc_pages_below_ok [OF pinv al(1)] al(2) by auto
  let ?f = "frame_of a" and ?E = "extent a k"
  note tb = taken_below [OF post lim n(3)] and pp = page_place [OF lay inv n post lim p]
  show fresh: "live p = None" by (rule pp(10))
  show "p mod 8 = 0"
  proof -
    have "p mod 4096 mod 8 = 24 mod 8" using pp(9) by simp
    then show ?thesis by (simp add: mod_mod_cancel)
  qed
  have k32: "k < 2 ^ 32" using tb(5) by simp
  note w = page_header_words [where h = "va ?f" and a = a and m = "k_mem st", OF k32]
  have m: "k_mem st' x = k_mem st x" if "x \<notin> space ?E" for x
  proof -
    have "x \<notin> {va ?f..<va ?f + 24}" using that pp(3) by blast
    then show ?thesis using w(4) by (simp add: st' tb(1))
  qed
  have s0: "slab_ok K F (slab_static lay \<union> space G) st'" and b0: "blocks_ok lay live K F N st'"
    by (rule elsewhere [OF inv]; use m pp(6,7) in \<open>simp add: st'\<close>; use m pp(6,7) in \<open>blast\<close>)+
  note bc = blocks_count_fresh [OF b0 fresh, of k]
  have "paged lay (live(p \<mapsto> n)) = insert p (paged lay live)" using pp(8,9) by (auto simp: paged_def)
  then have bf: "block_frames lay (live(p \<mapsto> n)) (N(p := k)) = ?E \<union> block_frames lay live N"
    unfolding bc(2) [symmetric] using pp(2) by (simp add: block_frames_def)
  have "blocks_ok lay (live(p \<mapsto> n)) K F (N(p := k)) st'"
  proof (rule blocks_add [OF bc(1)])
    have "page_block k (k_mem st') p n"
      unfolding page_block_def by (rule exI [of _ ?f]) (use n tb(2,4,5) w pp(1) in \<open>simp add: st' tb(1)\<close>)
    then show "block_ok lay K F (N(p := k)) st' p n" using pp(8,9) n(1) pp(1) by (simp add: block_ok_def)
    show "page_frames ((N(p := k)) p) p \<inter> block_frames lay live (N(p := k)) = {}" using pp(2,5) bc(2) by auto
  qed (use fresh pp(8,9) in auto)
  moreover note s0
  moreover have "raised (k_frames st) (k_frames st') = ?E" using raised_alloc [OF pinv post] by (simp add: st')
  ultimately show "heap_inv lay (live(p \<mapsto> n)) (held \<union> raised (k_frames st) (k_frames st')) K F G (N(p := k)) st'"
    using D(6,7,9,10) pp(4) frames_taken(1) [OF D(8) post] bf by (auto simp: heap_inv_def st')
qed

lemma heap_inv_counters:
  "heap_inv lay live held K F G N (st\<lparr>g_kmem_early_count := i, g_kmem_early_max_req := j\<rparr>) = heap_inv lay live held K F G N st"
  by (simp add: heap_inv_def slab_ok_def blocks_ok_def block_ok_def)

lemma round_up8: "x \<le> x + 7 - (x + 7) mod 8" "(x + 7 - (x + 7) mod 8) mod 8 = (0 :: nat)" "x + 7 - (x + 7) mod 8 \<le> x + 7"
proof -
  show "x \<le> x + 7 - (x + 7) mod 8" using mod_less_divisor [of 8 "x + 7"] by linarith
  show "(x + 7 - (x + 7) mod 8) mod 8 = 0" by (simp add: minus_mod_eq_mult_div)
qed simp

lemma arena_inv:
  assumes lay: "layout_ok lay" and inv: "heap_inv lay live held K F G N st" and n: "0 < n" "n < 2 ^ 64"
    and run: "kmem_early_alloc n st = (p, st')"
  shows "p = 0 \<and> st' = st \<or> live p = None \<and> p mod 8 = 0 \<and> heap_inv lay (live(p \<mapsto> n)) held K F G N st' \<and> k_frames st' = k_frames st
    \<and> p \<in> arena_bytes lay"
proof (cases "p = 0 \<and> st' = st")
  case False
  note D = heap_invD [OF inv]
  let ?b = "early_arena lay" and ?o = "g_kmem_early_arena_off st"
  define a where a: "a = ?b + ?o + 7 - (?b + ?o + 7) mod 8"
  have L: "0 < ?b" "?b + KMEM_EARLY_ARENA_BYTES + 8 < 2 ^ 64" using lay by (simp_all add: layout_ok_def)
  have ex: "add64 (add64 ?b ?o) 7 = ?b + ?o + 7" using D(10) L by (simp add: add64_exact)
  have r: "p = a" "st' = st\<lparr>g_kmem_early_arena_off := (add64 a n - ?b) mod 2 ^ 32\<rparr>" "a \<le> add64 a n" "add64 a n \<le> ?b + KMEM_EARLY_ARENA_BYTES"
    using run [unfolded kmem_early_alloc_def Let_def D(9) ex, folded a] False n(1) by (auto split: if_splits)
  note up = round_up8 [of "?b + ?o", folded a]
  have nw: "add64 a n = a + n"
  proof (cases "a + n < 2 ^ 64")
    case False
    have "a < 2 ^ 64" using up(3) D(10) L(2) by linarith
    then have "add64 a n = a + n - 2 ^ 64" using False n(2) by (simp add: add64_def mod_if)
    then show ?thesis using r(3) n(2) False by simp
  qed (rule add64_exact)
  have off: "g_kmem_early_arena_off st' = p + n - ?b" "p + n \<le> ?b + KMEM_EARLY_ARENA_BYTES"
    using r nw up by (simp_all add: KMEM_EARLY_ARENA_BYTES_def)
  have pa: "p \<in> arena_bytes lay" "?b + ?o \<le> p" using off(2) n(1) r(1) up(1) by (auto simp: arena_bytes_def)
  have before: "q + k \<le> p" if "live q = Some k" "q \<in> arena_bytes lay" for q k
    using live_block [OF inv that(1)] that(2) pa(2) by (simp add: block_ok_def)
  have fresh: "live p = None"
  proof (rule ccontr)
    assume "live p \<noteq> None"
    then obtain k where k: "live p = Some k" by blast
    have "0 < k" using live_block [OF inv k] by (simp add: block_ok_def)
    then show False using before [OF k pa(1)] by simp
  qed
  have bf: "block_frames lay (live(p \<mapsto> n)) N = block_frames lay live N"
    using pa(1) fresh by (auto simp: block_frames_def paged_def)
  have keep: "g_classes st' = g_classes st" "k_mem st' = k_mem st" "k_frames st' = k_frames st" "g_kmem_early_arena st' = g_kmem_early_arena st"
    by (simp_all add: r(2))
  have o2: "?o \<le> g_kmem_early_arena_off st'" using off pa(2) by simp
  note el = elsewhere [OF inv keep(1) o2, unfolded keep, OF refl]
  have "blocks_ok lay (live(p \<mapsto> n)) K F N st'"
  proof (rule blocks_add [OF el(2)])
    show "block_ok lay K F N st' p n" using pa n(1) off L(1) by (simp add: block_ok_def)
    show "{p..<p + n} \<inter> {q..<q + k} = {}" if "live q = Some k" "q \<in> arena_bytes lay" for q k using before [OF that] by auto
  qed (use fresh pa in \<open>auto simp: paged_def\<close>)
  then have "heap_inv lay (live(p \<mapsto> n)) held K F G N st'"
    unfolding heap_inv_def bf keep using el(1) D(6-9) off by simp
  then show ?thesis using fresh r(1) up(2) keep(3) pa(1) by simp
qed simp

lemma kmem_alloc_inv:
  assumes lay: "layout_ok lay" and inv: "heap_inv lay live held K F G N st" and n: "n + 4119 < 2 ^ 64"
    and run: "kmem_alloc n st = (p, st')"
  shows "(\<exists>K' F' G' N'. heap_inv lay (if p = 0 then live else live(p \<mapsto> n)) (held \<union> raised (k_frames st) (k_frames st')) K' F' G' N' st')
    \<and> (p \<noteq> 0 \<longrightarrow> live p = None \<and> 0 < n)"
proof (cases "n = 0")
  case True
  then show ?thesis using run inv by (auto simp: kmem_alloc_def)
next
  case False
  then have n0: "0 < n" by simp
  obtain q st1 where ks: "kalloc_small n st = (q, st1)" by (cases "kalloc_small n st")
  have n4: "n + 4 < 2 ^ 64" "n < 2 ^ 64" using n by simp_all
  note small = kalloc_small_inv [OF lay inv n0 n4(1) ks]
  have fin: ?thesis if "heap_inv lay (live(p \<mapsto> n)) (held \<union> raised (k_frames st) (k_frames st')) K1 F1 G1 N1 st'" "live p = None"
    for K1 F1 G1 N1
  proof -
    have "p \<noteq> 0" using live_block [OF that(1), of p n] by (simp add: block_ok_def)
    then have "(if p = 0 then live else live(p \<mapsto> n)) = live(p \<mapsto> n)" by simp
    then show ?thesis using that n0 by metis
  qed
  show ?thesis
  proof (cases "q = 0")
    case True
    then have st1: "st1 = st" using small by auto
    define i where i: "i = add64 (add64 PAGE_HEADER_SIZE n) (KMEM_PAGE_BYTES - 1) div KMEM_PAGE_BYTES"
    have k: "24 + n \<le> i * 4096" "0 < i" using page_count_le [OF n0 n] by (simp_all add: i)
    obtain a pf where al: "pfa_alloc_pages_below i KERNEL_HIGHER_HALF_WINDOW_BYTES (k_frames st) = (a, pf)"
      by (cases "pfa_alloc_pages_below i KERNEL_HIGHER_HALF_WINDOW_BYTES (k_frames st)")
    have qz: "(q \<noteq> 0) = False" using True by simp
    note run1 = run [unfolded kmem_alloc_def ks if_not_P [OF False] prod.case qz if_False st1 Let_def i [symmetric] al prod.case]
    show ?thesis
    proof (cases "a = 0")
      case True
      have "pfa_inv (k_frames st)" using heap_invD(8) [OF inv] by (simp add: held_ok_def)
      then have pf: "pf = k_frames st" using pfa_alloc_pages_below_ok [OF _ al] True by (auto simp: alloc_post_def extent_ok_def)
      let ?st = "st\<lparr>g_kmem_early_count := add32 (g_kmem_early_count st) 1, g_kmem_early_max_req := max (g_kmem_early_max_req st) (n mod 2 ^ 32)\<rparr>"
      have e: "kmem_early_alloc n ?st = (p, st')" using run1 True pf False by simp
      have iv: "heap_inv lay live held K F G N ?st" using inv by (simp add: heap_inv_counters)
      have kf: "k_frames ?st = k_frames st" by simp
      from arena_inv [OF lay iv n0 n4(2) e, unfolded kf] show ?thesis
      proof (elim disjE conjE)
        assume "p = 0" "st' = ?st"
        then have "heap_inv lay (if p = 0 then live else live(p \<mapsto> n)) (held \<union> raised (k_frames st) (k_frames st')) K F G N st'"
          using iv by simp
        then show ?thesis using \<open>p = 0\<close> by blast
      next
        assume "live p = None" "heap_inv lay (live(p \<mapsto> n)) held K F G N st'" "k_frames st' = k_frames st"
        then show ?thesis using fin [of K F G N] by simp
      qed
    next
      case a0: False
      have r: "p = higher_half a + 24" "st' = st\<lparr>k_frames := pf, k_mem := write_page_header (higher_half a) i a (k_mem st)\<rparr>"
        using run1 a0 False by (auto simp: PAGE_HEADER_SIZE_def)
      note pg = page_inv [OF lay inv n0 k al a0 r(2,1)]
      then show ?thesis using fin by blast
    qed
  next
    case q0: False
    then have e: "p = q" "st' = st1" using run ks False by (simp_all add: kmem_alloc_def)
    then obtain K1 F1 G1 where "heap_inv lay (live(p \<mapsto> n)) (held \<union> raised (k_frames st) (k_frames st')) K1 F1 G1 N st'" "live p = None"
      using small q0 by auto
    then show ?thesis by (rule fin)
  qed
qed

subsection \<open>Giving blocks back\<close>

definition lowered :: "pfa \<Rightarrow> pfa \<Rightarrow> nat set" where
  "lowered pf pf' = {f. g_refcount pf' f < g_refcount pf f}"

lemma lowered_same [simp]: "lowered pf pf = {}"
  by (simp add: lowered_def)

lemma held_ok_subset: "held_ok lay held pf \<Longrightarrow> H \<subseteq> held \<Longrightarrow> held_ok lay H pf"
  unfolding held_ok_def by blast

lemma paged_drop: "paged lay (live(p := None)) = paged lay live - {p}"
  by (auto simp: paged_def)

lemma block_frames_drop: "block_frames lay (live(p := None)) N \<subseteq> block_frames lay live N"
  by (auto simp: block_frames_def paged_drop)

lemma drop_block:
  assumes "heap_inv lay live held K F G N st"
  shows "heap_inv lay (live(p := None)) (G \<union> block_frames lay (live(p := None)) N) K F G N st"
proof -
  note D = heap_invD [OF assms]
  have "blocks_ok lay (live(p := None)) K F N st"
    using D(5) unfolding blocks_ok_def paged_drop by (auto split: if_splits)
  moreover have "held_ok lay (G \<union> block_frames lay (live(p := None)) N) (k_frames st)"
    using held_ok_subset [OF D(8)] D(7) block_frames_drop [of lay live p N] by blast
  ultimately show ?thesis
    using D(4,6,9,10) block_frames_drop [of lay live p N] unfolding heap_inv_def by blast
qed

lemma drop_unpaged: "p \<notin> paged lay live \<Longrightarrow> block_frames lay (live(p := None)) N = block_frames lay live N"
  by (simp add: block_frames_def paged_drop)

lemma low_field: "b < B \<Longrightarrow> (a * B + b) mod B = b \<and> (a * B + b) div B = (a :: nat)"
  by simp

lemma slab_header_fields:
  assumes "x mod 2 ^ 32 = c * 2 ^ 16 + SLAB_MAGIC" "c < 3"
  shows "x mod 2 ^ 16 = SLAB_MAGIC" "x div 2 ^ 16 mod 2 ^ 8 = c"
proof -
  have "x = x div 2 ^ 32 * 2 ^ 32 + (c * 2 ^ 16 + SLAB_MAGIC)" by (metis assms(1) div_mult_mod_eq)
  moreover define y where "y = x div 2 ^ 32"
  ultimately have x: "x = (y * 2 ^ 16 + c) * 2 ^ 16 + SLAB_MAGIC" by (simp add: algebra_simps)
  have b: "SLAB_MAGIC < 2 ^ 16" "c < 2 ^ 8" using assms(2) by (auto simp: SLAB_MAGIC_def)
  have e: "y * 2 ^ 16 + c = (y * 2 ^ 8) * 2 ^ 8 + c" by simp
  note f = low_field [OF b(1), of "y * 2 ^ 16 + c", folded x]
  show "x mod 2 ^ 16 = SLAB_MAGIC" using f by blast
  show "x div 2 ^ 16 mod 2 ^ 8 = c" using f low_field [OF b(2), of "y * 2 ^ 8", folded e] by metis
qed

lemma free_slab_inv:
  assumes lay: "layout_ok lay" and inv: "heap_inv lay live held K F G N st" and p: "live p = Some n"
    and sl: "p \<notin> arena_bytes lay" "p mod 4096 \<noteq> 24"
  shows "\<exists>F'. heap_inv lay (live(p := None)) held K F' G N (kfree_small p st)" "k_frames (kfree_small p st) = k_frames st"
proof -
  note D = heap_invD [OF inv]
  have np: "p \<notin> paged lay live" using sl by (simp add: paged_def)
  have i0: "heap_inv lay (live(p := None)) held K F G N st" using drop_block [OF inv, of p] D(7) drop_unpaged [OF np] by simp
  note D0 = heap_invD [OF i0]
  have "slab_block K F (k_mem st) p n" using live_block [OF inv p] sl by (simp add: block_ok_def)
  then obtain c where c: "c < 3" "4 \<le> p" "p - 4 \<in> K c" "p - 4 \<notin> set (F c)" "k_mem st (p - 4) mod 2 ^ 32 = c * 2 ^ 16 + SLAB_MAGIC"
    by (auto simp: slab_block_def)
  note h = slab_header_fields [OF c(5,1)]
  have st': "kfree_small p st = slab_push c (p - 4) st"
    using h c(1,2) by (simp add: kfree_small_def SLAB_HEADER_SIZE_def SLAB_CLASS_COUNT_def)
  let ?F = "F(c := (p - 4) # F c)" and ?st = "slab_push c (p - 4) st"
  have pos: "0 < p - 4" and ch: "chunk c (p - 4) \<subseteq> slab_static lay \<union> space G" using chunks_inD [OF D(2) c(1,3)] by blast+
  have "p - 4 \<in> slab_static lay \<union> space G" using ch chunk_self [OF c(1), of 0 "p - 4"] by auto
  then have pS: "p - 4 \<notin> space (block_frames lay (live(p := None)) N)" using zones_apart(3) [OF lay i0] by blast
  have m: "k_mem ?st x = k_mem st x" if "x \<noteq> p - 4" for x using that by (simp add: slab_push_def)
  have "slab_ok K ?F (slab_static lay \<union> space G) ?st"
    using lists_push [OF D(1,3) c(1,3,4) pos] D(1,2) by (simp add: slab_ok_def slab_push_def)
  moreover have "blocks_ok lay (live(p := None)) K ?F N ?st"
  proof (rule blocks_cong [OF i0])
    show "k_mem ?st x = k_mem st x" if "va g + 24 \<in> paged lay (live(p := None))" "va g \<le> x" "x + 8 \<le> va g + 24" for g x
      using page_header_zone [OF i0 that] pS m [of x] by blast
    show "q - 4 \<in> K d \<and> q - 4 \<notin> set (?F d) \<and> k_mem ?st (q - 4) mod 2 ^ 32 = k_mem st (q - 4) mod 2 ^ 32"
      if q: "d < 3" "(live(p := None)) q = Some k" "q - 4 \<in> K d" "q - 4 \<notin> set (F d)" "q \<notin> arena_bytes lay" for d q k
    proof -
      have "0 < q - 4" using chunks_inD [OF D(2) q(1,3)] by blast
      then have "q - 4 \<noteq> p - 4" using q(2) c(2) by (auto split: if_splits)
      then show ?thesis using q m by (cases "d = c") auto
    qed
  qed (simp add: slab_push_def)
  ultimately have "heap_inv lay (live(p := None)) held K ?F G N ?st"
    using D0(6-10) unfolding heap_inv_def by (simp add: slab_push_def)
  then show "\<exists>F'. heap_inv lay (live(p := None)) held K F' G N (kfree_small p st)" "k_frames (kfree_small p st) = k_frames st"
    unfolding st' by (blast, simp add: slab_push_def)
qed

lemma page_header_fields:
  assumes "k < 2 ^ 32"
  shows "(KMEM_PAGE_MAGIC + k * 2 ^ 32) mod 2 ^ 32 = KMEM_PAGE_MAGIC" "(KMEM_PAGE_MAGIC + k * 2 ^ 32) div 2 ^ 32 mod 2 ^ 32 = k"
proof -
  have b: "KMEM_PAGE_MAGIC < 2 ^ 32" by (simp add: KMEM_PAGE_MAGIC_def)
  note f = low_field [OF b, of k, folded add.commute [of KMEM_PAGE_MAGIC]]
  show "(KMEM_PAGE_MAGIC + k * 2 ^ 32) mod 2 ^ 32 = KMEM_PAGE_MAGIC" using f by blast
  show "(KMEM_PAGE_MAGIC + k * 2 ^ 32) div 2 ^ 32 mod 2 ^ 32 = k" using f assms by simp
qed

lemma frames_returned:
  assumes held: "held_ok lay held pf" and e: "extent a k \<subseteq> held" "extent_ok a k" "0 < k"
  shows "\<exists>pf'. pfa_free_pages a k pf = Inr pf' \<and> held_ok lay (held - extent a k) pf' \<and> lowered pf pf' = extent a k"
proof -
  have r: "0 < g_refcount pf f \<and> f < g_tracked_pages pf" if "f \<in> extent a k" for f using held e(1) that by (auto simp: held_ok_def)
  have "frame_of a + (k - 1) \<in> extent a k" using e(3) by (simp add: extent_def)
  then have t: "frame_of a + k \<le> g_tracked_pages pf" using r e(3) by fastforce
  have pinv: "pfa_inv pf" using held by (simp add: held_ok_def)
  obtain pf' where f: "pfa_free_pages a k pf = Inr pf'" "free_post a 0 k 0 pf pf'"
    using pfa_free_pages_ok [OF pinv e(2) t] r by blast
  have rc: "g_refcount pf' f = (if f \<in> extent a k then g_refcount pf f - 1 else g_refcount pf f)" for f
    using f(2) by (auto simp: free_post_def extent_def)
  have fr: "free_frames pf' \<subseteq> free_frames pf \<union> extent a k"
    using f(2) by (auto simp: free_post_def run_set_def freed_by_def extent_def)
  have "lowered pf pf' = extent a k" using rc r by (auto simp: lowered_def split: if_splits)
  moreover have "image_frames lay \<inter> free_frames pf' = {}" using fr held e(1) unfolding held_ok_def by blast
  then have "held_ok lay (held - extent a k) pf'"
    using held rc conjunct1 [OF f(2) [unfolded free_post_def]] conjunct1 [OF conjunct2 [OF f(2) [unfolded free_post_def]]]
    by (auto simp: held_ok_def)
  ultimately show ?thesis using f(1) by blast
qed

lemma page_blockD:
  assumes inv: "heap_inv lay live held K F G N st" and p: "live p = Some n" and pg: "p \<in> paged lay live"
  obtains f where "p = va f + 24" "page_frames (N p) p = extent (f * 4096) (N p)" "extent_ok (f * 4096) (N p)" "0 < N p" "N p < 2 ^ 32"
    "k_mem st (p - 24) = KMEM_PAGE_MAGIC + N p * 2 ^ 32" "k_mem st (p - 24 + 8) = f * 4096" "k_mem st (p - 24 + 16) = p - 24" "24 + n \<le> N p * 4096"
proof -
  have "page_block (N p) (k_mem st) p n" using live_block [OF inv p] pg by (simp add: block_ok_def paged_def)
  then obtain f where f: "p = va f + 24" "0 < f" "0 < N p" "f + N p \<le> 2 ^ 17" "24 + n \<le> N p * 4096"
    "k_mem st (va f) = KMEM_PAGE_MAGIC + N p * 2 ^ 32" "k_mem st (va f + 8) = f * 4096" "k_mem st (va f + 16) = va f"
    by (auto simp: page_block_def)
  have "page_frames (N p) p = extent (f * 4096) (N p)" using f(1) va_props(2) by (simp add: page_frames_def extent_def frame_of_def)
  moreover have "f * 4096 + N p * 4096 \<le> 2 ^ 17 * 4096" using mult_le_mono1 [OF f(4), of 4096] by (simp add: algebra_simps)
  then have "extent_ok (f * 4096) (N p)" using f(2) by (simp add: extent_ok_def)
  ultimately show ?thesis using that [of f] f by simp
qed

lemma free_page_inv:
  assumes lay: "layout_ok lay" and inv: "heap_inv lay live held K F G N st" and p: "live p = Some n" and pg: "p \<in> paged lay live"
  shows "\<exists>st'. kmem_free p st = Inr st' \<and> heap_inv lay (live(p := None)) (held - lowered (k_frames st) (k_frames st')) K F G N st'"
proof -
  note D = heap_invD [OF inv]
  obtain f where f: "p = va f + 24" "page_frames (N p) p = extent (f * 4096) (N p)" "extent_ok (f * 4096) (N p)" "0 < N p" "N p < 2 ^ 32"
    "k_mem st (p - 24) = KMEM_PAGE_MAGIC + N p * 2 ^ 32" "k_mem st (p - 24 + 8) = f * 4096" "k_mem st (p - 24 + 16) = p - 24" "24 + n \<le> N p * 4096"
    by (rule page_blockD [OF inv p pg])
  let ?E = "extent (f * 4096) (N p)" and ?L = "live(p := None)"
  have sub: "?E \<subseteq> held" using D(7) pg f(2) by (auto simp: block_frames_def)
  obtain pf where pf: "pfa_free_pages (f * 4096) (N p) (k_frames st) = Inr pf" "held_ok lay (held - ?E) pf" "lowered (k_frames st) pf = ?E"
    using frames_returned [OF D(8) sub f(3,4)] by blast
  let ?st = "st\<lparr>k_mem := (k_mem st)(p - 24 := N p * 2 ^ 32, p - 24 + 16 := 0), k_frames := pf\<rparr>"
  note hf = page_header_fields [OF f(5)]
  have valid: "page_header_valid (p - 24) (k_mem st)" unfolding page_header_valid_def f(6) hf using f(4,8) by simp
  have cnt: "k_mem st (p - 24) div 2 ^ 32 mod 2 ^ 32 = N p" unfolding f(6) by (rule hf(2))
  have pa: "\<not> (g_kmem_early_arena st \<le> p \<and> p < g_kmem_early_arena st + KMEM_EARLY_ARENA_BYTES)" "p mod 4096 = 24" "p \<noteq> 0"
    using pg D(9) by (auto simp: paged_def arena_bytes_def)
  have run: "kmem_free p st = Inr ?st"
    unfolding kmem_free_def Let_def PAGE_HEADER_SIZE_def KMEM_PAGE_BYTES_def cnt f(7) using pa valid pf(1) by auto
  have i0: "heap_inv lay ?L (G \<union> block_frames lay ?L N) K F G N st" by (rule drop_block [OF inv])
  have "page_frames (N q) q \<inter> page_frames (N p) p = {}" if "q \<in> paged lay live" "q \<noteq> p" for q
    using D(5) pg that by (simp add: blocks_ok_def)
  then have dis: "block_frames lay ?L N \<inter> ?E = {}" "G \<inter> ?E = {}"
    using D(6) pg unfolding f(2) [symmetric] block_frames_def paged_drop by blast+
  have split: "block_frames lay live N = ?E \<union> block_frames lay ?L N" using pg f(2) by (auto simp: block_frames_def paged_drop)
  have rest: "held - ?E = G \<union> block_frames lay ?L N" using D(7) split dis by blast
  have "space ?E = {p - 24..<p - 24 + N p * 4096}" using page_space [OF f(1), of "N p"] f(1,2) by simp
  moreover have "p - 24 + 24 \<le> p - 24 + N p * 4096" using f(9) by linarith
  ultimately have hs: "p - 24 \<in> space ?E" "p - 24 + 16 \<in> space ?E" by auto
  have "space ?E \<subseteq> space (block_frames lay live N)" by (rule space_mono) (use split in blast)
  then have zE: "(slab_static lay \<union> space G) \<inter> space ?E = {}" "space (block_frames lay ?L N) \<inter> space ?E = {}"
    using zones_apart(3) [OF lay inv] space_disjoint [OF dis(1)] by blast+
  have m: "k_mem ?st x = k_mem st x" if "x \<in> slab_static lay \<union> space G \<or> x \<in> space (block_frames lay ?L N)" for x
  proof -
    have "x \<notin> space ?E" using zE that by blast
    then have "x \<noteq> p - 24" "x \<noteq> p - 24 + 16" using hs by blast+
    then show ?thesis by simp
  qed
  note el = elsewhere [OF i0 _ _ m, simplified]
  have "heap_inv lay ?L (held - lowered (k_frames st) (k_frames ?st)) K F G N ?st"
    using el heap_invD(6,9,10) [OF i0] pf(2,3) rest unfolding heap_inv_def by simp
  then show ?thesis using run by blast
qed

lemma kmem_free_inv:
  assumes lay: "layout_ok lay" and inv: "heap_inv lay live held K F G N st" and p: "live p = Some n"
  shows "\<exists>st'. kmem_free p st = Inr st'
    \<and> (\<exists>K' F' G' N'. heap_inv lay (live(p := None)) (held - lowered (k_frames st) (k_frames st')) K' F' G' N' st')"
proof -
  note D = heap_invD [OF inv]
  have p0: "p \<noteq> 0" using live_block [OF inv p] by (simp add: block_ok_def)
  consider "p \<in> arena_bytes lay" | "p \<in> paged lay live" | "p \<notin> arena_bytes lay" "p mod 4096 \<noteq> 24"
    using p by (auto simp: paged_def)
  then show ?thesis
  proof cases
    case 1
    then have "p \<notin> paged lay live" by (simp add: paged_def)
    then have "heap_inv lay (live(p := None)) held K F G N st" using drop_block [OF inv, of p] D(7) drop_unpaged by metis
    moreover have "kmem_free p st = Inr st" using 1 p0 D(9) by (simp add: kmem_free_def arena_bytes_def)
    ultimately show ?thesis by auto
  next
    case 2
    then show ?thesis using free_page_inv [OF lay inv p] by blast
  next
    case 3
    then have "kmem_free p st = Inr (kfree_small p st)"
      using p0 D(9) by (auto simp: kmem_free_def arena_bytes_def KMEM_PAGE_BYTES_def PAGE_HEADER_SIZE_def)
    then show ?thesis using free_slab_inv [OF lay inv p 3] by auto
  qed
qed

end
