(* ===== verification/Kheap_props.thy ===== *)
theory Kheap_props
  imports Kheap_ops Lists
begin

text \<open>
  What the kernel heap promises over every history of allocations and frees, with its users writing to
  the blocks they were given and other parts of the kernel using the frame allocator in between; and
  what follows for the lists that keep their elements in it.
\<close>

subsection \<open>Histories\<close>

text \<open>
  A user writes only inside live blocks: a word that overlaps none keeps its value, and one whose low
  half overlaps none keeps its low half.
\<close>

definition client_write :: "(nat \<Rightarrow> nat option) \<Rightarrow> (nat \<Rightarrow> nat) \<Rightarrow> (nat \<Rightarrow> nat) \<Rightarrow> bool" where
  "client_write live m m' \<longleftrightarrow>
     (\<forall>a. (\<forall>p n. live p = Some n \<longrightarrow> {a..<a + 8} \<inter> {p..<p + n} = {}) \<longrightarrow> m' a = m a)
     \<and> (\<forall>a. (\<forall>p n. live p = Some n \<longrightarrow> {a..<a + 4} \<inter> {p..<p + n} = {}) \<longrightarrow> m' a mod 2 ^ 32 = m a mod 2 ^ 32)"

text \<open>
  The state carries the live blocks with the sizes they were requested for, and the frames to which
  the heap holds a reference: those whose count its calls raised and have not lowered again.
\<close>

inductive heap_reach :: "heap_layout \<Rightarrow> (nat \<Rightarrow> nat option) \<Rightarrow> nat set \<Rightarrow> kheap \<Rightarrow> bool" for lay where
  heap_start: "layout_ok lay \<Longrightarrow> pfa_inv frames \<Longrightarrow> image_frames lay \<inter> free_frames frames = {} \<Longrightarrow>
    heap_reach lay Map.empty {} (slab_init (kheap_boot lay m frames))"
| heap_alloc: "heap_reach lay live held st \<Longrightarrow> n + 4119 < 2 ^ 64 \<Longrightarrow> kmem_alloc n st = (p, st') \<Longrightarrow>
    heap_reach lay (if p = 0 then live else live(p \<mapsto> n)) (held \<union> raised (k_frames st) (k_frames st')) st'"
| heap_free: "heap_reach lay live held st \<Longrightarrow> live p = Some n \<Longrightarrow> kmem_free p st = Inr st' \<Longrightarrow>
    heap_reach lay (live(p := None)) (held - lowered (k_frames st) (k_frames st')) st'"
| heap_client: "heap_reach lay live held st \<Longrightarrow> client_write live (k_mem st) m \<Longrightarrow> heap_reach lay live held (st\<lparr>k_mem := m\<rparr>)"
| heap_other: "heap_reach lay live held st \<Longrightarrow> pfa_inv frames \<Longrightarrow> g_tracked_pages frames = g_tracked_pages (k_frames st) \<Longrightarrow>
    (\<And>f. f \<in> held \<Longrightarrow> 0 < g_refcount frames f) \<Longrightarrow> image_frames lay \<inter> free_frames frames = {} \<Longrightarrow>
    heap_reach lay live held (st\<lparr>k_frames := frames\<rparr>)"

text \<open>The header of a block, and the link in a free chunk, are in no block.\<close>

lemma slab_header_apart:
  assumes lay: "layout_ok lay" and inv: "heap_inv lay live held K F G N st" and c: "c < 3" "p - 4 \<in> K c"
    and p: "live p = Some n" "p \<notin> arena_bytes lay" and q: "live q = Some k"
  shows "{p - 4..<p - 4 + 4} \<inter> {q..<q + k} = {}"
proof (cases "p = q")
  case True
  have "4 \<le> p" using chunks_inD [OF heap_invD(2) [OF inv] c] by linarith
  then show ?thesis using True by auto
next
  case False
  have "(p - 4) mod 8 = 0" "0 < p - 4" using chunks_inD [OF heap_invD(2) [OF inv] c] by auto
  then have "p mod 8 \<noteq> 0" by presburger
  moreover have "p mod 8 = p mod 4096 mod 8" by (simp add: mod_mod_cancel)
  ultimately have "p mod 4096 \<noteq> 24" by auto
  then have "{p - 4..<p - 4 + 4} \<subseteq> foot lay live K N p"
    using p c class_bytes_pos [OF c(1)] by (auto simp: foot_def chunk_def paged_def)
  then show ?thesis using feet_apart [OF lay inv p(1) q False] block_foot [OF inv q] by blast
qed

lemma page_header_apart:
  assumes lay: "layout_ok lay" and inv: "heap_inv lay live held K F G N st"
    and x: "va f + 24 \<in> paged lay live" "va f \<le> x" "x + 8 \<le> va f + 24" and q: "live q = Some k"
  shows "{x..<x + 8} \<inter> {q..<q + k} = {}"
proof (cases "va f + 24 = q")
  case False
  let ?p = "va f + 24"
  obtain n where n: "live ?p = Some n" using x(1) by (auto simp: paged_def)
  have "0 < N ?p" by (rule page_blockD [OF inv n x(1)])
  then have "{x..<x + 8} \<subseteq> foot lay live K N ?p" using x page_space [of ?p f "N ?p"] by (auto simp: foot_def paged_def)
  then show ?thesis using feet_apart [OF lay inv n q False] block_foot [OF inv q] by blast
qed (use x(3) in auto)

lemma free_link_apart:
  assumes lay: "layout_ok lay" and inv: "heap_inv lay live held K F G N st" and a: "c < 3" "a \<in> set (F c)" and q: "live q = Some k"
  shows "{a..<a + 8} \<inter> {q..<q + k} = {}"
proof -
  have "{a..<a + 8} \<subseteq> chunk c a" using class_bytes_pos [OF a(1)] by (auto simp: chunk_def)
  then show ?thesis using free_chunk_apart [OF lay inv q a] block_foot [OF inv q] by blast
qed

lemma client_inv:
  assumes lay: "layout_ok lay" and inv: "heap_inv lay live held K F G N st" and w: "client_write live (k_mem st) m"
  shows "heap_inv lay live held K F G N (st\<lparr>k_mem := m\<rparr>)"
proof -
  note D = heap_invD [OF inv]
  have word: "m a = k_mem st a" if "\<And>p n. live p = Some n \<Longrightarrow> {a..<a + 8} \<inter> {p..<p + n} = {}" for a
    using w that unfolding client_write_def by blast
  have low: "m a mod 2 ^ 32 = k_mem st a mod 2 ^ 32" if "\<And>p n. live p = Some n \<Longrightarrow> {a..<a + 4} \<inter> {p..<p + n} = {}" for a
    using w that unfolding client_write_def by blast
  have "slab_ok K F (slab_static lay \<union> space G) (st\<lparr>k_mem := m\<rparr>)"
  proof (rule slab_ok_cong [OF D(4)])
    show "k_mem (st\<lparr>k_mem := m\<rparr>) a = k_mem st a" if "c < 3" "a \<in> set (F c)" for c a
      using word free_link_apart [OF lay inv that] by simp
  qed simp
  moreover have "blocks_ok lay live K F N (st\<lparr>k_mem := m\<rparr>)"
  proof (rule blocks_cong [OF inv])
    show "p - 4 \<in> K c \<and> p - 4 \<notin> set (F c) \<and> k_mem (st\<lparr>k_mem := m\<rparr>) (p - 4) mod 2 ^ 32 = k_mem st (p - 4) mod 2 ^ 32"
      if p: "c < 3" "live p = Some n" "p - 4 \<in> K c" "p - 4 \<notin> set (F c)" "p \<notin> arena_bytes lay" for c p n
      using p(3,4) low [OF slab_header_apart [OF lay inv p(1,3,2,5)]] by simp
    show "k_mem (st\<lparr>k_mem := m\<rparr>) x = k_mem st x" if x: "va f + 24 \<in> paged lay live" "va f \<le> x" "x + 8 \<le> va f + 24" for f x
      using word [OF page_header_apart [OF lay inv x]] by simp
  qed simp
  ultimately show ?thesis using D(6-10) unfolding heap_inv_def by simp
qed

lemma init_frames:
  assumes "layout_ok lay"
  shows "k_frames (slab_init (kheap_boot lay m frames)) = frames" "g_kmem_early_arena (slab_init (kheap_boot lay m frames)) = early_arena lay"
    "g_kmem_early_arena_off (slab_init (kheap_boot lay m frames)) = 0"
  using slab_init_ok [OF assms, of m frames] unfolding slab_frame_def
  by (metis kheap.select_convs kheap.surjective kheap.update_convs kheap_boot_def)+

lemma start_inv:
  assumes "layout_ok lay" "pfa_inv frames" "image_frames lay \<inter> free_frames frames = {}"
  shows "\<exists>K F. heap_inv lay Map.empty {} K F {} N (slab_init (kheap_boot lay m frames))"
proof -
  obtain K F where kf: "slab_ok K F (slab_static lay) (slab_init (kheap_boot lay m frames))"
      "slab_frame (slab_static lay) (kheap_boot lay m frames) (slab_init (kheap_boot lay m frames))"
    using slab_init_ok [OF assms(1)] by blast
  note fr = init_frames [OF assms(1), of m frames]
  then show ?thesis
    using kf(1) assms by (auto simp: heap_inv_def blocks_ok_def paged_def block_frames_def held_ok_def space_def)
qed

lemma other_inv:
  assumes inv: "heap_inv lay live held K F G N st" and frames: "pfa_inv frames" "g_tracked_pages frames = g_tracked_pages (k_frames st)"
    and kept: "\<And>f. f \<in> held \<Longrightarrow> 0 < g_refcount frames f" and image: "image_frames lay \<inter> free_frames frames = {}"
  shows "heap_inv lay live held K F G N (st\<lparr>k_frames := frames\<rparr>)"
proof -
  note D = heap_invD [OF inv]
  have "held_ok lay held frames" using D(8) frames kept image by (simp add: held_ok_def)
  moreover have "slab_ok K F (slab_static lay \<union> space G) (st\<lparr>k_frames := frames\<rparr>)" by (rule slab_ok_cong [OF D(4)]) simp_all
  moreover have "blocks_ok lay live K F N (st\<lparr>k_frames := frames\<rparr>)" by (rule blocks_cong [OF inv]) simp_all
  ultimately show ?thesis using D(6,7,9,10) unfolding heap_inv_def by simp
qed

lemma heap_reach_inv:
  "heap_reach lay live held st \<Longrightarrow> layout_ok lay \<and> (\<exists>K F G N. heap_inv lay live held K F G N st)"
proof (induction rule: heap_reach.induct)
  case (heap_start frames m)
  then show ?case using start_inv by blast
next
  case (heap_alloc live held st n p st')
  then obtain K F G N where inv: "layout_ok lay" "heap_inv lay live held K F G N st" by blast
  then show ?case using kmem_alloc_inv [OF inv heap_alloc.hyps(2,3)] by blast
next
  case (heap_free live held st p n st')
  then obtain K F G N where inv: "layout_ok lay" "heap_inv lay live held K F G N st" by blast
  have "\<exists>K F G N. heap_inv lay (live(p := None)) (held - lowered (k_frames st) (k_frames st')) K F G N st'"
    using kmem_free_inv [OF inv heap_free.hyps(2)] heap_free.hyps(3) by auto
  then show ?case using inv(1) by (simp add: fun_upd_def)
next
  case (heap_client live held st m)
  then obtain K F G N where inv: "layout_ok lay" "heap_inv lay live held K F G N st" by blast
  then show ?case using client_inv [OF inv heap_client.hyps(2)] by blast
next
  case (heap_other live held st frames)
  then obtain K F G N where inv: "layout_ok lay" "heap_inv lay live held K F G N st" by blast
  then show ?case using other_inv [OF inv(2) heap_other.hyps(2,3,4,5)] by blast
qed

subsection \<open>Blocks\<close>

lemma SLAB_MAGIC_odd: "SLAB_MAGIC mod 8 \<noteq> 0"
  by (simp add: SLAB_MAGIC_def)

lemma kmem_new_block:
  assumes reach: "heap_reach lay live held st" and n: "n + 4119 < 2 ^ 64" and run: "kmem_alloc n st = (p, st')" "p \<noteq> 0"
  shows "live p = None" "live q = Some k \<Longrightarrow> {p..<p + n} \<inter> {q..<q + k} = {}"
proof -
  obtain K F G N where inv: "layout_ok lay" "heap_inv lay live held K F G N st" using heap_reach_inv [OF reach] by blast
  note al = kmem_alloc_inv [OF inv n run(1)]
  show fresh: "live p = None" using al run(2) by blast
  obtain K' F' G' N' where inv': "heap_inv lay (live(p \<mapsto> n)) (held \<union> raised (k_frames st) (k_frames st')) K' F' G' N' st'"
    using al run(2) by auto
  show "{p..<p + n} \<inter> {q..<q + k} = {}" if "live q = Some k"
  proof (rule live_apart [OF inv(1) inv'])
    show "p \<noteq> q" using that fresh by auto
    then show "(live(p \<mapsto> n)) q = Some k" using that by simp
  qed simp
qed

text \<open>A chunk popped from its free list and given back at once: the state is the same again.\<close>

lemma pop_free:
  assumes lay: "layout_ok lay" and inv: "heap_inv lay live held K F G N st" and c: "c < 3" and a: "free_list (g_classes st ! c) = a" "a \<noteq> 0"
    and st': "st' = st\<lparr>g_classes := (g_classes st)[c := (g_classes st ! c)\<lparr>free_list := k_mem st a\<rparr>],
      k_mem := write_slab_header a SLAB_MAGIC c (k_mem st)\<rparr>"
  shows "kmem_free (a + 4) st' = Inr st" "kmem_free (a + 4) st = Inr st" "(a + 4) mod 8 = 4"
proof -
  note D = heap_invD [OF inv]
  note L = lists_okD [OF D(3) c]
  obtain as where as: "F c = a # as" "chain (k_mem st) (k_mem st a) as" using chain_nonempty [OF L(3)] a by blast
  have aK: "a \<in> K c" using L(5) as(1) by auto
  note ad = slab_address [OF D(2) zones_apart(1) [OF lay inv] c aK]
  show "(a + 4) mod 8 = 4" by (rule ad(3))
  have small: "kmem_free (a + 4) s = Inr (kfree_small (a + 4) s)" if "g_kmem_early_arena s = early_arena lay" for s
    using ad(1,2) that by (auto simp: kmem_free_def arena_bytes_def KMEM_PAGE_BYTES_def PAGE_HEADER_SIZE_def)
  note h = slab_header_fields [OF slab_header_low [OF c, of a "k_mem st"] c]
  have "kfree_small (a + 4) st' = slab_push c a st'"
    using h c by (simp add: kfree_small_def SLAB_HEADER_SIZE_def SLAB_CLASS_COUNT_def st')
  also have "\<dots> = st"
  proof (rule kheap.equality)
    have "(g_classes st ! c)\<lparr>free_list := a\<rparr> = g_classes st ! c" using a(1) by simp
    then show "g_classes (slab_push c a st') = g_classes st" using c L(1) by (simp add: slab_push_def st')
    show "k_mem (slab_push c a st') = k_mem st" using c L(1) by (auto simp: slab_push_def st' write_slab_header_def)
  qed (simp_all add: slab_push_def st')
  finally show "kmem_free (a + 4) st' = Inr st" using small [of st'] D(9) by (simp add: st')
  have "k_mem st a mod 8 = 0"
  proof (cases as)
    case Nil
    then show ?thesis using as(2) by simp
  next
    case (Cons b bs)
    then have "k_mem st a \<in> K c" using as L(5) by auto
    then show ?thesis using chunks_inD [OF D(2) c] by blast
  qed
  then have "k_mem st a mod 2 ^ 16 mod 8 = 0" by (simp add: mod_mod_cancel)
  then have "k_mem st a mod 2 ^ 16 \<noteq> SLAB_MAGIC" by (metis SLAB_MAGIC_odd)
  then show "kmem_free (a + 4) st = Inr st" using small [OF D(9)] by (simp add: kfree_small_def SLAB_HEADER_SIZE_def)
qed

lemma page_free:
  assumes inv: "pfa_inv (k_frames st)" and k: "0 < k"
    and al: "pfa_alloc_pages_below k KERNEL_HIGHER_HALF_WINDOW_BYTES (k_frames st) = (a, pf)" "a \<noteq> 0"
    and st': "st' = st\<lparr>k_frames := pf, k_mem := write_page_header (higher_half a) k a (k_mem st)\<rparr>" and p: "p = higher_half a + 24"
    and room: "length (g_ranges pf) < RANGE_LIMIT" and out: "p \<notin> {g_kmem_early_arena st..<g_kmem_early_arena st + KMEM_EARLY_ARENA_BYTES}"
  shows "\<exists>st2. kmem_free p st' = Inr st2 \<and> g_classes st2 = g_classes st
    \<and> free_frames (k_frames st2) = free_frames (k_frames st) \<and> g_refcount (k_frames st2) = g_refcount (k_frames st)"
proof -
  have post: "alloc_post k a (k_frames st) pf" "free_frames pf = free_frames (k_frames st) - extent a k"
    and lim: "a + k * 4096 \<le> KERNEL_HIGHER_HALF_WINDOW_BYTES"
    using pfa_alloc_pages_below_ok [OF inv al(1)] al(2) by auto
  obtain pf2 where pf2: "pfa_free_pages a k pf = Inr pf2" "free_frames pf2 = free_frames (k_frames st)" "g_refcount pf2 = g_refcount (k_frames st)"
    using free_undoes_alloc [OF inv post room k] by blast
  note tb = taken_below [OF post(1) lim k]
  have k32: "k < 2 ^ 32" using tb(5) by simp
  note w = page_header_words [where h = "higher_half a" and a = a and m = "k_mem st", OF k32] and hf = page_header_fields [OF k32]
  have m: "k_mem st' = write_page_header (higher_half a) k a (k_mem st)" by (simp add: st')
  have valid: "page_header_valid (higher_half a) (k_mem st')" unfolding page_header_valid_def m w(1,3) hf using k by simp
  have cnt: "k_mem st' (higher_half a) div 2 ^ 32 mod 2 ^ 32 = k" "k_mem st' (higher_half a + 8) = a" unfolding m w(1,2) by (rule hf(2), rule refl)
  have pe: "p - 24 = higher_half a" and pp: "p mod 4096 = 24" "p \<noteq> 0" "k_frames st' = pf" using p tb(1) va_24 by (simp_all add: st')
  have "\<not> (g_kmem_early_arena st' \<le> p \<and> p < g_kmem_early_arena st' + KMEM_EARLY_ARENA_BYTES)" using out by (auto simp: st')
  then have "kmem_free p st' =
      Inr (st'\<lparr>k_mem := (k_mem st')(higher_half a := k * 2 ^ 32, higher_half a + 16 := 0), k_frames := pf2\<rparr>)"
    unfolding kmem_free_def Let_def PAGE_HEADER_SIZE_def KMEM_PAGE_BYTES_def pe cnt using valid pf2(1) pp by auto
  then show ?thesis using pf2(2,3) by (simp add: st')
qed

lemma large_free:
  assumes inv: "layout_ok lay" "heap_inv lay live held K F G N st" and n: "0 < n" "n + 4119 < 2 ^ 64" and small: "kalloc_small n st = (0, st)"
    and run: "kmem_alloc n st = (p, st')" "p \<noteq> 0"
  shows "p \<notin> arena_bytes lay \<and> length (g_ranges (k_frames st')) < RANGE_LIMIT \<longrightarrow> p mod 8 = 0
    \<and> (\<exists>st2. kmem_free p st' = Inr st2 \<and> g_classes st2 = g_classes st
         \<and> free_frames (k_frames st2) = free_frames (k_frames st) \<and> g_refcount (k_frames st2) = g_refcount (k_frames st))"
proof (intro impI, elim conjE)
  assume out: "p \<notin> arena_bytes lay" and room: "length (g_ranges (k_frames st')) < RANGE_LIMIT"
  note D = heap_invD [OF inv(2)]
  have pinv: "pfa_inv (k_frames st)" using D(8) by (simp add: held_ok_def)
  define i where i: "i = add64 (add64 PAGE_HEADER_SIZE n) (KMEM_PAGE_BYTES - 1) div KMEM_PAGE_BYTES"
  have k: "24 + n \<le> i * 4096" "0 < i" using page_count_le [OF n] by (simp_all add: i)
  obtain a pf where al: "pfa_alloc_pages_below i KERNEL_HIGHER_HALF_WINDOW_BYTES (k_frames st) = (a, pf)" by fastforce
  have z: "(0 \<noteq> (0 :: nat)) = False" "n \<noteq> 0" using n(1) by simp_all
  note run1 = run(1) [unfolded kmem_alloc_def small if_not_P [OF z(2)] prod.case z(1) if_False Let_def i [symmetric] al prod.case]
  have a0: "a \<noteq> 0"
  proof
    assume "a = 0"
    let ?st = "st\<lparr>k_frames := pf, g_kmem_early_count := add32 (g_kmem_early_count st) 1, g_kmem_early_max_req := max (g_kmem_early_max_req st) (n mod 2 ^ 32)\<rparr>"
    have e: "kmem_early_alloc n ?st = (p, st')" using run1 \<open>a = 0\<close> by simp
    have "pf = k_frames st" using pfa_alloc_pages_below_ok [OF pinv al] \<open>a = 0\<close> by (auto simp: alloc_post_def extent_ok_def)
    then have "heap_inv lay live held K F G N ?st" using inv(2) by (simp add: heap_inv_counters)
    then show False using arena_inv [OF inv(1) _ n(1) _ e] n(2) run(2) out by auto
  qed
  have r: "p = higher_half a + 24" "st' = st\<lparr>k_frames := pf, k_mem := write_page_header (higher_half a) i a (k_mem st)\<rparr>"
    using run1 a0 by (auto simp: PAGE_HEADER_SIZE_def)
  have "length (g_ranges pf) < RANGE_LIMIT" using room by (simp add: r(2))
  moreover have "p \<notin> {g_kmem_early_arena st..<g_kmem_early_arena st + KMEM_EARLY_ARENA_BYTES}" using out D(9) by (simp add: arena_bytes_def)
  ultimately show "p mod 8 = 0 \<and> (\<exists>st2. kmem_free p st' = Inr st2 \<and> g_classes st2 = g_classes st
       \<and> free_frames (k_frames st2) = free_frames (k_frames st) \<and> g_refcount (k_frames st2) = g_refcount (k_frames st))"
    using page_free [OF pinv k(2) al a0 r(2,1)] page_inv(2) [OF inv n(1) k al a0 r(2,1)] by blast
qed

subsection \<open>A list in the heap\<close>

text \<open>
  \<open>list_alloc\<close> and \<open>list_remove\<close> with the heap they call.  The size of the block a backend asks for is
  that of a node, or of a chunk with all its slots; a chunk list asks only when no slot is free, and
  only the linked backend gives memory back.  What the list writes into its blocks (links, used marks,
  zeroed elements) is kept in \<open>list_t\<close>; on the heap's memory it is a write of a user into live blocks.
\<close>

definition list_request :: "'e list_t \<Rightarrow> nat" where
  "list_request l =
     (case list_state l of
        None \<Rightarrow> 0
      | Some (Array_state cap cs) \<Rightarrow> 16 + list_array_stride (elem_size l) * cap
      | Some (Linked_state ns) \<Rightarrow> 8 + elem_size l)"

definition list_full :: "'e \<Rightarrow> 'e list_t \<Rightarrow> bool" where
  "list_full z l =
     (case list_state l of
        None \<Rightarrow> False
      | Some (Array_state cap cs) \<Rightarrow> cap \<noteq> 0 \<and> array_reuse (elem_size l) z cs = None
      | Some (Linked_state ns) \<Rightarrow> True)"

definition list_alloc_kmem :: "'e \<Rightarrow> 'e list_t \<Rightarrow> kheap \<Rightarrow> (nat option \<times> 'e list_t) \<times> kheap" where
  "list_alloc_kmem z l st =
     (if list_full z l
      then case kmem_alloc (list_request l) st of
             (m, st') \<Rightarrow> (list_alloc (if m = 0 then None else Some m) z l, st')
      else (list_alloc None z l, st))"

definition list_remove_kmem :: "nat \<Rightarrow> 'e list_t \<Rightarrow> kheap \<Rightarrow> pfa_panic + ((int \<times> 'e list_t) \<times> kheap)" where
  "list_remove_kmem p l st =
     (case list_state l of
        Some (Linked_state ns) \<Rightarrow>
          if fst (list_remove p l) = 0
          then (case kmem_free (p - 8) st of Inl e \<Rightarrow> Inl e | Inr st' \<Rightarrow> Inr (list_remove p l, st'))
          else Inr (list_remove p l, st)
      | _ \<Rightarrow> Inr (list_remove p l, st))"

text \<open>The blocks behind the list are live blocks of the heap, of the sizes it asked for.\<close>

definition list_on_heap :: "(nat \<Rightarrow> nat option) \<Rightarrow> 'e list_t \<Rightarrow> bool" where
  "list_on_heap live l =
     (case list_state l of
        None \<Rightarrow> True
      | Some (Array_state cap cs) \<Rightarrow>
          list_all (\<lambda>c. live (ch_addr c) = Some (16 + list_array_stride (elem_size l) * length (ch_slots c))) cs
      | Some (Linked_state ns) \<Rightarrow> list_all (\<lambda>n. live (nd_addr n) = Some (8 + elem_size l)) ns)"

lemma list_block_live:
  "list_on_heap live l \<Longrightarrow> B \<in> set (list_blocks l) \<Longrightarrow> \<exists>q k. live q = Some k \<and> B = {q..<q + k}"
  by (auto simp: list_on_heap_def list_blocks_def list_all_iff chunk_block_def node_block_def add.assoc split: option.splits list_state.splits)

lemma heap_fresh:
  assumes "list_on_heap live l" "\<And>q k. live q = Some k \<Longrightarrow> {m..<m + list_request l} \<inter> {q..<q + k} = {}"
  shows "fresh_for l (Some m)"
proof -
  have "{m..<m + list_request l} \<inter> B = {}" if "B \<in> set (list_blocks l)" for B
    using list_block_live [OF assms(1) that] assms(2) by blast
  then have "{m..<m + list_request l} \<inter> \<Union>(set (list_blocks l)) = {}" by blast
  then show ?thesis
    by (simp add: fresh_for_def list_request_def chunk_block_def node_block_def add.assoc split: option.splits list_state.splits)
qed

lemma reuse_blocks:
  "array_reuse es z cs = Some (p, cs') \<Longrightarrow>
     map (\<lambda>c. (ch_addr c, length (ch_slots c))) cs' = map (\<lambda>c. (ch_addr c, length (ch_slots c))) cs"
  by (induction cs arbitrary: cs') (auto split: option.splits)

lemma list_all_pair:
  fixes cs cs' :: "'e array_chunk list"
  assumes "map (\<lambda>c. (ch_addr c, length (ch_slots c))) cs' = map (\<lambda>c. (ch_addr c, length (ch_slots c))) cs"
  shows "list_all (\<lambda>c. P (ch_addr c) (length (ch_slots c))) cs' = list_all (\<lambda>c. P (ch_addr c) (length (ch_slots c))) cs"
proof -
  have "list_all (\<lambda>c. P (ch_addr c) (length (ch_slots c))) xs
      = list_all (\<lambda>(a, k). P a k) (map (\<lambda>c. (ch_addr c, length (ch_slots c))) xs)" for xs :: "'e array_chunk list"
    by (simp add: list.pred_map comp_def)
  then show ?thesis using assms by simp
qed

lemma on_heap_reuse:
  assumes "list_on_heap live l" "\<not> list_full z l" "list_alloc None z l = (Some p, l1)"
  shows "list_on_heap live l1"
proof (cases "list_state l")
  case (Some s)
  then show ?thesis
  proof (cases s)
    case (Array_state cap cs)
    then obtain cs' where r: "array_reuse (elem_size l) z cs = Some (p, cs')" "l1 = l\<lparr>list_state := Some (Array_state cap cs')\<rparr>"
      using assms(2,3) Some by (auto simp: list_full_def list_alloc_def list_array_chunk_alloc_def split: option.splits if_splits prod.splits)
    then show ?thesis
      using assms(1) Some Array_state list_all_pair [OF reuse_blocks [OF r(1)], of "\<lambda>a k. live a = Some (16 + list_array_stride (elem_size l) * k)"]
      by (simp add: list_on_heap_def)
  next
    case (Linked_state ns)
    then show ?thesis using assms(2) Some by (simp add: list_full_def)
  qed
qed (use assms(3) in \<open>simp add: list_alloc_def\<close>)

lemma live_keep:
  "live m = None \<Longrightarrow> list_all (\<lambda>x. live (f x) = Some (g x)) xs \<Longrightarrow> list_all (\<lambda>x. (live(m \<mapsto> n)) (f x) = Some (g x)) xs"
  by (auto simp: list_all_iff)

lemma on_heap_grow:
  assumes "list_on_heap live l" "list_full z l" "list_alloc (Some m) z l = (Some p, l1)" "live m = None"
  shows "list_on_heap (live(m \<mapsto> list_request l)) l1"
  using assms live_keep [where f = nd_addr and g = "\<lambda>_. 8 + elem_size l" and live = live and m = m and n = "8 + elem_size l"]
  by (auto simp: list_on_heap_def list_full_def list_request_def list_alloc_def list_array_chunk_alloc_def list_linked_alloc_def fun_upd_same
      simp del: fun_upd_apply intro: live_keep split: option.splits list_state.splits if_splits prod.splits)

lemma list_alloc_heap:
  assumes reach: "heap_reach lay live held st" and l: "list_ok l" "list_on_heap live l" "list_request l + 4119 < 2 ^ 64"
    and run: "list_alloc_kmem z l st = ((Some p, l1), st')"
  shows "\<exists>mem live' held'. list_alloc mem z l = (Some p, l1) \<and> fresh_for l mem \<and> heap_reach lay live' held' st'
    \<and> live \<subseteq>\<^sub>m live' \<and> list_on_heap live' l1 \<and> (\<forall>ns. list_state l = Some (Linked_state ns) \<longrightarrow> live (p - 8) = None)"
proof (cases "list_full z l")
  case False
  then have r: "list_alloc None z l = (Some p, l1)" "st' = st" using run by (simp_all add: list_alloc_kmem_def)
  have "\<nexists>ns. list_state l = Some (Linked_state ns)" using False by (auto simp: list_full_def)
  then show ?thesis using r on_heap_reuse [OF l(2) False r(1)] reach by (intro exI [of _ None] exI [of _ live] exI [of _ held]) (auto simp: fresh_for_def)
next
  case True
  obtain m st1 where a: "kmem_alloc (list_request l) st = (m, st1)" by fastforce
  then have r: "list_alloc (if m = 0 then None else Some m) z l = (Some p, l1)" "st' = st1" using run True by (simp_all add: list_alloc_kmem_def)
  have m0: "m \<noteq> 0"
    using r(1) True by (auto simp: list_alloc_def list_full_def list_array_chunk_alloc_def list_linked_alloc_def split: option.splits list_state.splits if_splits)
  have reach': "heap_reach lay (live(m \<mapsto> list_request l)) (held \<union> raised (k_frames st) (k_frames st')) st'"
    using heap_alloc [OF reach l(3) a] m0 r(2) by simp
  note new = kmem_new_block [OF reach l(3) a m0]
  have "fresh_for l (Some m)" using heap_fresh [OF l(2)] new(2) by blast
  moreover have "live \<subseteq>\<^sub>m live(m \<mapsto> list_request l)" using new(1) by (auto simp: map_le_def dom_def)
  moreover have "list_alloc (Some m) z l = (Some p, l1)" using r(1) m0 by simp
  moreover note on_heap_grow [OF l(2) True this new(1)]
  moreover have "live (p - 8) = None" if "list_state l = Some (Linked_state ns)" for ns
    using r(1) m0 that new(1) by (auto simp: list_alloc_def list_linked_alloc_def node_ptr_def)
  ultimately show ?thesis using reach' by blast
qed

lemma linked_remove_node:
  assumes "list_linked_remove p ns = (0, ns')" "sorted_wrt (\<lambda>A B. A \<inter> B = {}) (map (\<lambda>n. node_block es (nd_addr n)) ns)"
  shows "p - 8 \<in> nd_addr ` set ns \<and> set ns' = {n \<in> set ns. nd_addr n \<noteq> p - 8}"
  using assms
proof (induction ns arbitrary: ns')
  case (Cons n ns)
  have ne: "nd_addr x \<noteq> nd_addr n" if "x \<in> set ns" for x
  proof
    assume "nd_addr x = nd_addr n"
    moreover have "node_block es (nd_addr n) \<inter> node_block es (nd_addr x) = {}" using Cons.prems(2) that by simp
    ultimately show False by (simp add: node_block_def)
  qed
  show ?case
  proof (cases "node_ptr (nd_addr n) = p")
    case True
    then have "p - 8 = nd_addr n" "ns' = ns" using Cons.prems(1) by (simp_all add: node_ptr_def)
    moreover have "set ns = {x \<in> set (n # ns). nd_addr x \<noteq> nd_addr n}" using ne by fastforce
    ultimately show ?thesis by simp
  next
    case False
    obtain r ns1 where e: "list_linked_remove p ns = (r, ns1)" by fastforce
    then have r: "list_linked_remove p ns = (0, ns1)" "ns' = n # ns1" using Cons.prems(1) False by simp_all
    have "sorted_wrt (\<lambda>A B. A \<inter> B = {}) (map (\<lambda>n. node_block es (nd_addr n)) ns)" using Cons.prems(2) by simp
    note ih = Cons.IH [OF r(1) this]
    obtain x where "x \<in> set ns" "p - 8 = nd_addr x" using ih by (elim conjE imageE)
    then have "nd_addr n \<noteq> p - 8" using ne by metis
    then show ?thesis using ih r(2) by (simp add: Collect_conj_eq Int_insert_left insert_def [symmetric]) blast
  qed
qed simp

lemma set_slot_blocks:
  "map (\<lambda>c. (ch_addr c, length (ch_slots c))) (set_slot i j v cs) = map (\<lambda>c. (ch_addr c, length (ch_slots c))) cs"
  by (cases "i < length cs") (simp_all add: set_slot_def map_update list_update_same_conv list_update_beyond not_less)

lemma list_remove_heap:
  assumes reach: "heap_reach lay live held st" and l: "list_ok l" "list_on_heap live l" and run: "list_remove p l = (0, l2)"
  shows "\<exists>st2 live2 held2. list_remove_kmem p l st = Inr ((0, l2), st2) \<and> heap_reach lay live2 held2 st2 \<and> list_on_heap live2 l2
    \<and> (live2 = live \<or> (\<exists>ns. list_state l = Some (Linked_state ns)) \<and> live2 = live(p - 8 := None))"
proof (cases "list_state l")
  case (Some s)
  show ?thesis
  proof (cases s)
    case (Array_state cap cs)
    obtain cs' where cs': "list_array_chunk_remove (elem_size l) p cs = (0, cs')" "l2 = l\<lparr>list_state := Some (Array_state cap cs')\<rparr>"
      using run Some Array_state by (auto simp: list_remove_def split: prod.splits)
    then have b: "map (\<lambda>c. (ch_addr c, length (ch_slots c))) cs' = map (\<lambda>c. (ch_addr c, length (ch_slots c))) cs"
      using set_slot_blocks by (auto simp: list_array_chunk_remove_def split: option.splits prod.splits if_splits)
    have "list_on_heap live l2"
      using l(2) Some Array_state cs'(2) list_all_pair [OF b, of "\<lambda>a k. live a = Some (16 + list_array_stride (elem_size l) * k)"]
      by (simp add: list_on_heap_def)
    moreover have "list_remove_kmem p l st = Inr ((0, l2), st)" using run Some Array_state by (simp add: list_remove_kmem_def)
    ultimately show ?thesis using reach by blast
  next
    case (Linked_state ns)
    obtain ns' where ns': "list_linked_remove p ns = (0, ns')" "l2 = l\<lparr>list_state := Some (Linked_state ns')\<rparr>"
      using run Some Linked_state by (auto simp: list_remove_def split: prod.splits)
    have "sorted_wrt (\<lambda>A B. A \<inter> B = {}) (map (\<lambda>n. node_block (elem_size l) (nd_addr n)) ns)"
      using l(1) Some Linked_state by (simp add: list_ok_def list_blocks_def)
    note nd = linked_remove_node [OF ns'(1) this]
    have on: "list_all (\<lambda>n. live (nd_addr n) = Some (8 + elem_size l)) ns" using l(2) Some Linked_state by (simp add: list_on_heap_def)
    then have b: "live (p - 8) = Some (8 + elem_size l)" using nd by (auto simp: list_all_iff)
    obtain K F G N where inv: "layout_ok lay" "heap_inv lay live held K F G N st" using heap_reach_inv [OF reach] by blast
    obtain st2 where f: "kmem_free (p - 8) st = Inr st2" using kmem_free_inv [OF inv b] by blast
    have "list_remove_kmem p l st = Inr ((0, l2), st2)" using run Some Linked_state f by (simp add: list_remove_kmem_def)
    moreover have "list_on_heap (live(p - 8 := None)) l2" using on nd ns'(2) by (auto simp: list_on_heap_def list_all_iff)
    ultimately show ?thesis using heap_free [OF reach b f] Some Linked_state by blast
  qed
qed (use run in \<open>simp add: list_remove_def\<close>)

subsection \<open>Properties\<close>

lemma block_inside:
  assumes inv: "heap_inv lay live held K F G N st" and p: "live p = Some n"
  shows "{p..<p + n} \<subseteq> slab_static lay \<union> arena_bytes lay \<union> space held"
proof -
  have "space G \<subseteq> space held" "space (block_frames lay live N) \<subseteq> space held"
    using heap_invD(7) [OF inv] by (auto intro!: space_mono)
  then have "zone lay live G N p \<subseteq> slab_static lay \<union> arena_bytes lay \<union> space held" by (auto simp: zone_def)
  then show ?thesis using block_foot [OF inv p] foot_zone [OF inv p] by blast
qed

text \<open>A boot with sixteen free frames and the image at one mebibyte.\<close>

definition demo_layout :: heap_layout where
  "demo_layout = \<lparr>g_slab_buf_32 = va 256, g_slab_buf_64 = va 257, g_slab_buf_128 = va 259, early_arena = va 262\<rparr>"

definition demo_heap :: kheap where
  "demo_heap = slab_init (kheap_boot demo_layout (\<lambda>_. 0) demo_pfa)"

lemma demo_layout_ok: "layout_ok demo_layout"
  by (auto simp: layout_ok_def demo_layout_def va_def KERNEL_HIGHER_HALF_BASE_def slab_static_def arena_bytes_def KMEM_EARLY_ARENA_BYTES_def)

lemma demo_image: "image_frames demo_layout \<inter> free_frames demo_pfa = {}"
proof -
  have "256 \<le> f" if "f \<in> image_frames demo_layout" for f
    using that by (auto simp: image_frames_def frame_bytes_def demo_layout_def va_def slab_static_def arena_bytes_def)
  moreover have "f < 32" if "f \<in> free_frames demo_pfa" for f
    using that by (auto simp: free_frames_def demo_pfa_def extent_def frame_of_def)
  ultimately show ?thesis by fastforce
qed

lemma demo_heap_reach: "heap_reach demo_layout Map.empty {} demo_heap"
  unfolding demo_heap_def by (rule heap_start [OF demo_layout_ok demo_pfa_inv demo_image])

lemma push_all_classes:
  "c < length (g_classes st) \<Longrightarrow>
     g_classes (slab_push_all c start (Suc n) st) = (g_classes st)[c := (g_classes st ! c)\<lparr>free_list := start + chunk_size (g_classes st ! c) * n\<rparr>]"
  by (induction n) (simp_all add: slab_push_all_def slab_push_def)

lemma push_all_heads:
  assumes "c < length (g_classes st)" "0 < n"
  shows "g_classes (slab_push_all c start n st) = (g_classes st)[c := (g_classes st ! c)\<lparr>free_list := start + chunk_size (g_classes st ! c) * (n - 1)\<rparr>]"
  using push_all_classes [OF assms(1), of start "n - 1"] assms(2) by simp

lemma demo_classes:
  "g_classes demo_heap =
     [\<lparr>chunk_size = 32, chunk_count = 128, slab_buffer = va 256, free_list = va 256 + 32 * 127\<rparr>,
      \<lparr>chunk_size = 64, chunk_count = 128, slab_buffer = va 257, free_list = va 257 + 64 * 127\<rparr>,
      \<lparr>chunk_size = 128, chunk_count = 96, slab_buffer = va 259, free_list = va 259 + 128 * 95\<rparr>]"
  by (simp add: demo_heap_def slab_init_def SLAB_CLASS_COUNT_def upt_rec kheap_boot_def static_classes_def demo_layout_def push_all_heads)

lemma demo_small:
  assumes "g_classes st = g_classes demo_heap"
  shows "fst (kmem_alloc 100 st) = va 259 + 12164" "fst (kmem_alloc 32 st) = va 257 + 8132"
  by (simp_all add: kmem_alloc_def kalloc_small_def find_class_def assms demo_classes SLAB_CLASS_COUNT_def SLAB_HEADER_SIZE_def add64_def
      upt_rec va_def KERNEL_HIGHER_HALF_BASE_def)

lemma demo_pages: "pfa_alloc_pages_below 2 KERNEL_HIGHER_HALF_WINDOW_BYTES demo_pfa = (65536, snd (pfa_alloc_pages_below 2 KERNEL_HIGHER_HALF_WINDOW_BYTES demo_pfa))"
  by (simp add: pfa_eval KERNEL_HIGHER_HALF_WINDOW_BYTES_def)

lemma demo_large:
  "fst (kmem_alloc 5000 demo_heap) = higher_half 65536 + 24" "g_classes (snd (kmem_alloc 5000 demo_heap)) = g_classes demo_heap"
proof -
  have "k_frames demo_heap = demo_pfa" unfolding demo_heap_def by (rule init_frames(1) [OF demo_layout_ok])
  moreover have "kalloc_small 5000 demo_heap = (0, demo_heap)"
    by (simp add: kalloc_small_def find_class_def demo_classes SLAB_CLASS_COUNT_def SLAB_HEADER_SIZE_def add64_def upt_rec)
  ultimately show "fst (kmem_alloc 5000 demo_heap) = higher_half 65536 + 24" "g_classes (snd (kmem_alloc 5000 demo_heap)) = g_classes demo_heap"
    using demo_pages by (auto simp: kmem_alloc_def Let_def PAGE_HEADER_SIZE_def KMEM_PAGE_BYTES_def add64_def split: prod.splits)
qed

text \<open>
  (C29) Whatever the history of \<open>kmem_alloc\<close>, \<open>kmem_free\<close> and writes of the users into their blocks, with
  other parts of the kernel using the frame allocator in between: live blocks lie in memory the heap
  owns and never overlap, \<open>kmem_free\<close> of a live block never panics, and a block that \<open>kmem_alloc\<close>
  hands out was not live and overlaps no live block.
\<close>

theorem kmem_blocks_isolated:
  assumes "heap_reach lay live held st"
  shows "(\<forall>p n. live p = Some n \<longrightarrow> p \<noteq> 0 \<and> 0 < n \<and> {p..<p + n} \<subseteq> slab_static lay \<union> arena_bytes lay \<union> space held
        \<and> (\<exists>st'. kmem_free p st = Inr st'))
    \<and> (\<forall>p q n k. live p = Some n \<longrightarrow> live q = Some k \<longrightarrow> p \<noteq> q \<longrightarrow> {p..<p + n} \<inter> {q..<q + k} = {})
    \<and> (\<forall>n p st'. n + 4119 < 2 ^ 64 \<longrightarrow> kmem_alloc n st = (p, st') \<longrightarrow> p \<noteq> 0 \<longrightarrow>
        live p = None \<and> (\<forall>q k. live q = Some k \<longrightarrow> {p..<p + n} \<inter> {q..<q + k} = {}))"
proof -
  obtain K F G N where inv: "layout_ok lay" "heap_inv lay live held K F G N st" using heap_reach_inv [OF assms] by blast
  have "p \<noteq> 0 \<and> 0 < n" if "live p = Some n" for p n using live_block [OF inv(2) that] by (simp add: block_ok_def)
  moreover have "\<exists>st'. kmem_free p st = Inr st'" if "live p = Some n" for p n using kmem_free_inv [OF inv that] by blast
  moreover note block_inside [OF inv(2)] live_apart [OF inv] kmem_new_block [OF assms]
  ultimately show ?thesis by blast
qed

theorem kmem_blocks_isolated_witness:
  "\<exists>p q st1 st2. kmem_alloc 5000 demo_heap = (p, st1) \<and> kmem_alloc 100 st1 = (q, st2) \<and> p = higher_half 65536 + 24
     \<and> q = va 259 + 12164 \<and> {p..<p + 5000} \<inter> {q..<q + 100} = {} \<and> (\<exists>st3. kmem_free p st2 = Inr st3)"
proof -
  obtain p st1 where a: "kmem_alloc 5000 demo_heap = (p, st1)" by fastforce
  have p: "p = higher_half 65536 + 24" "g_classes st1 = g_classes demo_heap" using demo_large a by simp_all
  obtain q st2 where b: "kmem_alloc 100 st1 = (q, st2)" by fastforce
  have q: "q = va 259 + 12164" using demo_small(1) [OF p(2)] b by simp
  have r1: "heap_reach demo_layout [p \<mapsto> 5000] ({} \<union> raised (k_frames demo_heap) (k_frames st1)) st1"
    using heap_alloc [OF demo_heap_reach _ a] p(1) by simp
  have "q \<noteq> 0" using q by simp
  then have r2: "heap_reach demo_layout ([p \<mapsto> 5000, q \<mapsto> 100]) ({} \<union> raised (k_frames demo_heap) (k_frames st1) \<union> raised (k_frames st1) (k_frames st2)) st2"
    using heap_alloc [OF r1 _ b] by simp
  have "[p \<mapsto> 5000 :: nat] q = None" by (rule kmem_new_block(1) [OF r1 _ b \<open>q \<noteq> 0\<close>]) simp
  then have ne: "p \<noteq> q" by auto
  then have l: "[p \<mapsto> 5000 :: nat, q \<mapsto> 100] p = Some 5000" "[p \<mapsto> 5000 :: nat, q \<mapsto> 100] q = Some 100" by simp_all
  note K = kmem_blocks_isolated [OF r2]
  have "{p..<p + 5000} \<inter> {q..<q + 100} = {}" by (rule K [THEN conjunct2, THEN conjunct1, rule_format, OF l ne])
  moreover have "\<exists>st3. kmem_free p st2 = Inr st3" using K l(1) by blast
  ultimately show ?thesis using a b p(1) q by blast
qed

text \<open>
  (C4) Allocation followed by \<open>kmem_free\<close>.  A block served from a slab free list lies at 4 modulo 8, and giving
  it back restores the whole state, free lists and memory included; a second \<open>kmem_free\<close> right after has
  no effect.  A block of whole pages lies at 0 modulo 8; giving it back leaves the slab alone and, unless
  the range table is full, returns every frame it took with all reference counts as before.
\<close>

theorem kmem_free_undoes_alloc:
  assumes reach: "heap_reach lay live held st" and n: "0 < n" "n + 4119 < 2 ^ 64" and run: "kmem_alloc n st = (p, st')" "p \<noteq> 0"
  shows "case find_class (n + 4) st of
      Some c \<Rightarrow> free_list (g_classes st ! c) \<noteq> 0 \<longrightarrow> p mod 8 = 4 \<and> kmem_free p st' = Inr st \<and> kmem_free p st = Inr st
    | None \<Rightarrow> p \<notin> arena_bytes lay \<and> length (g_ranges (k_frames st')) < RANGE_LIMIT \<longrightarrow> p mod 8 = 0
        \<and> (\<exists>st2. kmem_free p st' = Inr st2 \<and> g_classes st2 = g_classes st
             \<and> free_frames (k_frames st2) = free_frames (k_frames st) \<and> g_refcount (k_frames st2) = g_refcount (k_frames st))"
proof -
  obtain K F G N where inv: "layout_ok lay" "heap_inv lay live held K F G N st" using heap_reach_inv [OF reach] by blast
  have t: "add64 n SLAB_HEADER_SIZE = n + 4" using n by (simp add: SLAB_HEADER_SIZE_def add64_exact)
  show ?thesis
  proof (cases "find_class (n + 4) st")
    case (Some c)
    have c: "c < 3" by (rule find_class_some(1) [OF heap_invD(3) [OF inv(2)] Some])
    show ?thesis
    proof (cases "free_list (g_classes st ! c) = 0")
      case False
      let ?a = "free_list (g_classes st ! c)"
      let ?st = "st\<lparr>g_classes := (g_classes st)[c := (g_classes st ! c)\<lparr>free_list := k_mem st ?a\<rparr>], k_mem := write_slab_header ?a SLAB_MAGIC c (k_mem st)\<rparr>"
      have "kalloc_small n st = (?a + 4, ?st)" unfolding kalloc_small_def t using Some False by (simp add: SLAB_HEADER_SIZE_def)
      then have r: "p = ?a + 4" "st' = ?st" using run(1) n(1) by (simp_all add: kmem_alloc_def)
      show ?thesis using Some pop_free [OF inv c refl False r(2)] r(1) by simp
    qed (simp add: Some)
  next
    case None
    then have "kalloc_small n st = (0, st)" unfolding kalloc_small_def t by simp
    then show ?thesis using None large_free [OF inv n _ run] by simp
  qed
qed

theorem kmem_free_undoes_alloc_witness:
  "\<exists>p st1. kmem_alloc 100 demo_heap = (p, st1) \<and> p mod 8 = 4 \<and> kmem_free p st1 = Inr demo_heap"
proof -
  obtain p st1 where a: "kmem_alloc 100 demo_heap = (p, st1)" by fastforce
  have p: "p \<noteq> 0" using demo_small(1) [OF refl] a by simp
  have "find_class (100 + 4) demo_heap = Some 2" by (simp add: find_class_def demo_classes SLAB_CLASS_COUNT_def upt_rec)
  moreover have "free_list (g_classes demo_heap ! 2) \<noteq> 0" by (simp add: demo_classes)
  ultimately show ?thesis using kmem_free_undoes_alloc [OF demo_heap_reach _ _ a p] a by auto
qed

text \<open>
  (C8) A list whose elements live in the kernel heap.  \<open>list_alloc\<close> on either backend, with the block
  \<open>kmem_alloc\<close> gives it, returns a pointer no element has and adds exactly one zeroed element there; every block that was
  live stays so and the blocks of the list are again live blocks of the sizes it asked for.
  Whatever the list and the other users then write into their live blocks, \<open>list_remove\<close> of that
  pointer never panics, restores the list, keeps the blocks of all others, and is refused a second time.
\<close>

theorem list_alloc_remove_on_heap:
  assumes reach: "heap_reach lay live held st" and l: "list_ok l" "list_on_heap live l" "list_request l + 4119 < 2 ^ 64"
    and run: "list_alloc_kmem z l st = ((Some p, l1), st')"
  shows "p \<notin> fst ` set (list_view l) \<and> inserted (p, z) (list_view l) (list_view l1) \<and> list_ok l1
    \<and> (\<exists>live' held'. heap_reach lay live' held' st' \<and> live \<subseteq>\<^sub>m live' \<and> list_on_heap live' l1
        \<and> (\<forall>m. client_write live' (k_mem st') m \<longrightarrow>
            (\<exists>l2 st2 live2 held2. list_remove_kmem p l1 (st'\<lparr>k_mem := m\<rparr>) = Inr ((0, l2), st2) \<and> list_view l2 = list_view l
               \<and> list_ok l2 \<and> heap_reach lay live2 held2 st2 \<and> live \<subseteq>\<^sub>m live2 \<and> list_on_heap live2 l2
               \<and> list_remove p l2 = (- 1, l2))))"
proof -
  obtain mem live1 held1 where a: "list_alloc mem z l = (Some p, l1)" "fresh_for l mem" "heap_reach lay live1 held1 st'"
      "live \<subseteq>\<^sub>m live1" "list_on_heap live1 l1" "\<And>ns. list_state l = Some (Linked_state ns) \<Longrightarrow> live (p - 8) = None"
    using list_alloc_heap [OF reach l run] by blast
  have ok1: "list_ok l1" by (rule list_store.alloc_ok [OF l(1) a(2,1)])
  note rt = list_alloc_remove_roundtrip [OF l(1) a(2,1)]
  then obtain l2 where l2: "list_remove p l1 = (0, l2)" "list_view l2 = list_view l" "list_ok l2" "list_remove p l2 = (- 1, l2)" by blast
  have "\<exists>st2 live2 held2. list_remove_kmem p l1 (st'\<lparr>k_mem := m\<rparr>) = Inr ((0, l2), st2) \<and> heap_reach lay live2 held2 st2
      \<and> live \<subseteq>\<^sub>m live2 \<and> list_on_heap live2 l2" if w: "client_write live1 (k_mem st') m" for m
  proof -
    obtain st2 live2 held2 where r: "list_remove_kmem p l1 (st'\<lparr>k_mem := m\<rparr>) = Inr ((0, l2), st2)" "heap_reach lay live2 held2 st2"
        "list_on_heap live2 l2" "live2 = live1 \<or> (\<exists>ns. list_state l1 = Some (Linked_state ns)) \<and> live2 = live1(p - 8 := None)"
      using list_remove_heap [OF heap_client [OF a(3) w] ok1 a(5) l2(1)] by blast
    have "live \<subseteq>\<^sub>m live2"
    proof (cases "live2 = live1")
      case False
      then have e: "live2 = live1(p - 8 := None)" and "\<exists>ns. list_state l = Some (Linked_state ns)"
        using r(4) a(1) by (auto simp: list_alloc_def split: option.splits list_state.splits prod.splits)
      then have "live (p - 8) = None" using a(6) by blast
      then show ?thesis using a(4) unfolding e map_le_def by (metis domIff fun_upd_other)
    qed (use a(4) in simp)
    then show ?thesis using r(1-3) by blast
  qed
  then show ?thesis using rt ok1 a(3-5) l2 by blast
qed

theorem list_alloc_remove_on_heap_witness:
  "\<exists>l l1 p st1 l2 st2. list_init (Some 4096) 24 LIST_IMPL_LINKED 0 list_zeroed = (0, l :: nat list_t)
     \<and> list_alloc_kmem 0 l demo_heap = ((Some p, l1), st1) \<and> list_view l1 = [(p, 0)] \<and> list_remove_kmem p l1 st1 = Inr ((0, l2), st2)
     \<and> list_view l2 = []"
proof -
  obtain l :: "nat list_t" where l: "list_init (Some 4096) 24 LIST_IMPL_LINKED 0 list_zeroed = (0, l)"
    and st: "list_state l = Some (Linked_state [])" "elem_size l = 24"
    by (simp add: list_init_def list_linked_impl_init_def)
  have ok: "list_ok l" "list_view l = []" using list_init_view [OF l] by auto
  obtain m st1 where a: "kmem_alloc 32 demo_heap = (m, st1)" by fastforce
  have m: "m \<noteq> 0" using demo_small(2) [OF refl] a by simp
  have rq: "list_request l = 32" "list_full 0 l" "list_on_heap Map.empty l" by (simp_all add: list_request_def list_full_def list_on_heap_def st)
  obtain l1 p where b: "list_alloc_kmem 0 l demo_heap = ((Some p, l1), st1)"
    using a m rq by (simp add: list_alloc_kmem_def list_alloc_def list_linked_alloc_def st)
  have "list_request l + 4119 < 2 ^ 64" using rq(1) by simp
  note T = list_alloc_remove_on_heap [OF demo_heap_reach ok(1) rq(3) this b]
  have "list_view l1 = [(p, 0)]" using T ok(2) by (auto simp: inserted_def)
  moreover have "\<exists>l2 st2. list_remove_kmem p l1 st1 = Inr ((0, l2), st2) \<and> list_view l2 = []"
  proof -
    have "\<exists>live'. \<forall>m. client_write live' (k_mem st1) m \<longrightarrow>
        (\<exists>l2 st2. list_remove_kmem p l1 (st1\<lparr>k_mem := m\<rparr>) = Inr ((0, l2), st2) \<and> list_view l2 = [])"
      using T ok(2) by metis
    moreover have "client_write live' (k_mem st1) (k_mem st1)" for live' by (simp add: client_write_def)
    ultimately have "\<exists>l2 st2. list_remove_kmem p l1 (st1\<lparr>k_mem := k_mem st1\<rparr>) = Inr ((0, l2), st2) \<and> list_view l2 = []" by blast
    then show ?thesis by simp
  qed
  ultimately show ?thesis using l b by metis
qed

end
