(* ===== verification/Spec2Isabelle.thy ===== *)
theory Spec2Isabelle
  imports Prelude Physmem Lists Idtable Sched_event Sync Objects Poll Ipc_queue Ipc Ipc_channel Ipc_hangup Ipc_select
    Ipc_wakeup Hashmap Records Capability Policy Slots Xfer_buffer Xfer_revoke Xfer_inv Xfer_ops Xfer_safety Xfer_props
    Kheap Kheap_inv Kheap_ops Kheap_props
begin

text \<open>
  \<^bold>\<open>A verification of the core of the WASMOS kernel.\<close>

  WASMOS is a microkernel for x86-64 whose drivers and services run as WebAssembly programs.  The
  kernel gives them memory, threads, messages, bulk buffers and permissions; everything else lives
  outside of it.  This library models the parts of the kernel (directory \<open>src/kernel\<close>) that every
  program depends on and proves them correct.  A path below is relative to that directory.

  \<^bold>\<open>Parts of the program and their theories.\<close>

  \<^item> \<open>Prelude\<close>: C's unsigned arithmetic.  \<open>add64\<close>, \<open>mul64\<close>, \<open>sub64\<close>, \<open>add32\<close> and \<open>sub32\<close> wrap; the
    collection \<open>wrap_simps\<close> holds the facts that say when they do not.
  \<^item> \<open>Physmem\<close> (\<open>physmem.c\<close>): the physical frame allocator, its free extents, its reference counts and
    their growth at start-up.  A kernel panic is a value.  C1 to C3, C5 and C6: over every history of
    allocations, pins and frees by holders the live allocations are disjoint and reference counts equal
    the holders, freeing undoes allocation and panics exactly on misuse (the table of free extents holds
    128 entries, and what it has no entry for is dropped), reserved memory is never handed out, and the
    RAM test fails closed for the 4096 descriptors \<open>pfa_init\<close> reads; \<open>pfa_init_cap_misses_ram\<close> shows what
    it does beyond them, and \<open>pfa_pin_free_roundtrip\<close> is the round trip for pins.  The locale \<open>frame_source\<close> is what a client of allocation
    relies on.
  \<^item> \<open>Lists\<close> (\<open>list.c\<close>, \<open>list_array_chunk.c\<close>, \<open>list_linked.c\<close>): the two list implementations behind
    one interface, with the addresses of elements; C7 is the walk, \<open>list_alloc_remove_roundtrip\<close> the round trip for
    any source of memory.
    \<open>Records\<close> and \<open>Slots\<close> are the two ways the kernel uses a list as a table, by key and by active
    flag, each as lemmas about a partial map.
  \<^item> \<open>Kheap\<close> (\<open>slab.c\<close>, \<open>kmem.c\<close>): the kernel heap, with its free lists and block headers in memory, on top
    of \<open>Physmem\<close>.  \<open>Kheap_inv\<close> is about the slab and its chunks, \<open>Kheap_ops\<close> holds the invariant of the
    whole heap and that every call keeps it, and \<open>Kheap_props\<close> the histories of calls: freeing undoes
    allocating (C4), live blocks never overlap and a free never panics (C29), and a list of \<open>Lists\<close> whose
    memory comes from this heap behaves as promised (C8).
  \<^item> \<open>Idtable\<close> (\<open>idtable.c\<close>): objects by id with an owner and a quota; C9 and C10 cover the allocation
    of ids across wrap-around and the release of an owner.  \<open>Objects\<close> gives its clients the view of a
    partial map.
  \<^item> \<open>Sched_event\<close> (\<open>sched_event.c\<close> and the parts of \<open>thread.c\<close>, \<open>sched_thread.c\<close>, \<open>process.c\<close> that block
    and wake a thread): wait lists, timed waits, the wake and block handshake, and the three ways to block
    without an event: spawned parked, in \<open>process_wait\<close>, in \<open>process_thread_join\<close>.  C11 to C14 say that
    no thread is lost, that wakes are first-come first-served, that every interleaving of the atomic
    accesses of a waker and a completing block takes the wake token once and enqueues the thread at least
    once, and that deadlines fire.  C15 and C16 exhibit two interleavings in which a deadline is lost.
    \<open>guards_met\<close> shows that the conditions of the steps in C11 exclude nothing reachable.
    \<open>cpu_sched_enqueue\<close> records the call; its own tests (READY, not current, not yet queued) and the
    queues are outside.
  \<^item> \<open>Sync\<close> (\<open>sync_mutex.c\<close>, \<open>sync_semaphore.c\<close>, \<open>futex.c\<close>): C17 to C19, mutual exclusion, permit
    conservation, progress, and the number of threads a futex wake releases.
  \<^item> \<open>Poll\<close> (\<open>poll.c\<close>), \<open>Ipc_queue\<close>, \<open>Ipc\<close> (\<open>ipc.c\<close>): endpoints with a bounded ring, contacts, hangups,
    notifications and select sets, over \<open>Idtable\<close> and \<open>Sched_event\<close>.  \<open>Ipc_channel\<close> proves that
    sending and receiving refine bounded channels and deliver in order what authentic senders sent
    (C20, C21); \<open>Ipc_hangup\<close> that a death is reported to everyone who was told to expect it (C22,
    C23); \<open>Ipc_select\<close> that no history leaves a dangling reference (C24); \<open>Ipc_wakeup\<close> that a wait on a
    set loses no arrival and starves no endpoint (C25, C26).
  \<^item> \<open>Hashmap\<close> (\<open>hashmap.c\<close>): separate chaining on 32-bit words; it implements a map and its
    constructor returns exactly for the sizes it can round up (C27, C28); \<open>hashmap_walk_complete\<close> says
    that its walk is complete.
  \<^item> \<open>Capability\<close> (\<open>capability.c\<close>) and \<open>Policy\<close> (\<open>policy.c\<close>): who may touch which port, interrupt and
    DMA window.  C30 to C33: a context holds exactly what it was granted, records stay well typed,
    checks contain the whole access, a refused profile never widens.  C34 and C35: the policy is
    default-deny and a first profile only narrows.  The enforcing form works on the process table and the
    current process and thread of the CPU (\<open>machine\<close>).
  \<^item> \<open>Xfer_buffer\<close> (\<open>xfer_buffer/xfer_buffer.c\<close>): buffers with one owner, borrows, reborrows and DMA
    windows, on top of \<open>Physmem\<close>.  \<open>Xfer_revoke\<close> is about the recursive revocation, \<open>Xfer_inv\<close> holds the
    invariant, \<open>Xfer_ops\<close> that each call keeps it, \<open>Xfer_safety\<close> the histories of calls and
    \<open>Xfer_props\<close> the promises: isolation of the backing frames and freedom from panics, delegation that
    only narrows, exact revocation, access by delegation, devices that stay inside a buffer (C36 to
    C40).  The region of the framebuffer is what the firmware reports; C40 assumes for it, and only for
    it, that the region ends below \<open>2 ^ 64\<close>.

  \<^bold>\<open>How the model follows the code.\<close>  A C structure is a record with the fields of the source that the
  modelled functions use; the globals of a file are the fields of its state record; each C function is
  a definition of the same name that returns the result and the new state.  A critical section is one
  step, as its lock makes it.  A function that sleeps is split there, and the theorems about waiting
  quantify over what may happen in between; the handshake (C13), the arming of a deadline (C15, C16) and
  the scan of a select set (C25) are split further, as their theorems need it.  Elsewhere a call is one
  step of a history even where the code takes a lock more than once: a send with the noting of the
  contact after it (\<open>note_contact_check\<close> and \<open>note_contact_record\<close> are two definitions but composed at
  once), the sweep and the hangup deliveries of \<open>ipc_endpoints_release_owner\<close>, and the wakes of
  \<open>Sched_event\<close> in C11.  Pointers to
  elements are addresses, and a write through such a pointer is \<open>list_write\<close> or its like.  Result
  codes keep their values, or are constructors of a datatype of error codes.  NULL arguments, which the
  functions reject first, are not represented where the C type has no other use for NULL.

  What \<open>kmem_alloc\<close> returns is an argument of every container operation that allocates: an address or
  nothing.  The theorems assume of it only that a block does not overlap the live blocks of the same
  list (\<open>fresh_for\<close>); they hold for both outcomes.  C8 discharges that assumption: it composes the list
  with the model of the heap, for any writes of the list and of other users into live blocks; the state
  block of a list itself, allocated by \<open>list_init\<close> and freed by \<open>list_destroy\<close>, is not placed in the heap.
  In that model memory is the 64-bit word at each address the heap uses,
  all of them multiples of eight; a request is assumed at least 4119 bytes below \<open>2 ^ 64\<close>, as the sums in
  the code wrap above, and the linker is assumed to place the static buffers apart and on boundaries
  of eight bytes (\<open>layout_ok\<close>).

  \<^bold>\<open>Loops and bounds.\<close>  Walks over lists are recursion on the list.  Three loops have no obvious bound
  and are partial functions into an option, where \<open>None\<close> is not returning: the search for a free id,
  proved to return while an id is free; the rounding of a hash table's size, proved to return exactly
  up to \<open>2 ^ 31\<close>; and the recursive revocation of borrows, proved to return because parents are older
  than their children.  No definition uses fuel.  Physical addresses are assumed below \<open>2 ^ 52\<close>, as on
  the processor, and the id counters of the transfer buffers are assumed not to have run out.

  \<^bold>\<open>Not modelled.\<close>  Paging, the processor's tables, interrupt controllers and timers are raw memory and
  device registers; the scheduler's run queues appear only as the sequence of enqueued threads, and the
  exit of threads and processes not at all; the
  process manager, the system and host call layers and the loader marshal arguments between guest
  memory, the WebAssembly runtimes and the modelled operations; the console, the logs and the
  self-tests only report.  The boot loader, the drivers, file systems and services are programs on the
  other side of the kernel interface, and the libraries under \<open>libs\<close> are third-party code none of which
  the modelled files call.
\<close>

end
